(* ===== verification/Prelude.thy ===== *)
theory Prelude
  imports Main "HOL-Library.Word"
begin

text \<open>
  Shared vocabulary of the hivex development: the C error numbers, the result type every
  modelled function returns, the state-and-result combinators the writing operations are
  composed with, C strings as byte lists, and the collections of rewrite rules that the
  component theories fill.

  \<^item> \<open>Ok x\<close> is a normal return, \<open>Err e\<close> a failing return with \<open>errno = e\<close>.
  \<^item> \<open>Fault f\<close> is a run the C standard gives no meaning to (an access outside the object
    that holds the hive, a signed overflow), a failed \<open>assert\<close>, a recursion so deep that the
    stack overflows, a recursion of the model cut off by its fuel, or a call of
    \<open>exit (EXIT_FAILURE)\<close>. Theorems say where faults cannot happen, and
    that the fuel is enough.
\<close>

unbundle bit_operations_syntax

named_theorems hive_simps \<open>unfolding rules of the hive accessors\<close>
named_theorems mem_frame \<open>reads that a write elsewhere leaves alone\<close>

section \<open>Types\<close>

type_synonym byte = "8 word"
type_synonym u16 = "16 word"
type_synonym u32 = "32 word"
type_synonym u64 = "64 word"

type_synonym hive_node_h = nat
type_synonym hive_value_h = nat

datatype errno =
    EINVAL | EFAULT | ENOTSUP | ERANGE | EROFS | EEXIST | ELOOP | ENOKEY | EILSEQ | ENOENT | E2BIG

datatype fault =
    OutOfBounds nat
  | AssertFailed
  | SignedOverflow
  | StackOverflow
  | OutOfFuel
  | ExitFailure

datatype 'a result = Ok 'a | Err errno | Fault fault

section \<open>Sequencing\<close>

definition rbind :: "'a result \<Rightarrow> ('a \<Rightarrow> 'b result) \<Rightarrow> 'b result" where
  "rbind m f = (case m of Ok x \<Rightarrow> f x | Err e \<Rightarrow> Err e | Fault x \<Rightarrow> Fault x)"

definition guard :: "bool \<Rightarrow> errno \<Rightarrow> unit result" where
  "guard b e = (if b then Ok () else Err e)"

type_synonym ('s, 'a) op = "'s \<Rightarrow> 'a result \<times> 's"

definition sret :: "'a \<Rightarrow> ('s, 'a) op" where
  "sret x s = (Ok x, s)"

definition sfail :: "errno \<Rightarrow> ('s, 'a) op" where
  "sfail e s = (Err e, s)"

definition sfault :: "fault \<Rightarrow> ('s, 'a) op" where
  "sfault x s = (Fault x, s)"

definition sget :: "('s \<Rightarrow> 'a result) \<Rightarrow> ('s, 'a) op" where
  "sget f s = (f s, s)"

definition supd :: "('s \<Rightarrow> 's) \<Rightarrow> ('s, unit) op" where
  "supd f s = (Ok (), f s)"

definition sassert :: "('s \<Rightarrow> bool) \<Rightarrow> ('s, unit) op" where
  "sassert P s = (if P s then Ok () else Fault AssertFailed, s)"

definition sbind :: "('s, 'a) op \<Rightarrow> ('a \<Rightarrow> ('s, 'b) op) \<Rightarrow> ('s, 'b) op" where
  "sbind m f s =
     (case m s of
        (Ok x, s') \<Rightarrow> f x s'
      | (Err e, s') \<Rightarrow> (Err e, s')
      | (Fault x, s') \<Rightarrow> (Fault x, s'))"

primrec sfor :: "('i \<Rightarrow> ('s, unit) op) \<Rightarrow> 'i list \<Rightarrow> ('s, unit) op" where
  "sfor f [] = sret ()"
| "sfor f (i # is) = sbind (f i) (\<lambda>_. sfor f is)"

text \<open>A loop over a zero-terminated array: \<^verbatim>\<open>for (i = 0; xs[i] != 0; ++i)\<close>.\<close>

primrec sfor_z :: "(nat \<Rightarrow> ('s, unit) op) \<Rightarrow> nat list \<Rightarrow> ('s, unit) op" where
  "sfor_z f [] = sfault (OutOfBounds 0)"
| "sfor_z f (x # xs) = (if x = 0 then sret () else sbind (f x) (\<lambda>_. sfor_z f xs))"

definition no_fault :: "'a result \<Rightarrow> bool" where
  "no_fault r \<longleftrightarrow> (case r of Fault _ \<Rightarrow> False | _ \<Rightarrow> True)"

section \<open>C strings\<close>

definition cstr :: "byte list \<Rightarrow> byte list" where
  "cstr = takeWhile (\<lambda>c. c \<noteq> 0)"

definition strlen :: "byte list \<Rightarrow> nat" where
  "strlen s = length (cstr s)"

definition lower :: "byte \<Rightarrow> byte" where
  "lower c = (if 65 \<le> c \<and> c \<le> 90 then c + 32 else c)"

definition c_toupper :: "byte \<Rightarrow> byte" where
  "c_toupper c = (if 97 \<le> c \<and> c \<le> 122 then c - 32 else c)"

fun casecmp :: "byte list \<Rightarrow> byte list \<Rightarrow> int" where
  "casecmp [] [] = 0"
| "casecmp [] (y # ys) = - uint (lower y)"
| "casecmp (x # xs) [] = uint (lower x)"
| "casecmp (x # xs) (y # ys) =
     (if lower x = lower y then casecmp xs ys else uint (lower x) - uint (lower y))"

definition strcasecmp :: "byte list \<Rightarrow> byte list \<Rightarrow> int" where
  "strcasecmp a b = casecmp (cstr a) (cstr b)"

definition STRCASEEQ :: "byte list \<Rightarrow> byte list \<Rightarrow> bool" where
  "STRCASEEQ a b \<longleftrightarrow> strcasecmp a b = 0"

definition ascii :: "string \<Rightarrow> byte list" where
  "ascii s = map of_char s"

section \<open>Lemmas on results and sequencing\<close>

lemma rbind_simps [simp]:
  "rbind (Ok x) f = f x" "rbind (Err e) f = Err e" "rbind (Fault y) f = Fault y"
  by (simp_all add: rbind_def)

lemma rbind_Ok [simp]: "rbind m f = Ok y \<longleftrightarrow> (\<exists>x. m = Ok x \<and> f x = Ok y)"
  by (cases m) auto

lemma rbind_Err: "rbind m f = Err e \<longleftrightarrow> m = Err e \<or> (\<exists>x. m = Ok x \<and> f x = Err e)"
  by (cases m) auto

lemma rbind_Fault: "rbind m f = Fault z \<longleftrightarrow> m = Fault z \<or> (\<exists>x. m = Ok x \<and> f x = Fault z)"
  by (cases m) auto

lemma rbind_cong [fundef_cong]:
  "m = m' \<Longrightarrow> (\<And>x. m' = Ok x \<Longrightarrow> f x = f' x) \<Longrightarrow> rbind m f = rbind m' f'"
  by (cases m') auto

lemma guard_simps [simp]:
  "guard True e = Ok ()" "guard False e = Err e" "guard b e = Ok u \<longleftrightarrow> b"
  by (simp_all add: guard_def)

lemma sbind_Ok: "m s = (Ok x, s') \<Longrightarrow> sbind m f s = f x s'"
  by (simp add: sbind_def)

lemma sbind_Ok_iff:
  "sbind m f s = (Ok y, t) \<longleftrightarrow> (\<exists>x s'. m s = (Ok x, s') \<and> f x s' = (Ok y, t))"
  by (auto simp: sbind_def split: prod.splits result.splits)

lemma sbind_cong [fundef_cong]:
  assumes "m s = m' s'" and "\<And>x t. m' s' = (Ok x, t) \<Longrightarrow> f x t = f' x t" and "s = s'"
  shows "sbind m f s = sbind m' f' s'"
  using assms by (auto simp: sbind_def split: prod.splits result.splits)

lemma sop_simps [simp]:
  "sret x s = (Ok x, s)" "sfail e s = (Err e, s)" "sfault y s = (Fault y, s)" "sget g s = (g s, s)"
  "supd g' s = (Ok (), g' s)"
  "sbind (sret x) f s = f x s" "sbind (sfail e) f s = (Err e, s)" "sbind (sfault y) f s = (Fault y, s)"
  "sbind (supd g') f' s = f' () (g' s)"
  by (simp_all add: sret_def sfail_def sfault_def sget_def sbind_def supd_def)

lemma sassert_simps [simp]:
  "P s \<Longrightarrow> sassert P s = (Ok (), s)" "sassert P s = (Ok u, t) \<longleftrightarrow> P s \<and> t = s"
  by (auto simp: sassert_def)

lemma sbind_sget:
  "sbind (sget g) f s = (case g s of Ok x \<Rightarrow> f x s | Err e \<Rightarrow> (Err e, s) | Fault y \<Rightarrow> (Fault y, s))"
  by (simp add: sbind_def sget_def)

lemma no_fault_simps [simp]: "no_fault (Ok x)" "no_fault (Err e)" "\<not> no_fault (Fault y)"
  by (simp_all add: no_fault_def)

lemma no_fault_iff: "no_fault r \<longleftrightarrow> (\<forall>y. r \<noteq> Fault y)"
  by (cases r) auto

lemma no_fault_rbind:
  "no_fault m \<Longrightarrow> (\<And>x. m = Ok x \<Longrightarrow> no_fault (f x)) \<Longrightarrow> no_fault (rbind m f)"
  by (cases m) auto

lemma sfor_z_terminated: "0 \<notin> set xs \<Longrightarrow> sfor_z f (xs @ 0 # ys) s = sfor f xs s"
  by (induction xs arbitrary: s) (auto intro: sbind_cong)

section \<open>Lemmas on C strings\<close>

lemma lower_eq_0 [simp]: "lower c = 0 \<longleftrightarrow> c = 0"
proof (cases "65 \<le> c \<and> c \<le> 90")
  case True
  then have "unat c \<le> 90" "65 \<le> unat c" by (simp_all add: word_le_nat_alt)
  then have "unat (c + 32) = unat c + 32"
    by (simp add: unat_word_ariths)
  with \<open>65 \<le> unat c\<close> have "c + 32 \<noteq> 0" by (metis add_is_0 unat_0 zero_neq_numeral)
  with True show ?thesis by (auto simp: lower_def)
next
  case False
  then show ?thesis by (auto simp: lower_def)
qed

lemma cstr_nonzero: "c \<in> set (cstr s) \<Longrightarrow> c \<noteq> 0"
  by (auto simp: cstr_def dest: set_takeWhileD)

lemma cstr_id: "0 \<notin> set s \<Longrightarrow> cstr s = s"
  by (auto simp: cstr_def takeWhile_eq_all_conv)

lemma casecmp_eq_0:
  assumes "0 \<notin> set xs" and "0 \<notin> set ys"
  shows "casecmp xs ys = 0 \<longleftrightarrow> map lower xs = map lower ys"
  using assms by (induction xs ys rule: casecmp.induct) (auto simp: uint_0_iff dest: unsigned_word_eqI)

lemma STRCASEEQ_iff: "STRCASEEQ a b \<longleftrightarrow> map lower (cstr a) = map lower (cstr b)"
  unfolding STRCASEEQ_def strcasecmp_def
  by (rule casecmp_eq_0) (auto dest: cstr_nonzero)

lemma STRCASEEQ_refl [simp]: "STRCASEEQ a a"
  by (simp add: STRCASEEQ_iff)

lemma STRCASEEQ_sym: "STRCASEEQ a b \<Longrightarrow> STRCASEEQ b a"
  by (simp add: STRCASEEQ_iff)

lemma STRCASEEQ_trans [trans]: "STRCASEEQ a b \<Longrightarrow> STRCASEEQ b c \<Longrightarrow> STRCASEEQ a c"
  by (simp add: STRCASEEQ_iff)

lemma casecmp_antisym: "casecmp ys xs = - casecmp xs ys"
  by (induction xs ys rule: casecmp.induct) auto

lemma strcasecmp_antisym: "strcasecmp b a = - strcasecmp a b"
  unfolding strcasecmp_def by (rule casecmp_antisym)

end
