(* ===== verification/Bytes.thy ===== *)
theory Bytes
  imports Prelude
begin

text \<open>
  The byte image of a hive and the little-endian loads and stores of
  \<^verbatim>\<open>lib/byte_conversions.h\<close>. The image is a function from offsets to bytes, as
  \<^verbatim>\<open>h->addr\<close> is a pointer to bytes; the object's size is kept beside it in the handle.
  The host is little-endian, so \<open>le32toh\<close> and its kin are the identity and a load of a
  \<^verbatim>\<open>uint32_t\<close> field reads four bytes, least significant first; \<open>be32toh\<close> swaps them.

  The interface \<open>byte_store\<close> states what a client may rely on: a load after a store at the
  same place gives the stored word, a store elsewhere does not matter.
\<close>

type_synonym mem = "nat \<Rightarrow> byte"

section \<open>Loads and stores\<close>

definition get_le :: "nat \<Rightarrow> mem \<Rightarrow> nat \<Rightarrow> 'a::len word" where
  "get_le n m a = foldr (\<lambda>i w. ucast (m (a + i)) OR push_bit 8 w) [0..<n] 0"

definition le_bytes :: "nat \<Rightarrow> 'a::len word \<Rightarrow> byte list" where
  "le_bytes n w = map (\<lambda>i. ucast (drop_bit (8 * i) w)) [0..<n]"

definition put_bytes :: "mem \<Rightarrow> nat \<Rightarrow> byte list \<Rightarrow> mem" where
  "put_bytes m a bs = (\<lambda>i. if a \<le> i \<and> i < a + length bs then bs ! (i - a) else m i)"

definition get_bytes :: "mem \<Rightarrow> nat \<Rightarrow> nat \<Rightarrow> byte list" where
  "get_bytes m a n = map (\<lambda>i. m (a + i)) [0..<n]"

definition get16 :: "mem \<Rightarrow> nat \<Rightarrow> u16" where "get16 = get_le 2"
definition get32 :: "mem \<Rightarrow> nat \<Rightarrow> u32" where "get32 = get_le 4"
definition get64 :: "mem \<Rightarrow> nat \<Rightarrow> u64" where "get64 = get_le 8"

definition put16 :: "mem \<Rightarrow> nat \<Rightarrow> u16 \<Rightarrow> mem" where "put16 m a w = put_bytes m a (le_bytes 2 w)"
definition put32 :: "mem \<Rightarrow> nat \<Rightarrow> u32 \<Rightarrow> mem" where "put32 m a w = put_bytes m a (le_bytes 4 w)"
definition put64 :: "mem \<Rightarrow> nat \<Rightarrow> u64 \<Rightarrow> mem" where "put64 m a w = put_bytes m a (le_bytes 8 w)"

definition memset0 :: "mem \<Rightarrow> nat \<Rightarrow> nat \<Rightarrow> mem" where
  "memset0 m a n = (\<lambda>i. if a \<le> i \<and> i < a + n then 0 else m i)"

text \<open>\<open>bswap_32\<close> and \<open>be32toh\<close> of \<^verbatim>\<open>byte_conversions.h\<close> on a little-endian host.\<close>

definition bswap_32 :: "u32 \<Rightarrow> u32" where
  "bswap_32 w =
     push_bit 24 (w AND 0xff) OR push_bit 8 (w AND 0xff00) OR
     (drop_bit 8 w AND 0xff00) OR (drop_bit 24 w AND 0xff)"

definition be32toh :: "u32 \<Rightarrow> u32" where
  "be32toh w = bswap_32 w"

section \<open>The interface of a byte store\<close>

locale byte_store =
  fixes width :: nat
    and load :: "mem \<Rightarrow> nat \<Rightarrow> 'w"
    and store :: "mem \<Rightarrow> nat \<Rightarrow> 'w \<Rightarrow> mem"
  assumes load_store: "load (store m a w) a = w"
    and store_outside: "i < a \<or> a + width \<le> i \<Longrightarrow> store m a w i = m i"
    and load_cong: "(\<And>i. a \<le> i \<Longrightarrow> i < a + width \<Longrightarrow> m i = m' i) \<Longrightarrow> load m a = load m' a"
begin

lemma load_frame:
  assumes "a + width \<le> b \<or> b + length bs \<le> a"
  shows "load (put_bytes m b bs) a = load m a"
  by (rule load_cong) (use assms in \<open>auto simp: put_bytes_def\<close>)

lemma load_store_other:
  assumes "a + width \<le> b \<or> b + width \<le> a"
  shows "load (store m b w) a = load m a"
  by (rule load_cong) (use assms in \<open>auto intro!: store_outside\<close>)

lemma load_memset0:
  assumes "a + width \<le> b \<or> b + n \<le> a"
  shows "load (memset0 m b n) a = load m a"
  by (rule load_cong) (use assms in \<open>auto simp: memset0_def\<close>)

end

section \<open>The little-endian codec\<close>

lemma bit_get_le:
  "bit (get_le n m a :: 'a::len word) k \<longleftrightarrow>
     k < LENGTH('a) \<and> k < 8 * n \<and> bit (m (a + k div 8)) (k mod 8)"
proof (induction n arbitrary: a k)
  case 0
  then show ?case by (simp add: get_le_def)
next
  case (Suc n)
  have step: "get_le (Suc n) m a = (ucast (m a) OR push_bit 8 (get_le n m (Suc a)) :: 'a word)"
    by (simp add: get_le_def upt_conv_Cons map_Suc_upt[symmetric] foldr_map comp_def del: upt_Suc map_Suc_upt)
  show ?case
  proof (cases "k < 8")
    case True
    then show ?thesis
      by (auto simp: step bit_simps dest: bit_imp_le_length)
  next
    case False
    then obtain j where j: "k = j + 8" by (metis add.commute le_Suc_ex not_less)
    have "k div 8 = Suc (j div 8)" "k mod 8 = j mod 8" by (simp_all add: j)
    then show ?thesis
      by (auto simp: step j bit_simps Suc.IH dest: bit_imp_le_length)
  qed
qed

lemma get_le_cong:
  "(\<And>i. a \<le> i \<Longrightarrow> i < a + n \<Longrightarrow> m i = m' i) \<Longrightarrow> get_le n m a = get_le n m' a"
  unfolding get_le_def by (rule foldr_cong) auto

lemma length_le_bytes [simp]: "length (le_bytes n w) = n"
  by (simp add: le_bytes_def)

lemma get_le_put:
  fixes w :: "'a::len word"
  assumes "LENGTH('a) = 8 * n"
  shows "get_le n (put_bytes m a (le_bytes n w)) a = w"
proof (rule bit_word_eqI)
  fix k
  assume k: "k < LENGTH('a)"
  then have "k div 8 < n" using assms by (simp add: less_mult_imp_div_less mult.commute)
  then have "put_bytes m a (le_bytes n w) (a + k div 8) = ucast (drop_bit (8 * (k div 8)) w)"
    by (simp add: put_bytes_def le_bytes_def)
  with k assms show "bit (get_le n (put_bytes m a (le_bytes n w)) a :: 'a word) k \<longleftrightarrow> bit w k"
    by (simp add: bit_get_le bit_simps)
qed

lemma put_bytes_outside: "i < a \<or> a + length bs \<le> i \<Longrightarrow> put_bytes m a bs i = m i"
  by (auto simp: put_bytes_def)

interpretation st16: byte_store 2 get16 put16
  by unfold_locales
    (auto simp: get16_def put16_def get_le_put put_bytes_outside intro: get_le_cong)

interpretation st32: byte_store 4 get32 put32
  by unfold_locales
    (auto simp: get32_def put32_def get_le_put put_bytes_outside intro: get_le_cong)

interpretation st64: byte_store 8 get64 put64
  by unfold_locales
    (auto simp: get64_def put64_def get_le_put put_bytes_outside intro: get_le_cong)

section \<open>Lemmas the components use\<close>

lemmas store_same [simp] = st16.load_store st32.load_store st64.load_store

lemmas load_frames [mem_frame] = st16.load_frame st32.load_frame st64.load_frame
lemmas load_memsets [mem_frame] = st16.load_memset0 st32.load_memset0 st64.load_memset0
lemmas load_others [mem_frame] =
  st16.load_store_other st32.load_store_other st64.load_store_other

lemma put_frames [mem_frame]:
  "i < a \<or> a + 2 \<le> i \<Longrightarrow> put16 m a w16 i = m i"
  "i < a \<or> a + 4 \<le> i \<Longrightarrow> put32 m a w32 i = m i"
  "i < a \<or> a + 8 \<le> i \<Longrightarrow> put64 m a w64 i = m i"
  by (rule st16.store_outside st32.store_outside st64.store_outside; assumption)+

lemma length_get_bytes [simp]: "length (get_bytes m a n) = n"
  by (simp add: get_bytes_def)

lemma nth_get_bytes [simp]: "i < n \<Longrightarrow> get_bytes m a n ! i = m (a + i)"
  by (simp add: get_bytes_def)

lemma get_bytes_cong:
  "(\<And>i. a \<le> i \<Longrightarrow> i < a + n \<Longrightarrow> m i = m' i) \<Longrightarrow> get_bytes m a n = get_bytes m' a n"
  by (simp add: get_bytes_def)

lemma cross_frames [mem_frame]:
  "a + 2 \<le> b \<or> b + 4 \<le> a \<Longrightarrow> get16 (put32 m b w32) a = get16 m a"
  "a + 2 \<le> b \<or> b + 8 \<le> a \<Longrightarrow> get16 (put64 m b w64) a = get16 m a"
  "a + 4 \<le> b \<or> b + 2 \<le> a \<Longrightarrow> get32 (put16 m b w16) a = get32 m a"
  "a + 4 \<le> b \<or> b + 8 \<le> a \<Longrightarrow> get32 (put64 m b w64) a = get32 m a"
  "a + 8 \<le> b \<or> b + 2 \<le> a \<Longrightarrow> get64 (put16 m b w16) a = get64 m a"
  "a + 8 \<le> b \<or> b + 4 \<le> a \<Longrightarrow> get64 (put32 m b w32) a = get64 m a"
  by (simp_all add: put16_def put32_def put64_def load_frames)

lemma get_bytes_frames [mem_frame]:
  "a + n \<le> b \<or> b + 2 \<le> a \<Longrightarrow> get_bytes (put16 m b w16) a n = get_bytes m a n"
  "a + n \<le> b \<or> b + 4 \<le> a \<Longrightarrow> get_bytes (put32 m b w32) a n = get_bytes m a n"
  "a + n \<le> b \<or> b + 8 \<le> a \<Longrightarrow> get_bytes (put64 m b w64) a n = get_bytes m a n"
  "a + n \<le> b \<or> b + length bs \<le> a \<Longrightarrow> get_bytes (put_bytes m b bs) a n = get_bytes m a n"
  by (auto intro!: get_bytes_cong simp: put_frames put_bytes_outside)

lemma get_put_bytes: "get_bytes (put_bytes m a bs) a (length bs) = bs"
  by (rule nth_equalityI) (auto simp: put_bytes_def)

lemma get_put_bytes_prefix:
  "n \<le> length bs \<Longrightarrow> get_bytes (put_bytes m a bs) a n = take n bs"
  by (rule nth_equalityI) (auto simp: put_bytes_def)

lemma get32_bytes:
  "get32 m a = ucast (m a) OR push_bit 8 (ucast (m (a + 1))) OR
     push_bit 16 (ucast (m (a + 2))) OR push_bit 24 (ucast (m (a + 3)))"
  by (simp add: get32_def get_le_def upt_rec push_bit_or ac_simps numeral_3_eq_3)

end
