(* ===== verification/Bitmap.thy ===== *)
theory Bitmap
  imports Prelude
begin

text \<open>
  The bitmap of valid block offsets (\<^verbatim>\<open>BITMAP_SET\<close>, \<^verbatim>\<open>BITMAP_CLR\<close>, \<^verbatim>\<open>BITMAP_TST\<close> of
  \<^verbatim>\<open>lib/hivex-internal.h\<close>): one bit per four bytes of the file, eight bits per byte of a
  \<^verbatim>\<open>calloc\<close>ed array. The array is the list of its bytes.

  The interface \<open>offset_set\<close> is what the rest of the library relies on: a finite set of
  slots, where two offsets name the same slot exactly when they lie in the same four bytes.
\<close>

section \<open>The macros\<close>

type_synonym bitmap = "byte list"

definition BITMAP_SET :: "bitmap \<Rightarrow> nat \<Rightarrow> bitmap" where
  "BITMAP_SET bm off =
     bm[off div 32 := (bm ! (off div 32)) OR push_bit ((off div 4) mod 8) 1]"

definition BITMAP_CLR :: "bitmap \<Rightarrow> nat \<Rightarrow> bitmap" where
  "BITMAP_CLR bm off =
     bm[off div 32 := (bm ! (off div 32)) AND NOT (push_bit ((off div 4) mod 8) 1)]"

definition BITMAP_TST :: "bitmap \<Rightarrow> nat \<Rightarrow> bool" where
  "BITMAP_TST bm off \<longleftrightarrow> (bm ! (off div 32)) AND push_bit ((off div 4) mod 8) 1 \<noteq> 0"

definition bitmap_slots :: "bitmap \<Rightarrow> nat" where
  "bitmap_slots bm = 8 * length bm"

lemma aligned_eq: "a div 4 = b div 4 \<Longrightarrow> a mod 4 = 0 \<Longrightarrow> b mod 4 = 0 \<Longrightarrow> a = b" for a b :: nat
  by (metis div_mult_mod_eq)

section \<open>The interface of an offset set\<close>

locale offset_set =
  fixes slots :: "'s \<Rightarrow> nat"
    and member :: "'s \<Rightarrow> nat \<Rightarrow> bool"
    and add :: "'s \<Rightarrow> nat \<Rightarrow> 's"
    and remove :: "'s \<Rightarrow> nat \<Rightarrow> 's"
  assumes slots_add [simp]: "slots (add s a) = slots s"
    and slots_remove [simp]: "slots (remove s a) = slots s"
    and member_slot: "a div 4 = b div 4 \<Longrightarrow> member s a = member s b"
    and member_add: "a div 4 < slots s \<Longrightarrow> member (add s a) b \<longleftrightarrow> b div 4 = a div 4 \<or> member s b"
    and member_remove: "a div 4 < slots s \<Longrightarrow> member (remove s a) b \<longleftrightarrow> b div 4 \<noteq> a div 4 \<and> member s b"
begin

definition present :: "'s \<Rightarrow> nat set" where
  "present s = {k. k < slots s \<and> member s (4 * k)}"

lemma finite_present [simp]: "finite (present s)"
  by (simp add: present_def)

lemma card_present_le: "card (present s) \<le> slots s"
proof -
  have "present s \<subseteq> {..<slots s}" by (auto simp: present_def)
  then have "card (present s) \<le> card {..<slots s}" by (intro card_mono) auto
  then show ?thesis by simp
qed

lemma present_remove:
  assumes "a div 4 < slots s"
  shows "present (remove s a) = present s - {a div 4}"
  using assms by (auto simp: present_def member_remove)

lemma card_remove:
  assumes "a div 4 < slots s" and "member s a"
  shows "card (present (remove s a)) < card (present s)"
proof -
  have "member s (4 * (a div 4))" using assms(2) member_slot[of a "4 * (a div 4)"] by simp
  with assms(1) have "a div 4 \<in> present s" by (simp add: present_def)
  with assms(1) show ?thesis
    unfolding present_remove[OF assms(1)] by (intro card_Diff1_less) auto
qed

lemma member_add_aligned:
  assumes "a div 4 < slots s" and "a mod 4 = 0" and "b mod 4 = 0"
  shows "member (add s a) b \<longleftrightarrow> b = a \<or> member s b"
  using assms by (auto simp: member_add dest: aligned_eq)

lemma member_remove_aligned:
  assumes "a div 4 < slots s" and "a mod 4 = 0" and "b mod 4 = 0"
  shows "member (remove s a) b \<longleftrightarrow> b \<noteq> a \<and> member s b"
  using assms by (auto simp: member_remove dest: aligned_eq)

end

section \<open>The macros implement the interface\<close>

lemma BITMAP_TST_bit: "BITMAP_TST bm off \<longleftrightarrow> bit (bm ! (off div 32)) ((off div 4) mod 8)"
  by (simp add: BITMAP_TST_def bit_iff_and_push_bit_not_eq_0)

lemma slot_split:
  "a div 4 = b div 4 \<longleftrightarrow> a div 32 = b div 32 \<and> a div 4 mod 8 = b div 4 mod 8" for a b :: nat
proof -
  have "a div 32 = a div 4 div 8" "b div 32 = b div 4 div 8"
    by (simp_all add: div_mult2_eq[symmetric])
  then show ?thesis by (metis div_mult_mod_eq)
qed

interpretation bm: offset_set bitmap_slots BITMAP_TST BITMAP_SET BITMAP_CLR
proof unfold_locales
  fix s a b
  show "bitmap_slots (BITMAP_SET s a) = bitmap_slots s"
    and "bitmap_slots (BITMAP_CLR s a) = bitmap_slots s"
    by (simp_all add: bitmap_slots_def BITMAP_SET_def BITMAP_CLR_def)
  show "BITMAP_TST s a = BITMAP_TST s b" if "a div 4 = b div 4"
    using that slot_split[of a b] by (simp add: BITMAP_TST_bit)
  assume "a div 4 < bitmap_slots s"
  then have len: "a div 32 < length s"
    by (simp add: bitmap_slots_def)
  have same: "a div 4 = b div 4 \<longleftrightarrow> a div 32 = b div 32 \<and> a div 4 mod 8 = b div 4 mod 8"
    by (rule slot_split)
  show "BITMAP_TST (BITMAP_SET s a) b \<longleftrightarrow> b div 4 = a div 4 \<or> BITMAP_TST s b"
    using len same
    by (cases "a div 32 = b div 32"; cases "a div 4 mod 8 = b div 4 mod 8")
      (simp_all add: BITMAP_TST_bit BITMAP_SET_def bit_simps)
  show "BITMAP_TST (BITMAP_CLR s a) b \<longleftrightarrow> b div 4 \<noteq> a div 4 \<and> BITMAP_TST s b"
    using len same
    by (cases "a div 32 = b div 32"; cases "a div 4 mod 8 = b div 4 mod 8")
      (simp_all add: BITMAP_TST_bit BITMAP_CLR_def bit_simps)
qed

lemma length_BITMAP [simp]:
  "length (BITMAP_SET bm a) = length bm" "length (BITMAP_CLR bm a) = length bm"
  by (simp_all add: BITMAP_SET_def BITMAP_CLR_def)

lemma slot_in_range: "a < 32 * n \<Longrightarrow> length bm = n \<Longrightarrow> a div 4 < bitmap_slots bm"
  by (simp add: bitmap_slots_def)

lemma BITMAP_TST_extend:
  assumes "a div 4 < bitmap_slots bm"
  shows "BITMAP_TST (bm @ zs) a = BITMAP_TST bm a"
proof -
  have "a div 32 < length bm" using assms by (simp add: bitmap_slots_def)
  then show ?thesis by (simp add: BITMAP_TST_bit nth_append)
qed

lemma BITMAP_TST_zeros:
  assumes "bitmap_slots bm \<le> a div 4" and "a div 4 < bitmap_slots bm + 8 * n"
  shows "\<not> BITMAP_TST (bm @ replicate n 0) a"
proof -
  have "length bm \<le> a div 32" "a div 32 - length bm < n"
    using assms by (auto simp: bitmap_slots_def)
  then show ?thesis by (simp add: BITMAP_TST_bit nth_append)
qed

end
