(* ===== verification/Hive.thy ===== *)
theory Hive
  imports Bytes Bitmap
begin

text \<open>
  The handle and the on-disk structures of \<^verbatim>\<open>lib/hivex.c\<close> and \<^verbatim>\<open>lib/hivex-internal.h\<close>:
  the packed C structs as field layouts, the handle \<open>hive\<close>, bounds-checked loads and stores in
  its image, block validity, block headers, and the header checksum.

  An access to \<^verbatim>\<open>h->addr[off]\<close> with \<^verbatim>\<open>off >= h->size\<close> is a \<open>Fault\<close>. Offsets are \<^verbatim>\<open>size_t\<close>
  values and are modelled as natural numbers; where the source adds in \<^verbatim>\<open>uint32_t\<close> the model
  adds modulo \<open>2 ^ 32\<close>. Debug output (\<^verbatim>\<open>msglvl\<close>) is not modelled.
\<close>

section \<open>Packed structures\<close>

type_synonym layout = "(string \<times> nat) list"

fun offsetof :: "layout \<Rightarrow> string \<Rightarrow> nat" where
  "offsetof [] f = 0"
| "offsetof ((g, n) # fs) f = (if g = f then 0 else n + offsetof fs f)"

definition sizeof :: "layout \<Rightarrow> nat" where
  "sizeof l = sum_list (map snd l)"

definition ntreg_header :: layout where
  "ntreg_header =
    [(''magic'', 4), (''sequence1'', 4), (''sequence2'', 4), (''last_modified'', 8),
     (''major_ver'', 4), (''minor_ver'', 4), (''unknown5'', 4), (''unknown6'', 4),
     (''offset'', 4), (''blocks'', 4), (''unknown7'', 4), (''name'', 64),
     (''unknown_guid1'', 16), (''unknown_guid2'', 16), (''unknown8'', 4), (''unknown_guid3'', 16),
     (''unknown9'', 4), (''unknown10'', 340), (''csum'', 4), (''unknown11'', 3528),
     (''unknown_guid4'', 16), (''unknown_guid5'', 16), (''unknown_guid6'', 16),
     (''unknown12'', 4), (''unknown13'', 4)]"

definition ntreg_hbin_page :: layout where
  "ntreg_hbin_page =
    [(''magic'', 4), (''offset_first'', 4), (''page_size'', 4), (''unknown'', 20)]"

definition ntreg_hbin_block :: layout where
  "ntreg_hbin_block = [(''seg_len'', 4), (''id'', 2)]"

definition ntreg_nk_record :: layout where
  "ntreg_nk_record =
    [(''seg_len'', 4), (''id'', 2), (''flags'', 2), (''timestamp'', 8), (''unknown1'', 4),
     (''parent'', 4), (''nr_subkeys'', 4), (''nr_subkeys_volatile'', 4), (''subkey_lf'', 4),
     (''subkey_lf_volatile'', 4), (''nr_values'', 4), (''vallist'', 4), (''sk'', 4),
     (''classname'', 4), (''max_subkey_name_len'', 2), (''unknown2'', 2), (''unknown3'', 4),
     (''max_vk_name_len'', 4), (''max_vk_data_len'', 4), (''unknown6'', 4), (''name_len'', 2),
     (''classname_len'', 2), (''name'', 1)]"

definition ntreg_lf_record :: layout where
  "ntreg_lf_record = [(''seg_len'', 4), (''id'', 2), (''nr_keys'', 2), (''keys'', 8)]"

definition ntreg_ri_record :: layout where
  "ntreg_ri_record = [(''seg_len'', 4), (''id'', 2), (''nr_offsets'', 2), (''offset'', 4)]"

definition ntreg_value_list :: layout where
  "ntreg_value_list = [(''seg_len'', 4), (''offset'', 4)]"

definition ntreg_vk_record :: layout where
  "ntreg_vk_record =
    [(''seg_len'', 4), (''id'', 2), (''name_len'', 2), (''data_len'', 4), (''data_offset'', 4),
     (''data_type'', 4), (''flags'', 2), (''unknown2'', 2), (''name'', 1)]"

definition ntreg_sk_record :: layout where
  "ntreg_sk_record =
    [(''seg_len'', 4), (''id'', 2), (''unknown1'', 2), (''sk_next'', 4), (''sk_prev'', 4),
     (''refcount'', 4), (''sec_len'', 4), (''sec_desc'', 1)]"

text \<open>The offsets the code uses, read off the layouts.\<close>

definition hdr_sequence1 :: nat where "hdr_sequence1 = offsetof ntreg_header ''sequence1''"
definition hdr_sequence2 :: nat where "hdr_sequence2 = offsetof ntreg_header ''sequence2''"
definition hdr_last_modified :: nat where "hdr_last_modified = offsetof ntreg_header ''last_modified''"
definition hdr_major_ver :: nat where "hdr_major_ver = offsetof ntreg_header ''major_ver''"
definition hdr_offset :: nat where "hdr_offset = offsetof ntreg_header ''offset''"
definition hdr_blocks :: nat where "hdr_blocks = offsetof ntreg_header ''blocks''"
definition hdr_csum :: nat where "hdr_csum = offsetof ntreg_header ''csum''"
definition page_offset_first :: nat where "page_offset_first = offsetof ntreg_hbin_page ''offset_first''"
definition page_page_size :: nat where "page_page_size = offsetof ntreg_hbin_page ''page_size''"
definition page_unknown :: nat where "page_unknown = offsetof ntreg_hbin_page ''unknown''"
definition block_id :: nat where "block_id = offsetof ntreg_hbin_block ''id''"
definition nk_flags :: nat where "nk_flags = offsetof ntreg_nk_record ''flags''"
definition nk_timestamp :: nat where "nk_timestamp = offsetof ntreg_nk_record ''timestamp''"
definition nk_parent :: nat where "nk_parent = offsetof ntreg_nk_record ''parent''"
definition nk_nr_subkeys :: nat where "nk_nr_subkeys = offsetof ntreg_nk_record ''nr_subkeys''"
definition nk_subkey_lf :: nat where "nk_subkey_lf = offsetof ntreg_nk_record ''subkey_lf''"
definition nk_subkey_lf_volatile :: nat where "nk_subkey_lf_volatile = offsetof ntreg_nk_record ''subkey_lf_volatile''"
definition nk_nr_values :: nat where "nk_nr_values = offsetof ntreg_nk_record ''nr_values''"
definition nk_vallist :: nat where "nk_vallist = offsetof ntreg_nk_record ''vallist''"
definition nk_sk :: nat where "nk_sk = offsetof ntreg_nk_record ''sk''"
definition nk_classname :: nat where "nk_classname = offsetof ntreg_nk_record ''classname''"
definition nk_max_subkey_name_len :: nat where "nk_max_subkey_name_len = offsetof ntreg_nk_record ''max_subkey_name_len''"
definition nk_max_vk_name_len :: nat where "nk_max_vk_name_len = offsetof ntreg_nk_record ''max_vk_name_len''"
definition nk_max_vk_data_len :: nat where "nk_max_vk_data_len = offsetof ntreg_nk_record ''max_vk_data_len''"
definition nk_name_len :: nat where "nk_name_len = offsetof ntreg_nk_record ''name_len''"
definition nk_name :: nat where "nk_name = offsetof ntreg_nk_record ''name''"
definition lf_nr_keys :: nat where "lf_nr_keys = offsetof ntreg_lf_record ''nr_keys''"
definition lf_keys :: nat where "lf_keys = offsetof ntreg_lf_record ''keys''"
definition ri_nr_offsets :: nat where "ri_nr_offsets = offsetof ntreg_ri_record ''nr_offsets''"
definition ri_offset :: nat where "ri_offset = offsetof ntreg_ri_record ''offset''"
definition vl_offset :: nat where "vl_offset = offsetof ntreg_value_list ''offset''"
definition vk_name_len :: nat where "vk_name_len = offsetof ntreg_vk_record ''name_len''"
definition vk_data_len :: nat where "vk_data_len = offsetof ntreg_vk_record ''data_len''"
definition vk_data_offset :: nat where "vk_data_offset = offsetof ntreg_vk_record ''data_offset''"
definition vk_data_type :: nat where "vk_data_type = offsetof ntreg_vk_record ''data_type''"
definition vk_flags :: nat where "vk_flags = offsetof ntreg_vk_record ''flags''"
definition vk_name :: nat where "vk_name = offsetof ntreg_vk_record ''name''"
definition sk_next :: nat where "sk_next = offsetof ntreg_sk_record ''sk_next''"
definition sk_prev :: nat where "sk_prev = offsetof ntreg_sk_record ''sk_prev''"
definition sk_refcount :: nat where "sk_refcount = offsetof ntreg_sk_record ''refcount''"

definition HIVEX_MAX_SUBKEYS :: nat where "HIVEX_MAX_SUBKEYS = 15000"
definition HIVEX_MAX_VALUES :: nat where "HIVEX_MAX_VALUES = 10000"
definition HIVEX_MAX_VALUE_LEN :: nat where "HIVEX_MAX_VALUE_LEN = 1000000"
definition HIVEX_MAX_ALLOCATION :: nat where "HIVEX_MAX_ALLOCATION = 1000000"

definition id_nk :: "byte list" where "id_nk = [0x6e, 0x6b]"
definition id_vk :: "byte list" where "id_vk = [0x76, 0x6b]"
definition id_lf :: "byte list" where "id_lf = [0x6c, 0x66]"
definition id_lh :: "byte list" where "id_lh = [0x6c, 0x68]"
definition id_ri :: "byte list" where "id_ri = [0x72, 0x69]"
definition id_sk :: "byte list" where "id_sk = [0x73, 0x6b]"
definition nul_id :: "byte list" where "nul_id = [0, 0]"

section \<open>The handle\<close>

record hive =
  filename :: "byte list"
  hsize :: nat
  writable :: bool
  addr :: mem
  bitmap :: bitmap
  rootoffs :: nat
  endpages :: nat
  last_modified :: u64
  endblocks :: nat

definition rd8 :: "hive \<Rightarrow> nat \<Rightarrow> byte result" where
  "rd8 h a = (if a < hsize h then Ok (addr h a) else Fault (OutOfBounds a))"

definition rd16 :: "hive \<Rightarrow> nat \<Rightarrow> u16 result" where
  "rd16 h a = (if a + 2 \<le> hsize h then Ok (get16 (addr h) a) else Fault (OutOfBounds a))"

definition rd32 :: "hive \<Rightarrow> nat \<Rightarrow> u32 result" where
  "rd32 h a = (if a + 4 \<le> hsize h then Ok (get32 (addr h) a) else Fault (OutOfBounds a))"

definition rd64 :: "hive \<Rightarrow> nat \<Rightarrow> u64 result" where
  "rd64 h a = (if a + 8 \<le> hsize h then Ok (get64 (addr h) a) else Fault (OutOfBounds a))"

definition rd_bytes :: "hive \<Rightarrow> nat \<Rightarrow> nat \<Rightarrow> byte list result" where
  "rd_bytes h a n = (if a + n \<le> hsize h then Ok (get_bytes (addr h) a n) else Fault (OutOfBounds a))"

definition wr_bytes :: "nat \<Rightarrow> byte list \<Rightarrow> (hive, unit) op" where
  "wr_bytes a bs h =
     (if a + length bs \<le> hsize h then (Ok (), h\<lparr>addr := put_bytes (addr h) a bs\<rparr>)
      else (Fault (OutOfBounds a), h))"

definition wr16 :: "nat \<Rightarrow> u16 \<Rightarrow> (hive, unit) op" where
  "wr16 a w h =
     (if a + 2 \<le> hsize h then (Ok (), h\<lparr>addr := put16 (addr h) a w\<rparr>) else (Fault (OutOfBounds a), h))"

definition wr32 :: "nat \<Rightarrow> u32 \<Rightarrow> (hive, unit) op" where
  "wr32 a w h =
     (if a + 4 \<le> hsize h then (Ok (), h\<lparr>addr := put32 (addr h) a w\<rparr>) else (Fault (OutOfBounds a), h))"

definition wr64 :: "nat \<Rightarrow> u64 \<Rightarrow> (hive, unit) op" where
  "wr64 a w h =
     (if a + 8 \<le> hsize h then (Ok (), h\<lparr>addr := put64 (addr h) a w\<rparr>) else (Fault (OutOfBounds a), h))"

definition IS_VALID_BLOCK :: "hive \<Rightarrow> nat \<Rightarrow> bool" where
  "IS_VALID_BLOCK h off \<longleftrightarrow>
     off mod 4 = 0 \<and> 0x1000 \<le> off \<and> off < hsize h \<and> BITMAP_TST (bitmap h) off"

definition BLOCK_ID_EQ :: "hive \<Rightarrow> nat \<Rightarrow> byte list \<Rightarrow> bool result" where
  "BLOCK_ID_EQ h off eqid = rbind (rd_bytes h (off + block_id) 2) (\<lambda>i. Ok (i = eqid))"

text \<open>\<^verbatim>\<open>if (!IS_VALID_BLOCK (h, off) || !BLOCK_ID_EQ (h, off, id)) { errno = e; return ...; }\<close>\<close>

definition check_block :: "hive \<Rightarrow> nat \<Rightarrow> byte list \<Rightarrow> errno \<Rightarrow> unit result" where
  "check_block h off bid e =
     (if IS_VALID_BLOCK h off then rbind (BLOCK_ID_EQ h off bid) (\<lambda>b. guard b e) else Err e)"

definition block_len :: "hive \<Rightarrow> nat \<Rightarrow> (nat \<times> bool) result" where
  "block_len h blkoff =
     rbind (rd32 h blkoff) (\<lambda>w.
       let len = sint w in
       if len < 0
       then (if len = - (2 ^ 31) then Fault SignedOverflow else Ok (nat (- len), True))
       else Ok (nat len, False))"

primrec checksum_loop :: "hive \<Rightarrow> nat list \<Rightarrow> u32 \<Rightarrow> u32 result" where
  "checksum_loop h [] s = Ok s"
| "checksum_loop h (i # is) s = rbind (rd32 h (4 * i)) (\<lambda>w. checksum_loop h is (s XOR w))"

definition header_checksum :: "hive \<Rightarrow> u32 result" where
  "header_checksum h = checksum_loop h [0..<0x1fc div 4] 0"

section \<open>Lemmas\<close>

lemmas layout_defs =
  ntreg_header_def ntreg_hbin_page_def ntreg_hbin_block_def ntreg_nk_record_def
  ntreg_lf_record_def ntreg_ri_record_def ntreg_value_list_def ntreg_vk_record_def
  ntreg_sk_record_def sizeof_def

lemma struct_sizes [simp]:
  "sizeof ntreg_header = 0x1000" "sizeof ntreg_hbin_page = 32" "sizeof ntreg_hbin_block = 6"
  "sizeof ntreg_nk_record = 81" "sizeof ntreg_lf_record = 16" "sizeof ntreg_ri_record = 12"
  "sizeof ntreg_value_list = 8" "sizeof ntreg_vk_record = 25" "sizeof ntreg_sk_record = 25"
  by (simp_all add: layout_defs)

lemma hdr_offsets [simp]:
  "hdr_sequence1 = 4" "hdr_sequence2 = 8" "hdr_last_modified = 12" "hdr_major_ver = 20"
  "hdr_offset = 36" "hdr_blocks = 40" "hdr_csum = 0x1fc"
  "page_offset_first = 4" "page_page_size = 8" "page_unknown = 12" "block_id = 4"
  by (simp_all add: layout_defs hdr_sequence1_def hdr_sequence2_def hdr_last_modified_def
      hdr_major_ver_def hdr_offset_def hdr_blocks_def hdr_csum_def page_offset_first_def
      page_page_size_def page_unknown_def block_id_def)

lemma nk_offsets [simp]:
  "nk_flags = 6" "nk_timestamp = 8" "nk_parent = 20" "nk_nr_subkeys = 24" "nk_subkey_lf = 32"
  "nk_subkey_lf_volatile = 36" "nk_nr_values = 40" "nk_vallist = 44" "nk_sk = 48"
  "nk_classname = 52" "nk_max_subkey_name_len = 56" "nk_max_vk_name_len = 64"
  "nk_max_vk_data_len = 68" "nk_name_len = 76" "nk_name = 80"
  by (simp_all add: layout_defs nk_flags_def nk_timestamp_def nk_parent_def nk_nr_subkeys_def
      nk_subkey_lf_def nk_subkey_lf_volatile_def nk_nr_values_def nk_vallist_def nk_sk_def
      nk_classname_def nk_max_subkey_name_len_def nk_max_vk_name_len_def nk_max_vk_data_len_def
      nk_name_len_def nk_name_def)

lemma other_offsets [simp]:
  "lf_nr_keys = 6" "lf_keys = 8" "ri_nr_offsets = 6" "ri_offset = 8" "vl_offset = 4"
  "vk_name_len = 6" "vk_data_len = 8" "vk_data_offset = 12" "vk_data_type = 16" "vk_flags = 20"
  "vk_name = 24" "sk_next = 8" "sk_prev = 12" "sk_refcount = 16"
  by (simp_all add: layout_defs lf_nr_keys_def lf_keys_def ri_nr_offsets_def ri_offset_def
      vl_offset_def vk_name_len_def vk_data_len_def vk_data_offset_def vk_data_type_def
      vk_flags_def vk_name_def sk_next_def sk_prev_def sk_refcount_def)

lemma rd_Ok [simp]:
  "rd8 h a = Ok b \<longleftrightarrow> a < hsize h \<and> b = addr h a"
  "rd16 h a = Ok w16 \<longleftrightarrow> a + 2 \<le> hsize h \<and> w16 = get16 (addr h) a"
  "rd32 h a = Ok w32 \<longleftrightarrow> a + 4 \<le> hsize h \<and> w32 = get32 (addr h) a"
  "rd64 h a = Ok w64 \<longleftrightarrow> a + 8 \<le> hsize h \<and> w64 = get64 (addr h) a"
  "rd_bytes h a n = Ok bs \<longleftrightarrow> a + n \<le> hsize h \<and> bs = get_bytes (addr h) a n"
  by (auto simp: rd8_def rd16_def rd32_def rd64_def rd_bytes_def)

lemma rd_in [hive_simps]:
  "a < hsize h \<Longrightarrow> rd8 h a = Ok (addr h a)"
  "a + 2 \<le> hsize h \<Longrightarrow> rd16 h a = Ok (get16 (addr h) a)"
  "a + 4 \<le> hsize h \<Longrightarrow> rd32 h a = Ok (get32 (addr h) a)"
  "a + 8 \<le> hsize h \<Longrightarrow> rd64 h a = Ok (get64 (addr h) a)"
  "a + n \<le> hsize h \<Longrightarrow> rd_bytes h a n = Ok (get_bytes (addr h) a n)"
  by simp_all

lemma rd_not_Err [simp]:
  "rd8 h a \<noteq> Err e" "rd16 h a \<noteq> Err e" "rd32 h a \<noteq> Err e" "rd64 h a \<noteq> Err e" "rd_bytes h a n \<noteq> Err e"
  by (auto simp: rd8_def rd16_def rd32_def rd64_def rd_bytes_def)

lemma wr_in [hive_simps]:
  "a + length bs \<le> hsize h \<Longrightarrow> wr_bytes a bs h = (Ok (), h\<lparr>addr := put_bytes (addr h) a bs\<rparr>)"
  "a + 2 \<le> hsize h \<Longrightarrow> wr16 a w16 h = (Ok (), h\<lparr>addr := put16 (addr h) a w16\<rparr>)"
  "a + 4 \<le> hsize h \<Longrightarrow> wr32 a w32 h = (Ok (), h\<lparr>addr := put32 (addr h) a w32\<rparr>)"
  "a + 8 \<le> hsize h \<Longrightarrow> wr64 a w64 h = (Ok (), h\<lparr>addr := put64 (addr h) a w64\<rparr>)"
  by (simp_all add: wr_bytes_def wr16_def wr32_def wr64_def)

lemma wr_Ok:
  "wr_bytes a bs h = (Ok u, h') \<longleftrightarrow>
     a + length bs \<le> hsize h \<and> h' = h\<lparr>addr := put_bytes (addr h) a bs\<rparr>"
  "wr16 a w16 h = (Ok u, h') \<longleftrightarrow> a + 2 \<le> hsize h \<and> h' = h\<lparr>addr := put16 (addr h) a w16\<rparr>"
  "wr32 a w32 h = (Ok u, h') \<longleftrightarrow> a + 4 \<le> hsize h \<and> h' = h\<lparr>addr := put32 (addr h) a w32\<rparr>"
  "wr64 a w64 h = (Ok u, h') \<longleftrightarrow> a + 8 \<le> hsize h \<and> h' = h\<lparr>addr := put64 (addr h) a w64\<rparr>"
  by (auto simp: wr_bytes_def wr16_def wr32_def wr64_def)

lemma BLOCK_ID_EQ_Ok [simp]:
  "BLOCK_ID_EQ h off i = Ok b \<longleftrightarrow>
     off + 6 \<le> hsize h \<and> b = (get_bytes (addr h) (off + 4) 2 = i)"
  by (auto simp: BLOCK_ID_EQ_def)

lemma check_block_Ok:
  "check_block h off i e = Ok u \<longleftrightarrow>
     IS_VALID_BLOCK h off \<and> off + 6 \<le> hsize h \<and> get_bytes (addr h) (off + 4) 2 = i"
  by (auto simp: check_block_def)

lemma block_len_Ok:
  "block_len h off = Ok (len, used) \<longleftrightarrow>
     off + 4 \<le> hsize h \<and>
     (let s = sint (get32 (addr h) off) in
        s \<noteq> - (2 ^ 31) \<and> len = nat \<bar>s\<bar> \<and> used = (s < 0))"
  by (auto simp: block_len_def Let_def)

lemma in_bitmap:
  assumes "length bm = 1 + n div 32" and "a < n"
  shows "a div 4 < bitmap_slots bm"
proof -
  have "a div 32 \<le> n div 32" using assms(2) by (simp add: div_le_mono)
  then show ?thesis using assms(1) by (simp add: bitmap_slots_def)
qed

lemma IS_VALID_BLOCK_SET:
  assumes "length (bitmap h) = 1 + hsize h div 32" and "b mod 4 = 0" and "0x1000 \<le> b" and "b < hsize h"
  shows "IS_VALID_BLOCK (h\<lparr>bitmap := BITMAP_SET (bitmap h) b\<rparr>) off \<longleftrightarrow> off = b \<or> IS_VALID_BLOCK h off"
  using bm.member_add_aligned[OF in_bitmap[OF assms(1,4)] assms(2), of off] assms
  by (auto simp: IS_VALID_BLOCK_def)

lemma IS_VALID_BLOCK_CLR:
  assumes "length (bitmap h) = 1 + hsize h div 32" and "b mod 4 = 0" and "b < hsize h"
  shows "IS_VALID_BLOCK (h\<lparr>bitmap := BITMAP_CLR (bitmap h) b\<rparr>) off \<longleftrightarrow> off \<noteq> b \<and> IS_VALID_BLOCK h off"
  using bm.member_remove_aligned[OF in_bitmap[OF assms(1,3)] assms(2), of off] assms
  by (auto simp: IS_VALID_BLOCK_def)

end
