(* ===== verification/Tiling.thy ===== *)
theory Tiling
  imports Hive
begin

text \<open>
  The shape of a well-formed hive image: from offset \<open>0x1000\<close> to \<^verbatim>\<open>endpages\<close> it is tiled by
  hbin pages, each page is a 32-byte header followed by blocks that tile it, and the bitmap
  marks exactly the used blocks. \<open>hive_wf\<close> is the invariant of the handle: \<^verbatim>\<open>hivex_open\<close>
  establishes it for a well-formed file, every writing operation keeps it, and the reading
  operations rely on it.

  A page is a triple of its offset, its size and its blocks; a block is a triple of its offset,
  its length and whether it is in use.
\<close>

type_synonym blk = "nat \<times> nat \<times> bool"
type_synonym hpage = "nat \<times> nat \<times> blk list"

section \<open>Consecutive intervals\<close>

fun consec :: "nat \<Rightarrow> (nat \<times> nat) list \<Rightarrow> nat \<Rightarrow> bool" where
  "consec a [] e \<longleftrightarrow> a = e"
| "consec a ((off, l) # xs) e \<longleftrightarrow> off = a \<and> 0 < l \<and> consec (a + l) xs e"

lemma consec_append: "consec a (xs @ ys) e \<longleftrightarrow> (\<exists>mid. consec a xs mid \<and> consec mid ys e)"
  by (induction xs arbitrary: a) auto

lemma consec_le: "consec a xs e \<Longrightarrow> a \<le> e"
  by (induction a xs e rule: consec.induct) auto

lemma consec_bounds: "consec a xs e \<Longrightarrow> (off, l) \<in> set xs \<Longrightarrow> a \<le> off \<and> off + l \<le> e \<and> 0 < l"
proof (induction a xs e rule: consec.induct)
  case (2 a off' l' xs e)
  then show ?case using consec_le[of "a + l'" xs e] by fastforce
qed simp

lemma consec_disjoint:
  assumes "consec a xs e" and "(x, l) \<in> set xs" and "(y, k) \<in> set xs"
  shows "(x = y \<and> l = k) \<or> x + l \<le> y \<or> y + k \<le> x"
  using assms
proof (induction a xs e rule: consec.induct)
  case (2 a off' l' xs e)
  then show ?case using consec_bounds[of "a + l'" xs e] by fastforce
qed simp

lemma page_multiple_4: "n mod 0x1000 = 0 \<Longrightarrow> n mod 4 = 0" for n :: nat
proof -
  assume "n mod 0x1000 = 0"
  then have "0x1000 dvd n" by (simp add: dvd_eq_mod_eq_0)
  moreover have "(4::nat) dvd 0x1000" by simp
  ultimately have "4 dvd n" by (rule dvd_trans[rotated])
  then show "n mod 4 = 0" by simp
qed

lemma add_mod_0: "a mod k = 0 \<Longrightarrow> b mod k = 0 \<Longrightarrow> (a + b) mod k = 0" for a b k :: nat
  by (metis add_0 mod_0 mod_add_eq)

section \<open>Pages and blocks\<close>

definition id_hbin :: "byte list" where "id_hbin = [0x68, 0x62, 0x69, 0x6e]"

definition blk_hdr :: "mem \<Rightarrow> blk \<Rightarrow> bool" where
  "blk_hdr m = (\<lambda>(b, len, used).
     sint (get32 m b) = (if used then - int len else int len) \<and> 4 < len \<and> len mod 4 = 0 \<and> len < 2 ^ 31)"

definition page_hdr :: "mem \<Rightarrow> nat \<Rightarrow> nat \<Rightarrow> bool" where
  "page_hdr m p ps \<longleftrightarrow>
     get_bytes m p 4 = id_hbin \<and> unat (get32 m (p + 8)) = ps \<and> 32 < ps \<and> ps mod 0x1000 = 0"

fun tile_blocks :: "mem \<Rightarrow> nat \<Rightarrow> blk list \<Rightarrow> nat \<Rightarrow> bool" where
  "tile_blocks m a [] e \<longleftrightarrow> a = e"
| "tile_blocks m a ((b, len, used) # bs) e \<longleftrightarrow>
     b = a \<and> blk_hdr m (b, len, used) \<and> tile_blocks m (a + len) bs e"

fun tile_pages :: "mem \<Rightarrow> nat \<Rightarrow> hpage list \<Rightarrow> nat \<Rightarrow> bool" where
  "tile_pages m a [] e \<longleftrightarrow> a = e"
| "tile_pages m a ((p, ps, bs) # pgs) e \<longleftrightarrow>
     p = a \<and> page_hdr m p ps \<and> tile_blocks m (p + 32) bs (p + ps) \<and> tile_pages m (p + ps) pgs e"

definition blocks_of :: "hpage list \<Rightarrow> blk list" where
  "blocks_of pgs = concat (map (\<lambda>(p, ps, bs). bs) pgs)"

definition spans :: "hpage list \<Rightarrow> (nat \<times> nat) list" where
  "spans pgs = concat (map (\<lambda>(p, ps, bs). (p, 32) # map (\<lambda>(b, len, used). (b, len)) bs) pgs)"

lemma blocks_of_simps [simp]:
  "blocks_of [] = []" "blocks_of ((p, ps, bs) # pgs) = bs @ blocks_of pgs"
  "blocks_of (pgs @ qs) = blocks_of pgs @ blocks_of qs"
  by (simp_all add: blocks_of_def)

lemma spans_simps [simp]:
  "spans [] = []"
  "spans ((p, ps, bs) # pgs) = (p, 32) # map (\<lambda>(b, len, used). (b, len)) bs @ spans pgs"
  by (simp_all add: spans_def)

lemma tile_blocks_append:
  "tile_blocks m a (xs @ ys) e \<longleftrightarrow> (\<exists>mid. tile_blocks m a xs mid \<and> tile_blocks m mid ys e)"
  by (induction xs arbitrary: a) auto

lemma tile_pages_append:
  "tile_pages m a (xs @ ys) e \<longleftrightarrow> (\<exists>mid. tile_pages m a xs mid \<and> tile_pages m mid ys e)"
  by (induction xs arbitrary: a) auto

lemma tile_blocks_consec:
  "tile_blocks m a bs e \<Longrightarrow> consec a (map (\<lambda>(b, len, used). (b, len)) bs) e"
  by (induction m a bs e rule: tile_blocks.induct) (auto simp: blk_hdr_def)

lemma tile_pages_consec: "tile_pages m a pgs e \<Longrightarrow> consec a (spans pgs) e"
  by (induction m a pgs e rule: tile_pages.induct)
    (auto simp: consec_append dest!: tile_blocks_consec)

lemma tile_blocks_hdr: "tile_blocks m a bs e \<Longrightarrow> x \<in> set bs \<Longrightarrow> blk_hdr m x"
  by (induction m a bs e rule: tile_blocks.induct) auto

lemma tile_pages_hdr: "tile_pages m a pgs e \<Longrightarrow> x \<in> set (blocks_of pgs) \<Longrightarrow> blk_hdr m x"
  by (induction m a pgs e rule: tile_pages.induct) (auto dest: tile_blocks_hdr)

lemma block_in_spans: "(b, len, used) \<in> set (blocks_of pgs) \<Longrightarrow> (b, len) \<in> set (spans pgs)"
  by (induction pgs) (auto intro!: rev_image_eqI)

lemma page_in_spans: "(p, ps, bs) \<in> set pgs \<Longrightarrow> (p, 32) \<in> set (spans pgs)"
  by (induction pgs) auto

lemma tile_page_block_apart:
  assumes "tile_pages m a pgs e" and "(p, ps, bs) \<in> set pgs" and "(b, len, u) \<in> set (blocks_of pgs)"
  shows "p + 32 \<le> b \<or> b + len \<le> p"
  using assms
proof (induction m a pgs e rule: tile_pages.induct)
  case (2 m a p' ps' bs' pgs e)
  have rest: "consec (p' + ps') (spans pgs) e" using 2 by (auto dest: tile_pages_consec)
  have inner: "consec (p' + 32) (map (\<lambda>(b, len, used). (b, len)) bs') (p' + ps')"
    using 2 by (auto dest: tile_blocks_consec)
  consider (new) "(b, len, u) \<in> set bs'" | (old) "(b, len, u) \<in> set (blocks_of pgs)"
    using "2.prems"(3) by auto
  then show ?case
  proof cases
    case new
    then have "(b, len) \<in> set (map (\<lambda>(b, len, used). (b, len)) bs')" by (auto intro!: rev_image_eqI)
    from consec_bounds[OF inner this] show ?thesis
      using "2.prems"(2) consec_bounds[OF rest page_in_spans] by fastforce
  next
    case old
    have "p' + 32 \<le> p' + ps'" using inner by (rule consec_le)
    then show ?thesis
      using old 2 consec_bounds[OF rest block_in_spans[OF old]] by auto
  qed
qed simp

lemma tile_blocks_aligned:
  "tile_blocks m a bs e \<Longrightarrow> a mod 4 = 0 \<Longrightarrow> (b, len, used) \<in> set bs \<Longrightarrow> b mod 4 = 0"
proof (induction m a bs e rule: tile_blocks.induct)
  case (2 m a b' len' used' bs e)
  then have "(a + len') mod 4 = 0" by (auto simp: blk_hdr_def)
  with 2 show ?case by auto
qed simp

lemma tile_pages_aligned:
  "tile_pages m a pgs e \<Longrightarrow> a mod 0x1000 = 0 \<Longrightarrow>
     e mod 0x1000 = 0 \<and> (\<forall>(b, len, used) \<in> set (blocks_of pgs). b mod 4 = 0)"
proof (induction m a pgs e rule: tile_pages.induct)
  case (2 m a p ps bs pgs e)
  then have t: "p = a" "ps mod 0x1000 = 0" "tile_blocks m (p + 32) bs (p + ps)"
    "tile_pages m (p + ps) pgs e"
    by (auto simp: page_hdr_def)
  have d: "0x1000 dvd a" "0x1000 dvd ps" using t(2) "2.prems"(2) by (simp_all add: dvd_eq_mod_eq_0)
  have "(4::nat) dvd 0x1000" "(4::nat) dvd 32" by simp_all
  then have "4 dvd p + 32" unfolding t(1) using d(1) by (meson dvd_add dvd_trans)
  moreover have "0x1000 dvd p + ps" unfolding t(1) using d by simp
  ultimately have al: "(p + ps) mod 0x1000 = 0" "(p + 32) mod 4 = 0" by (simp_all add: dvd_eq_mod_eq_0)
  from "2.IH"[OF t(4) al(1)] show ?case
    using tile_blocks_aligned[OF t(3) al(2)] by auto
qed simp

lemma tile_blocks_map:
  assumes "tile_blocks m a bs e" and "\<And>b len u. (b, len, u) \<in> set bs \<Longrightarrow> blk_hdr m' (b, len, f b u)"
  shows "tile_blocks m' a (map (\<lambda>(b, len, u). (b, len, f b u)) bs) e"
  using assms by (induction m a bs e rule: tile_blocks.induct) auto

lemma tile_pages_map:
  assumes "tile_pages m a pgs e"
    and "\<And>p ps bs. (p, ps, bs) \<in> set pgs \<Longrightarrow> page_hdr m p ps \<Longrightarrow> page_hdr m' p ps"
    and "\<And>b len u. (b, len, u) \<in> set (blocks_of pgs) \<Longrightarrow> blk_hdr m' (b, len, f b u)"
  shows "tile_pages m' a (map (\<lambda>(p, ps, bs). (p, ps, map (\<lambda>(b, len, u). (b, len, f b u)) bs)) pgs) e"
  using assms
proof (induction m a pgs e rule: tile_pages.induct)
  case (2 m a p ps bs pgs e)
  have "tile_blocks m' (p + 32) (map (\<lambda>(b, len, u). (b, len, f b u)) bs) (p + ps)"
    using "2.prems" by (intro tile_blocks_map) auto
  with 2 show ?case by auto
qed simp

lemma blk_hdr_cong: "(\<And>i. b \<le> i \<Longrightarrow> i < b + 4 \<Longrightarrow> m' i = m i) \<Longrightarrow> blk_hdr m' (b, r) = blk_hdr m (b, r)"
  using st32.load_cong[of b m' m] by (simp add: blk_hdr_def split: prod.splits)

lemma page_hdr_cong:
  assumes "\<And>i. p \<le> i \<Longrightarrow> i < p + 32 \<Longrightarrow> m' i = m i"
  shows "page_hdr m' p ps = page_hdr m p ps"
  using st32.load_cong[of "p + 8" m' m] get_bytes_cong[of p 4 m' m] assms
  by (simp add: page_hdr_def)

lemma tile_pages_cong:
  assumes t: "tile_pages m a pgs e"
    and p: "\<And>p ps bs i. (p, ps, bs) \<in> set pgs \<Longrightarrow> p \<le> i \<Longrightarrow> i < p + 32 \<Longrightarrow> m' i = m i"
    and b: "\<And>b len u i. (b, len, u) \<in> set (blocks_of pgs) \<Longrightarrow> b \<le> i \<Longrightarrow> i < b + 4 \<Longrightarrow> m' i = m i"
  shows "tile_pages m' a pgs e"
proof -
  have *: "(\<lambda>(p, ps, bs). (p, ps, map (\<lambda>(b, len, u). (b, len, u)) bs)) = (id :: hpage \<Rightarrow> hpage)"
    by (auto simp: fun_eq_iff)
  have "tile_pages m' a (map (\<lambda>(p, ps, bs). (p, ps, map (\<lambda>(b, len, u). (b, len, u)) bs)) pgs) e"
  proof (rule tile_pages_map[OF t])
    show "page_hdr m' p ps" if "(p, ps, bs) \<in> set pgs" "page_hdr m p ps" for p ps bs
      using that p[OF that(1)] page_hdr_cong by blast
    show "blk_hdr m' (b, len, u)" if "(b, len, u) \<in> set (blocks_of pgs)" for b len u
      using that tile_pages_hdr[OF t that] blk_hdr_cong[of b m' m] b[OF that] by blast
  qed
  then show ?thesis by (simp add: *)
qed

section \<open>The invariant of the handle\<close>

definition tail_free :: "nat \<Rightarrow> nat \<Rightarrow> blk list" where
  "tail_free a e = (if a < e then [(a, e - a, False)] else [])"

definition endblocks_ok :: "hive \<Rightarrow> hpage list \<Rightarrow> bool" where
  "endblocks_ok h pgs \<longleftrightarrow>
     endblocks h = 0 \<or>
     (endblocks h \<le> endpages h \<and> endblocks h mod 8 = 0 \<and>
      (\<exists>pre p ps bs. pgs = pre @ [(p, ps, bs @ tail_free (endblocks h) (endpages h))]))"

definition bitmap_ok :: "hive \<Rightarrow> hpage list \<Rightarrow> bool" where
  "bitmap_ok h pgs \<longleftrightarrow>
     length (bitmap h) = 1 + hsize h div 32 \<and>
     (\<forall>off. off mod 4 = 0 \<longrightarrow> off div 4 < bitmap_slots (bitmap h) \<longrightarrow>
        (BITMAP_TST (bitmap h) off \<longleftrightarrow> (\<exists>len. (off, len, True) \<in> set (blocks_of pgs))))"

definition hive_wf :: "hive \<Rightarrow> hpage list \<Rightarrow> bool" where
  "hive_wf h pgs \<longleftrightarrow>
     tile_pages (addr h) 0x1000 pgs (endpages h) \<and> endpages h \<le> hsize h \<and>
     bitmap_ok h pgs \<and> endblocks_ok h pgs"

definition hive_ok :: "hive \<Rightarrow> bool" where
  "hive_ok h \<longleftrightarrow> (\<exists>pgs. hive_wf h pgs)"

definition blen :: "hive \<Rightarrow> nat \<Rightarrow> nat" where
  "blen h off = nat \<bar>sint (get32 (addr h) off)\<bar>"

lemma hive_wf_tile: "hive_wf h pgs \<Longrightarrow> tile_pages (addr h) 0x1000 pgs (endpages h)"
  by (simp add: hive_wf_def)

lemma hive_wf_block:
  assumes "hive_wf h pgs" and "(b, len, u) \<in> set (blocks_of pgs)"
  shows "0x1020 \<le> b" "b + len \<le> endpages h" "b mod 4 = 0" "b + len \<le> hsize h" "blen h b = len"
    "8 \<le> len" "len mod 4 = 0" "len < 2 ^ 31" "block_len h b = Ok (len, u)"
proof -
  note t = hive_wf_tile[OF assms(1)]
  note c = tile_pages_consec[OF t]
  have sp: "(b, len) \<in> set (spans pgs)" using assms(2) by (rule block_in_spans)
  from consec_bounds[OF c sp] have bd: "0x1000 \<le> b" "b + len \<le> endpages h" by auto
  then show "b + len \<le> endpages h" by simp
  then show sz: "b + len \<le> hsize h" using assms(1) by (simp add: hive_wf_def)
  show "b mod 4 = 0" using tile_pages_aligned[OF t] assms(2) by auto
  from tile_pages_hdr[OF t assms(2)] have hd: "blk_hdr (addr h) (b, len, u)" .
  then have l: "4 < len" "len mod 4 = 0" "len < 2 ^ 31" by (auto simp: blk_hdr_def)
  then show "8 \<le> len" "len mod 4 = 0" "len < 2 ^ 31" by presburger+
  show "blen h b = len" using hd by (auto simp: blk_hdr_def blen_def)
  show "block_len h b = Ok (len, u)"
    using hd l sz by (auto simp: block_len_Ok blk_hdr_def Let_def)
  show "0x1020 \<le> b"
  proof (cases pgs)
    case Nil
    with assms(2) show ?thesis by simp
  next
    case (Cons pg pgs')
    obtain p ps bs where pg: "pg = (p, ps, bs)" by (cases pg)
    with Cons t have "p = 0x1000" by simp
    with Cons pg have "(0x1000, ps, bs) \<in> set pgs" by simp
    from tile_page_block_apart[OF t this assms(2)] bd(1) l(1) show ?thesis by simp
  qed
qed

lemma IS_VALID_BLOCK_iff:
  assumes "hive_wf h pgs"
  shows "IS_VALID_BLOCK h b \<longleftrightarrow> (\<exists>len. (b, len, True) \<in> set (blocks_of pgs))"
proof
  assume "IS_VALID_BLOCK h b"
  then show "\<exists>len. (b, len, True) \<in> set (blocks_of pgs)"
    using assms in_bitmap[of "bitmap h" "hsize h" b]
    by (auto simp: IS_VALID_BLOCK_def hive_wf_def bitmap_ok_def)
next
  assume "\<exists>len. (b, len, True) \<in> set (blocks_of pgs)"
  then obtain len where b: "(b, len, True) \<in> set (blocks_of pgs)" ..
  note bl = hive_wf_block[OF assms b]
  have "b < hsize h" using bl by linarith
  moreover have "BITMAP_TST (bitmap h) b"
    using assms b in_bitmap[of "bitmap h" "hsize h" b] \<open>b < hsize h\<close> bl(3)
    by (auto simp: hive_wf_def bitmap_ok_def)
  ultimately show "IS_VALID_BLOCK h b" using bl by (simp add: IS_VALID_BLOCK_def)
qed

lemma hive_wf_valid:
  assumes "hive_wf h pgs" and "IS_VALID_BLOCK h b"
  shows "(b, blen h b, True) \<in> set (blocks_of pgs)"
  using assms IS_VALID_BLOCK_iff hive_wf_block(5) by metis

lemma hive_ok_valid:
  assumes "hive_ok h" and "IS_VALID_BLOCK h b"
  shows "0x1020 \<le> b" "b + blen h b \<le> endpages h" "b + blen h b \<le> hsize h" "8 \<le> blen h b"
    "b mod 4 = 0" "blen h b mod 4 = 0" "block_len h b = Ok (blen h b, True)"
  using assms hive_wf_block hive_wf_valid unfolding hive_ok_def by metis+

lemma hive_ok_disjoint:
  assumes "hive_ok h" and "IS_VALID_BLOCK h b" and "IS_VALID_BLOCK h c" and "b \<noteq> c"
  shows "b + blen h b \<le> c \<or> c + blen h c \<le> b"
proof -
  obtain pgs where w: "hive_wf h pgs" using assms(1) by (auto simp: hive_ok_def)
  from consec_disjoint[OF tile_pages_consec[OF hive_wf_tile[OF w]]
      block_in_spans[OF hive_wf_valid[OF w assms(2)]] block_in_spans[OF hive_wf_valid[OF w assms(3)]]]
  show ?thesis using assms(4) by auto
qed

text \<open>A write into the body of a block, past its header, keeps the invariant and the tiling.\<close>

lemma hive_wf_body_write:
  assumes w: "hive_wf h pgs" and b: "(b, len, u) \<in> set (blocks_of pgs)"
    and m: "\<And>i. i < b + 4 \<or> b + len \<le> i \<Longrightarrow> m' i = addr h i"
  shows "hive_wf (h\<lparr>addr := m'\<rparr>) pgs"
proof -
  note t = hive_wf_tile[OF w]
  note dis = consec_disjoint[OF tile_pages_consec[OF t] block_in_spans[OF b]]
  have "tile_pages m' 0x1000 pgs (endpages h)"
  proof (rule tile_pages_cong[OF t])
    fix p ps bs i
    assume "(p, ps, bs) \<in> set pgs" "p \<le> i" "i < p + 32"
    from tile_page_block_apart[OF t this(1) b] this(2,3) show "m' i = addr h i"
      by (auto intro!: m)
  next
    fix c len' u' i
    assume c: "(c, len', u') \<in> set (blocks_of pgs)" "c \<le> i" "i < c + 4"
    have "8 \<le> len'" using hive_wf_block(6)[OF w c(1)] .
    with dis[OF block_in_spans[OF c(1)]] c(2,3) show "m' i = addr h i"
      by (auto intro!: m)
  qed
  with w show ?thesis by (simp add: hive_wf_def bitmap_ok_def endblocks_ok_def)
qed

end
