(* ===== verification/Alloc.thy ===== *)
theory Alloc
  imports Tiling
begin

text \<open>
  Block allocation of \<^verbatim>\<open>lib/hivex.c\<close>: \<^verbatim>\<open>allocate_page\<close>, \<^verbatim>\<open>allocate_block\<close> and
  \<^verbatim>\<open>mark_block_unused\<close>. The part of \<^verbatim>\<open>allocate_block\<close> after a page with room has been found is
  the definition \<open>place_block\<close>. \<^verbatim>\<open>realloc\<close> is taken to succeed.

  The theorems: on a well-formed, writable handle an allocation of an admissible size always
  succeeds, returns a block that was not in use, leaves the bytes of every other block alone
  and keeps the invariant; freeing a block removes just that block.
\<close>

section \<open>Definitions\<close>

definition round8 :: "nat \<Rightarrow> nat" where
  "round8 n = (n + 7) div 8 * 8"

definition allocate_page :: "nat \<Rightarrow> (hive, nat) op" where
  "allocate_page allocation_hint h =
     (let nr_4k_pages = 1 + (allocation_hint + sizeof ntreg_hbin_page - 1) div 4096;
          extend = int (endpages h + nr_4k_pages * 4096) - int (hsize h);
          newsize = hsize h + nat extend;
          off = endpages h;
          h1 = (if 0 < extend
                then h\<lparr>hsize := newsize,
                       addr := memset0 (addr h) (hsize h) (newsize - hsize h),
                       bitmap := bitmap h @ replicate ((1 + newsize div 32) - (1 + hsize h div 32)) 0\<rparr>
                else h);
          h2 = h1\<lparr>endpages := endpages h + nr_4k_pages * 4096\<rparr>
      in
        sbind (wr_bytes off id_hbin) (\<lambda>_.
        sbind (wr32 (off + page_offset_first) (of_nat off - 0x1000)) (\<lambda>_.
        sbind (wr32 (off + page_page_size) (of_nat (nr_4k_pages * 4096))) (\<lambda>_.
        sbind (wr_bytes (off + page_unknown) (replicate 20 0)) (\<lambda>_.
        sret (off + sizeof ntreg_hbin_page))))) h2)"

definition place_block :: "nat \<Rightarrow> byte list \<Rightarrow> (hive, nat) op" where
  "place_block seg_len bid h =
     (let off = endblocks h in
        sbind (wr_bytes off (replicate seg_len 0)) (\<lambda>_.
        sbind (wr32 off (- of_nat seg_len)) (\<lambda>_.
        sbind (if bid ! 0 \<noteq> 0 \<and> bid ! 1 \<noteq> 0 \<and> sizeof ntreg_hbin_block \<le> seg_len
               then wr_bytes (off + block_id) bid else sret ()) (\<lambda>_.
        sbind (supd (\<lambda>h. h\<lparr>bitmap := BITMAP_SET (bitmap h) off, endblocks := endblocks h + seg_len\<rparr>)) (\<lambda>_.
        sbind (\<lambda>h. if endblocks h < endpages h
               then sbind (sassert (\<lambda>h. 4 \<le> endpages h - endblocks h)) (\<lambda>_.
                      wr32 (endblocks h) (of_nat (endpages h - endblocks h))) h
               else (Ok (), h)) (\<lambda>_.
        sret off))))) h)"

definition allocate_block :: "nat \<Rightarrow> byte list \<Rightarrow> (hive, nat) op" where
  "allocate_block seg_len bid h =
     (if \<not> writable h then (Err EROFS, h)
      else if seg_len < 4 then (Err ERANGE, h)
      else if HIVEX_MAX_ALLOCATION < seg_len then (Err ERANGE, h)
      else
        let seg_len = round8 seg_len in
        sbind (if endblocks h = 0 \<or> endpages h < endblocks h + seg_len
               then sbind (allocate_page seg_len) (\<lambda>newend. supd (\<lambda>h. h\<lparr>endblocks := newend\<rparr>))
               else sret ()) (\<lambda>_.
        place_block seg_len bid) h)"

definition mark_block_unused :: "nat \<Rightarrow> (hive, unit) op" where
  "mark_block_unused off =
     sbind (sassert writable) (\<lambda>_.
     sbind (sassert (\<lambda>h. IS_VALID_BLOCK h off)) (\<lambda>_.
     sbind (sget (\<lambda>h. block_len h off)) (\<lambda>(seg_len, used).
     sbind (wr32 off (of_nat seg_len)) (\<lambda>_.
     supd (\<lambda>h. h\<lparr>bitmap := BITMAP_CLR (bitmap h) off\<rparr>)))))"

section \<open>Allocation keeps the invariant\<close>

lemma round8: "n \<le> round8 n" "round8 n < n + 8" "round8 n mod 8 = 0" "4 \<le> n \<Longrightarrow> 8 \<le> round8 n"
proof -
  show "n \<le> round8 n" "round8 n < n + 8" unfolding round8_def by presburger+
  then show "4 \<le> n \<Longrightarrow> 8 \<le> round8 n" unfolding round8_def by presburger
  show "round8 n mod 8 = 0" by (simp add: round8_def)
qed

text \<open>A page with room at \<open>endblocks\<close>: everything before it is tiled.\<close>

definition room :: "hive \<Rightarrow> hpage list \<Rightarrow> nat \<Rightarrow> nat \<Rightarrow> blk list \<Rightarrow> bool" where
  "room h pre p ps bs \<longleftrightarrow>
     tile_pages (addr h) 0x1000 pre p \<and> page_hdr (addr h) p ps \<and>
     tile_blocks (addr h) (p + 32) bs (endblocks h) \<and> p + ps = endpages h \<and>
     endblocks h \<le> endpages h \<and> endpages h \<le> hsize h \<and> endblocks h mod 8 = 0 \<and>
     endpages h < endblocks h + 2 ^ 31 \<and>
     bitmap_ok h (pre @ [(p, ps, bs)])"

text \<open>The image after a block of \<open>n\<close> bytes has been placed at \<open>eb\<close>.\<close>

definition placed :: "mem \<Rightarrow> nat \<Rightarrow> nat \<Rightarrow> byte list \<Rightarrow> nat \<Rightarrow> mem" where
  "placed m eb n bid ep =
     (let m1 = put32 (put_bytes m eb (replicate n 0)) eb (- of_nat n);
          m2 = (if bid ! 0 \<noteq> 0 \<and> bid ! 1 \<noteq> 0 then put_bytes m1 (eb + 4) bid else m1)
      in if eb + n < ep then put32 m2 (eb + n) (of_nat (ep - (eb + n))) else m2)"

lemma place_block_eq:
  assumes "8 \<le> n" "length bid = 2" "endblocks h + n \<le> endpages h" "endpages h \<le> hsize h"
    "endblocks h mod 8 = 0" "n mod 8 = 0" "endpages h mod 8 = 0"
  shows "place_block n bid h =
    (Ok (endblocks h),
     h\<lparr>addr := placed (addr h) (endblocks h) n bid (endpages h),
       bitmap := BITMAP_SET (bitmap h) (endblocks h), endblocks := endblocks h + n\<rparr>)"
proof -
  have "8 \<le> endpages h - (endblocks h + n)" if "endblocks h + n < endpages h"
  proof -
    have "(endpages h - (endblocks h + n)) mod 8 = 0"
      using assms(5,6,7) by (metis dvd_add dvd_diff_nat dvd_eq_mod_eq_0)
    with that show ?thesis by presburger
  qed
  then show ?thesis
    using assms(1-4)
    by (auto simp: place_block_def placed_def sbind_def wr_in sret_def Let_def hive_simps)
qed

lemma placed_outside:
  assumes "i < eb \<or> (eb + n \<le> i \<and> ep \<le> i)" and "length bid = 2" and "8 \<le> n" and "eb + n + 4 \<le> ep \<or> ep \<le> eb + n"
  shows "placed m eb n bid ep i = m i"
  using assms by (auto simp: placed_def Let_def mem_frame put_bytes_outside)

lemma placed_header:
  assumes "8 \<le> n" and "length bid = 2" and "n < 2 ^ 31"
  shows "get32 (placed m eb n bid ep) eb = - of_nat n"
  using assms by (simp add: placed_def Let_def mem_frame)

lemma placed_tail:
  assumes "eb + n < ep"
  shows "get32 (placed m eb n bid ep) (eb + n) = of_nat (ep - (eb + n))"
  using assms by (simp add: placed_def Let_def)

lemma sint_neg_of_nat: "n < 2 ^ 31 \<Longrightarrow> sint (- of_nat n :: u32) = - int n"
proof -
  assume n: "n < 2 ^ 31"
  have "(- of_nat n :: u32) = word_of_int (- int n)" by simp
  also have "sint \<dots> = - int n"
    unfolding sint_sbintrunc' using n by (intro signed_take_bit_int_eq_self) auto
  finally show ?thesis .
qed

lemma sint_of_nat: "n < 2 ^ 31 \<Longrightarrow> sint (of_nat n :: u32) = int n"
proof -
  assume n: "n < 2 ^ 31"
  have "(of_nat n :: u32) = word_of_int (int n)" by simp
  also have "sint \<dots> = int n"
    unfolding sint_sbintrunc' using n by (intro signed_take_bit_int_eq_self) auto
  finally show ?thesis .
qed

lemma room_bounds:
  assumes "room h pre p ps bs"
  shows "0x1000 \<le> p" "p + 32 \<le> endblocks h" "endpages h mod 0x1000 = 0" "p mod 0x1000 = 0"
proof -
  have t: "tile_pages (addr h) 0x1000 pre p" "tile_blocks (addr h) (p + 32) bs (endblocks h)"
    and ps: "ps mod 0x1000 = 0" "p + ps = endpages h"
    using assms by (auto simp: room_def page_hdr_def)
  show "0x1000 \<le> p" using consec_le[OF tile_pages_consec[OF t(1)]] .
  show "p + 32 \<le> endblocks h" using consec_le[OF tile_blocks_consec[OF t(2)]] .
  show p: "p mod 0x1000 = 0" using tile_pages_aligned[OF t(1)] by simp
  then show "endpages h mod 0x1000 = 0" using ps by (metis add_mod_0)
qed

lemma room_block:
  assumes r: "room h pre p ps bs" and b: "(b, len, u) \<in> set (blocks_of (pre @ [(p, ps, bs)]))"
  shows "0x1000 \<le> b" "b + len \<le> endblocks h" "8 \<le> len" "b mod 4 = 0"
proof -
  have t: "tile_pages (addr h) 0x1000 pre p" "tile_blocks (addr h) (p + 32) bs (endblocks h)"
    using r by (auto simp: room_def)
  note rb = room_bounds[OF r]
  consider (pre) "(b, len, u) \<in> set (blocks_of pre)" | (bs) "(b, len, u) \<in> set bs" using b by auto
  then have "0x1000 \<le> b \<and> b + len \<le> endblocks h \<and> 8 \<le> len \<and> b mod 4 = 0"
  proof cases
    case pre
    have "4 < len" "len mod 4 = 0" using tile_pages_hdr[OF t(1) pre] by (auto simp: blk_hdr_def)
    then have "8 \<le> len" by presburger
    then show ?thesis
      using consec_bounds[OF tile_pages_consec[OF t(1)] block_in_spans[OF pre]] rb
        tile_pages_aligned[OF t(1)] pre by auto
  next
    case bs
    have "4 < len" "len mod 4 = 0" using tile_blocks_hdr[OF t(2) bs] by (auto simp: blk_hdr_def)
    then have l: "8 \<le> len" by presburger
    have al: "(p + 32) mod 4 = 0" using page_multiple_4[OF rb(4)] by (rule add_mod_0) simp
    have "(b, len) \<in> set (map (\<lambda>(b, len, used). (b, len)) bs)"
      using bs by (auto intro!: rev_image_eqI)
    from consec_bounds[OF tile_blocks_consec[OF t(2)] this] show ?thesis
      using l rb(1) tile_blocks_aligned[OF t(2) al bs] by simp
  qed
  then show "0x1000 \<le> b" "b + len \<le> endblocks h" "8 \<le> len" "b mod 4 = 0" by auto
qed

lemma room_frame:
  assumes r: "room h pre p ps bs" and m: "\<And>i. i < endblocks h \<Longrightarrow> m' i = addr h i"
  shows "tile_pages m' 0x1000 pre p" "page_hdr m' p ps" "tile_blocks m' (p + 32) bs (endblocks h)"
proof -
  have t: "tile_pages (addr h) 0x1000 pre p" "page_hdr (addr h) p ps"
    "tile_blocks (addr h) (p + 32) bs (endblocks h)"
    using r by (auto simp: room_def)
  note rb = room_bounds[OF r]
  show "tile_pages m' 0x1000 pre p"
  proof (rule tile_pages_cong[OF t(1)])
    show "m' i = addr h i" if "(q, qs, cs) \<in> set pre" "q \<le> i" "i < q + 32" for q qs cs i
      using consec_bounds[OF tile_pages_consec[OF t(1)] page_in_spans[OF that(1)]] that rb
      by (intro m) auto
    show "m' i = addr h i" if "(b, len, u) \<in> set (blocks_of pre)" "b \<le> i" "i < b + 4" for b len u i
      using room_block[OF r, of b len u] that by (intro m) auto
  qed
  show "page_hdr m' p ps" using t(2) rb m page_hdr_cong[of p m' "addr h"] by auto
  have "tile_blocks m' (p + 32) (map (\<lambda>(b, len, u). (b, len, u)) bs) (endblocks h)"
  proof (rule tile_blocks_map[OF t(3)])
    fix b len u
    assume b: "(b, len, u) \<in> set bs"
    then have "blk_hdr m' (b, len, u) = blk_hdr (addr h) (b, len, u)"
      using room_block[OF r, of b len u] by (intro blk_hdr_cong m) auto
    then show "blk_hdr m' (b, len, u)" using tile_blocks_hdr[OF t(3) b] by simp
  qed
  then show "tile_blocks m' (p + 32) bs (endblocks h)" by (simp add: case_prod_beta)
qed

lemma room_valid:
  assumes "room h pre p ps bs"
  shows "IS_VALID_BLOCK h x \<longleftrightarrow> (\<exists>len. (x, len, True) \<in> set (blocks_of (pre @ [(p, ps, bs)])))"
proof -
  have bo: "bitmap_ok h (pre @ [(p, ps, bs)])" and e: "endblocks h \<le> hsize h"
    using assms by (auto simp: room_def)
  have "0x1000 \<le> x \<and> x < hsize h \<and> x mod 4 = 0"
    if "(x, len, True) \<in> set (blocks_of (pre @ [(p, ps, bs)]))" for len
    using room_block[OF assms that] e by linarith
  then show ?thesis using bo in_bitmap[of "bitmap h" "hsize h" x]
    by (auto simp: IS_VALID_BLOCK_def bitmap_ok_def simp del: blocks_of_simps)
qed

lemma place_wf:
  fixes h n bid
  defines "eb \<equiv> endblocks h"
  defines "h' \<equiv> h\<lparr>addr := placed (addr h) eb n bid (endpages h),
    bitmap := BITMAP_SET (bitmap h) eb, endblocks := eb + n\<rparr>"
  assumes r: "room h pre p ps bs" and n: "8 \<le> n" "n mod 8 = 0" "n < 2 ^ 31" and bid: "length bid = 2"
    and fit: "eb + n \<le> endpages h"
  shows "hive_wf h' (pre @ [(p, ps, bs @ (eb, n, True) # tail_free (eb + n) (endpages h))])"
proof -
  let ?ep = "endpages h" and ?m = "addr h'"
  have ep8: "?ep mod 8 = 0"
  proof -
    have "0x1000 dvd ?ep" using room_bounds(3)[OF r] by (simp add: dvd_eq_mod_eq_0)
    moreover have "(8::nat) dvd 0x1000" by simp
    ultimately show ?thesis by (metis dvd_trans dvd_eq_mod_eq_0)
  qed
  have eb8: "eb mod 8 = 0" and ebs: "?ep < eb + 2 ^ 31" "?ep \<le> hsize h" "p + ps = ?ep"
    using r by (auto simp: room_def eb_def)
  have rem: "(?ep - (eb + n)) mod 8 = 0"
    using ep8 eb8 n(2) by (metis dvd_add dvd_diff_nat dvd_eq_mod_eq_0)
  have far: "eb + n + 4 \<le> ?ep \<or> ?ep \<le> eb + n" using rem by presburger
  have out: "?m i = addr h i" if "i < eb" for i
    unfolding h'_def using that placed_outside[OF _ bid n(1) far] by simp
  note fr = room_frame[OF r out[unfolded eb_def]]
  have hd: "blk_hdr ?m (eb, n, True)"
  proof -
    have "sint (get32 ?m eb) = - int n"
      unfolding h'_def using placed_header[OF n(1) bid n(3)] sint_neg_of_nat[OF n(3)] by simp
    moreover have "n mod 4 = 0" "4 < n" using n by presburger+
    ultimately show ?thesis using n by (simp add: blk_hdr_def)
  qed
  have tl: "tile_blocks ?m (eb + n) (tail_free (eb + n) ?ep) ?ep"
  proof (cases "eb + n < ?ep")
    case True
    then have "sint (get32 ?m (eb + n)) = int (?ep - (eb + n))"
      unfolding h'_def using placed_tail[OF True] sint_of_nat[of "?ep - (eb + n)"] ebs by simp
    moreover have "(?ep - (eb + n)) mod 4 = 0" "4 < ?ep - (eb + n)" using rem True by presburger+
    ultimately show ?thesis using True ebs(1) by (auto simp: tail_free_def blk_hdr_def)
  next
    case False
    with fit show ?thesis by (simp add: tail_free_def)
  qed
  have tile: "tile_pages ?m 0x1000 (pre @ [(p, ps, bs @ (eb, n, True) # tail_free (eb + n) ?ep)]) ?ep"
    using fr hd tl ebs(3) by (auto simp: tile_pages_append tile_blocks_append eb_def)
  have len: "length (bitmap h) = 1 + hsize h div 32" using r by (simp add: room_def bitmap_ok_def)
  have ebh: "eb < hsize h" using fit n(1) ebs(2) by linarith
  have eb4: "eb mod 4 = 0" using eb8 by presburger
  have "bitmap_ok h' (pre @ [(p, ps, bs @ (eb, n, True) # tail_free (eb + n) ?ep)])"
  proof -
    have "BITMAP_TST (bitmap h') off \<longleftrightarrow> off = eb \<or> BITMAP_TST (bitmap h) off" if "off mod 4 = 0" for off
      unfolding h'_def
      using bm.member_add_aligned[OF in_bitmap[OF len ebh] eb4 that] by simp
    moreover have "bitmap_ok h (pre @ [(p, ps, bs)])" using r by (simp add: room_def)
    moreover have "hsize h' = hsize h" "length (bitmap h') = length (bitmap h)"
      "bitmap_slots (bitmap h') = bitmap_slots (bitmap h)" by (simp_all add: h'_def)
    ultimately show ?thesis by (auto simp: bitmap_ok_def tail_free_def)
  qed
  moreover have "endblocks_ok h' (pre @ [(p, ps, bs @ (eb, n, True) # tail_free (eb + n) ?ep)])"
    using fit n eb8 add_mod_0[OF eb8 n(2)] unfolding endblocks_ok_def h'_def
    by (auto intro!: exI[of _ pre] exI[of _ "bs @ [(eb, n, True)]"])
  ultimately show ?thesis
    using tile ebs(2) by (simp add: hive_wf_def h'_def)
qed

definition page_count :: "nat \<Rightarrow> nat" where
  "page_count n = 1 + (n + 31) div 4096"

lemma page_count: "n + 32 \<le> page_count n * 4096" "page_count n * 4096 \<le> n + 4127"
proof -
  have "(n + 31) div 4096 * 4096 + (n + 31) mod 4096 = n + 31" by (rule div_mult_mod_eq)
  moreover have "(n + 31) mod 4096 < 4096" by simp
  ultimately show "n + 32 \<le> page_count n * 4096" "page_count n * 4096 \<le> n + 4127"
    by (simp_all add: page_count_def algebra_simps)
qed

lemma allocate_page_eq:
  fixes h n
  defines "newend \<equiv> endpages h + page_count n * 4096"
  defines "h2 \<equiv> (if hsize h < newend
    then h\<lparr>hsize := newend, addr := memset0 (addr h) (hsize h) (newend - hsize h),
      bitmap := bitmap h @ replicate (newend div 32 - hsize h div 32) 0, endpages := newend\<rparr>
    else h\<lparr>endpages := newend\<rparr>)"
  shows "allocate_page n h =
    (Ok (endpages h + 32),
     h2\<lparr>addr := put_bytes (put32 (put32 (put_bytes (addr h2) (endpages h) id_hbin)
       (endpages h + 4) (of_nat (endpages h) - 0x1000))
       (endpages h + 8) (of_nat (page_count n * 4096))) (endpages h + 12) (replicate 20 0)\<rparr>)"
proof -
  have pc: "1 + (n + sizeof ntreg_hbin_page - 1) div 4096 = page_count n" by (simp add: page_count_def)
  have "n + 32 \<le> page_count n * 4096" by (rule page_count)
  then have ne: "endpages h + 32 \<le> newend" by (simp add: newend_def)
  have st: "(if 0 < int newend - int (hsize h)
      then h\<lparr>hsize := hsize h + nat (int newend - int (hsize h)),
        addr := memset0 (addr h) (hsize h) (hsize h + nat (int newend - int (hsize h)) - hsize h),
        bitmap := bitmap h @ replicate ((1 + (hsize h + nat (int newend - int (hsize h))) div 32)
          - (1 + hsize h div 32)) 0\<rparr>
      else h)\<lparr>endpages := newend\<rparr> = h2"
    by (simp add: h2_def nat_diff_distrib')
  have hb: "length id_hbin = 4" by (simp add: id_hbin_def)
  have sz: "endpages h + 32 \<le> hsize h2" using ne by (auto simp: h2_def)
  show ?thesis
    unfolding allocate_page_def Let_def pc newend_def[symmetric] st
    using sz hb by (simp add: sbind_def wr_in)
qed

lemma allocate_page_room:
  assumes w: "hive_wf h pgs" and n: "n < 2 ^ 20"
  obtains h1 where "allocate_page n h = (Ok (endpages h + 32), h1)"
    "room (h1\<lparr>endblocks := endpages h + 32\<rparr>) pgs (endpages h) (page_count n * 4096) []"
    "endpages h1 = endpages h + page_count n * 4096" "hsize h \<le> hsize h1"
    "\<And>i. i < endpages h \<Longrightarrow> addr h1 i = addr h i"
    "writable h1 = writable h" "rootoffs h1 = rootoffs h" "filename h1 = filename h"
    "last_modified h1 = last_modified h"
proof -
  let ?ep = "endpages h" and ?ps = "page_count n * 4096"
  define newend where "newend = ?ep + ?ps"
  define h2 where "h2 = (if hsize h < newend
    then h\<lparr>hsize := newend, addr := memset0 (addr h) (hsize h) (newend - hsize h),
      bitmap := bitmap h @ replicate (newend div 32 - hsize h div 32) 0, endpages := newend\<rparr>
    else h\<lparr>endpages := newend\<rparr>)"
  define m where "m = put_bytes (put32 (put32 (put_bytes (addr h2) ?ep id_hbin) (?ep + 4) (of_nat ?ep - 0x1000))
    (?ep + 8) (of_nat ?ps)) (?ep + 12) (replicate 20 0)"
  let ?h1 = "h2\<lparr>addr := m\<rparr>"
  have pc: "n + 32 \<le> ?ps" "?ps \<le> n + 4127" by (rule page_count)+
  have ep: "?ep \<le> hsize h" and t: "tile_pages (addr h) 0x1000 pgs ?ep" using w by (simp_all add: hive_wf_def)
  have hb: "length id_hbin = 4" by (simp add: id_hbin_def)
  have low: "m i = addr h i" if "i < ?ep" for i
    using that ep by (auto simp: m_def h2_def put_bytes_def put_frames memset0_def hb)
  have "tile_pages m 0x1000 pgs ?ep"
  proof (rule tile_pages_cong[OF t])
    show "m i = addr h i" if "(q, qs, cs) \<in> set pgs" "q \<le> i" "i < q + 32" for q qs cs i
      using consec_bounds[OF tile_pages_consec[OF t] page_in_spans[OF that(1)]] that by (intro low) auto
    show "m i = addr h i" if "(b, len, u) \<in> set (blocks_of pgs)" "b \<le> i" "i < b + 4" for b len u i
      using hive_wf_block(2,6)[OF w that(1)] that(2,3) by (intro low) auto
  qed
  moreover have "page_hdr m ?ep ?ps"
  proof -
    have "get_bytes m ?ep 4 = get_bytes (put_bytes (addr h2) ?ep id_hbin) ?ep 4"
      by (rule get_bytes_cong) (auto simp: m_def put_bytes_outside put_frames)
    also have "\<dots> = id_hbin" using get_put_bytes_prefix[of 4 id_hbin] by (simp add: hb)
    finally have "get_bytes m ?ep 4 = id_hbin" .
    moreover have "?ps < 2 ^ 32" using pc n by simp
    then have "unat (get32 m (?ep + 8)) = ?ps"
      by (simp add: m_def mem_frame unat_of_nat take_bit_nat_def del: of_nat_mult)
    ultimately show ?thesis using pc by (simp add: page_hdr_def page_count_def)
  qed
  moreover have "bitmap_ok (?h1\<lparr>endblocks := ?ep + 32\<rparr>) (pgs @ [(?ep, ?ps, [])])"
  proof -
    have bo: "bitmap_ok h pgs" using w by (simp add: hive_wf_def)
    show ?thesis
    proof (cases "hsize h < newend")
      case False
      with bo show ?thesis by (simp add: bitmap_ok_def h2_def)
    next
      case True
      let ?k = "newend div 32 - hsize h div 32"
      have len: "length (bitmap h) = 1 + hsize h div 32" using bo by (simp add: bitmap_ok_def)
      have le: "hsize h div 32 \<le> newend div 32" using True by (simp add: div_le_mono)
      have bm: "bitmap h2 = bitmap h @ replicate ?k 0" "hsize h2 = newend" using True by (simp_all add: h2_def)
      have "BITMAP_TST (bitmap h2) off \<longleftrightarrow> (\<exists>len. (off, len, True) \<in> set (blocks_of pgs))"
        if o: "off mod 4 = 0" "off div 4 < bitmap_slots (bitmap h2)" for off
      proof (cases "off div 4 < bitmap_slots (bitmap h)")
        case True
        then show ?thesis using bo o(1) by (simp add: bm BITMAP_TST_extend bitmap_ok_def)
      next
        case False
        then have "\<not> BITMAP_TST (bitmap h2) off"
          using o(2) unfolding bm by (intro BITMAP_TST_zeros) (simp_all add: bitmap_slots_def)
        moreover have "(off, len', True) \<notin> set (blocks_of pgs)" for len'
        proof
          assume b: "(off, len', True) \<in> set (blocks_of pgs)"
          have "off < hsize h" using hive_wf_block(4,6)[OF w b] by linarith
          with False in_bitmap[OF len] show False by blast
        qed
        ultimately show ?thesis by blast
      qed
      then show ?thesis using le len by (simp add: bitmap_ok_def bm)
    qed
  qed
  ultimately have "room (?h1\<lparr>endblocks := ?ep + 32\<rparr>) pgs ?ep ?ps []"
    using pc n tile_pages_aligned[OF t] by (auto simp: room_def h2_def newend_def)
  moreover have "allocate_page n h = (Ok (?ep + 32), ?h1)"
    unfolding allocate_page_eq m_def h2_def newend_def ..
  ultimately show ?thesis
    by (intro that[of ?h1] low) (auto simp: h2_def newend_def low)
qed

section \<open>The contract of the allocator\<close>

text \<open>
  What every writing operation leaves alone (the file header and the fields that describe it; the
  file and its pages only grow), and a block whose bytes are unchanged.
\<close>

definition same_handle :: "hive \<Rightarrow> hive \<Rightarrow> bool" where
  "same_handle h h' \<longleftrightarrow>
     writable h' = writable h \<and> rootoffs h' = rootoffs h \<and> filename h' = filename h \<and>
     last_modified h' = last_modified h \<and> (\<forall>i < 0x1000. addr h' i = addr h i) \<and>
     hsize h \<le> hsize h' \<and> endpages h \<le> endpages h'"

definition kept :: "hive \<Rightarrow> hive \<Rightarrow> nat \<Rightarrow> bool" where
  "kept h h' b \<longleftrightarrow> (\<forall>i. b \<le> i \<longrightarrow> i < b + blen h b \<longrightarrow> addr h' i = addr h i)"

definition fresh_byte :: "byte list \<Rightarrow> nat \<Rightarrow> byte" where
  "fresh_byte bid i = (if bid ! 0 \<noteq> 0 \<and> bid ! 1 \<noteq> 0 \<and> (i = 4 \<or> i = 5) then bid ! (i - 4) else 0)"

definition alloc_post :: "hive \<Rightarrow> nat \<Rightarrow> byte list \<Rightarrow> nat \<Rightarrow> hive \<Rightarrow> bool" where
  "alloc_post h n bid off h' \<longleftrightarrow>
     hive_ok h' \<and> same_handle h h' \<and> \<not> IS_VALID_BLOCK h off \<and>
     (\<forall>x. IS_VALID_BLOCK h' x \<longleftrightarrow> x = off \<or> IS_VALID_BLOCK h x) \<and>
     blen h' off = round8 n \<and>
     (\<forall>i. 4 \<le> i \<longrightarrow> i < round8 n \<longrightarrow> addr h' (off + i) = fresh_byte bid i) \<and>
     (\<forall>b. IS_VALID_BLOCK h b \<longrightarrow> kept h h' b)"

lemma same_handle_refl [simp]: "same_handle h h"
  by (simp add: same_handle_def)

lemma same_handle_trans [trans]: "same_handle h h1 \<Longrightarrow> same_handle h1 h2 \<Longrightarrow> same_handle h h2"
  by (auto simp: same_handle_def)

lemma keptD: "kept h h' b \<Longrightarrow> b \<le> i \<Longrightarrow> i < b + blen h b \<Longrightarrow> addr h' i = addr h i"
  by (simp add: kept_def)

lemma kept_refl [simp]: "kept h h b"
  by (simp add: kept_def)

lemma kept_load:
  assumes "kept h h' b" and "b \<le> a"
  shows "a + 2 \<le> b + blen h b \<Longrightarrow> get16 (addr h') a = get16 (addr h) a"
    "a + 4 \<le> b + blen h b \<Longrightarrow> get32 (addr h') a = get32 (addr h) a"
    "a + 8 \<le> b + blen h b \<Longrightarrow> get64 (addr h') a = get64 (addr h) a"
    "a + n \<le> b + blen h b \<Longrightarrow> get_bytes (addr h') a n = get_bytes (addr h) a n"
  using assms
  by (auto intro!: st16.load_cong st32.load_cong st64.load_cong get_bytes_cong elim!: keptD)

lemma kept_blen: "kept h h' b \<Longrightarrow> 4 \<le> blen h b \<Longrightarrow> blen h' b = blen h b"
  using kept_load(2)[of h h' b b] by (simp add: blen_def)

lemma kept_trans: "kept h h1 b \<Longrightarrow> kept h1 h2 b \<Longrightarrow> 4 \<le> blen h b \<Longrightarrow> kept h h2 b"
  using kept_blen[of h h1 b] by (simp add: kept_def)

lemma placed_fresh:
  assumes "8 \<le> n" and "length bid = 2" and "4 \<le> i" and "i < n" 
  shows "placed m eb n bid ep (eb + i) = fresh_byte bid i"
proof -
  have "i = 4 \<or> i = 5 \<or> 6 \<le> i" using assms(3) by linarith
  then show ?thesis
    using assms by (auto simp: placed_def Let_def fresh_byte_def mem_frame put_bytes_def)
qed

lemma place_post:
  assumes r: "room h pre p ps bs" and n: "8 \<le> n" "n mod 8 = 0" "n < 2 ^ 31" "round8 k = n"
    and bid: "length bid = 2" and fit: "endblocks h + n \<le> endpages h"
  obtains h' where "place_block n bid h = (Ok (endblocks h), h')" "alloc_post h k bid (endblocks h) h'"
proof -
  let ?eb = "endblocks h" and ?ep = "endpages h"
  let ?h' = "h\<lparr>addr := placed (addr h) ?eb n bid ?ep, bitmap := BITMAP_SET (bitmap h) ?eb, endblocks := ?eb + n\<rparr>"
  note rb = room_bounds[OF r]
  have ep8: "?ep mod 8 = 0"
  proof -
    have "0x1000 dvd ?ep" using rb(3) by (simp add: dvd_eq_mod_eq_0)
    moreover have "(8::nat) dvd 0x1000" by simp
    ultimately show ?thesis by (metis dvd_trans dvd_eq_mod_eq_0)
  qed
  have eb8: "?eb mod 8 = 0" and ep: "?ep \<le> hsize h" using r by (auto simp: room_def)
  have eq: "place_block n bid h = (Ok ?eb, ?h')"
    by (rule place_block_eq) (use n(1,2) bid fit ep eb8 ep8 in auto)
  have "(?ep - (?eb + n)) mod 8 = 0"
    using ep8 eb8 n(2) by (metis dvd_add dvd_diff_nat dvd_eq_mod_eq_0)
  then have "?ep \<le> ?eb + n \<or> 8 \<le> ?ep - (?eb + n)"
    by (cases "?ep - (?eb + n) = 0") (auto dest: mod_0_imp_dvd dvd_imp_le)
  then have far: "?eb + n + 4 \<le> ?ep \<or> ?ep \<le> ?eb + n" by linarith
  have low: "addr ?h' i = addr h i" if "i < ?eb" for i
    using placed_outside[OF disjI1[OF that] bid n(1) far] by simp
  have ok: "hive_ok ?h'"
    using place_wf[OF r n(1-3) bid fit] by (auto simp: hive_ok_def)
  have len: "length (bitmap h) = 1 + hsize h div 32" using r by (simp add: room_def bitmap_ok_def)
  have eb4: "?eb mod 4 = 0" using eb8 by presburger
  have ebh: "?eb < hsize h" "0x1000 \<le> ?eb" using fit n(1) ep rb by linarith+
  have v: "IS_VALID_BLOCK ?h' x \<longleftrightarrow> x = ?eb \<or> IS_VALID_BLOCK h x" for x
    using IS_VALID_BLOCK_SET[OF len eb4 ebh(2,1)] by (simp add: IS_VALID_BLOCK_def)
  have vb: "b + blen h b \<le> ?eb \<and> 0 < blen h b" if bv: "IS_VALID_BLOCK h b" for b
  proof -
    obtain l where l: "(b, l, True) \<in> set (blocks_of (pre @ [(p, ps, bs)]))"
      using bv unfolding room_valid[OF r] by blast
    have "(b, l, True) \<in> set (blocks_of pre) \<or> (b, l, True) \<in> set bs" using l by auto
    then have "blk_hdr (addr h) (b, l, True)"
      using r tile_pages_hdr tile_blocks_hdr unfolding room_def by blast
    then have "blen h b = l" by (auto simp: blk_hdr_def blen_def)
    with room_block[OF r l] show ?thesis by simp
  qed
  have "\<not> IS_VALID_BLOCK h ?eb" using vb[of ?eb] by auto
  moreover have "kept h ?h' b" if "IS_VALID_BLOCK h b" for b
    unfolding kept_def using vb[OF that] low by (metis less_le_trans)
  moreover have "blen ?h' ?eb = round8 k"
    using placed_header[OF n(1) bid n(3)] sint_neg_of_nat[OF n(3)] n(4) by (simp add: blen_def)
  moreover have "same_handle h ?h'" using ebh(2) low by (simp add: same_handle_def)
  moreover have "addr ?h' (?eb + i) = fresh_byte bid i" if "4 \<le> i" "i < round8 k" for i
    using that n(4) placed_fresh[OF n(1) bid] by simp
  ultimately have "alloc_post h k bid ?eb ?h'"
    using ok v unfolding alloc_post_def by blast
  with eq show ?thesis by (rule that)
qed

text \<open>An existing page with room, or a new one, is found for every admissible size.\<close>

lemma wf_room:
  assumes w: "hive_wf h pgs" and e: "endblocks h \<noteq> 0" and f: "endblocks h < endpages h"
  obtains pre p ps bs where "room h pre p ps bs"
proof -
  from w e obtain pre p ps bs where pg: "pgs = pre @ [(p, ps, bs @ tail_free (endblocks h) (endpages h))]"
    and eb: "endblocks h mod 8 = 0"
    by (auto simp: hive_wf_def endblocks_ok_def)
  have tf: "tail_free (endblocks h) (endpages h) = [(endblocks h, endpages h - endblocks h, False)]"
    using f by (simp add: tail_free_def)
  have t: "tile_pages (addr h) 0x1000 pre p" "page_hdr (addr h) p ps" "tile_blocks (addr h) (p + 32) bs (endblocks h)"
    "p + ps = endpages h" "endpages h - endblocks h < 2 ^ 31"
    using hive_wf_tile[OF w] unfolding pg tf
    by (auto simp: tile_pages_append tile_blocks_append blk_hdr_def)
  have "bitmap_ok h (pre @ [(p, ps, bs)])" "endpages h \<le> hsize h"
    using w unfolding hive_wf_def pg tf by (auto simp: bitmap_ok_def)
  with t f eb have "room h pre p ps bs" by (auto simp: room_def)
  then show ?thesis by (rule that)
qed

lemma round8_max: "n \<le> HIVEX_MAX_ALLOCATION \<Longrightarrow> round8 n < 2 ^ 20"
  using round8(2)[of n] by (simp add: HIVEX_MAX_ALLOCATION_def)

lemma allocate_block_in_room:
  assumes "room h pre p ps bs" and n: "4 \<le> n" "n \<le> HIVEX_MAX_ALLOCATION" and bid: "length bid = 2"
    and fit: "endblocks h + round8 n \<le> endpages h"
  obtains off h' where "place_block (round8 n) bid h = (Ok off, h')" "alloc_post h n bid off h'"
    "off = endblocks h"
proof -
  have "round8 n < 2 ^ 31" using round8_max[OF n(2)] by simp
  from place_post[OF assms(1) round8(4)[OF n(1)] round8(3)[of n] this refl bid fit] that
  show ?thesis by metis
qed

lemma alloc_post_page:
  assumes h: "hive_ok h" and ep: "hsize h \<le> hsize h1" "\<And>i. i < endpages h \<Longrightarrow> addr h1 i = addr h i"
    and s: "writable h1 = writable h" "rootoffs h1 = rootoffs h" "filename h1 = filename h"
      "last_modified h1 = last_modified h" "0x1000 \<le> endpages h" "endpages h \<le> endpages h1"
    and v: "\<And>x. IS_VALID_BLOCK h1 x \<longleftrightarrow> IS_VALID_BLOCK h x"
    and post: "alloc_post h1 n bid off h'"
  shows "alloc_post h n bid off h'"
proof -
  have k: "kept h h1 b" "4 \<le> blen h b" if "IS_VALID_BLOCK h b" for b
    using hive_ok_valid[OF h that] ep(2) by (auto simp: kept_def)
  have "same_handle h h1" using s ep by (simp add: same_handle_def)
  moreover have "kept h h' b" if "IS_VALID_BLOCK h b" for b
    using k[OF that] post that v kept_trans unfolding alloc_post_def by blast
  ultimately show ?thesis
    using post v same_handle_trans unfolding alloc_post_def by blast
qed

lemma allocate_block_post:
  assumes h: "hive_ok h" and w: "writable h" and n: "4 \<le> n" "n \<le> HIVEX_MAX_ALLOCATION"
    and bid: "length bid = 2"
  obtains off h' where "allocate_block n bid h = (Ok off, h')" "alloc_post h n bid off h'"
proof -
  obtain pgs where wf: "hive_wf h pgs" using h by (auto simp: hive_ok_def)
  have le: "\<not> n < 4" "\<not> HIVEX_MAX_ALLOCATION < n" using n by simp_all
  show ?thesis
  proof (cases "endblocks h = 0 \<or> endpages h < endblocks h + round8 n")
    case False
    then have fit: "endblocks h + round8 n \<le> endpages h" "endblocks h \<noteq> 0" by auto
    moreover have "8 \<le> round8 n" using round8(4)[OF n(1)] .
    ultimately have "endblocks h < endpages h" by linarith
    with wf fit(2) obtain pre p ps bs where "room h pre p ps bs" using wf_room by blast
    then obtain off h' where "place_block (round8 n) bid h = (Ok off, h')" "alloc_post h n bid off h'"
      using allocate_block_in_room[OF _ n bid fit(1)] by blast
    with that show ?thesis using w le False by (simp add: allocate_block_def)
  next
    case True
    let ?r = "round8 n"
    obtain h1 where p: "allocate_page ?r h = (Ok (endpages h + 32), h1)"
      "room (h1\<lparr>endblocks := endpages h + 32\<rparr>) pgs (endpages h) (page_count ?r * 4096) []"
      "endpages h1 = endpages h + page_count ?r * 4096" "hsize h \<le> hsize h1"
      "\<And>i. i < endpages h \<Longrightarrow> addr h1 i = addr h i"
      "writable h1 = writable h" "rootoffs h1 = rootoffs h" "filename h1 = filename h"
      "last_modified h1 = last_modified h"
      using allocate_page_room[OF wf round8_max[OF n(2)]] by metis
    let ?h1 = "h1\<lparr>endblocks := endpages h + 32\<rparr>"
    have "endblocks ?h1 + ?r \<le> endpages ?h1" using page_count(1)[of ?r] p(3) by simp
    then obtain off h' where q: "place_block ?r bid ?h1 = (Ok off, h')" "alloc_post ?h1 n bid off h'"
      using allocate_block_in_room[OF p(2) n bid] by blast
    have v: "IS_VALID_BLOCK ?h1 x \<longleftrightarrow> IS_VALID_BLOCK h x" for x
      unfolding room_valid[OF p(2)] IS_VALID_BLOCK_iff[OF wf] by simp
    have "alloc_post h n bid off h'"
      by (rule alloc_post_page[OF h _ _ _ _ _ _ _ _ v q(2)])
        (use p room_bounds(1)[OF p(2)] in auto)
    moreover have "allocate_block n bid h = (Ok off, h')"
      using w le True p(1) q(1) by (simp add: allocate_block_def sbind_def)
    ultimately show ?thesis using that by blast
  qed
qed

section \<open>The contract of freeing\<close>

definition free_post :: "hive \<Rightarrow> nat \<Rightarrow> hive \<Rightarrow> bool" where
  "free_post h off h' \<longleftrightarrow>
     hive_ok h' \<and> same_handle h h' \<and> hsize h' = hsize h \<and>
     (\<forall>x. IS_VALID_BLOCK h' x \<longleftrightarrow> x \<noteq> off \<and> IS_VALID_BLOCK h x) \<and>
     (\<forall>i. i < off \<or> off + 4 \<le> i \<longrightarrow> addr h' i = addr h i)"

lemma blocks_of_map:
  "blocks_of (map (\<lambda>(p, ps, bs). (p, ps, map g bs)) pgs) = map g (blocks_of pgs)"
  by (induction pgs) auto

lemma mark_block_unused_post:
  assumes h: "hive_ok h" and w: "writable h" and v: "IS_VALID_BLOCK h off"
  obtains h' where "mark_block_unused off h = (Ok (), h')" "free_post h off h'"
proof -
  obtain pgs where wf: "hive_wf h pgs" using h by (auto simp: hive_ok_def)
  note b = hive_wf_valid[OF wf v]
  note bl = hive_wf_block[OF wf b]
  let ?m = "put32 (addr h) off (of_nat (blen h off))"
  let ?h' = "h\<lparr>addr := ?m, bitmap := BITMAP_CLR (bitmap h) off\<rparr>"
  let ?f = "\<lambda>c u. u \<and> c \<noteq> off"
  let ?pgs = "map (\<lambda>(p, ps, bs). (p, ps, map (\<lambda>(b, len, u). (b, len, ?f b u)) bs)) pgs"
  have offh: "off < hsize h" "off + 4 \<le> hsize h" using bl(4,6) by linarith+
  have eq: "mark_block_unused off h = (Ok (), ?h')"
    using w v bl(9) offh by (simp add: mark_block_unused_def sbind_def wr_in)
  have out: "?m i = addr h i" if "i < off \<or> off + 4 \<le> i" for i using that by (rule put_frames)
  note t = hive_wf_tile[OF wf]
  have "tile_pages ?m 0x1000 ?pgs (endpages h)"
  proof (rule tile_pages_map[OF t])
    fix p ps bs
    assume p: "(p, ps, bs) \<in> set pgs" "page_hdr (addr h) p ps"
    have "page_hdr ?m p ps = page_hdr (addr h) p ps"
      using tile_page_block_apart[OF t p(1) b] bl(6) by (intro page_hdr_cong out) auto
    with p(2) show "page_hdr ?m p ps" by simp
  next
    fix c len u
    assume c: "(c, len, u) \<in> set (blocks_of pgs)"
    show "blk_hdr ?m (c, len, ?f c u)"
    proof (cases "c = off")
      case True
      have "len = blen h off" using hive_wf_block(5)[OF wf c] True by simp
      then show ?thesis using True bl(6,7,8) sint_of_nat[OF bl(8)] by (simp add: blk_hdr_def)
    next
      case False
      then have "c + len \<le> off \<or> off + blen h off \<le> c"
        using consec_disjoint[OF tile_pages_consec[OF t] block_in_spans[OF c] block_in_spans[OF b]] by auto
      then have "blk_hdr ?m (c, len, u) = blk_hdr (addr h) (c, len, u)"
        using hive_wf_block(6)[OF wf c] bl(6) by (intro blk_hdr_cong out) auto
      with False tile_pages_hdr[OF t c] show ?thesis by simp
    qed
  qed
  moreover have blk: "(x, len, u) \<in> set (blocks_of ?pgs) \<longleftrightarrow>
      (\<exists>u'. (x, len, u') \<in> set (blocks_of pgs) \<and> u = ?f x u')" for x len u
    unfolding blocks_of_map by force
  have len: "length (bitmap h) = 1 + hsize h div 32" using wf by (simp add: hive_wf_def bitmap_ok_def)
  have "bitmap_ok ?h' ?pgs"
    using wf bm.member_remove_aligned[OF in_bitmap[OF len offh(1)] bl(3)] len
    unfolding hive_wf_def bitmap_ok_def blk by auto
  moreover have "endblocks_ok ?h' ?pgs"
    using wf unfolding hive_wf_def endblocks_ok_def tail_free_def by (auto split: if_splits)
  ultimately have "hive_wf ?h' ?pgs" using wf by (simp add: hive_wf_def)
  moreover have "IS_VALID_BLOCK ?h' x \<longleftrightarrow> x \<noteq> off \<and> IS_VALID_BLOCK h x" for x
    using IS_VALID_BLOCK_CLR[OF len bl(3) offh(1)] by (simp add: IS_VALID_BLOCK_def)
  moreover have "same_handle h ?h'" using out bl(1) by (simp add: same_handle_def)
  ultimately have "free_post h off ?h'" using out by (auto simp: free_post_def hive_ok_def)
  with eq show ?thesis by (rule that)
qed

lemma free_post_kept:
  assumes "hive_ok h" and "free_post h off h'" and "IS_VALID_BLOCK h off" "IS_VALID_BLOCK h b" "b \<noteq> off"
  shows "kept h h' b"
proof -
  have "b + blen h b \<le> off \<or> off + blen h off \<le> b" "8 \<le> blen h off"
    using hive_ok_disjoint[OF assms(1,4,3,5)] hive_ok_valid(4)[OF assms(1,3)] by auto
  then show ?thesis using assms(2) by (auto simp: kept_def free_post_def)
qed

section \<open>The interface of a block heap\<close>

locale block_heap =
  fixes inv :: "'s \<Rightarrow> bool"
    and valid :: "'s \<Rightarrow> nat \<Rightarrow> bool"
    and keep :: "'s \<Rightarrow> 's \<Rightarrow> nat \<Rightarrow> bool"
    and frame :: "'s \<Rightarrow> 's \<Rightarrow> bool"
    and fits :: "'r \<Rightarrow> bool"
    and alloc :: "'r \<Rightarrow> ('s, nat) op"
    and free :: "nat \<Rightarrow> ('s, unit) op"
  assumes alloc_law: "inv s \<Longrightarrow> fits r \<Longrightarrow>
      \<exists>b s'. alloc r s = (Ok b, s') \<and> inv s' \<and> \<not> valid s b \<and>
        (\<forall>x. valid s' x \<longleftrightarrow> x = b \<or> valid s x) \<and> (\<forall>x. valid s x \<longrightarrow> keep s s' x) \<and> frame s s'"
    and free_law: "inv s \<Longrightarrow> valid s b \<Longrightarrow>
      \<exists>s'. free b s = (Ok (), s') \<and> inv s' \<and> (\<forall>x. valid s' x \<longleftrightarrow> x \<noteq> b \<and> valid s x) \<and>
        (\<forall>x. valid s' x \<longrightarrow> keep s s' x) \<and> frame s s'"
    and keep_trans: "inv s \<Longrightarrow> valid s x \<Longrightarrow> keep s s' x \<Longrightarrow> keep s' s'' x \<Longrightarrow> keep s s'' x"
    and keep_refl: "keep s s x"
    and frame_trans: "frame s s' \<Longrightarrow> frame s' s'' \<Longrightarrow> frame s s''"
    and frame_refl: "frame s s"
begin

primrec alloc_all :: "'r list \<Rightarrow> ('s, nat list) op" where
  "alloc_all [] = sret []"
| "alloc_all (r # rs) = sbind (alloc r) (\<lambda>b. sbind (alloc_all rs) (\<lambda>bs. sret (b # bs)))"

text \<open>Any sequence of allocations gives distinct new blocks and disturbs none of the old ones.\<close>

lemma alloc_all_law:
  assumes "inv s" and "\<forall>r \<in> set rs. fits r"
  shows "\<exists>bs s'. alloc_all rs s = (Ok bs, s') \<and> inv s' \<and> length bs = length rs \<and> distinct bs \<and>
    (\<forall>b \<in> set bs. \<not> valid s b) \<and> (\<forall>x. valid s' x \<longleftrightarrow> x \<in> set bs \<or> valid s x) \<and>
    (\<forall>x. valid s x \<longrightarrow> keep s s' x) \<and> frame s s'"
  using assms
proof (induction rs arbitrary: s)
  case Nil
  then show ?case by (simp add: keep_refl frame_refl)
next
  case (Cons r rs)
  have f: "fits r" using Cons.prems(2) by simp
  obtain b s1 where b: "alloc r s = (Ok b, s1)" "inv s1" "\<not> valid s b"
    "\<And>x. valid s1 x \<longleftrightarrow> x = b \<or> valid s x" "\<And>x. valid s x \<Longrightarrow> keep s s1 x" "frame s s1"
    using alloc_law[OF Cons.prems(1) f] by blast
  obtain bs s2 where bs: "alloc_all rs s1 = (Ok bs, s2)" "inv s2" "length bs = length rs" "distinct bs"
    "\<forall>b \<in> set bs. \<not> valid s1 b" "\<forall>x. valid s2 x \<longleftrightarrow> x \<in> set bs \<or> valid s1 x"
    "\<forall>x. valid s1 x \<longrightarrow> keep s1 s2 x" "frame s1 s2"
    using Cons.IH[OF b(2)] Cons.prems(2) by auto
  have "keep s s2 x" if "valid s x" for x
    using keep_trans[OF Cons.prems(1) that b(5)[OF that]] bs(7) b(4) that by blast
  moreover have "alloc_all (r # rs) s = (Ok (b # bs), s2)" using b(1) bs(1) by (simp add: sbind_def)
  moreover have "b \<notin> set bs" using bs(5) b(4) by blast
  moreover have "frame s s2" using frame_trans[OF b(6) bs(8)] .
  ultimately show ?case using b(3,4) bs(2-6) by (intro exI[of _ "b # bs"] exI[of _ s2]) auto
qed

text \<open>Freeing a list of distinct used blocks frees just those.\<close>

lemma free_all_law:
  assumes "inv s" and "distinct bs" and "\<forall>b \<in> set bs. valid s b"
  shows "\<exists>s'. sfor free bs s = (Ok (), s') \<and> inv s' \<and>
    (\<forall>x. valid s' x \<longleftrightarrow> x \<notin> set bs \<and> valid s x) \<and> (\<forall>x. valid s' x \<longrightarrow> keep s s' x) \<and> frame s s'"
  using assms
proof (induction bs arbitrary: s)
  case Nil
  then show ?case by (simp add: keep_refl frame_refl)
next
  case (Cons b bs)
  have vb: "valid s b" using Cons.prems(3) by simp
  obtain s1 where s1: "free b s = (Ok (), s1)" "inv s1"
    "\<And>x. valid s1 x \<longleftrightarrow> x \<noteq> b \<and> valid s x" "\<And>x. valid s1 x \<Longrightarrow> keep s s1 x" "frame s s1"
    using free_law[OF Cons.prems(1) vb] by blast
  have d: "distinct bs" "b \<notin> set bs" using Cons.prems(2) by simp_all
  then have "\<forall>c \<in> set bs. valid s1 c" using s1(3) Cons.prems(3) by auto
  from Cons.IH[OF s1(2) d(1) this] obtain s2 where s2: "sfor free bs s1 = (Ok (), s2)" "inv s2"
    "\<forall>x. valid s2 x \<longleftrightarrow> x \<notin> set bs \<and> valid s1 x" "\<forall>x. valid s2 x \<longrightarrow> keep s1 s2 x"
    "frame s1 s2"
    by blast
  have "keep s s2 x" if "valid s2 x" for x
    using keep_trans[OF Cons.prems(1)] s1(3,4) s2(3,4) that by blast
  moreover have "sfor free (b # bs) s = (Ok (), s2)" using s1(1) s2(1) by (simp add: sbind_def)
  moreover have "frame s s2" using frame_trans[OF s1(5) s2(5)] .
  ultimately show ?case using s1(3) s2 by (intro exI[of _ s2]) auto
qed

end

text \<open>A request is a size and a block id; the invariant of the heap is a well-formed, writable handle.\<close>

definition heap_inv :: "hive \<Rightarrow> bool" where
  "heap_inv h \<longleftrightarrow> hive_ok h \<and> writable h"

definition request_ok :: "nat \<times> byte list \<Rightarrow> bool" where
  "request_ok = (\<lambda>(n, bid). 4 \<le> n \<and> n \<le> HIVEX_MAX_ALLOCATION \<and> length bid = 2)"

interpretation hp: block_heap heap_inv IS_VALID_BLOCK kept same_handle request_ok
  "\<lambda>(n, bid). allocate_block n bid" mark_block_unused
proof unfold_locales
  fix s r
  assume s: "heap_inv s" and "request_ok r"
  then obtain n bid where r: "r = (n, bid)" "4 \<le> n" "n \<le> HIVEX_MAX_ALLOCATION" "length bid = 2"
    by (auto simp: request_ok_def)
  from s have h: "hive_ok s" "writable s" by (auto simp: heap_inv_def)
  obtain off h' where a: "allocate_block n bid s = (Ok off, h')" "alloc_post s n bid off h'"
    using allocate_block_post[OF h r(2-4)] by blast
  have "heap_inv h'" using a(2) h by (simp add: alloc_post_def heap_inv_def same_handle_def)
  with a show "\<exists>b s'. (case r of (n, bid) \<Rightarrow> allocate_block n bid) s = (Ok b, s') \<and> heap_inv s' \<and>
      \<not> IS_VALID_BLOCK s b \<and> (\<forall>x. IS_VALID_BLOCK s' x \<longleftrightarrow> x = b \<or> IS_VALID_BLOCK s x) \<and>
      (\<forall>x. IS_VALID_BLOCK s x \<longrightarrow> kept s s' x) \<and> same_handle s s'"
    unfolding r(1) alloc_post_def by (intro exI[of _ off] exI[of _ h']) simp
next
  fix s b
  assume s: "heap_inv s" and v: "IS_VALID_BLOCK s b"
  from s have h: "hive_ok s" "writable s" by (auto simp: heap_inv_def)
  obtain h' where f: "mark_block_unused b s = (Ok (), h')" and p: "free_post s b h'"
    using mark_block_unused_post[OF h v] by blast
  have "heap_inv h'" using p h by (simp add: free_post_def heap_inv_def same_handle_def)
  moreover have vs: "IS_VALID_BLOCK h' x \<longleftrightarrow> x \<noteq> b \<and> IS_VALID_BLOCK s x" for x
    using p by (simp add: free_post_def)
  ultimately show "\<exists>s'. mark_block_unused b s = (Ok (), s') \<and> heap_inv s' \<and>
      (\<forall>x. IS_VALID_BLOCK s' x \<longleftrightarrow> x \<noteq> b \<and> IS_VALID_BLOCK s x) \<and>
      (\<forall>x. IS_VALID_BLOCK s' x \<longrightarrow> kept s s' x) \<and> same_handle s s'"
    using f p free_post_kept[OF h(1) p v] by (intro exI[of _ h']) (simp add: vs free_post_def)
next
  show "kept s s'' x" if "heap_inv s" "IS_VALID_BLOCK s x" "kept s s' x" "kept s' s'' x" for s s' s'' x
  proof (rule kept_trans[OF that(3,4)])
    have "8 \<le> blen s x" using hive_ok_valid(4)[of s x] that(1,2) by (simp add: heap_inv_def)
    then show "4 \<le> blen s x" by simp
  qed
next
  show "same_handle s s''" if "same_handle s s'" "same_handle s' s''" for s s' s''
    using that by (rule same_handle_trans)
qed simp_all

section \<open>Properties\<close>

text \<open>
  C10: on a well-formed writable handle \<^verbatim>\<open>allocate_block\<close> succeeds for every size from four
  bytes to \<^verbatim>\<open>HIVEX_MAX_ALLOCATION\<close>. The block it returns was not in use, is in use afterwards
  (and is the only block that became so), has the requested size rounded up to eight, holds the
  given id followed by zeros, and every block that was in use keeps all its bytes; the invariant
  and the file header are kept.
\<close>

theorem allocate_block_correct:
  assumes "hive_ok h" and "writable h" and "4 \<le> n" and "n \<le> HIVEX_MAX_ALLOCATION" and "length bid = 2"
  shows "\<exists>off h'. allocate_block n bid h = (Ok off, h') \<and> alloc_post h n bid off h'"
  using allocate_block_post[OF assms] by blast

text \<open>
  C21: \<^verbatim>\<open>mark_block_unused\<close> on a used block of a well-formed writable handle passes its
  assertions, keeps the invariant, takes exactly that block out of use and changes no byte other
  than the four of its length field.
\<close>

theorem mark_block_unused_correct:
  assumes "hive_ok h" and "writable h" and "IS_VALID_BLOCK h off"
  shows "\<exists>h'. mark_block_unused off h = (Ok (), h') \<and> free_post h off h'"
  using mark_block_unused_post[OF assms] by blast

text \<open>
  C20: any sequence of admissible allocations on a well-formed writable handle succeeds, yields
  pairwise different blocks none of which was in use before, and leaves the bytes of all blocks
  that were in use unchanged.
\<close>

theorem allocations_disjoint:
  assumes "hive_ok h" and "writable h" and "\<forall>r \<in> set rs. request_ok r"
  shows "\<exists>bs h'. hp.alloc_all rs h = (Ok bs, h') \<and> hive_ok h' \<and> length bs = length rs \<and> distinct bs \<and>
    (\<forall>b \<in> set bs. \<not> IS_VALID_BLOCK h b \<and> IS_VALID_BLOCK h' b) \<and>
    (\<forall>b. IS_VALID_BLOCK h b \<longrightarrow> IS_VALID_BLOCK h' b \<and> kept h h' b)"
  using hp.alloc_all_law[of h rs] assms unfolding heap_inv_def by blast

end
