(* ===== verification/Offset_List.thy ===== *)
theory Offset_List
  imports Prelude
begin

text \<open>
  \<^verbatim>\<open>struct offset_list\<close> of \<^verbatim>\<open>lib/hivex.c\<close>: the growing, zero-terminated arrays of offsets
  that \<^verbatim>\<open>get_children\<close> and \<^verbatim>\<open>get_values\<close> return. \<open>ol_offsets\<close> holds the cells filled so far
  (its length is the field \<^verbatim>\<open>len\<close>), \<open>ol_alloc\<close> the capacity; \<^verbatim>\<open>realloc\<close> is taken to succeed.

  The interface \<open>appender\<close> is a list that grows at its end; its client fact is that filling it
  element by element never fails and collects exactly the elements added.
\<close>

section \<open>The structure and its operations\<close>

record offset_list =
  ol_offsets :: "nat list"
  ol_alloc :: nat

definition init_offset_list :: offset_list where
  "init_offset_list = \<lparr>ol_offsets = [], ol_alloc = 0\<rparr>"

definition grow_offset_list :: "offset_list \<Rightarrow> nat \<Rightarrow> offset_list result" where
  "grow_offset_list l alloc =
     (if length (ol_offsets l) \<le> alloc then Ok (l\<lparr>ol_alloc := alloc\<rparr>) else Fault AssertFailed)"

definition add_to_offset_list :: "offset_list \<Rightarrow> nat \<Rightarrow> offset_list result" where
  "add_to_offset_list l off =
     rbind (if ol_alloc l \<le> length (ol_offsets l)
            then grow_offset_list l (if ol_alloc l \<noteq> 0 then ol_alloc l * 2 else 4)
            else Ok l)
       (\<lambda>l. if length (ol_offsets l) < ol_alloc l
            then Ok (l\<lparr>ol_offsets := ol_offsets l @ [off]\<rparr>)
            else Fault (OutOfBounds (length (ol_offsets l))))"

definition return_offset_list :: "offset_list \<Rightarrow> nat list result" where
  "return_offset_list l = rbind (add_to_offset_list l 0) (\<lambda>l. Ok (ol_offsets l))"

definition offset_list_ok :: "offset_list \<Rightarrow> bool" where
  "offset_list_ok l \<longleftrightarrow> length (ol_offsets l) \<le> ol_alloc l"

section \<open>The interface of a growing list\<close>

locale appender =
  fixes inv :: "'l \<Rightarrow> bool"
    and items :: "'l \<Rightarrow> 'a list"
    and push :: "'l \<Rightarrow> 'a \<Rightarrow> 'l result"
  assumes push_ok: "inv l \<Longrightarrow> \<exists>l'. push l x = Ok l' \<and> inv l' \<and> items l' = items l @ [x]"
begin

primrec push_all :: "'l \<Rightarrow> 'a list \<Rightarrow> 'l result" where
  "push_all l [] = Ok l"
| "push_all l (x # xs) = rbind (push l x) (\<lambda>l. push_all l xs)"

lemma push_OkD:
  "inv l \<Longrightarrow> push l x = Ok l' \<Longrightarrow> inv l' \<and> items l' = items l @ [x]"
  using push_ok[of l x] by auto

lemma push_all_ok:
  "inv l \<Longrightarrow> \<exists>l'. push_all l xs = Ok l' \<and> inv l' \<and> items l' = items l @ xs"
proof (induction xs arbitrary: l)
  case (Cons x xs)
  obtain l1 where l1: "push l x = Ok l1" "inv l1" "items l1 = items l @ [x]"
    using push_ok[OF Cons.prems] by blast
  from Cons.IH[OF l1(2)] l1 show ?case by auto
qed simp

end

section \<open>\<open>offset_list\<close> implements the interface\<close>

interpretation ol: appender offset_list_ok ol_offsets add_to_offset_list
proof unfold_locales
  fix l x
  assume "offset_list_ok l"
  then show "\<exists>l'. add_to_offset_list l x = Ok l' \<and> offset_list_ok l' \<and>
      ol_offsets l' = ol_offsets l @ [x]"
    by (auto simp: offset_list_ok_def add_to_offset_list_def grow_offset_list_def Suc_le_eq)
qed

lemma offset_list_ok_init [simp]: "offset_list_ok init_offset_list"
  by (simp add: offset_list_ok_def init_offset_list_def)

lemma grow_offset_list_ok:
  assumes "length (ol_offsets l) \<le> n"
  shows "\<exists>l'. grow_offset_list l n = Ok l' \<and> offset_list_ok l' \<and> ol_offsets l' = ol_offsets l"
  using assms by (simp add: grow_offset_list_def offset_list_ok_def)

lemma add_to_offset_list_eq:
  assumes "offset_list_ok l"
  obtains l' where "add_to_offset_list l x = Ok l'" "offset_list_ok l'"
    "ol_offsets l' = ol_offsets l @ [x]"
  using ol.push_ok[OF assms] by blast

lemma return_offset_list_eq:
  "offset_list_ok l \<Longrightarrow> return_offset_list l = Ok (ol_offsets l @ [0])"
  using ol.push_ok[of l 0] by (auto simp: return_offset_list_def)

text \<open>
  However many offsets \<^verbatim>\<open>get_children\<close> or \<^verbatim>\<open>get_values\<close> collect, adding them one by one
  to an initialised list neither fails nor writes past its capacity, and the array handed to
  the caller is those offsets in order followed by the terminating zero.
\<close>

theorem offset_list_collects:
  "\<exists>l. ol.push_all init_offset_list xs = Ok l \<and> return_offset_list l = Ok (xs @ [0])"
proof -
  obtain l where "ol.push_all init_offset_list xs = Ok l" "offset_list_ok l"
    "ol_offsets l = ol_offsets init_offset_list @ xs"
    using ol.push_all_ok[OF offset_list_ok_init] by blast
  then show ?thesis by (simp add: return_offset_list_eq init_offset_list_def)
qed

end
