(* ===== verification/Reading.thy ===== *)
theory Reading
  imports Alloc Offset_List
begin

text \<open>
  The reading half of \<^verbatim>\<open>lib/hivex.c\<close>: the root, names, time stamps, children and parent of a
  node, and keys, types and data of values. An operation takes the handle and returns a
  \<open>result\<close>; where the C function returns \<^verbatim>\<open>0\<close>, \<^verbatim>\<open>-1\<close> or \<^verbatim>\<open>NULL\<close> with \<^verbatim>\<open>errno = e\<close> the model
  returns \<open>Err e\<close>. \<^verbatim>\<open>hivex_node_get_child\<close> and \<^verbatim>\<open>hivex_node_get_value\<close> return \<open>Ok 0\<close> when there
  is no such entry. Arrays are returned with their terminating zero, and the loops that consume
  them walk the array up to that zero; running off its end is a fault.

  The loops of \<^verbatim>\<open>get_children\<close> (over the keys of an lf-record, and twice over the offsets of an
  ri-record) are the definitions \<open>lf_loop\<close>, \<open>ri_count\<close> and \<open>ri_copy\<close>.
\<close>

section \<open>Nodes\<close>

definition hivex_root :: "hive \<Rightarrow> hive_node_h result" where
  "hivex_root h = (if IS_VALID_BLOCK h (rootoffs h) then Ok (rootoffs h) else Err ENOKEY)"

definition hivex_node_struct_length :: "hive \<Rightarrow> hive_node_h \<Rightarrow> nat result" where
  "hivex_node_struct_length h node =
     rbind (check_block h node id_nk EINVAL) (\<lambda>_.
     rbind (rd16 h (node + nk_name_len)) (\<lambda>w.
     let name_len = unat w; ret = name_len + sizeof ntreg_nk_record - 1 in
     rbind (block_len h node) (\<lambda>(seg_len, used).
     if seg_len < ret then Err EFAULT else Ok ret)))"

definition hivex_node_name :: "hive \<Rightarrow> hive_node_h \<Rightarrow> byte list result" where
  "hivex_node_name h node =
     rbind (check_block h node id_nk EINVAL) (\<lambda>_.
     rbind (rd16 h (node + nk_name_len)) (\<lambda>w.
     let len = unat w in
     rbind (block_len h node) (\<lambda>(seg_len, used).
     if seg_len < sizeof ntreg_nk_record + len - 1 then Err EFAULT
     else rbind (rd_bytes h (node + nk_name) len) (\<lambda>bytes. Ok (bytes @ [0])))))"

definition timestamp_check :: "u64 \<Rightarrow> int result" where
  "timestamp_check timestamp = (if sint timestamp < 0 then Err EINVAL else Ok (sint timestamp))"

definition hivex_last_modified :: "hive \<Rightarrow> int result" where
  "hivex_last_modified h = timestamp_check (last_modified h)"

definition hivex_node_timestamp :: "hive \<Rightarrow> hive_node_h \<Rightarrow> int result" where
  "hivex_node_timestamp h node =
     rbind (check_block h node id_nk EINVAL) (\<lambda>_.
     rbind (rd64 h (node + nk_timestamp)) (\<lambda>ret. timestamp_check ret))"

section \<open>Children\<close>

definition GET_CHILDREN_NO_CHECK_NK :: u32 where "GET_CHILDREN_NO_CHECK_NK = 1"

primrec lf_loop :: "hive \<Rightarrow> nat \<Rightarrow> u32 \<Rightarrow> nat list \<Rightarrow> offset_list \<Rightarrow> offset_list result" where
  "lf_loop h lf flags [] children = Ok children"
| "lf_loop h lf flags (i # is) children =
     rbind (rd32 h (lf + lf_keys + 8 * i)) (\<lambda>w.
     let subkey = unat w + 0x1000 in
     rbind (guard (flags AND GET_CHILDREN_NO_CHECK_NK \<noteq> 0 \<or> IS_VALID_BLOCK h subkey) EFAULT) (\<lambda>_.
     rbind (add_to_offset_list children subkey) (\<lambda>children. lf_loop h lf flags is children)))"

definition check_lf :: "hive \<Rightarrow> nat \<Rightarrow> unit result" where
  "check_lf h off =
     rbind (guard (IS_VALID_BLOCK h off) EFAULT) (\<lambda>_.
     rbind (BLOCK_ID_EQ h off id_lf) (\<lambda>lf.
     rbind (if lf then Ok True else BLOCK_ID_EQ h off id_lh) (\<lambda>ok. guard ok ENOTSUP)))"

primrec ri_count :: "hive \<Rightarrow> nat \<Rightarrow> nat list \<Rightarrow> offset_list \<Rightarrow> nat \<Rightarrow> (offset_list \<times> nat) result" where
  "ri_count h ri [] blocks count = Ok (blocks, count)"
| "ri_count h ri (i # is) blocks count =
     rbind (rd32 h (ri + ri_offset + 4 * i)) (\<lambda>w.
     let off = unat w + 0x1000 in
     rbind (check_lf h off) (\<lambda>_.
     rbind (add_to_offset_list blocks off) (\<lambda>blocks.
     rbind (rd16 h (off + lf_nr_keys)) (\<lambda>n.
     ri_count h ri is blocks (count + unat n)))))"

primrec ri_copy :: "hive \<Rightarrow> nat \<Rightarrow> u32 \<Rightarrow> nat list \<Rightarrow> offset_list \<Rightarrow> offset_list result" where
  "ri_copy h ri flags [] children = Ok children"
| "ri_copy h ri flags (i # is) children =
     rbind (rd32 h (ri + ri_offset + 4 * i)) (\<lambda>w.
     let off = unat w + 0x1000 in
     rbind (check_lf h off) (\<lambda>_.
     rbind (rd16 h (off + lf_nr_keys)) (\<lambda>n.
     rbind (lf_loop h off flags [0..<unat n] children) (\<lambda>children.
     ri_copy h ri flags is children))))"

definition children_ok :: "offset_list \<Rightarrow> offset_list \<Rightarrow> (nat list \<times> nat list) result" where
  "children_ok children blocks =
     rbind (return_offset_list children) (\<lambda>c. rbind (return_offset_list blocks) (\<lambda>b. Ok (c, b)))"

definition get_children_lf ::
  "hive \<Rightarrow> nat \<Rightarrow> nat \<Rightarrow> u32 \<Rightarrow> offset_list \<Rightarrow> offset_list \<Rightarrow> (nat list \<times> nat list) result" where
  "get_children_lf h lf nr_subkeys_in_nk flags children blocks =
     rbind (rd16 h (lf + lf_nr_keys)) (\<lambda>w.
     let nr_subkeys_in_lf = unat w in
     if nr_subkeys_in_nk \<noteq> nr_subkeys_in_lf then Err ENOTSUP
     else
       rbind (block_len h lf) (\<lambda>(len, used).
       if len < 8 + nr_subkeys_in_lf * 8 then Err EFAULT
       else
         rbind (lf_loop h lf flags [0..<nr_subkeys_in_lf] children) (\<lambda>children.
         children_ok children blocks)))"

definition get_children_ri ::
  "hive \<Rightarrow> nat \<Rightarrow> nat \<Rightarrow> u32 \<Rightarrow> offset_list \<Rightarrow> offset_list \<Rightarrow> (nat list \<times> nat list) result" where
  "get_children_ri h ri nr_subkeys_in_nk flags children blocks =
     rbind (rd16 h (ri + ri_nr_offsets)) (\<lambda>w.
     let nr_offsets = unat w in
     rbind (ri_count h ri [0..<nr_offsets] blocks 0) (\<lambda>(blocks, count).
     if nr_subkeys_in_nk \<noteq> count then Err ENOTSUP
     else
       rbind (ri_copy h ri flags [0..<nr_offsets] children) (\<lambda>children.
       children_ok children blocks)))"

definition get_children :: "hive \<Rightarrow> hive_node_h \<Rightarrow> u32 \<Rightarrow> (nat list \<times> nat list) result" where
  "get_children h node flags =
     rbind (check_block h node id_nk EINVAL) (\<lambda>_.
     rbind (rd32 h (node + nk_nr_subkeys)) (\<lambda>w.
     let nr_subkeys_in_nk = unat w in
     if nr_subkeys_in_nk = 0 then children_ok init_offset_list init_offset_list
     else if HIVEX_MAX_SUBKEYS < nr_subkeys_in_nk then Err ERANGE
     else
       rbind (grow_offset_list init_offset_list nr_subkeys_in_nk) (\<lambda>children.
       rbind (rd32 h (node + nk_subkey_lf)) (\<lambda>w.
       let subkey_lf = unat w + 0x1000 in
       if \<not> IS_VALID_BLOCK h subkey_lf then Err EFAULT
       else
         rbind (add_to_offset_list init_offset_list subkey_lf) (\<lambda>blocks.
         rbind (rd_bytes h (subkey_lf + block_id) 2) (\<lambda>bid.
         if bid = id_lf \<or> bid = id_lh
         then get_children_lf h subkey_lf nr_subkeys_in_nk flags children blocks
         else if bid = id_ri
         then get_children_ri h subkey_lf nr_subkeys_in_nk flags children blocks
         else Err ENOTSUP))))))"

definition hivex_node_children :: "hive \<Rightarrow> hive_node_h \<Rightarrow> hive_node_h list result" where
  "hivex_node_children h node = rbind (get_children h node 0) (\<lambda>(children, blocks). Ok children)"

text \<open>The search loop that \<^verbatim>\<open>hivex_node_get_child\<close> and \<^verbatim>\<open>hivex_node_get_value\<close> both contain.\<close>

primrec find_named :: "(nat \<Rightarrow> byte list result) \<Rightarrow> byte list \<Rightarrow> nat list \<Rightarrow> nat result" where
  "find_named name_of key [] = Fault (OutOfBounds 0)"
| "find_named name_of key (x # xs) =
     (if x = 0 then Ok 0
      else rbind (name_of x) (\<lambda>name.
        if STRCASEEQ name key then Ok x else find_named name_of key xs))"

definition hivex_node_get_child :: "hive \<Rightarrow> hive_node_h \<Rightarrow> byte list \<Rightarrow> hive_node_h result" where
  "hivex_node_get_child h node nname =
     rbind (hivex_node_children h node) (find_named (hivex_node_name h) nname)"

definition hivex_node_parent :: "hive \<Rightarrow> hive_node_h \<Rightarrow> hive_node_h result" where
  "hivex_node_parent h node =
     rbind (check_block h node id_nk EINVAL) (\<lambda>_.
     rbind (rd32 h (node + nk_parent)) (\<lambda>w.
     let ret = unat w + 0x1000 in
     if IS_VALID_BLOCK h ret then Ok ret else Err EFAULT))"

section \<open>Values\<close>

primrec values_loop :: "hive \<Rightarrow> nat \<Rightarrow> nat list \<Rightarrow> offset_list \<Rightarrow> offset_list result" where
  "values_loop h vlist [] values = Ok values"
| "values_loop h vlist (i # is) values =
     rbind (rd32 h (vlist + vl_offset + 4 * i)) (\<lambda>w.
     let value = unat w + 0x1000 in
     rbind (guard (IS_VALID_BLOCK h value) EFAULT) (\<lambda>_.
     rbind (add_to_offset_list values value) (\<lambda>values. values_loop h vlist is values)))"

definition get_values :: "hive \<Rightarrow> hive_node_h \<Rightarrow> (nat list \<times> nat list) result" where
  "get_values h node =
     rbind (check_block h node id_nk EINVAL) (\<lambda>_.
     rbind (rd32 h (node + nk_nr_values)) (\<lambda>w.
     let nr_values = unat w in
     if nr_values = 0 then children_ok init_offset_list init_offset_list
     else if HIVEX_MAX_VALUES < nr_values then Err ERANGE
     else
       rbind (grow_offset_list init_offset_list nr_values) (\<lambda>values.
       rbind (rd32 h (node + nk_vallist)) (\<lambda>w.
       let vlist_offset = unat w + 0x1000 in
       if \<not> IS_VALID_BLOCK h vlist_offset then Err EFAULT
       else
         rbind (add_to_offset_list init_offset_list vlist_offset) (\<lambda>blocks.
         rbind (block_len h vlist_offset) (\<lambda>(len, used).
         if len < 4 + nr_values * 4 then Err EFAULT
         else
           rbind (values_loop h vlist_offset [0..<nr_values] values) (\<lambda>values.
           children_ok values blocks)))))))"

definition hivex_node_values :: "hive \<Rightarrow> hive_node_h \<Rightarrow> hive_value_h list result" where
  "hivex_node_values h node = rbind (get_values h node) (\<lambda>(values, blocks). Ok values)"

definition hivex_value_key_len :: "hive \<Rightarrow> hive_value_h \<Rightarrow> nat result" where
  "hivex_value_key_len h value =
     rbind (check_block h value id_vk EINVAL) (\<lambda>_.
     rbind (rd16 h (value + vk_name_len)) (\<lambda>w.
     let ret = unat w in
     rbind (block_len h value) (\<lambda>(seg_len, used).
     if seg_len < sizeof ntreg_vk_record + ret - 1 then Err EFAULT else Ok ret)))"

definition hivex_value_struct_length :: "hive \<Rightarrow> hive_value_h \<Rightarrow> nat result" where
  "hivex_value_struct_length h value =
     rbind (hivex_value_key_len h value) (\<lambda>key_len. Ok (key_len + sizeof ntreg_vk_record - 1))"

definition hivex_value_key :: "hive \<Rightarrow> hive_value_h \<Rightarrow> byte list result" where
  "hivex_value_key h value =
     rbind (check_block h value id_vk EINVAL) (\<lambda>_.
     rbind (hivex_value_key_len h value) (\<lambda>len.
     rbind (rd_bytes h (value + vk_name) len) (\<lambda>bytes. Ok (bytes @ [0]))))"

definition hivex_node_get_value :: "hive \<Rightarrow> hive_node_h \<Rightarrow> byte list \<Rightarrow> hive_value_h result" where
  "hivex_node_get_value h node key =
     rbind (hivex_node_values h node) (find_named (hivex_value_key h) key)"

definition hivex_value_type :: "hive \<Rightarrow> hive_value_h \<Rightarrow> (u32 \<times> nat) result" where
  "hivex_value_type h value =
     rbind (check_block h value id_vk EINVAL) (\<lambda>_.
     rbind (rd32 h (value + vk_data_type)) (\<lambda>t.
     rbind (rd32 h (value + vk_data_len)) (\<lambda>len.
     Ok (t, unat (len AND 0x7fffffff)))))"

text \<open>\<^verbatim>\<open>blen - 4\<close> in \<^verbatim>\<open>size_t\<close> arithmetic.\<close>

definition data_room :: "nat \<Rightarrow> nat" where
  "data_room n = (n + 2 ^ 64 - 4) mod 2 ^ 64"

definition hivex_value_value :: "hive \<Rightarrow> hive_value_h \<Rightarrow> (u32 \<times> nat \<times> byte list) result" where
  "hivex_value_value h value =
     rbind (check_block h value id_vk EINVAL) (\<lambda>_.
     rbind (rd32 h (value + vk_data_type)) (\<lambda>t.
     rbind (rd32 h (value + vk_data_len)) (\<lambda>w.
     let is_inline = (w AND 0x80000000 \<noteq> 0); len = unat (w AND 0x7fffffff) in
     if is_inline \<and> 4 < len then Err ENOTSUP
     else if HIVEX_MAX_VALUE_LEN < len then Err ERANGE
     else if is_inline
     then rbind (rd_bytes h (value + vk_data_offset) len) (\<lambda>ret. Ok (t, len, ret))
     else
       rbind (rd32 h (value + vk_data_offset)) (\<lambda>w.
       let data_offset = unat w + 0x1000 in
       if \<not> IS_VALID_BLOCK h data_offset then Err EFAULT
       else
         rbind (block_len h data_offset) (\<lambda>(blen, used).
         let len = (if data_room blen < len then data_room blen else len) in
         rbind (rd_bytes h (data_offset + 4) len) (\<lambda>ret. Ok (t, len, ret)))))))"

section \<open>The index of a node\<close>

text \<open>What the subkey index of a node holds, read off the image.\<close>

definition id_of :: "hive \<Rightarrow> nat \<Rightarrow> byte list" where
  "id_of h b = get_bytes (addr h) (b + 4) 2"

definition lf_key :: "hive \<Rightarrow> nat \<Rightarrow> nat \<Rightarrow> nat" where
  "lf_key h lf i = unat (get32 (addr h) (lf + 8 + 8 * i)) + 0x1000"

definition lf_count :: "hive \<Rightarrow> nat \<Rightarrow> nat" where
  "lf_count h lf = unat (get16 (addr h) (lf + 6))"

definition lf_offsets :: "hive \<Rightarrow> nat \<Rightarrow> nat list" where
  "lf_offsets h lf = map (lf_key h lf) [0..<lf_count h lf]"

definition ri_key :: "hive \<Rightarrow> nat \<Rightarrow> nat \<Rightarrow> nat" where
  "ri_key h ri i = unat (get32 (addr h) (ri + 8 + 4 * i)) + 0x1000"

definition ri_offsets :: "hive \<Rightarrow> nat \<Rightarrow> nat list" where
  "ri_offsets h ri = map (ri_key h ri) [0..<unat (get16 (addr h) (ri + 6))]"

definition nr_subkeys :: "hive \<Rightarrow> nat \<Rightarrow> nat" where
  "nr_subkeys h node = unat (get32 (addr h) (node + 24))"

definition index_block :: "hive \<Rightarrow> nat \<Rightarrow> nat" where
  "index_block h node = unat (get32 (addr h) (node + 32)) + 0x1000"

definition leaf_blocks :: "hive \<Rightarrow> nat \<Rightarrow> nat list" where
  "leaf_blocks h node =
     (if nr_subkeys h node = 0 then []
      else if id_of h (index_block h node) = id_ri then ri_offsets h (index_block h node)
      else [index_block h node])"

definition child_blocks :: "hive \<Rightarrow> nat \<Rightarrow> nat list" where
  "child_blocks h node =
     (if nr_subkeys h node = 0 then []
      else if id_of h (index_block h node) = id_ri
      then index_block h node # ri_offsets h (index_block h node)
      else [index_block h node])"

definition child_offsets :: "hive \<Rightarrow> nat \<Rightarrow> nat list" where
  "child_offsets h node = concat (map (lf_offsets h) (leaf_blocks h node))"

definition is_lf :: "hive \<Rightarrow> nat \<Rightarrow> bool" where
  "is_lf h b \<longleftrightarrow> IS_VALID_BLOCK h b \<and> (id_of h b = id_lf \<or> id_of h b = id_lh)"

definition lf_ok :: "hive \<Rightarrow> nat \<Rightarrow> bool" where
  "lf_ok h b \<longleftrightarrow> is_lf h b \<and> 8 + 8 * lf_count h b \<le> blen h b"

definition is_nk :: "hive \<Rightarrow> nat \<Rightarrow> bool" where
  "is_nk h node \<longleftrightarrow> IS_VALID_BLOCK h node \<and> id_of h node = id_nk \<and>
     80 + unat (get16 (addr h) (node + 76)) \<le> blen h node"

definition index_ok :: "hive \<Rightarrow> nat \<Rightarrow> bool" where
  "index_ok h node \<longleftrightarrow>
     is_nk h node \<and> nr_subkeys h node = length (child_offsets h node) \<and>
     nr_subkeys h node \<le> HIVEX_MAX_SUBKEYS \<and>
     (\<forall>b \<in> set (child_blocks h node). IS_VALID_BLOCK h b) \<and>
     (\<forall>b \<in> set (leaf_blocks h node). lf_ok h b) \<and>
     (nr_subkeys h node \<noteq> 0 \<and> id_of h (index_block h node) = id_ri \<longrightarrow>
        8 + 4 * length (ri_offsets h (index_block h node)) \<le> blen h (index_block h node))"

definition no_check :: "u32 \<Rightarrow> bool" where
  "no_check flags \<longleftrightarrow> flags AND GET_CHILDREN_NO_CHECK_NK \<noteq> 0"

lemma ids_differ [simp]:
  "id_ri \<noteq> id_lf" "id_ri \<noteq> id_lh" "id_lf \<noteq> id_ri" "id_lh \<noteq> id_ri"
  "id_nk \<noteq> id_vk" "id_vk \<noteq> id_nk" "id_nk \<noteq> id_sk" "id_sk \<noteq> id_nk" "id_nk \<noteq> id_ri" "id_ri \<noteq> id_nk"
  "id_nk \<noteq> id_lf" "id_nk \<noteq> id_lh" "id_lf \<noteq> id_nk" "id_lh \<noteq> id_nk"
  by (simp_all add: id_ri_def id_lf_def id_lh_def id_nk_def id_vk_def id_sk_def)

lemma flags_0 [simp]: "\<not> no_check 0" "no_check GET_CHILDREN_NO_CHECK_NK"
  by (simp_all add: no_check_def GET_CHILDREN_NO_CHECK_NK_def)

lemma check_block_bid [simp]:
  "check_block h b i e = Ok u \<longleftrightarrow> IS_VALID_BLOCK h b \<and> b + 6 \<le> hsize h \<and> id_of h b = i"
  by (simp add: id_of_def check_block_Ok)

lemma check_lf_Ok [simp]: "check_lf h b = Ok u \<longleftrightarrow> is_lf h b \<and> b + 6 \<le> hsize h"
proof -
  have "id_lf \<noteq> id_lh" by (simp add: id_lf_def id_lh_def)
  then show ?thesis
    unfolding check_lf_def is_lf_def id_of_def
    by (cases "IS_VALID_BLOCK h b"; cases "b + 6 \<le> hsize h"; cases "get_bytes (addr h) (b + 4) 2 = id_lf")
      (simp_all add: BLOCK_ID_EQ_def rd_bytes_def)
qed

section \<open>The loops\<close>

lemma lf_loop_OkD:
  assumes "lf_loop h lf flags is c = Ok c'" and "offset_list_ok c"
  shows "offset_list_ok c' \<and> ol_offsets c' = ol_offsets c @ map (lf_key h lf) is \<and>
    (\<forall>i \<in> set is. lf + 8 + 8 * i + 4 \<le> hsize h \<and> (no_check flags \<or> IS_VALID_BLOCK h (lf_key h lf i)))"
  using assms
proof (induction "is" arbitrary: c)
  case (Cons i "is")
  from Cons.prems obtain c1 where c1: "add_to_offset_list c (lf_key h lf i) = Ok c1"
    "lf_loop h lf flags is c1 = Ok c'" "lf + 8 + 8 * i + 4 \<le> hsize h"
    "no_check flags \<or> IS_VALID_BLOCK h (lf_key h lf i)"
    by (auto simp: Let_def lf_key_def no_check_def)
  with ol.push_OkD[OF Cons.prems(2) c1(1)] Cons.IH[OF c1(2)] show ?case by auto
qed simp

lemma lf_loop_eq:
  assumes "offset_list_ok c" and "\<And>i. i \<in> set is \<Longrightarrow>
    lf + 8 + 8 * i + 4 \<le> hsize h \<and> (no_check flags \<or> IS_VALID_BLOCK h (lf_key h lf i))"
  obtains c' where "lf_loop h lf flags is c = Ok c'" "offset_list_ok c'"
    "ol_offsets c' = ol_offsets c @ map (lf_key h lf) is"
  using assms
proof (induction "is" arbitrary: c thesis)
  case (Cons i "is")
  obtain c1 where c1: "add_to_offset_list c (lf_key h lf i) = Ok c1" "offset_list_ok c1"
    "ol_offsets c1 = ol_offsets c @ [lf_key h lf i]"
    using add_to_offset_list_eq[OF Cons.prems(2)] by blast
  obtain c' where "lf_loop h lf flags is c1 = Ok c'" "offset_list_ok c'"
    "ol_offsets c' = ol_offsets c1 @ map (lf_key h lf) is"
    using Cons.IH[OF _ c1(2)] Cons.prems(3) by (metis list.set_intros(2))
  with c1 Cons.prems show ?case
    by (intro Cons.prems(1)[of c'])
      (auto simp: Let_def lf_key_def no_check_def hive_simps)
qed simp

lemma ri_count_OkD:
  assumes "ri_count h ri is bl n = Ok (bl', n')" and "offset_list_ok bl"
  shows "offset_list_ok bl' \<and> ol_offsets bl' = ol_offsets bl @ map (ri_key h ri) is \<and>
    n' = n + sum_list (map (\<lambda>i. lf_count h (ri_key h ri i)) is) \<and>
    (\<forall>i \<in> set is. is_lf h (ri_key h ri i))"
  using assms
proof (induction "is" arbitrary: bl n)
  case (Cons i "is")
  from Cons.prems obtain b1 where b1: "add_to_offset_list bl (ri_key h ri i) = Ok b1"
    "ri_count h ri is b1 (n + lf_count h (ri_key h ri i)) = Ok (bl', n')" "is_lf h (ri_key h ri i)"
    by (auto simp: Let_def ri_key_def lf_count_def)
  with ol.push_OkD[OF Cons.prems(2) b1(1)] Cons.IH[OF b1(2)] show ?case by auto
qed simp

lemma ri_count_eq:
  assumes "offset_list_ok bl" and "\<And>i. i \<in> set is \<Longrightarrow>
    ri + 8 + 4 * i + 4 \<le> hsize h \<and> is_lf h (ri_key h ri i) \<and> ri_key h ri i + 8 \<le> hsize h"
  obtains bl' where "ri_count h ri is bl n =
      Ok (bl', n + sum_list (map (\<lambda>i. lf_count h (ri_key h ri i)) is))"
    "offset_list_ok bl'" "ol_offsets bl' = ol_offsets bl @ map (ri_key h ri) is"
  using assms
proof (induction "is" arbitrary: bl n thesis)
  case (Cons i "is")
  obtain b1 where b1: "add_to_offset_list bl (ri_key h ri i) = Ok b1" "offset_list_ok b1"
    "ol_offsets b1 = ol_offsets bl @ [ri_key h ri i]"
    using add_to_offset_list_eq[OF Cons.prems(2)] by blast
  obtain bl' where b2: "ri_count h ri is b1 (n + lf_count h (ri_key h ri i)) =
      Ok (bl', n + lf_count h (ri_key h ri i) + sum_list (map (\<lambda>i. lf_count h (ri_key h ri i)) is))"
    "offset_list_ok bl'" "ol_offsets bl' = ol_offsets b1 @ map (ri_key h ri) is"
    using Cons.IH[OF _ b1(2)] Cons.prems(3) by (metis list.set_intros(2))
  have r: "ri + 8 + 4 * i + 4 \<le> hsize h" "is_lf h (ri_key h ri i)" "ri_key h ri i + 8 \<le> hsize h"
    using Cons.prems(3) by auto
  have "rd32 h (ri + 8 + 4 * i) = Ok (get32 (addr h) (ri + 8 + 4 * i))"
    "check_lf h (ri_key h ri i) = Ok ()"
    "rd16 h (ri_key h ri i + 6) = Ok (get16 (addr h) (ri_key h ri i + 6))"
    using r by simp_all
  with b1 b2 show ?case
    by (intro Cons.prems(1)[of bl']) (simp_all add: ri_key_def lf_count_def add.assoc)
qed simp

lemma ri_copy_OkD:
  assumes "ri_copy h ri flags is c = Ok c'" and "offset_list_ok c"
  shows "offset_list_ok c' \<and>
    ol_offsets c' = ol_offsets c @ concat (map (\<lambda>i. lf_offsets h (ri_key h ri i)) is) \<and>
    (no_check flags \<or> (\<forall>i \<in> set is. \<forall>k \<in> set (lf_offsets h (ri_key h ri i)). IS_VALID_BLOCK h k))"
  using assms
proof (induction "is" arbitrary: c)
  case (Cons i "is")
  let ?o = "ri_key h ri i"
  from Cons.prems obtain c1 where c1: "lf_loop h ?o flags [0..<lf_count h ?o] c = Ok c1"
    "ri_copy h ri flags is c1 = Ok c'"
    by (auto simp: Let_def ri_key_def lf_count_def)
  have l: "offset_list_ok c1 \<and> ol_offsets c1 = ol_offsets c @ lf_offsets h ?o \<and>
      (no_check flags \<or> (\<forall>k \<in> set (lf_offsets h ?o). IS_VALID_BLOCK h k))"
    using lf_loop_OkD[OF c1(1) Cons.prems(2)] by (auto simp: lf_offsets_def)
  with Cons.IH[OF c1(2)] show ?case by auto
qed simp

lemma ri_copy_eq:
  assumes "offset_list_ok c" and "\<And>i. i \<in> set is \<Longrightarrow> ri + 8 + 4 * i + 4 \<le> hsize h \<and>
      is_lf h (ri_key h ri i) \<and> ri_key h ri i + 8 + 8 * lf_count h (ri_key h ri i) \<le> hsize h"
    and "\<And>i k. i \<in> set is \<Longrightarrow> k \<in> set (lf_offsets h (ri_key h ri i)) \<Longrightarrow> no_check flags \<or> IS_VALID_BLOCK h k"
  obtains c' where "ri_copy h ri flags is c = Ok c'" "offset_list_ok c'"
    "ol_offsets c' = ol_offsets c @ concat (map (\<lambda>i. lf_offsets h (ri_key h ri i)) is)"
  using assms
proof (induction "is" arbitrary: c thesis)
  case (Cons i "is")
  let ?o = "ri_key h ri i"
  have r: "ri + 8 + 4 * i + 4 \<le> hsize h" "is_lf h ?o" "?o + 8 + 8 * lf_count h ?o \<le> hsize h"
    using Cons.prems(3) by auto
  obtain c1 where c1: "lf_loop h ?o flags [0..<lf_count h ?o] c = Ok c1" "offset_list_ok c1"
    "ol_offsets c1 = ol_offsets c @ lf_offsets h ?o"
  proof (rule lf_loop_eq[OF Cons.prems(2), of "[0..<lf_count h ?o]" ?o h flags])
    fix j
    assume j: "j \<in> set [0..<lf_count h ?o]"
    then have "lf_key h ?o j \<in> set (lf_offsets h ?o)" by (simp add: lf_offsets_def)
    then show "?o + 8 + 8 * j + 4 \<le> hsize h \<and> (no_check flags \<or> IS_VALID_BLOCK h (lf_key h ?o j))"
      using j r(3) Cons.prems(4) by auto
  qed (auto simp: lf_offsets_def)
  have "rd32 h (ri + 8 + 4 * i) = Ok (get32 (addr h) (ri + 8 + 4 * i))" "check_lf h ?o = Ok ()"
    "rd16 h (?o + 6) = Ok (get16 (addr h) (?o + 6))"
    using r by simp_all
  moreover obtain c' where "ri_copy h ri flags is c1 = Ok c'" "offset_list_ok c'"
    "ol_offsets c' = ol_offsets c1 @ concat (map (\<lambda>i. lf_offsets h (ri_key h ri i)) is)"
    using Cons.IH[OF _ c1(2)] Cons.prems(3,4) by (metis list.set_intros(2))
  ultimately show ?case using c1 by (intro Cons.prems(1)[of c']) (simp_all add: ri_key_def lf_count_def Let_def)
qed simp

section \<open>What reading the index gives\<close>

lemma children_ok_eq:
  "offset_list_ok c \<Longrightarrow> offset_list_ok b \<Longrightarrow> children_ok c b = Ok (ol_offsets c @ [0], ol_offsets b @ [0])"
  by (simp add: children_ok_def return_offset_list_eq)

lemma init_offsets [simp]: "ol_offsets init_offset_list = []"
  by (simp add: init_offset_list_def)

lemma grow_init: "\<exists>c. grow_offset_list init_offset_list n = Ok c \<and> offset_list_ok c \<and> ol_offsets c = []"
  using grow_offset_list_ok[of init_offset_list n] by simp

lemma length_lf_offsets [simp]: "length (lf_offsets h lf) = lf_count h lf"
  by (simp add: lf_offsets_def)

lemma length_concat_lf: "length (concat (map (lf_offsets h) bs)) = sum_list (map (lf_count h) bs)"
  by (simp add: length_concat comp_def)

lemma get_children_lf_OkD:
  assumes "get_children_lf h lf nr flags c b = Ok (cs, bs)" and "offset_list_ok c" "offset_list_ok b"
    and "ol_offsets c = []"
  shows "cs = lf_offsets h lf @ [0] \<and> bs = ol_offsets b @ [0] \<and> nr = lf_count h lf \<and>
    (no_check flags \<or> (\<forall>k \<in> set (lf_offsets h lf). IS_VALID_BLOCK h k))"
proof -
  from assms(1) obtain c' where c': "lf_loop h lf flags [0..<lf_count h lf] c = Ok c'" "nr = lf_count h lf"
    "children_ok c' b = Ok (cs, bs)"
    by (auto simp: get_children_lf_def Let_def lf_count_def split: if_splits)
  from lf_loop_OkD[OF c'(1) assms(2)] c' assms(3,4) show ?thesis
    by (auto simp: children_ok_eq lf_offsets_def)
qed

lemma get_children_ri_OkD:
  assumes "get_children_ri h ri nr flags c b = Ok (cs, bs)" and "offset_list_ok c" "offset_list_ok b"
    and "ol_offsets c = []"
  shows "cs = concat (map (lf_offsets h) (ri_offsets h ri)) @ [0] \<and>
    bs = ol_offsets b @ ri_offsets h ri @ [0] \<and> nr = sum_list (map (lf_count h) (ri_offsets h ri)) \<and>
    (\<forall>x \<in> set (ri_offsets h ri). is_lf h x) \<and>
    (no_check flags \<or> (\<forall>k \<in> set (concat (map (lf_offsets h) (ri_offsets h ri))). IS_VALID_BLOCK h k))"
proof -
  let ?is = "[0..<unat (get16 (addr h) (ri + 6))]"
  have mp: "map f (ri_offsets h ri) = map (\<lambda>i. f (ri_key h ri i)) ?is" for f :: "nat \<Rightarrow> 'x"
    by (simp add: ri_offsets_def)
  from assms(1) obtain b' c' where c': "ri_count h ri ?is b 0 = Ok (b', nr)" "ri_copy h ri flags ?is c = Ok c'"
    "children_ok c' b' = Ok (cs, bs)"
    by (auto simp: get_children_ri_def Let_def split: if_splits)
  from ri_count_OkD[OF c'(1) assms(3)] ri_copy_OkD[OF c'(2) assms(2)] c'(3) assms(4)
  show ?thesis unfolding mp by (auto simp: children_ok_eq ri_offsets_def)
qed

lemma get_children_OkD:
  assumes "get_children h node flags = Ok (cs, bs)"
  shows "cs = child_offsets h node @ [0] \<and> bs = child_blocks h node @ [0] \<and>
    IS_VALID_BLOCK h node \<and> id_of h node = id_nk \<and>
    length (child_offsets h node) = nr_subkeys h node \<and> nr_subkeys h node \<le> HIVEX_MAX_SUBKEYS \<and>
    (\<forall>b \<in> set (child_blocks h node). IS_VALID_BLOCK h b) \<and>
    (no_check flags \<or> (\<forall>c \<in> set (child_offsets h node). IS_VALID_BLOCK h c))"
proof -
  let ?nr = "nr_subkeys h node" and ?ix = "index_block h node"
  have nk: "IS_VALID_BLOCK h node" "id_of h node = id_nk"
    using assms by (auto simp: get_children_def)
  show ?thesis
  proof (cases "?nr = 0")
    case True
    with assms have "children_ok init_offset_list init_offset_list = Ok (cs, bs)"
      by (auto simp: get_children_def nr_subkeys_def Let_def)
    with True nk show ?thesis
      by (auto simp: children_ok_eq child_offsets_def leaf_blocks_def child_blocks_def)
  next
    case False
    then have nz: "get32 (addr h) (node + 24) \<noteq> 0" by (auto simp: nr_subkeys_def)
    from assms nz obtain c b where g: "?nr \<le> HIVEX_MAX_SUBKEYS"
      "grow_offset_list init_offset_list ?nr = Ok c" "IS_VALID_BLOCK h ?ix"
      "add_to_offset_list init_offset_list ?ix = Ok b"
      and r: "(if id_of h ?ix = id_lf \<or> id_of h ?ix = id_lh then get_children_lf h ?ix ?nr flags c b
        else if id_of h ?ix = id_ri then get_children_ri h ?ix ?nr flags c b else Err ENOTSUP) = Ok (cs, bs)"
      by (auto simp: get_children_def nr_subkeys_def index_block_def id_of_def Let_def unat_eq_0 split: if_split_asm)
    have c: "offset_list_ok c" "ol_offsets c = []"
      using g(2) grow_init[of ?nr] by auto
    have b: "offset_list_ok b" "ol_offsets b = [?ix]"
      using ol.push_OkD[OF offset_list_ok_init g(4)] by simp_all
    show ?thesis
    proof (cases "id_of h ?ix = id_ri")
      case True
      with r have "get_children_ri h ?ix ?nr flags c b = Ok (cs, bs)" by simp
      from get_children_ri_OkD[OF this c(1) b(1) c(2)] True False g(1,3) nk b(2) show ?thesis
        by (auto simp: child_offsets_def leaf_blocks_def child_blocks_def is_lf_def length_concat_lf)
    next
      case ri: False
      with r have "get_children_lf h ?ix ?nr flags c b = Ok (cs, bs)" by (auto split: if_splits)
      from get_children_lf_OkD[OF this c(1) b(1) c(2)] ri False g(1,3) nk b(2) show ?thesis
        by (auto simp: child_offsets_def leaf_blocks_def child_blocks_def)
    qed
  qed
qed

lemma is_nk_bounds:
  assumes "hive_ok h" and "is_nk h node"
  shows "node + 80 + unat (get16 (addr h) (node + 76)) \<le> hsize h" "node + 80 \<le> hsize h"
    "node + 80 \<le> node + blen h node"
  using assms hive_ok_valid(3)[of h node] by (auto simp: is_nk_def)

lemma lf_ok_bounds:
  assumes "hive_ok h" and "lf_ok h b"
  shows "b + 8 + 8 * lf_count h b \<le> hsize h" "block_len h b = Ok (blen h b, True)"
  using assms hive_ok_valid(3,7)[of h b] by (auto simp: lf_ok_def is_lf_def)

lemma get_children_lf_eq:
  assumes h: "hive_ok h" and lf: "lf_ok h lf" and "offset_list_ok c" "offset_list_ok b" "ol_offsets c = []"
    and v: "\<And>k. k \<in> set (lf_offsets h lf) \<Longrightarrow> no_check flags \<or> IS_VALID_BLOCK h k"
  shows "get_children_lf h lf (lf_count h lf) flags c b = Ok (lf_offsets h lf @ [0], ol_offsets b @ [0])"
proof -
  note lb = lf_ok_bounds[OF h lf]
  obtain c' where c': "lf_loop h lf flags [0..<lf_count h lf] c = Ok c'" "offset_list_ok c'"
    "ol_offsets c' = ol_offsets c @ lf_offsets h lf"
  proof (rule lf_loop_eq[OF assms(3), of "[0..<lf_count h lf]" lf h flags])
    fix j
    assume j: "j \<in> set [0..<lf_count h lf]"
    then have "lf_key h lf j \<in> set (lf_offsets h lf)" by (simp add: lf_offsets_def)
    then show "lf + 8 + 8 * j + 4 \<le> hsize h \<and> (no_check flags \<or> IS_VALID_BLOCK h (lf_key h lf j))"
      using j lb(1) v by auto
  qed (auto simp: lf_offsets_def)
  have "rd16 h (lf + 6) = Ok (get16 (addr h) (lf + 6))" using lb(1) by simp
  with c' lb(2) lf assms(4,5) show ?thesis
    by (simp add: get_children_lf_def lf_count_def lf_ok_def children_ok_eq mult.commute)
qed

lemma get_children_ri_eq:
  assumes h: "hive_ok h" and ri: "IS_VALID_BLOCK h ri" "8 + 4 * length (ri_offsets h ri) \<le> blen h ri"
    and lf: "\<And>b. b \<in> set (ri_offsets h ri) \<Longrightarrow> lf_ok h b"
    and "offset_list_ok c" "offset_list_ok b" "ol_offsets c = []"
    and nr: "nr = sum_list (map (lf_count h) (ri_offsets h ri))"
    and v: "\<And>k. k \<in> set (concat (map (lf_offsets h) (ri_offsets h ri))) \<Longrightarrow> no_check flags \<or> IS_VALID_BLOCK h k"
  shows "get_children_ri h ri nr flags c b =
    Ok (concat (map (lf_offsets h) (ri_offsets h ri)) @ [0], ol_offsets b @ ri_offsets h ri @ [0])"
proof -
  let ?n = "unat (get16 (addr h) (ri + 6))"
  have len: "length (ri_offsets h ri) = ?n" by (simp add: ri_offsets_def)
  have inb: "ri + 8 + 4 * ?n \<le> hsize h" using ri hive_ok_valid(3)[OF h ri(1)] len by simp
  have cond: "ri + 8 + 4 * i + 4 \<le> hsize h \<and> is_lf h (ri_key h ri i) \<and>
      ri_key h ri i + 8 + 8 * lf_count h (ri_key h ri i) \<le> hsize h" if "i \<in> set [0..<?n]" for i
  proof -
    have "ri_key h ri i \<in> set (ri_offsets h ri)" using that by (simp add: ri_offsets_def)
    from lf[OF this] lf_ok_bounds(1)[OF h lf[OF this]] that inb show ?thesis by (auto simp: lf_ok_def)
  qed
  have k: "no_check flags \<or> IS_VALID_BLOCK h k"
    if "i \<in> set [0..<?n]" "k \<in> set (lf_offsets h (ri_key h ri i))" for i k
    using v[of k] that by (force simp: ri_offsets_def)
  obtain b' where b': "ri_count h ri [0..<?n] b 0 = Ok (b', 0 + sum_list (map (\<lambda>i. lf_count h (ri_key h ri i)) [0..<?n]))"
    "offset_list_ok b'" "ol_offsets b' = ol_offsets b @ map (ri_key h ri) [0..<?n]"
    by (rule ri_count_eq[OF assms(6), of "[0..<?n]" ri h 0]) (use cond in fastforce)+
  obtain c' where c': "ri_copy h ri flags [0..<?n] c = Ok c'" "offset_list_ok c'"
    "ol_offsets c' = ol_offsets c @ concat (map (\<lambda>i. lf_offsets h (ri_key h ri i)) [0..<?n])"
    by (rule ri_copy_eq[OF assms(5), of "[0..<?n]" ri h flags]) (use cond k in auto)
  have "rd16 h (ri + 6) = Ok (get16 (addr h) (ri + 6))" using inb by simp
  moreover have "nr = sum_list (map (\<lambda>i. lf_count h (ri_key h ri i)) [0..<?n])"
    by (simp add: nr ri_offsets_def comp_def)
  ultimately show ?thesis
    using b' c' assms(7) by (simp add: get_children_ri_def Let_def children_ok_eq ri_offsets_def comp_def)
qed

lemma get_children_eq:
  assumes h: "hive_ok h" and ix: "index_ok h node"
    and v: "\<And>c. c \<in> set (child_offsets h node) \<Longrightarrow> no_check flags \<or> IS_VALID_BLOCK h c"
  shows "get_children h node flags = Ok (child_offsets h node @ [0], child_blocks h node @ [0])"
proof -
  let ?nr = "nr_subkeys h node" and ?ix = "index_block h node"
  have nk: "is_nk h node" "?nr \<le> HIVEX_MAX_SUBKEYS" "?nr = length (child_offsets h node)"
    using ix by (auto simp: index_ok_def)
  note nb = is_nk_bounds[OF h nk(1)]
  have pre: "check_block h node id_nk EINVAL = Ok ()" "rd32 h (node + 24) = Ok (get32 (addr h) (node + 24))"
    "rd32 h (node + 32) = Ok (get32 (addr h) (node + 32))"
    using nk(1) nb(2) by (auto simp: is_nk_def)
  obtain c where c: "grow_offset_list init_offset_list ?nr = Ok c" "offset_list_ok c" "ol_offsets c = []"
    using grow_init by blast
  obtain b where b: "add_to_offset_list init_offset_list ?ix = Ok b" "offset_list_ok b" "ol_offsets b = [?ix]"
    using add_to_offset_list_eq[OF offset_list_ok_init] by (metis append_Nil init_offsets)
  note defs = get_children_def nr_subkeys_def[symmetric] index_block_def[symmetric] id_of_def[symmetric]
  show ?thesis
  proof (cases "?nr = 0")
    case True
    then show ?thesis using pre
      by (simp add: defs children_ok_eq child_offsets_def leaf_blocks_def child_blocks_def)
  next
    case False
    have vi: "IS_VALID_BLOCK h ?ix" using ix False by (auto simp: index_ok_def child_blocks_def split: if_splits)
    have rd: "rd_bytes h (?ix + 4) 2 = Ok (id_of h ?ix)"
      using hive_ok_valid(3,4)[OF h vi] by (simp add: id_of_def)
    show ?thesis
    proof (cases "id_of h ?ix = id_ri")
      case True
      have "get_children_ri h ?ix ?nr flags c b = Ok (child_offsets h node @ [0], child_blocks h node @ [0])"
        using get_children_ri_eq[OF h vi _ _ c(2) b(2) c(3), of ?nr flags] ix v True False b(3)
        by (auto simp: index_ok_def leaf_blocks_def child_blocks_def child_offsets_def length_concat_lf)
      then show ?thesis using pre c b vi rd True False nk(2) by (simp add: defs Let_def)
    next
      case ri: False
      have lf: "lf_ok h ?ix" and co: "child_offsets h node = lf_offsets h ?ix" "child_blocks h node = [?ix]"
        using ix False ri by (auto simp: index_ok_def leaf_blocks_def child_offsets_def child_blocks_def)
      have nr: "?nr = lf_count h ?ix" using nk(3) co(1) by simp
      have "get_children_lf h ?ix ?nr flags c b = Ok (child_offsets h node @ [0], child_blocks h node @ [0])"
        unfolding nr using get_children_lf_eq[OF h lf c(2) b(2) c(3), of flags] v b(3) by (simp add: co)
      then show ?thesis using pre c b vi rd ri False nk(2) lf by (auto simp: defs Let_def lf_ok_def is_lf_def)
    qed
  qed
qed

section \<open>The values of a node\<close>

definition nr_values :: "hive \<Rightarrow> nat \<Rightarrow> nat" where
  "nr_values h node = unat (get32 (addr h) (node + 40))"

definition value_list :: "hive \<Rightarrow> nat \<Rightarrow> nat" where
  "value_list h node = unat (get32 (addr h) (node + 44)) + 0x1000"

definition vl_key :: "hive \<Rightarrow> nat \<Rightarrow> nat \<Rightarrow> nat" where
  "vl_key h vl i = unat (get32 (addr h) (vl + 4 + 4 * i)) + 0x1000"

definition value_offsets :: "hive \<Rightarrow> nat \<Rightarrow> nat list" where
  "value_offsets h node = map (vl_key h (value_list h node)) [0..<nr_values h node]"

definition value_blocks :: "hive \<Rightarrow> nat \<Rightarrow> nat list" where
  "value_blocks h node = (if nr_values h node = 0 then [] else [value_list h node])"

definition vallist_ok :: "hive \<Rightarrow> nat \<Rightarrow> bool" where
  "vallist_ok h node \<longleftrightarrow>
     is_nk h node \<and> nr_values h node \<le> HIVEX_MAX_VALUES \<and>
     (nr_values h node \<noteq> 0 \<longrightarrow> IS_VALID_BLOCK h (value_list h node) \<and>
        4 + 4 * nr_values h node \<le> blen h (value_list h node)) \<and>
     (\<forall>v \<in> set (value_offsets h node). IS_VALID_BLOCK h v)"

lemma values_loop_OkD:
  assumes "values_loop h vl is c = Ok c'" and "offset_list_ok c"
  shows "offset_list_ok c' \<and> ol_offsets c' = ol_offsets c @ map (vl_key h vl) is \<and>
    (\<forall>i \<in> set is. IS_VALID_BLOCK h (vl_key h vl i))"
  using assms
proof (induction "is" arbitrary: c)
  case (Cons i "is")
  from Cons.prems obtain c1 where c1: "add_to_offset_list c (vl_key h vl i) = Ok c1"
    "values_loop h vl is c1 = Ok c'" "IS_VALID_BLOCK h (vl_key h vl i)"
    by (auto simp: Let_def vl_key_def)
  with ol.push_OkD[OF Cons.prems(2) c1(1)] Cons.IH[OF c1(2)] show ?case by auto
qed simp

lemma values_loop_eq:
  assumes "offset_list_ok c" and "\<And>i. i \<in> set is \<Longrightarrow> vl + 4 + 4 * i + 4 \<le> hsize h \<and> IS_VALID_BLOCK h (vl_key h vl i)"
  obtains c' where "values_loop h vl is c = Ok c'" "offset_list_ok c'"
    "ol_offsets c' = ol_offsets c @ map (vl_key h vl) is"
  using assms
proof (induction "is" arbitrary: c thesis)
  case (Cons i "is")
  obtain c1 where c1: "add_to_offset_list c (vl_key h vl i) = Ok c1" "offset_list_ok c1"
    "ol_offsets c1 = ol_offsets c @ [vl_key h vl i]"
    using add_to_offset_list_eq[OF Cons.prems(2)] by blast
  obtain c' where "values_loop h vl is c1 = Ok c'" "offset_list_ok c'"
    "ol_offsets c' = ol_offsets c1 @ map (vl_key h vl) is"
    using Cons.IH[OF _ c1(2)] Cons.prems(3) by (metis list.set_intros(2))
  with c1 Cons.prems show ?case
    by (intro Cons.prems(1)[of c']) (auto simp: Let_def vl_key_def hive_simps)
qed simp

lemma get_values_OkD:
  assumes "get_values h node = Ok (vs, bs)"
  shows "vs = value_offsets h node @ [0] \<and> bs = value_blocks h node @ [0] \<and>
    IS_VALID_BLOCK h node \<and> id_of h node = id_nk \<and> nr_values h node \<le> HIVEX_MAX_VALUES \<and>
    (\<forall>b \<in> set (value_blocks h node). IS_VALID_BLOCK h b) \<and>
    (\<forall>v \<in> set (value_offsets h node). IS_VALID_BLOCK h v)"
proof -
  let ?nr = "nr_values h node" and ?vl = "value_list h node"
  have nk: "IS_VALID_BLOCK h node" "id_of h node = id_nk"
    using assms by (auto simp: get_values_def)
  show ?thesis
  proof (cases "?nr = 0")
    case True
    with assms have "children_ok init_offset_list init_offset_list = Ok (vs, bs)"
      by (auto simp: get_values_def nr_values_def Let_def)
    with True nk show ?thesis
      by (auto simp: children_ok_eq value_offsets_def value_blocks_def)
  next
    case False
    then have nz: "get32 (addr h) (node + 40) \<noteq> 0" by (auto simp: nr_values_def)
    from assms nz obtain c b c' where g: "?nr \<le> HIVEX_MAX_VALUES"
      "grow_offset_list init_offset_list ?nr = Ok c" "IS_VALID_BLOCK h ?vl"
      "add_to_offset_list init_offset_list ?vl = Ok b"
      "values_loop h ?vl [0..<?nr] c = Ok c'" "children_ok c' b = Ok (vs, bs)"
      by (auto simp: get_values_def nr_values_def value_list_def Let_def unat_eq_0 split: if_split_asm)
    have c: "offset_list_ok c" "ol_offsets c = []"
      using g(2) grow_init[of ?nr] by auto
    have b: "offset_list_ok b" "ol_offsets b = [?vl]"
      using ol.push_OkD[OF offset_list_ok_init g(4)] by simp_all
    from values_loop_OkD[OF g(5) c(1)] g(1,3,6) nk b c False show ?thesis
      by (auto simp: children_ok_eq value_offsets_def value_blocks_def)
  qed
qed

lemma get_values_eq:
  assumes h: "hive_ok h" and vo: "vallist_ok h node"
  shows "get_values h node = Ok (value_offsets h node @ [0], value_blocks h node @ [0])"
proof -
  let ?nr = "nr_values h node" and ?vl = "value_list h node"
  have nk: "is_nk h node" "?nr \<le> HIVEX_MAX_VALUES" using vo by (auto simp: vallist_ok_def)
  note nb = is_nk_bounds[OF h nk(1)]
  have pre: "check_block h node id_nk EINVAL = Ok ()" "rd32 h (node + 40) = Ok (get32 (addr h) (node + 40))"
    "rd32 h (node + 44) = Ok (get32 (addr h) (node + 44))"
    using nk(1) nb(2) by (auto simp: is_nk_def)
  note defs = get_values_def nr_values_def[symmetric] value_list_def[symmetric]
  show ?thesis
  proof (cases "?nr = 0")
    case True
    then show ?thesis using pre
      by (simp add: defs children_ok_eq value_offsets_def value_blocks_def)
  next
    case False
    then have vl: "IS_VALID_BLOCK h ?vl" "4 + 4 * ?nr \<le> blen h ?vl" using vo by (auto simp: vallist_ok_def)
    note vb = hive_ok_valid(3,7)[OF h vl(1)]
    obtain c where c: "grow_offset_list init_offset_list ?nr = Ok c" "offset_list_ok c" "ol_offsets c = []"
      using grow_init by blast
    obtain b where b: "add_to_offset_list init_offset_list ?vl = Ok b" "offset_list_ok b" "ol_offsets b = [?vl]"
      using add_to_offset_list_eq[OF offset_list_ok_init] by (metis append_Nil init_offsets)
    have cond: "?vl + 4 + 4 * i + 4 \<le> hsize h \<and> IS_VALID_BLOCK h (vl_key h ?vl i)" if "i \<in> set [0..<?nr]" for i
      using that vo vl vb(1) by (auto simp: vallist_ok_def value_offsets_def)
    obtain c' where c': "values_loop h ?vl [0..<?nr] c = Ok c'" "offset_list_ok c'"
      "ol_offsets c' = ol_offsets c @ map (vl_key h ?vl) [0..<?nr]"
      by (rule values_loop_eq[OF c(2), of "[0..<?nr]" ?vl h]) (use cond in auto)
    show ?thesis
      using pre c b c' vl vb nk(2) False
      by (simp add: defs Let_def children_ok_eq value_offsets_def value_blocks_def mult.commute)
  qed
qed

section \<open>Names and keys\<close>

lemma hivex_node_name_OkD:
  assumes "hivex_node_name h node = Ok s"
  shows "s = get_bytes (addr h) (node + 80) (unat (get16 (addr h) (node + 76))) @ [0]"
  using assms by (auto simp: hivex_node_name_def Let_def split: if_splits)

lemma hivex_node_name_eq:
  assumes "hive_ok h" and "is_nk h node"
  shows "hivex_node_name h node =
    Ok (get_bytes (addr h) (node + 80) (unat (get16 (addr h) (node + 76))) @ [0])"
proof -
  note nb = is_nk_bounds[OF assms]
  have v: "IS_VALID_BLOCK h node" using assms(2) by (simp add: is_nk_def)
  have "check_block h node id_nk EINVAL = Ok ()" "rd16 h (node + 76) = Ok (get16 (addr h) (node + 76))"
    using assms(2) nb(2) by (auto simp: is_nk_def)
  then show ?thesis using nb assms(2) hive_ok_valid(7)[OF assms(1) v]
    by (simp add: hivex_node_name_def Let_def is_nk_def hive_simps)
qed

definition is_vk :: "hive \<Rightarrow> nat \<Rightarrow> bool" where
  "is_vk h v \<longleftrightarrow> IS_VALID_BLOCK h v \<and> id_of h v = id_vk \<and>
     24 + unat (get16 (addr h) (v + 6)) \<le> blen h v"

lemma is_vk_bounds:
  assumes "hive_ok h" and "is_vk h v"
  shows "v + 24 + unat (get16 (addr h) (v + 6)) \<le> hsize h" "v + 24 \<le> hsize h" "24 \<le> blen h v"
    "block_len h v = Ok (blen h v, True)"
  using assms hive_ok_valid(3,7)[of h v] by (auto simp: is_vk_def)

lemma hivex_value_key_eq:
  assumes "hive_ok h" and "is_vk h v"
  shows "hivex_value_key h v = Ok (get_bytes (addr h) (v + 24) (unat (get16 (addr h) (v + 6))) @ [0])"
proof -
  note vb = is_vk_bounds[OF assms]
  have "check_block h v id_vk EINVAL = Ok ()" "rd16 h (v + 6) = Ok (get16 (addr h) (v + 6))"
    using assms(2) vb by (auto simp: is_vk_def)
  then show ?thesis using vb assms(2)
    by (simp add: hivex_value_key_def hivex_value_key_len_def Let_def is_vk_def hive_simps)
qed

section \<open>Looking up by name\<close>

text \<open>
  The interface of a directory of named entries: a zero-terminated listing, the names of the
  entries, and a search that walks the listing. Children and values of a node both implement it.
\<close>

locale named_entries =
  fixes entries :: "'h \<Rightarrow> nat \<Rightarrow> nat list result"
    and name_of :: "'h \<Rightarrow> nat \<Rightarrow> byte list result"
    and search :: "'h \<Rightarrow> nat \<Rightarrow> byte list \<Rightarrow> nat result"
  assumes search_walks: "search h p key = rbind (entries h p) (find_named (name_of h) key)"
    and terminated: "entries h p = Ok xs \<Longrightarrow> \<exists>ys. xs = ys @ [0] \<and> 0 \<notin> set ys"
begin

definition matches :: "'h \<Rightarrow> byte list \<Rightarrow> nat \<Rightarrow> bool" where
  "matches h key x \<longleftrightarrow> (\<exists>n. name_of h x = Ok n \<and> STRCASEEQ n key)"

definition differs :: "'h \<Rightarrow> byte list \<Rightarrow> nat \<Rightarrow> bool" where
  "differs h key x \<longleftrightarrow> (\<exists>n. name_of h x = Ok n \<and> \<not> STRCASEEQ n key)"

lemma find_skip:
  "0 \<notin> set ys \<Longrightarrow> (\<And>y. y \<in> set ys \<Longrightarrow> differs h key y) \<Longrightarrow>
     find_named (name_of h) key (ys @ zs) = find_named (name_of h) key zs"
proof (induction ys)
  case (Cons y ys)
  obtain n where "name_of h y = Ok n" "\<not> STRCASEEQ n key"
    using Cons.prems(2)[of y] by (auto simp: differs_def)
  with Cons show ?case by simp
qed simp

lemma find_hit: "x \<noteq> 0 \<Longrightarrow> matches h key x \<Longrightarrow> find_named (name_of h) key (x # zs) = Ok x"
  by (auto simp: matches_def)

lemma find_OkD:
  "0 \<notin> set ys \<Longrightarrow> find_named (name_of h) key (ys @ [0]) = Ok r \<Longrightarrow>
     (r = 0 \<and> (\<forall>y \<in> set ys. differs h key y)) \<or>
     (\<exists>as bs. ys = as @ r # bs \<and> r \<noteq> 0 \<and> matches h key r \<and> (\<forall>y \<in> set as. differs h key y))"
proof (induction ys)
  case (Cons y ys)
  from Cons.prems obtain n where n: "name_of h y = Ok n" "y \<noteq> 0" by auto
  show ?case
  proof (cases "STRCASEEQ n key")
    case True
    with n Cons.prems have "r = y" by simp
    with n True show ?thesis by (intro disjI2 exI[of _ "[]"] exI[of _ ys]) (auto simp: matches_def)
  next
    case False
    with n have d: "differs h key y" by (auto simp: differs_def)
    from Cons.prems n False
    consider "r = 0 \<and> (\<forall>y \<in> set ys. differs h key y)"
      | as bs where "ys = as @ r # bs" "r \<noteq> 0" "matches h key r" "\<forall>y \<in> set as. differs h key y"
      using Cons.IH by auto
    then show ?thesis
    proof cases
      case 1
      with d show ?thesis by simp
    next
      case (2 as bs)
      with d show ?thesis by (intro disjI2 exI[of _ "y # as"] exI[of _ bs]) simp
    qed
  qed
qed simp

lemma search_OkD:
  assumes "search h p key = Ok r" and "entries h p = Ok (ys @ [0])"
  shows "(r = 0 \<and> (\<forall>y \<in> set ys. differs h key y)) \<or>
    (\<exists>as bs. ys = as @ r # bs \<and> r \<noteq> 0 \<and> matches h key r \<and> (\<forall>y \<in> set as. differs h key y))"
proof -
  have "0 \<notin> set ys" using terminated[OF assms(2)] by auto
  with assms show ?thesis by (intro find_OkD) (auto simp: search_walks)
qed

lemma search_hit:
  assumes "entries h p = Ok (as @ x # bs @ [0])" and "matches h key x" and "\<And>y. y \<in> set as \<Longrightarrow> differs h key y"
  shows "search h p key = Ok x"
proof -
  have "0 \<notin> set (as @ x # bs)" using terminated[OF assms(1)] by auto
  with assms have "find_named (name_of h) key (as @ x # bs @ [0]) = Ok x"
    using find_skip[of as] find_hit[of x] by simp
  with assms(1) show ?thesis by (simp add: search_walks)
qed

lemma find_key_cong: "STRCASEEQ key key' \<Longrightarrow> find_named g key xs = find_named g key' xs"
proof (induction xs)
  case (Cons x xs)
  have "STRCASEEQ n key = STRCASEEQ n key'" for n
    using Cons.prems STRCASEEQ_sym STRCASEEQ_trans by blast
  with Cons show ?case by (cases "g x") simp_all
qed simp

lemma search_case_insensitive: "STRCASEEQ key key' \<Longrightarrow> search h p key = search h p key'"
  unfolding search_walks using find_key_cong by (metis ext)

end

lemma child_offsets_nonzero: "c \<in> set (child_offsets h node) \<Longrightarrow> 0x1000 \<le> c"
  by (auto simp: child_offsets_def lf_offsets_def lf_key_def)

lemma value_offsets_nonzero: "v \<in> set (value_offsets h node) \<Longrightarrow> 0x1000 \<le> v"
  by (auto simp: value_offsets_def vl_key_def)

lemma hivex_node_children_OkD:
  assumes "hivex_node_children h node = Ok xs"
  shows "xs = child_offsets h node @ [0]"
  using assms get_children_OkD by (fastforce simp: hivex_node_children_def)

lemma hivex_node_values_OkD:
  assumes "hivex_node_values h node = Ok xs"
  shows "xs = value_offsets h node @ [0]"
  using assms get_values_OkD by (fastforce simp: hivex_node_values_def)

interpretation kids: named_entries hivex_node_children hivex_node_name hivex_node_get_child
proof unfold_locales
  show "\<exists>ys. xs = ys @ [0] \<and> 0 \<notin> set ys" if "hivex_node_children h p = Ok xs" for h p xs
    using hivex_node_children_OkD[OF that] child_offsets_nonzero[of 0] by auto
qed (simp add: hivex_node_get_child_def)

interpretation vals: named_entries hivex_node_values hivex_value_key hivex_node_get_value
proof unfold_locales
  show "\<exists>ys. xs = ys @ [0] \<and> 0 \<notin> set ys" if "hivex_node_values h p = Ok xs" for h p xs
    using hivex_node_values_OkD[OF that] value_offsets_nonzero[of 0] by auto
qed (simp add: hivex_node_get_value_def)

section \<open>Memory safety of the readers\<close>

text \<open>
  Every used block is large enough for the record its id announces. \<^verbatim>\<open>hivex_open\<close> does not check
  this; with it no reading operation leaves the image.
\<close>

definition records_ok :: "hive \<Rightarrow> bool" where
  "records_ok h \<longleftrightarrow> (\<forall>b. IS_VALID_BLOCK h b \<longrightarrow>
     (id_of h b = id_nk \<longrightarrow> 80 \<le> blen h b) \<and> (id_of h b = id_vk \<longrightarrow> 24 \<le> blen h b) \<and>
     (id_of h b = id_lf \<or> id_of h b = id_lh \<longrightarrow> 8 + 8 * lf_count h b \<le> blen h b) \<and>
     (id_of h b = id_ri \<longrightarrow> 8 + 4 * length (ri_offsets h b) \<le> blen h b))"

lemma no_fault_rd [simp]:
  "no_fault (rd8 h a) \<longleftrightarrow> a < hsize h" "no_fault (rd16 h a) \<longleftrightarrow> a + 2 \<le> hsize h"
  "no_fault (rd32 h a) \<longleftrightarrow> a + 4 \<le> hsize h" "no_fault (rd64 h a) \<longleftrightarrow> a + 8 \<le> hsize h"
  "no_fault (rd_bytes h a n) \<longleftrightarrow> a + n \<le> hsize h"
  by (simp_all add: rd8_def rd16_def rd32_def rd64_def rd_bytes_def)

lemma valid_6: "hive_ok h \<Longrightarrow> IS_VALID_BLOCK h b \<Longrightarrow> b + 8 \<le> hsize h"
  using hive_ok_valid(3,4)[of h b] by simp

lemma no_fault_check_block: "hive_ok h \<Longrightarrow> no_fault (check_block h b i e)"
  using valid_6[of h b]
  by (auto simp: check_block_def BLOCK_ID_EQ_def rd_bytes_def guard_def)

lemma no_fault_after_nk:
  assumes "hive_ok h" and "records_ok h"
    and "IS_VALID_BLOCK h n \<Longrightarrow> id_of h n = id_nk \<Longrightarrow> n + 80 \<le> hsize h \<Longrightarrow> n + 80 \<le> n + blen h n \<Longrightarrow>
      n + blen h n \<le> hsize h \<Longrightarrow> block_len h n = Ok (blen h n, True) \<Longrightarrow> no_fault (f ())"
  shows "no_fault (rbind (check_block h n id_nk e) f)"
proof (rule no_fault_rbind[OF no_fault_check_block[OF assms(1)]])
  fix u
  assume "check_block h n id_nk e = Ok u"
  then have v: "IS_VALID_BLOCK h n" "id_of h n = id_nk" by auto
  with assms(2) have "80 \<le> blen h n" by (auto simp: records_ok_def)
  then show "no_fault (f u)"
    using assms(3) v hive_ok_valid(3,7)[OF assms(1) v(1)] by simp
qed

lemma no_fault_after_vk:
  assumes "hive_ok h" and "records_ok h"
    and "IS_VALID_BLOCK h n \<Longrightarrow> id_of h n = id_vk \<Longrightarrow> n + 24 \<le> hsize h \<Longrightarrow>
      n + blen h n \<le> hsize h \<Longrightarrow> block_len h n = Ok (blen h n, True) \<Longrightarrow> no_fault (f ())"
  shows "no_fault (rbind (check_block h n id_vk e) f)"
proof (rule no_fault_rbind[OF no_fault_check_block[OF assms(1)]])
  fix u
  assume "check_block h n id_vk e = Ok u"
  then have v: "IS_VALID_BLOCK h n" "id_of h n = id_vk" by auto
  with assms(2) have "24 \<le> blen h n" by (auto simp: records_ok_def)
  then show "no_fault (f u)"
    using assms(3) v hive_ok_valid(3,7)[OF assms(1) v(1)] by simp
qed

lemma no_fault_simple_readers:
  assumes h: "hive_ok h" "records_ok h"
  shows "no_fault (hivex_node_struct_length h n)" "no_fault (hivex_node_name h n)"
    "no_fault (hivex_node_timestamp h n)" "no_fault (hivex_node_parent h n)"
    "no_fault (hivex_value_key_len h n)" "no_fault (hivex_value_key h n)" "no_fault (hivex_value_type h n)"
proof -
  show "no_fault (hivex_node_struct_length h n)" unfolding hivex_node_struct_length_def
    by (rule no_fault_after_nk[OF h]) (simp add: hive_simps Let_def)
  show "no_fault (hivex_node_name h n)" unfolding hivex_node_name_def
    by (rule no_fault_after_nk[OF h]) (simp add: hive_simps Let_def)
  show "no_fault (hivex_node_timestamp h n)" unfolding hivex_node_timestamp_def
    by (rule no_fault_after_nk[OF h]) (simp add: hive_simps timestamp_check_def)
  show "no_fault (hivex_node_parent h n)" unfolding hivex_node_parent_def
    by (rule no_fault_after_nk[OF h]) (simp add: hive_simps Let_def)
  show kl: "no_fault (hivex_value_key_len h n)" unfolding hivex_value_key_len_def
    by (rule no_fault_after_vk[OF h]) (simp add: hive_simps Let_def)
  show "no_fault (hivex_value_type h n)" unfolding hivex_value_type_def
    by (rule no_fault_after_vk[OF h]) (simp add: hive_simps)
  have "no_fault (rd_bytes h (n + vk_name) len)"
    if v: "n + blen h n \<le> hsize h" "block_len h n = Ok (blen h n, True)"
      and l: "hivex_value_key_len h n = Ok len" for len
  proof -
    have "24 + len \<le> blen h n"
      using l v(2) by (auto simp: hivex_value_key_len_def Let_def split: if_splits)
    with v show ?thesis by (simp add: hive_simps)
  qed
  then show "no_fault (hivex_value_key h n)" unfolding hivex_value_key_def
    by (intro no_fault_after_vk[OF h] no_fault_rbind[OF kl] no_fault_rbind) simp_all
qed

lemma no_fault_add: "offset_list_ok c \<Longrightarrow> no_fault (add_to_offset_list c x)"
  using ol.push_ok[of c x] by auto

lemma no_fault_guard [simp]: "no_fault (guard b e)"
  by (simp add: guard_def)

lemma no_fault_lf_loop:
  assumes "offset_list_ok c" and "\<And>i. i \<in> set is \<Longrightarrow> lf + 8 + 8 * i + 4 \<le> hsize h"
  shows "no_fault (lf_loop h lf flags is c)"
  using assms
proof (induction "is" arbitrary: c)
  case (Cons i "is")
  have "lf + 8 + 8 * i + 4 \<le> hsize h" using Cons.prems(2) by simp
  with Cons show ?case
    by (auto simp: Let_def intro!: no_fault_rbind no_fault_add dest: ol.push_OkD)
qed simp

lemma no_fault_values_loop:
  assumes "offset_list_ok c" and "\<And>i. i \<in> set is \<Longrightarrow> vl + 4 + 4 * i + 4 \<le> hsize h"
  shows "no_fault (values_loop h vl is c)"
  using assms
proof (induction "is" arbitrary: c)
  case (Cons i "is")
  have "vl + 4 + 4 * i + 4 \<le> hsize h" using Cons.prems(2) by simp
  with Cons show ?case
    by (auto simp: Let_def intro!: no_fault_rbind no_fault_add dest: ol.push_OkD)
qed simp

lemma no_fault_check_lf: "hive_ok h \<Longrightarrow> no_fault (check_lf h b)"
  using valid_6[of h b]
  by (auto simp: check_lf_def BLOCK_ID_EQ_def hive_simps intro!: no_fault_rbind)

lemma ri_Cons:
  assumes "ri + 8 + 4 * i + 4 \<le> hsize h"
  shows "ri_count h ri (i # is) bl n =
      rbind (check_lf h (ri_key h ri i)) (\<lambda>_. rbind (add_to_offset_list bl (ri_key h ri i)) (\<lambda>bl.
      rbind (rd16 h (ri_key h ri i + 6)) (\<lambda>k. ri_count h ri is bl (n + unat k))))"
    "ri_copy h ri flags (i # is) c =
      rbind (check_lf h (ri_key h ri i)) (\<lambda>_. rbind (rd16 h (ri_key h ri i + 6)) (\<lambda>k.
      rbind (lf_loop h (ri_key h ri i) flags [0..<unat k] c) (\<lambda>c. ri_copy h ri flags is c)))"
  using assms by (simp_all add: ri_key_def Let_def hive_simps)

lemma no_fault_ri_count:
  assumes "hive_ok h" and "offset_list_ok b" and "\<And>i. i \<in> set is \<Longrightarrow> ri + 8 + 4 * i + 4 \<le> hsize h"
  shows "no_fault (ri_count h ri is b n)"
  using assms
proof (induction "is" arbitrary: b n)
  case (Cons i "is")
  let ?o = "ri_key h ri i"
  have i: "ri + 8 + 4 * i + 4 \<le> hsize h" using Cons.prems(3) by simp
  have "8 + ?o \<le> hsize h" if "is_lf h ?o"
    using valid_6[OF Cons.prems(1), of ?o] that by (simp add: is_lf_def)
  then show ?case using Cons unfolding ri_Cons(1)[OF i]
    by (auto intro!: no_fault_rbind no_fault_add no_fault_check_lf dest: ol.push_OkD)
qed simp

lemma no_fault_ri_copy:
  assumes "hive_ok h" and "records_ok h" and "offset_list_ok c" and "\<And>i. i \<in> set is \<Longrightarrow> ri + 8 + 4 * i + 4 \<le> hsize h"
  shows "no_fault (ri_copy h ri flags is c)"
  using assms
proof (induction "is" arbitrary: c)
  case (Cons i "is")
  let ?o = "ri_key h ri i"
  have i: "ri + 8 + 4 * i + 4 \<le> hsize h" using Cons.prems(4) by simp
  have "8 + ?o \<le> hsize h" if "is_lf h ?o"
    using valid_6[OF Cons.prems(1), of ?o] that by (simp add: is_lf_def)
  moreover have "no_fault (lf_loop h x flags [0..<unat (get16 (addr h) (x + 6))] c)" if "is_lf h x" for x
  proof (rule no_fault_lf_loop[OF Cons.prems(3)])
    fix j
    assume "j \<in> set [0..<unat (get16 (addr h) (x + 6))]"
    moreover have "lf_ok h x" using that Cons.prems(2) by (auto simp: lf_ok_def is_lf_def records_ok_def)
    ultimately show "x + 8 + 8 * j + 4 \<le> hsize h"
      using lf_ok_bounds(1)[OF Cons.prems(1), of x] by (simp add: lf_count_def)
  qed
  moreover have "offset_list_ok c'" if "lf_loop h x flags js c = Ok c'" for x js c'
    using lf_loop_OkD[OF that Cons.prems(3)] by simp
  ultimately show ?case using Cons unfolding ri_Cons(2)[OF i]
    by (auto intro!: no_fault_rbind no_fault_check_lf)
qed simp

lemma no_fault_children_ok: "offset_list_ok c \<Longrightarrow> offset_list_ok b \<Longrightarrow> no_fault (children_ok c b)"
  by (simp add: children_ok_eq)

lemma no_fault_get_children_lf:
  assumes h: "hive_ok h" and "IS_VALID_BLOCK h lf" "offset_list_ok c" "offset_list_ok b"
  shows "no_fault (get_children_lf h lf nr flags c b)"
proof -
  note v = hive_ok_valid(3,7)[OF h assms(2)] valid_6[OF h assms(2)]
  let ?n = "unat (get16 (addr h) (lf + 6))"
  have "no_fault (lf_loop h lf flags [0..<?n] c)" if "8 + ?n * 8 \<le> blen h lf"
    using that v by (intro no_fault_lf_loop[OF assms(3)]) auto
  moreover have "offset_list_ok c'" if "lf_loop h lf flags [0..<?n] c = Ok c'" for c'
    using lf_loop_OkD[OF that assms(3)] by simp
  ultimately show ?thesis using v assms(4)
    by (auto simp: get_children_lf_def Let_def hive_simps intro!: no_fault_rbind no_fault_children_ok)
qed

lemma no_fault_get_children_ri:
  assumes h: "hive_ok h" "records_ok h" and "IS_VALID_BLOCK h ri" "id_of h ri = id_ri"
    and ol: "offset_list_ok c" "offset_list_ok b"
  shows "no_fault (get_children_ri h ri nr flags c b)"
proof -
  note v = hive_ok_valid(3)[OF h(1) assms(3)] valid_6[OF h(1) assms(3)]
  let ?n = "unat (get16 (addr h) (ri + 6))"
  have "8 + 4 * ?n \<le> blen h ri" using h(2) assms(3,4) by (auto simp: records_ok_def ri_offsets_def)
  then have i: "ri + 8 + 4 * i + 4 \<le> hsize h" if "i \<in> set [0..<?n]" for i using that v by auto
  have "offset_list_ok b'" if "ri_count h ri [0..<?n] b 0 = Ok (b', k)" for b' k
    using ri_count_OkD[OF that ol(2)] by simp
  moreover have "offset_list_ok c'" if "ri_copy h ri flags [0..<?n] c = Ok c'" for c'
    using ri_copy_OkD[OF that ol(1)] by simp
  moreover have "no_fault (ri_count h ri [0..<?n] b 0)" "no_fault (ri_copy h ri flags [0..<?n] c)"
    using i by (auto intro!: no_fault_ri_count no_fault_ri_copy h ol)
  ultimately show ?thesis using v
    by (auto simp: get_children_ri_def Let_def hive_simps intro!: no_fault_rbind no_fault_children_ok)
qed

lemma get_children_step:
  fixes h node
  defines "ix \<equiv> index_block h node" and "nr \<equiv> nr_subkeys h node"
  assumes "node + 80 \<le> hsize h"
  shows "get_children h node flags = rbind (check_block h node id_nk EINVAL) (\<lambda>_.
    if nr = 0 then children_ok init_offset_list init_offset_list
    else if HIVEX_MAX_SUBKEYS < nr then Err ERANGE
    else rbind (grow_offset_list init_offset_list nr) (\<lambda>c.
      if \<not> IS_VALID_BLOCK h ix then Err EFAULT
      else rbind (add_to_offset_list init_offset_list ix) (\<lambda>b.
        rbind (rd_bytes h (ix + 4) 2) (\<lambda>i.
        if i = id_lf \<or> i = id_lh then get_children_lf h ix nr flags c b
        else if i = id_ri then get_children_ri h ix nr flags c b
        else Err ENOTSUP))))"
proof -
  have rd: "rd32 h (node + 24) = Ok (get32 (addr h) (node + 24))"
    "rd32 h (node + 32) = Ok (get32 (addr h) (node + 32))" using assms by simp_all
  show ?thesis
    unfolding get_children_def ix_def nr_def nr_subkeys_def index_block_def Let_def
      nk_offsets hdr_offsets rd rbind_simps ..
qed

lemma no_fault_get_children:
  assumes h: "hive_ok h" "records_ok h"
  shows "no_fault (get_children h node flags)"
proof (cases "check_block h node id_nk EINVAL")
  case (Ok u)
  let ?ix = "index_block h node" and ?nr = "nr_subkeys h node"
  have v: "IS_VALID_BLOCK h node" "id_of h node = id_nk" using Ok by auto
  then have "80 \<le> blen h node" using h(2) by (auto simp: records_ok_def)
  then have nb: "node + 80 \<le> hsize h" using hive_ok_valid(3)[OF h(1) v(1)] by simp
  have gr: "no_fault (grow_offset_list init_offset_list n)" "grow_offset_list init_offset_list n = Ok c \<Longrightarrow> offset_list_ok c" for n c
    using grow_init[of n] by auto
  have ad: "no_fault (add_to_offset_list init_offset_list n)"
    "add_to_offset_list init_offset_list n = Ok c \<Longrightarrow> offset_list_ok c" for n c
    using ol.push_ok[OF offset_list_ok_init, of n] by auto
  have rb: "rd_bytes h (?ix + 4) 2 = Ok (id_of h ?ix)" if "IS_VALID_BLOCK h ?ix"
    using valid_6[OF h(1) that] by (simp add: id_of_def)
  have br: "no_fault (rbind (rd_bytes h (?ix + 4) 2) (\<lambda>i.
        if i = id_lf \<or> i = id_lh then get_children_lf h ?ix ?nr flags c b
        else if i = id_ri then get_children_ri h ?ix ?nr flags c b
        else Err ENOTSUP))"
    if "IS_VALID_BLOCK h ?ix" "offset_list_ok c" "offset_list_ok b" for c b
    using no_fault_get_children_lf[OF h(1) that] no_fault_get_children_ri[OF h that(1) _ that(2,3)]
    by (simp add: rb[OF that(1)])
  have "no_fault (rbind (grow_offset_list init_offset_list ?nr) (\<lambda>c.
      if \<not> IS_VALID_BLOCK h ?ix then Err EFAULT
      else rbind (add_to_offset_list init_offset_list ?ix) (\<lambda>b.
        rbind (rd_bytes h (?ix + 4) 2) (\<lambda>i.
        if i = id_lf \<or> i = id_lh then get_children_lf h ?ix ?nr flags c b
        else if i = id_ri then get_children_ri h ?ix ?nr flags c b
        else Err ENOTSUP))))"
    by (rule no_fault_rbind[OF gr(1)], cases "IS_VALID_BLOCK h ?ix")
      (simp_all add: no_fault_rbind[OF ad(1) br[OF _ gr(2) ad(2)]] del: rd_Ok)
  then show ?thesis
    unfolding get_children_step[OF nb] Ok
    using no_fault_children_ok[OF offset_list_ok_init offset_list_ok_init] by simp
next
  case (Err e)
  then show ?thesis by (simp add: get_children_def)
next
  case (Fault e)
  then show ?thesis using no_fault_check_block[OF h(1), of node id_nk EINVAL] by simp
qed

lemma no_fault_get_values:
  assumes h: "hive_ok h" "records_ok h"
  shows "no_fault (get_values h node)"
  unfolding get_values_def
proof (rule no_fault_after_nk[OF h])
  assume nb: "node + 80 \<le> hsize h"
  have rd: "rd32 h (node + 40) = Ok (get32 (addr h) (node + 40))"
    "rd32 h (node + 44) = Ok (get32 (addr h) (node + 44))" using nb by simp_all
  let ?nr = "unat (get32 (addr h) (node + 40))" and ?vl = "unat (get32 (addr h) (node + 44)) + 0x1000"
  have gr: "no_fault (grow_offset_list init_offset_list n)" "grow_offset_list init_offset_list n = Ok c \<Longrightarrow> offset_list_ok c" for n c
    using grow_init[of n] by auto
  have ad: "no_fault (add_to_offset_list init_offset_list n)"
    "add_to_offset_list init_offset_list n = Ok c \<Longrightarrow> offset_list_ok c" for n c
    using ol.push_ok[OF offset_list_ok_init, of n] by auto
  have inner: "no_fault (if blen h ?vl < 4 + ?nr * 4 then Err EFAULT
      else rbind (values_loop h ?vl [0..<?nr] c) (\<lambda>c. children_ok c b))"
    if v: "IS_VALID_BLOCK h ?vl" and o: "offset_list_ok c" "offset_list_ok b" for c b
  proof (cases "blen h ?vl < 4 + ?nr * 4")
    case False
    have i: "?vl + 4 + 4 * i + 4 \<le> hsize h" if "i \<in> set [0..<?nr]" for i
      using that False hive_ok_valid(3)[OF h(1) v] by auto
    have "no_fault (rbind (values_loop h ?vl [0..<?nr] c) (\<lambda>c. children_ok c b))"
      by (rule no_fault_rbind[OF no_fault_values_loop[OF o(1) i]])
        (auto dest: values_loop_OkD[OF _ o(1)] intro: no_fault_children_ok o(2))
    with False show ?thesis by simp
  qed simp
  have blk: "no_fault (rbind (block_len h ?vl) (\<lambda>(len, used). if len < 4 + ?nr * 4 then Err EFAULT
      else rbind (values_loop h ?vl [0..<?nr] c) (\<lambda>c. children_ok c b)))"
    if v: "IS_VALID_BLOCK h ?vl" and o: "offset_list_ok c" "offset_list_ok b" for c b
    using inner[OF that] hive_ok_valid(7)[OF h(1) v] by simp
  have full: "no_fault (rbind (grow_offset_list init_offset_list ?nr) (\<lambda>values.
       if \<not> IS_VALID_BLOCK h ?vl then Err EFAULT
       else
         rbind (add_to_offset_list init_offset_list ?vl) (\<lambda>blocks.
         rbind (block_len h ?vl) (\<lambda>(len, used).
         if len < 4 + ?nr * 4 then Err EFAULT
         else
           rbind (values_loop h ?vl [0..<?nr] values) (\<lambda>values.
           children_ok values blocks)))))"
    by (rule no_fault_rbind[OF gr(1)], cases "IS_VALID_BLOCK h ?vl")
      (simp_all add: no_fault_rbind[OF ad(1) blk[OF _ gr(2) ad(2)]])
  show "no_fault (rbind (rd32 h (node + nk_nr_values)) (\<lambda>w.
     let nr_values = unat w in
     if nr_values = 0 then children_ok init_offset_list init_offset_list
     else if HIVEX_MAX_VALUES < nr_values then Err ERANGE
     else
       rbind (grow_offset_list init_offset_list nr_values) (\<lambda>values.
       rbind (rd32 h (node + nk_vallist)) (\<lambda>w.
       let vlist_offset = unat w + 0x1000 in
       if \<not> IS_VALID_BLOCK h vlist_offset then Err EFAULT
       else
         rbind (add_to_offset_list init_offset_list vlist_offset) (\<lambda>blocks.
         rbind (block_len h vlist_offset) (\<lambda>(len, used).
         if len < 4 + nr_values * 4 then Err EFAULT
         else
           rbind (values_loop h vlist_offset [0..<nr_values] values) (\<lambda>values.
           children_ok values blocks)))))))"
    unfolding nk_offsets rd rbind_simps Let_def
    using no_fault_children_ok[OF offset_list_ok_init offset_list_ok_init] full by simp
qed

lemma data_room:
  assumes "4 \<le> b" and "b < 2 ^ 31"
  shows "data_room b = b - 4"
proof -
  have "b + 2 ^ 64 - 4 = (b - 4) + 2 ^ 64" using assms(1) by simp
  then have "data_room b = (b - 4) mod 2 ^ 64" unfolding data_room_def by (simp only: mod_add_self2)
  also have "\<dots> = b - 4" using assms(2) by (intro mod_less) simp
  finally show ?thesis .
qed

lemma hive_ok_blen_bound:
  assumes "hive_ok h" and "IS_VALID_BLOCK h b"
  shows "blen h b < 2 ^ 31"
  using assms hive_wf_block(8) hive_wf_valid unfolding hive_ok_def by metis

lemma no_fault_value_value:
  assumes h: "hive_ok h" "records_ok h"
  shows "no_fault (hivex_value_value h v)"
  unfolding hivex_value_value_def
proof (rule no_fault_after_vk[OF h])
  assume b: "v + 24 \<le> hsize h"
  let ?w = "get32 (addr h) (v + 8)" and ?n = "unat (get32 (addr h) (v + 8) AND 0x7fffffff)"
    and ?d = "unat (get32 (addr h) (v + 12)) + 0x1000"
  have rd: "rd32 h (v + 8) = Ok ?w" "rd32 h (v + 16) = Ok (get32 (addr h) (v + 16))"
    "rd32 h (v + 12) = Ok (get32 (addr h) (v + 12))" using b by simp_all
  have rb: "no_fault (rbind (rd_bytes h (v + 12) n) f)" if "n \<le> 4" "\<And>x. no_fault (f x)" for n f
    using that b by (intro no_fault_rbind) simp_all
  have blk: "no_fault (rbind (block_len h ?d) (\<lambda>(blen, used).
      rbind (rd_bytes h (?d + 4) (if data_room blen < n then data_room blen else n)) (g blen)))" if d: "IS_VALID_BLOCK h ?d" and g: "\<And>l x. no_fault (g l x)" for n g
  proof -
    have l: "blen h ?d < 2 ^ 31" using hive_ok_blen_bound[OF h(1) d] .
    note dv = hive_ok_valid(3,4,7)[OF h(1) d]
    have "data_room (blen h ?d) = blen h ?d - 4" using dv(2) l by (intro data_room) simp_all
    then show ?thesis using dv g by (simp add: no_fault_rbind hive_simps)
  qed
  show "no_fault (rbind (rd32 h (v + vk_data_type)) (\<lambda>t.
     rbind (rd32 h (v + vk_data_len)) (\<lambda>w.
     let is_inline = (w AND 0x80000000 \<noteq> 0); len = unat (w AND 0x7fffffff) in
     if is_inline \<and> 4 < len then Err ENOTSUP
     else if HIVEX_MAX_VALUE_LEN < len then Err ERANGE
     else if is_inline
     then rbind (rd_bytes h (v + vk_data_offset) len) (\<lambda>ret. Ok (t, len, ret))
     else
       rbind (rd32 h (v + vk_data_offset)) (\<lambda>w.
       let data_offset = unat w + 0x1000 in
       if \<not> IS_VALID_BLOCK h data_offset then Err EFAULT
       else
         rbind (block_len h data_offset) (\<lambda>(blen, used).
         let len = (if data_room blen < len then data_room blen else len) in
         rbind (rd_bytes h (data_offset + 4) len) (\<lambda>ret. Ok (t, len, ret)))))))"
    unfolding other_offsets rd rbind_simps Let_def
    using blk[of "\<lambda>l ret. Ok (get32 (addr h) (v + 16), if data_room l < ?n then data_room l else ?n, ret)" ?n]
      rb[of ?n "\<lambda>ret. Ok (get32 (addr h) (v + 16), ?n, ret)"]
    by (simp split: if_split)
qed

lemma no_fault_find_named:
  "(\<And>x. no_fault (g x)) \<Longrightarrow> no_fault (find_named g key (ys @ [0]))"
  by (induction ys) (auto intro!: no_fault_rbind)

lemma no_fault_get_child:
  assumes h: "hive_ok h" "records_ok h"
  shows "no_fault (hivex_node_get_child h n key)"
proof -
  have "no_fault (hivex_node_children h n)"
    by (auto simp: hivex_node_children_def intro!: no_fault_rbind no_fault_get_children[OF h])
  then show ?thesis unfolding hivex_node_get_child_def
    by (rule no_fault_rbind)
      (auto dest!: hivex_node_children_OkD intro!: no_fault_find_named no_fault_simple_readers[OF h])
qed

lemma no_fault_get_value:
  assumes h: "hive_ok h" "records_ok h"
  shows "no_fault (hivex_node_get_value h n key)"
proof -
  have "no_fault (hivex_node_values h n)"
    by (auto simp: hivex_node_values_def intro!: no_fault_rbind no_fault_get_values[OF h])
  then show ?thesis unfolding hivex_node_get_value_def
    by (rule no_fault_rbind)
      (auto dest!: hivex_node_values_OkD intro!: no_fault_find_named no_fault_simple_readers[OF h])
qed

section \<open>Properties\<close>

text \<open>
  C11: on a well-formed handle whose records fit their blocks no reading operation, called with any
  number as the node or value handle and any name, reads outside the image, overflows or runs off
  an array.
\<close>

theorem reading_memory_safe:
  assumes "hive_ok h" and "records_ok h"
  shows "no_fault (hivex_node_struct_length h n) \<and> no_fault (hivex_node_name h n) \<and>
    no_fault (hivex_node_timestamp h n) \<and> no_fault (get_children h n flags) \<and>
    no_fault (hivex_node_get_child h n key) \<and> no_fault (hivex_node_parent h n) \<and>
    no_fault (get_values h n) \<and> no_fault (hivex_node_get_value h n key) \<and>
    no_fault (hivex_value_key_len h n) \<and> no_fault (hivex_value_key h n) \<and>
    no_fault (hivex_value_type h n) \<and> no_fault (hivex_value_value h n)"
  using no_fault_simple_readers[OF assms] no_fault_get_children[OF assms] no_fault_get_child[OF assms]
    no_fault_get_values[OF assms] no_fault_get_value[OF assms] no_fault_value_value[OF assms]
  by simp

text \<open>
  C26: if \<^verbatim>\<open>get_children\<close> succeeds, on any handle, then the children it returns are exactly the
  keys of the node's lf/lh-records in order, followed by the terminating zero; their number is the
  \<^verbatim>\<open>nr_subkeys\<close> of the nk-record and at most \<^verbatim>\<open>HIVEX_MAX_SUBKEYS\<close>; the intermediate blocks are the
  index block and, when that is an ri-record, the blocks it lists; all of them are valid, and so
  are the children unless the caller asked not to check them.
\<close>

theorem get_children_sound:
  assumes "get_children h node flags = Ok (cs, bs)"
  shows "cs = child_offsets h node @ [0] \<and> bs = child_blocks h node @ [0] \<and>
    IS_VALID_BLOCK h node \<and> id_of h node = id_nk \<and>
    length (child_offsets h node) = nr_subkeys h node \<and> nr_subkeys h node \<le> HIVEX_MAX_SUBKEYS \<and>
    (\<forall>b \<in> set (child_blocks h node). IS_VALID_BLOCK h b) \<and>
    (flags AND GET_CHILDREN_NO_CHECK_NK \<noteq> 0 \<or> (\<forall>c \<in> set (child_offsets h node). IS_VALID_BLOCK h c))"
  using get_children_OkD[OF assms] by (auto simp: no_check_def)

text \<open>
  C12: on a well-formed handle, for a node whose index is consistent (whether a single lf/lh-record
  or an ri-record over several) and whose children are valid blocks, \<^verbatim>\<open>hivex_node_children\<close> succeeds
  and returns exactly the children the index lists.
\<close>

theorem node_children_complete:
  assumes "hive_ok h" and "index_ok h node" and "\<forall>c \<in> set (child_offsets h node). IS_VALID_BLOCK h c"
  shows "hivex_node_children h node = Ok (child_offsets h node @ [0])"
  using get_children_eq[OF assms(1,2), of 0] assms(3) by (simp add: hivex_node_children_def)

text \<open>
  C27: when \<^verbatim>\<open>hivex_node_get_child\<close> returns a result and not an error, it is either zero, and then no
  child has the name up to case, or the first child with that name.
\<close>

theorem get_child_correct:
  assumes "hivex_node_get_child h node name = Ok c"
  shows "(c = 0 \<and> (\<forall>k \<in> set (child_offsets h node).
        \<exists>n. hivex_node_name h k = Ok n \<and> \<not> STRCASEEQ n name)) \<or>
    (\<exists>before after. child_offsets h node = before @ c # after \<and> c \<noteq> 0 \<and>
        (\<exists>n. hivex_node_name h c = Ok n \<and> STRCASEEQ n name) \<and>
        (\<forall>k \<in> set before. \<exists>n. hivex_node_name h k = Ok n \<and> \<not> STRCASEEQ n name))"
proof -
  obtain xs where xs: "hivex_node_children h node = Ok xs"
    using assms by (auto simp: hivex_node_get_child_def)
  with hivex_node_children_OkD[OF xs] kids.search_OkD[OF assms] show ?thesis
    unfolding kids.matches_def kids.differs_def by simp
qed

text \<open>
  The lookups by name do not depend on the case of the ASCII letters of the name asked for.
\<close>

lemma lookup_case_insensitive:
  assumes "STRCASEEQ name name'"
  shows "hivex_node_get_child h node name = hivex_node_get_child h node name' \<and>
    hivex_node_get_value h node name = hivex_node_get_value h node name'"
  using kids.search_case_insensitive[OF assms] vals.search_case_insensitive[OF assms] by simp

text \<open>
  C28: if \<^verbatim>\<open>get_values\<close> succeeds, on any handle, it returns the entries of the node's value list in
  order and the terminating zero; there are \<^verbatim>\<open>nr_values\<close> of them, at most \<^verbatim>\<open>HIVEX_MAX_VALUES\<close>, and
  they and the value list are valid blocks.
\<close>

theorem get_values_sound:
  assumes "get_values h node = Ok (vs, bs)"
  shows "vs = value_offsets h node @ [0] \<and> bs = value_blocks h node @ [0] \<and>
    length (value_offsets h node) = nr_values h node \<and> nr_values h node \<le> HIVEX_MAX_VALUES \<and>
    (\<forall>b \<in> set (value_blocks h node). IS_VALID_BLOCK h b) \<and>
    (\<forall>v \<in> set (value_offsets h node). IS_VALID_BLOCK h v)"
  using get_values_OkD[OF assms] by (simp add: value_offsets_def)

text \<open>
  C29: the data \<^verbatim>\<open>hivex_value_value\<close> returns has the length it reports, which is at most the length
  \<^verbatim>\<open>hivex_value_type\<close> declares for the value and at most \<^verbatim>\<open>HIVEX_MAX_VALUE_LEN\<close>, and the reported
  type is the one \<^verbatim>\<open>hivex_value_type\<close> reports.
\<close>

theorem value_value_sound:
  assumes "hivex_value_value h v = Ok (t, len, data)"
  shows "\<exists>declared. hivex_value_type h v = Ok (t, declared) \<and> length data = len \<and>
    len \<le> declared \<and> len \<le> HIVEX_MAX_VALUE_LEN"
  using assms by (auto simp: hivex_value_value_def hivex_value_type_def Let_def hive_simps split: if_splits)

text \<open>
  On a well-formed handle, for an nk-record whose name fits its block, \<^verbatim>\<open>hivex_node_name\<close> and
  \<^verbatim>\<open>hivex_node_struct_length\<close> both succeed, the latter is the fixed part of the nk-record plus the
  length of the name, and the record it measures lies inside the file.
\<close>

lemma struct_length_name:
  assumes "hive_ok h" and "is_nk h node"
  shows "\<exists>name. hivex_node_name h node = Ok (name @ [0]) \<and>
    hivex_node_struct_length h node = Ok (sizeof ntreg_nk_record - 1 + length name) \<and>
    node + (sizeof ntreg_nk_record - 1 + length name) \<le> hsize h"
proof -
  have v: "IS_VALID_BLOCK h node" using assms(2) by (simp add: is_nk_def)
  note nb = is_nk_bounds[OF assms] hive_ok_valid(7)[OF assms(1) v]
  let ?name = "get_bytes (addr h) (node + 80) (unat (get16 (addr h) (node + 76)))"
  have ck: "check_block h node id_nk EINVAL = Ok ()" "rd16 h (node + 76) = Ok (get16 (addr h) (node + 76))"
    using assms(2) nb(2) by (auto simp: is_nk_def)
  have "hivex_node_struct_length h node = Ok (80 + length ?name)"
    using nb assms(2) by (simp add: hivex_node_struct_length_def ck Let_def is_nk_def add.commute)
  then show ?thesis using hivex_node_name_eq[OF assms] nb(1) by (intro exI[of _ ?name]) simp
qed

end
