(* ===== verification/Strings.thy ===== *)
theory Strings
  imports Reading
begin

text \<open>
  Typed values of \<^verbatim>\<open>lib/hivex.c\<close>: strings, lists of strings, and little- and big-endian numbers.

  The converter \<^verbatim>\<open>iconv\<close> from UTF-16 to UTF-8 of the C library is modelled as documented: the
  input is read unit by unit; the byte order is taken from a byte-order mark at the start of the
  first call (which is then dropped) and is little-endian without one, and it is remembered in the
  descriptor; an unpaired surrogate is \<open>EILSEQ\<close>, an input that ends inside a character \<open>EINVAL\<close>,
  and a character that does not fit the remaining output \<open>E2BIG\<close>. The loop of
  \<^verbatim>\<open>windows_utf16_to_utf8\<close>, which doubles the output buffer until the text fits, is a recursion
  with fuel 65 (a \<^verbatim>\<open>size_t\<close> can be doubled at most 64 times); it is shown that two rounds are
  enough for every input.
\<close>

section \<open>The converter\<close>

datatype byte_order = Initial | Little | Big

fun utf16_unit :: "byte_order \<Rightarrow> byte \<Rightarrow> byte \<Rightarrow> nat" where
  "utf16_unit Big a b = 256 * unat a + unat b"
| "utf16_unit _ a b = unat a + 256 * unat b"

definition utf8 :: "nat \<Rightarrow> byte list" where
  "utf8 c =
     (if c < 0x80 then [of_nat c]
      else if c < 0x800 then [of_nat (0xC0 + c div 64), of_nat (0x80 + c mod 64)]
      else if c < 0x10000
      then [of_nat (0xE0 + c div 4096), of_nat (0x80 + c div 64 mod 64), of_nat (0x80 + c mod 64)]
      else [of_nat (0xF0 + c div 262144), of_nat (0x80 + c div 4096 mod 64),
            of_nat (0x80 + c div 64 mod 64), of_nat (0x80 + c mod 64)])"

definition is_high :: "nat \<Rightarrow> bool" where "is_high u \<longleftrightarrow> 0xD800 \<le> u \<and> u < 0xDC00"
definition is_low :: "nat \<Rightarrow> bool" where "is_low u \<longleftrightarrow> 0xDC00 \<le> u \<and> u < 0xE000"

definition emit :: "byte list \<Rightarrow> nat \<Rightarrow> (nat \<Rightarrow> byte list result) \<Rightarrow> byte list result" where
  "emit bs outlen rest =
     (if outlen < length bs then Err E2BIG
      else rbind (rest (outlen - length bs)) (\<lambda>out. Ok (bs @ out)))"

fun utf16_decode :: "byte_order \<Rightarrow> byte list \<Rightarrow> nat \<Rightarrow> byte list result" where
  "utf16_decode bo [] outlen = Ok []"
| "utf16_decode bo [a] outlen = Err EINVAL"
| "utf16_decode bo (a # b # xs) outlen =
     (let u = utf16_unit bo a b in
      if is_low u then Err EILSEQ
      else if is_high u then
        (case xs of
           c # d # ys \<Rightarrow>
             let v = utf16_unit bo c d in
             if \<not> is_low v then Err EILSEQ
             else emit (utf8 (0x10000 + (u - 0xD800) * 0x400 + (v - 0xDC00))) outlen (utf16_decode bo ys)
         | _ \<Rightarrow> Err EINVAL)
      else emit (utf8 u) outlen (utf16_decode bo xs))"

definition iconv :: "byte_order \<Rightarrow> byte list \<Rightarrow> nat \<Rightarrow> byte list result \<times> byte_order" where
  "iconv ic input outlen =
     (case ic of
        Initial \<Rightarrow>
          (case input of
             a # b # xs \<Rightarrow>
               if (a, b) = (0xff, 0xfe) then (utf16_decode Little xs outlen, Little)
               else if (a, b) = (0xfe, 0xff) then (utf16_decode Big xs outlen, Big)
               else (utf16_decode Little input outlen, Little)
           | _ \<Rightarrow> (utf16_decode Little input outlen, Initial))
      | bo \<Rightarrow> (utf16_decode bo input outlen, bo))"

section \<open>Definitions\<close>

fun convert_loop :: "nat \<Rightarrow> byte_order \<Rightarrow> byte list \<Rightarrow> nat \<Rightarrow> byte list result" where
  "convert_loop 0 ic input outalloc = Fault OutOfFuel"
| "convert_loop (Suc fuel) ic input outalloc =
     (case iconv ic input outalloc of
        (Err E2BIG, ic') \<Rightarrow>
          let prev = outalloc; outalloc = (outalloc * 2) mod 2 ^ 64 in
          if outalloc < prev then Err E2BIG else convert_loop fuel ic' input outalloc
      | (Err e, _) \<Rightarrow> Err e
      | (Fault f, _) \<Rightarrow> Fault f
      | (Ok out, _) \<Rightarrow> Ok (out @ [0]))"

definition windows_utf16_to_utf8 :: "byte list \<Rightarrow> byte list result" where
  "windows_utf16_to_utf8 input = convert_loop 65 Initial input (length input)"

fun utf16_string_len_in_bytes_max :: "byte list \<Rightarrow> nat" where
  "utf16_string_len_in_bytes_max (a # b # xs) =
     (if a \<noteq> 0 \<or> b \<noteq> 0 then 2 + utf16_string_len_in_bytes_max xs else 0)"
| "utf16_string_len_in_bytes_max _ = 0"

definition hive_t_none :: u32 where "hive_t_none = 0"
definition hive_t_string :: u32 where "hive_t_string = 1"
definition hive_t_expand_string :: u32 where "hive_t_expand_string = 2"
definition hive_t_binary :: u32 where "hive_t_binary = 3"
definition hive_t_dword :: u32 where "hive_t_dword = 4"
definition hive_t_dword_be :: u32 where "hive_t_dword_be = 5"
definition hive_t_link :: u32 where "hive_t_link = 6"
definition hive_t_multiple_strings :: u32 where "hive_t_multiple_strings = 7"
definition hive_t_qword :: u32 where "hive_t_qword = 11"

definition hivex_value_string :: "hive \<Rightarrow> hive_value_h \<Rightarrow> byte list result" where
  "hivex_value_string h value =
     rbind (hivex_value_value h value) (\<lambda>(t, len, data).
     if t \<noteq> hive_t_string \<and> t \<noteq> hive_t_expand_string \<and> t \<noteq> hive_t_link then Err EINVAL
     else
       let slen = utf16_string_len_in_bytes_max data;
           len = (if slen < len then slen else len) in
       windows_utf16_to_utf8 (take len data))"

function multiple_loop :: "byte list \<Rightarrow> byte list list result" where
  "multiple_loop p =
     (let plen = utf16_string_len_in_bytes_max p in
      if p \<noteq> [] \<and> 0 < plen
      then rbind (windows_utf16_to_utf8 (take plen p)) (\<lambda>s.
           rbind (multiple_loop (drop (plen + 2) p)) (\<lambda>rest. Ok (s # rest)))
      else Ok [])"
  by pat_completeness auto
termination
  by (relation "measure length") auto

declare multiple_loop.simps [simp del]

definition hivex_value_multiple_strings :: "hive \<Rightarrow> hive_value_h \<Rightarrow> byte list list result" where
  "hivex_value_multiple_strings h value =
     rbind (hivex_value_value h value) (\<lambda>(t, len, data).
     if t \<noteq> hive_t_multiple_strings then Err EINVAL else multiple_loop (take len data))"

definition list_mem :: "byte list \<Rightarrow> mem" where
  "list_mem bs = (\<lambda>i. if i < length bs then bs ! i else 0)"

definition hivex_value_dword :: "hive \<Rightarrow> hive_value_h \<Rightarrow> u32 result" where
  "hivex_value_dword h value =
     rbind (hivex_value_value h value) (\<lambda>(t, len, data).
     if (t \<noteq> hive_t_dword \<and> t \<noteq> hive_t_dword_be) \<or> len \<noteq> 4 then Err EINVAL
     else
       let ret = get32 (list_mem data) 0 in
       if t = hive_t_dword then Ok ret else Ok (be32toh ret))"

definition hivex_value_qword :: "hive \<Rightarrow> hive_value_h \<Rightarrow> u64 result" where
  "hivex_value_qword h value =
     rbind (hivex_value_value h value) (\<lambda>(t, len, data).
     if t \<noteq> hive_t_qword \<or> len \<noteq> 8 then Err EINVAL else Ok (get64 (list_mem data) 0))"

section \<open>The buffer-doubling loop\<close>

lemma length_utf8: "length (utf8 c) \<le> 4" "c < 0x10000 \<Longrightarrow> length (utf8 c) \<le> 3"
  by (simp_all add: utf8_def)

lemma emit_fits:
  assumes "length bs \<le> outlen" and "rest (outlen - length bs) \<noteq> Err E2BIG"
  shows "emit bs outlen rest \<noteq> Err E2BIG"
  using assms by (auto simp: emit_def rbind_Err)

lemma unat_byte: "unat (a :: byte) < 256"
  using unsigned_less[of a] by simp

lemma utf16_unit_bound: "utf16_unit bo a b < 0x10000"
  using unat_byte[of a] unat_byte[of b] by (cases bo) simp_all

lemma utf16_decode_fits: "3 * length xs \<le> 2 * n \<Longrightarrow> utf16_decode bo xs n \<noteq> Err E2BIG"
proof (induction xs arbitrary: n rule: length_induct)
  case (1 xs)
  then have IH: "3 * length ys \<le> 2 * k \<Longrightarrow> utf16_decode bo ys k \<noteq> Err E2BIG" if "length ys < length xs" for ys k
    using that by blast
  show ?case
  proof (cases "(bo, xs, n)" rule: utf16_decode.cases)
    case (3 _ a b ys _)
    then have xs: "xs = a # b # ys" by simp
    let ?u = "utf16_unit bo a b"
    have l: "length (utf8 ?u) \<le> 3" by (rule length_utf8(2)[OF utf16_unit_bound])
    have one: "emit (utf8 ?u) n (utf16_decode bo ys) \<noteq> Err E2BIG"
      using "1.prems" l by (intro emit_fits IH) (simp_all add: xs)
    have two: "emit (utf8 c') n (utf16_decode bo zs) \<noteq> Err E2BIG" if "ys = c # d # zs" for c d zs c'
      using "1.prems" length_utf8(1)[of c'] that by (intro emit_fits IH) (simp_all add: xs)
    show ?thesis unfolding xs using one two by (auto simp: Let_def split: list.split)
  qed auto
qed

lemma utf16_decode_no_fault: "utf16_decode bo xs n \<noteq> Fault f"
proof (induction xs arbitrary: n rule: length_induct)
  case (1 xs)
  then have IH: "utf16_decode bo ys k \<noteq> Fault f" if "length ys < length xs" for ys k
    using that by blast
  have em: "emit bs n (utf16_decode bo ys) \<noteq> Fault f" if "length ys < length xs" for bs ys
    using IH[OF that] by (simp add: emit_def rbind_Fault)
  show ?case
    by (cases "(bo, xs, n)" rule: utf16_decode.cases) (auto simp: em Let_def split: list.split)
qed

lemma iconv_fits: "3 * length xs \<le> 2 * n \<Longrightarrow> fst (iconv ic xs n) \<noteq> Err E2BIG"
  by (auto simp: iconv_def utf16_decode_fits simp del: utf16_decode.simps split: byte_order.split list.split)

lemma iconv_no_fault: "fst (iconv ic xs n) \<noteq> Fault f"
  by (auto simp: iconv_def utf16_decode_no_fault simp del: utf16_decode.simps split: byte_order.split list.split)

lemma convert_step:
  "convert_loop (Suc k) ic xs n =
     (if fst (iconv ic xs n) = Err E2BIG
      then (if n * 2 mod 2 ^ 64 < n then Err E2BIG
            else convert_loop k (snd (iconv ic xs n)) xs (n * 2 mod 2 ^ 64))
      else rbind (fst (iconv ic xs n)) (\<lambda>out. Ok (out @ [0])))"
  by (simp add: Let_def split: prod.split result.split errno.split)

lemma convert_last:
  assumes "3 * length xs \<le> 2 * n"
  shows "convert_loop (Suc k) ic xs n = rbind (fst (iconv ic xs n)) (\<lambda>out. Ok (out @ [0]))"
  unfolding convert_step using iconv_fits[OF assms, of ic] by simp

lemma convert_loop_two:
  assumes "length xs < 2 ^ 63"
  shows "convert_loop (Suc (Suc k)) ic xs (length xs) =
    (if fst (iconv ic xs (length xs)) = Err E2BIG
     then rbind (fst (iconv (snd (iconv ic xs (length xs))) xs (2 * length xs))) (\<lambda>out. Ok (out @ [0]))
     else rbind (fst (iconv ic xs (length xs))) (\<lambda>out. Ok (out @ [0])))"
proof -
  have m: "length xs * 2 mod 2 ^ 64 = 2 * length xs" using assms by simp
  have l: "convert_loop (Suc k) ic' xs (2 * length xs) =
      rbind (fst (iconv ic' xs (2 * length xs))) (\<lambda>out. Ok (out @ [0]))" for ic'
    by (rule convert_last) simp
  show ?thesis
    unfolding convert_step[of "Suc k"] m l by simp
qed

lemma convert_no_fault:
  assumes "length xs < 2 ^ 63"
  shows "no_fault (windows_utf16_to_utf8 xs)"
proof -
  have e: "windows_utf16_to_utf8 xs = convert_loop (Suc (Suc 63)) Initial xs (length xs)"
    by (simp add: windows_utf16_to_utf8_def del: convert_loop.simps)
  have nf: "no_fault (fst (iconv ic xs n))" for ic n
    using iconv_no_fault by (auto simp: no_fault_iff)
  show ?thesis unfolding e convert_loop_two[OF assms] by (auto intro!: no_fault_rbind nf)
qed

section \<open>Encoding\<close>

text \<open>UTF-16 as Windows writes it, and the code points that have an encoding.\<close>

definition scalar :: "nat \<Rightarrow> bool" where
  "scalar c \<longleftrightarrow> c < 0xD800 \<or> (0xE000 \<le> c \<and> c < 0x110000)"

definition unit_bytes :: "nat \<Rightarrow> byte list" where
  "unit_bytes u = [of_nat (u mod 256), of_nat (u div 256)]"

definition utf16le :: "nat \<Rightarrow> byte list" where
  "utf16le c =
     (if c < 0x10000 then unit_bytes c
      else unit_bytes (0xD800 + (c - 0x10000) div 0x400) @ unit_bytes (0xDC00 + (c - 0x10000) mod 0x400))"

lemma utf16_unit_bytes:
  assumes "u < 0x10000"
  shows "utf16_unit Little (of_nat (u mod 256)) (of_nat (u div 256)) = u"
proof -
  have "u div 256 < 256" using assms by simp
  then have "unat (of_nat (u div 256) :: byte) = u div 256" "unat (of_nat (u mod 256) :: byte) = u mod 256"
    by (simp_all add: unat_of_nat take_bit_nat_eq_self)
  then show ?thesis by simp
qed

lemma utf16_decode_char:
  assumes "scalar c"
  shows "utf16_decode Little (utf16le c @ xs) n = emit (utf8 c) n (utf16_decode Little xs)"
proof (cases "c < 0x10000")
  case True
  then have "\<not> is_low c" "\<not> is_high c" using assms by (auto simp: scalar_def is_low_def is_high_def)
  with True show ?thesis
    by (simp add: utf16le_def unit_bytes_def utf16_unit_bytes Let_def del: utf16_unit.simps)
next
  case False
  let ?d = "c - 0x10000"
  have d: "?d < 0x100000" "c = 0x10000 + ?d" using assms False by (auto simp: scalar_def)
  then have q: "?d div 0x400 < 0x400" "?d mod 0x400 < 0x400" by (simp_all add: div_less_iff_less_mult)
  have hi: "is_high (0xD800 + ?d div 0x400)" "\<not> is_low (0xD800 + ?d div 0x400)"
    "is_low (0xDC00 + ?d mod 0x400)"
    using q by (simp_all add: is_high_def is_low_def)
  have u: "utf16_unit Little (of_nat ((0xD800 + ?d div 0x400) mod 256)) (of_nat ((0xD800 + ?d div 0x400) div 256)) =
      0xD800 + ?d div 0x400"
    "utf16_unit Little (of_nat ((0xDC00 + ?d mod 0x400) mod 256)) (of_nat ((0xDC00 + ?d mod 0x400) div 256)) =
      0xDC00 + ?d mod 0x400"
    using q by (intro utf16_unit_bytes; simp)+
  have "0x10000 + (0xD800 + ?d div 0x400 - 0xD800) * 0x400 + (0xDC00 + ?d mod 0x400 - 0xDC00) = c"
  proof -
    have dm: "?d div 0x400 * 0x400 + ?d mod 0x400 = ?d" by (rule div_mult_mod_eq)
    have ar: "0x10000 + (0xD800 + q - 0xD800) * 0x400 + (0xDC00 + r - 0xDC00) = 0x10000 + (q * 0x400 + r)"
      for q r :: nat by simp
    show ?thesis unfolding ar dm by (rule d(2)[symmetric])
  qed
  then show ?thesis
    using False unfolding utf16le_def unit_bytes_def
    by (simp add: u hi Let_def del: utf16_unit.simps)
qed

lemma utf16_decode_text:
  assumes "\<forall>c \<in> set cs. scalar c" and "length (concat (map utf8 cs)) \<le> n"
  shows "utf16_decode Little (concat (map utf16le cs)) n = Ok (concat (map utf8 cs))"
  using assms
proof (induction cs arbitrary: n)
  case (Cons c cs)
  have "utf16_decode Little (concat (map utf16le cs)) (n - length (utf8 c)) = Ok (concat (map utf8 cs))"
    using Cons.prems by (intro Cons.IH) auto
  with Cons.prems show ?case by (simp add: utf16_decode_char emit_def)
qed simp

lemma utf16_decode_text_or:
  assumes "\<forall>c \<in> set cs. scalar c"
  shows "utf16_decode Little (concat (map utf16le cs)) n = Err E2BIG \<or>
    utf16_decode Little (concat (map utf16le cs)) n = Ok (concat (map utf8 cs))"
  using assms
proof (induction cs arbitrary: n)
  case (Cons c cs)
  have "utf16_decode Little (concat (map utf16le cs)) (n - length (utf8 c)) = Err E2BIG \<or>
      utf16_decode Little (concat (map utf16le cs)) (n - length (utf8 c)) = Ok (concat (map utf8 cs))"
    using Cons by simp
  with Cons.prems show ?case by (auto simp: utf16_decode_char emit_def)
qed simp

lemma length_utf16le: "length (utf8 c) \<le> 2 * length (utf16le c)"
  by (simp add: utf8_def utf16le_def unit_bytes_def)

lemma length_utf16le_text: "length (concat (map utf8 cs)) \<le> 2 * length (concat (map utf16le cs))"
  by (induction cs) (use length_utf16le in \<open>auto intro: add_mono simp: add_mult_distrib2\<close>)

lemma utf16le_first_unit:
  assumes "scalar c"
  obtains a b xs where "utf16le c = a # b # xs"
    "utf16_unit Little a b = c \<or> utf16_unit Little a b < 0xDC00"
proof (cases "c < 0x10000")
  case True
  with that utf16_unit_bytes[OF True] show ?thesis by (simp add: utf16le_def unit_bytes_def)
next
  case False
  let ?u = "0xD800 + (c - 0x10000) div 0x400"
  have u: "?u < 0xDC00" using assms False by (simp add: scalar_def less_mult_imp_div_less)
  then have "utf16_unit Little (of_nat (?u mod 256)) (of_nat (?u div 256)) = ?u"
    by (intro utf16_unit_bytes) simp
  with that u False show ?thesis by (simp add: utf16le_def unit_bytes_def)
qed

text \<open>The converter knows how much room a text takes.\<close>

lemma utf16_decode_exact:
  assumes "\<forall>c \<in> set cs. scalar c"
  shows "utf16_decode Little (concat (map utf16le cs)) n =
    (if length (concat (map utf8 cs)) \<le> n then Ok (concat (map utf8 cs)) else Err E2BIG)"
  using assms
proof (induction cs arbitrary: n)
  case (Cons c cs)
  then show ?case by (auto simp: utf16_decode_char emit_def)
qed simp

text \<open>The other byte order.\<close>

fun swap_pairs :: "byte list \<Rightarrow> byte list" where
  "swap_pairs (a # b # xs) = b # a # swap_pairs xs"
| "swap_pairs xs = xs"

lemma length_swap_pairs [simp]: "length (swap_pairs xs) = length xs"
  by (induction xs rule: swap_pairs.induct) auto

lemma utf16_decode_swap: "utf16_decode Big (swap_pairs xs) n = utf16_decode Little xs n"
proof (induction Little xs n rule: utf16_decode.induct)
  case (3 a b xs n)
  have u: "utf16_unit Big y x = utf16_unit Little x y" for x y by simp
  show ?case
  proof (cases "is_low (utf16_unit Little a b) \<or> \<not> is_high (utf16_unit Little a b)")
    case True
    then show ?thesis using 3(2) by (auto simp: u Let_def emit_def simp del: utf16_unit.simps)
  next
    case False
    then show ?thesis
    proof (cases xs rule: swap_pairs.cases)
      case (1 c d ys)
      then show ?thesis using False 3(1)[OF refl _ _ 1 refl] by (simp add: u Let_def emit_def del: utf16_unit.simps)
    qed (use False in \<open>simp_all add: u Let_def del: utf16_unit.simps\<close>)
  qed
qed simp_all

definition no_bom :: "nat list \<Rightarrow> bool" where
  "no_bom cs \<longleftrightarrow> cs = [] \<or> (hd cs \<noteq> 0xFEFF \<and> hd cs \<noteq> 0xFFFE)"

lemma iconv_no_bom:
  assumes "no_bom cs" and "\<forall>c \<in> set cs. scalar c" and "ic \<noteq> Big"
  shows "fst (iconv ic (concat (map utf16le cs)) n) = utf16_decode Little (concat (map utf16le cs)) n"
    "snd (iconv ic (concat (map utf16le cs)) n) \<noteq> Big"
proof -
  have "fst (iconv ic (concat (map utf16le cs)) n) = utf16_decode Little (concat (map utf16le cs)) n \<and>
    snd (iconv ic (concat (map utf16le cs)) n) \<noteq> Big"
  proof (cases "cs = [] \<or> ic \<noteq> Initial")
    case True
    with assms(3) show ?thesis by (cases ic) (auto simp: iconv_def)
  next
    case False
    then obtain c cs' where cs: "cs = c # cs'" "ic = Initial" by (cases cs) auto
    obtain a b xs where ab: "utf16le c = a # b # xs" "utf16_unit Little a b = c \<or> utf16_unit Little a b < 0xDC00"
      using utf16le_first_unit[of c] assms(2) cs by auto
    have "(a, b) \<noteq> (0xff, 0xfe)" "(a, b) \<noteq> (0xfe, 0xff)"
      using ab(2) assms(1) by (auto simp: cs no_bom_def)
    then show ?thesis by (auto simp: cs ab iconv_def simp del: utf16_decode.simps)
  qed
  then show "fst (iconv ic (concat (map utf16le cs)) n) = utf16_decode Little (concat (map utf16le cs)) n"
    "snd (iconv ic (concat (map utf16le cs)) n) \<noteq> Big" by auto
qed

section \<open>Strings in a value\<close>

definition text_ok :: "nat list \<Rightarrow> bool" where
  "text_ok cs \<longleftrightarrow> (\<forall>c \<in> set cs. scalar c \<and> c \<noteq> 0) \<and> no_bom cs \<and> length (concat (map utf16le cs)) < 2 ^ 63"

lemma utf16_len_unit:
  assumes "0 < u" and "u < 0x10000"
  shows "utf16_string_len_in_bytes_max (unit_bytes u @ xs) = 2 + utf16_string_len_in_bytes_max xs"
proof -
  have "(of_nat (u mod 256) :: byte) \<noteq> 0 \<or> (of_nat (u div 256) :: byte) \<noteq> 0"
  proof (rule ccontr)
    assume "\<not> ?thesis"
    then have "utf16_unit Little (of_nat (u mod 256)) (of_nat (u div 256)) = 0" by simp
    with utf16_unit_bytes[OF assms(2)] assms(1) show False by simp
  qed
  then show ?thesis by (simp add: unit_bytes_def)
qed

lemma utf16_len_char:
  assumes "scalar c" and "c \<noteq> 0"
  shows "utf16_string_len_in_bytes_max (utf16le c @ xs) = length (utf16le c) + utf16_string_len_in_bytes_max xs"
proof (cases "c < 0x10000")
  case True
  with assms show ?thesis by (simp add: utf16le_def utf16_len_unit) (simp add: unit_bytes_def)
next
  case False
  have "(c - 0x10000) div 0x400 < 0x400" using assms(1) False
    by (simp add: scalar_def less_mult_imp_div_less)
  with False show ?thesis by (simp add: utf16le_def utf16_len_unit) (simp add: unit_bytes_def)
qed

lemma utf16_len_text:
  "\<forall>c \<in> set cs. scalar c \<and> c \<noteq> 0 \<Longrightarrow>
     utf16_string_len_in_bytes_max (concat (map utf16le cs) @ xs) =
       length (concat (map utf16le cs)) + utf16_string_len_in_bytes_max xs"
  by (induction cs) (simp_all add: utf16_len_char)

lemma utf16_len_le: "utf16_string_len_in_bytes_max xs \<le> length xs"
  by (induction xs rule: utf16_string_len_in_bytes_max.induct) auto

lemma convert_text:
  assumes "\<forall>c \<in> set cs. scalar c" and "no_bom cs" and "length (concat (map utf16le cs)) < 2 ^ 63"
  shows "windows_utf16_to_utf8 (concat (map utf16le cs)) = Ok (concat (map utf8 cs) @ [0])"
proof -
  let ?in = "concat (map utf16le cs)"
  have e: "windows_utf16_to_utf8 ?in = convert_loop (Suc (Suc 63)) Initial ?in (length ?in)"
    by (simp add: windows_utf16_to_utf8_def del: convert_loop.simps)
  note b = iconv_no_bom[OF assms(2,1)]
  have big: "fst (iconv ic ?in (2 * length ?in)) = Ok (concat (map utf8 cs))" if "ic \<noteq> Big" for ic
    using b(1)[OF that] utf16_decode_text[OF assms(1) length_utf16le_text] by simp
  have small: "fst (iconv Initial ?in n) = Err E2BIG \<or> fst (iconv Initial ?in n) = Ok (concat (map utf8 cs))" for n
    using b(1)[of Initial n] utf16_decode_text_or[OF assms(1)] by simp
  show ?thesis
    unfolding e convert_loop_two[OF assms(3)]
    using small[of "length ?in"] big[OF b(2)[of Initial]] by auto
qed

text \<open>
  A byte-order mark in front of a text: it sets the byte order and is dropped, unless the text does not fit the
  first buffer. Then the second round, which starts from the beginning with the byte order of the first, takes
  the mark for a character of the text.
\<close>

definition read_as :: "nat list \<Rightarrow> byte list" where
  "read_as cs =
     (if cs \<noteq> [] \<and> hd cs = 0xFEFF \<and> length (concat (map utf8 (tl cs))) \<le> length (concat (map utf16le cs))
      then concat (map utf8 (tl cs)) else concat (map utf8 cs))"

lemma mark_bytes: "utf16le 0xFEFF = [0xff, 0xfe]" "scalar 0xFEFF"
  by (simp_all add: utf16le_def unit_bytes_def scalar_def)

lemma convert_marked:
  assumes "\<forall>c \<in> set cs. scalar c" and "length (concat (map utf16le cs)) + 2 < 2 ^ 63"
  shows "windows_utf16_to_utf8 ([0xff, 0xfe] @ concat (map utf16le cs)) = Ok (read_as (0xFEFF # cs) @ [0])"
    "windows_utf16_to_utf8 ([0xfe, 0xff] @ swap_pairs (concat (map utf16le cs))) = Ok (read_as (0xFEFF # cs) @ [0])"
proof -
  let ?t = "concat (map utf16le cs)" and ?all = "concat (map utf16le (0xFEFF # cs))" and ?u = "concat (map utf8 cs)"
  have sc: "\<forall>c \<in> set (0xFEFF # cs). scalar c" using assms(1) mark_bytes(2) by simp
  have all: "?all = 0xff # 0xfe # ?t" by (simp add: mark_bytes(1))
  have n: "length ?all = length ?t + 2" unfolding all by simp
  have big: "utf16_decode Little ?all (2 * length ?all) = Ok (concat (map utf8 (0xFEFF # cs)))"
    by (rule utf16_decode_text[OF sc length_utf16le_text])
  have e: "windows_utf16_to_utf8 xs = convert_loop (Suc (Suc 63)) Initial xs (length xs)" for xs
    by (simp add: windows_utf16_to_utf8_def del: convert_loop.simps)
  have ra: "read_as (0xFEFF # cs) = (if length ?u \<le> length ?t + 2 then ?u else concat (map utf8 (0xFEFF # cs)))"
    using n by (simp add: read_as_def)
  have l: "length ([0xff, 0xfe] @ ?t) < 2 ^ 63" "length ([0xfe, 0xff] @ swap_pairs ?t) < 2 ^ 63" using assms(2) by simp_all
  have i1: "iconv Initial ([0xff, 0xfe] @ ?t) k = (utf16_decode Little ?t k, Little)"
    "iconv Initial ([0xfe, 0xff] @ swap_pairs ?t) k = (utf16_decode Big (swap_pairs ?t) k, Big)" for k
    by (simp_all add: iconv_def)
  have s: "swap_pairs ?all = [0xfe, 0xff] @ swap_pairs ?t" unfolding all by simp
  have i2: "iconv Little ([0xff, 0xfe] @ ?t) k = (utf16_decode Little ?all k, Little)"
    "iconv Big ([0xfe, 0xff] @ swap_pairs ?t) k = (utf16_decode Little ?all k, Big)" for k
    using utf16_decode_swap[of ?all k, unfolded s] unfolding all by (simp_all add: iconv_def del: utf16_decode.simps)
  have r: "2 * length ([0xff, 0xfe] @ ?t) = 2 * length ?all" "2 * length ([0xfe, 0xff] @ swap_pairs ?t) = 2 * length ?all"
    by (simp_all add: mark_bytes(1))
  show "windows_utf16_to_utf8 ([0xff, 0xfe] @ ?t) = Ok (read_as (0xFEFF # cs) @ [0])"
    unfolding e convert_loop_two[OF l(1)] i1 fst_conv snd_conv i2 r big ra
    using utf16_decode_exact[OF assms(1)] by simp
  show "windows_utf16_to_utf8 ([0xfe, 0xff] @ swap_pairs ?t) = Ok (read_as (0xFEFF # cs) @ [0])"
    unfolding e convert_loop_two[OF l(2)] i1 fst_conv snd_conv i2 r big ra utf16_decode_swap
    using utf16_decode_exact[OF assms(1)] by simp
qed

text \<open>A string of a value: not empty, without a zero, and not beginning with the two bytes of the big-endian mark.\<close>

definition string_ok :: "nat list \<Rightarrow> bool" where
  "string_ok cs \<longleftrightarrow>
     cs \<noteq> [] \<and> (\<forall>c \<in> set cs. scalar c \<and> c \<noteq> 0) \<and> hd cs \<noteq> 0xFFFE \<and> length (concat (map utf16le cs)) < 2 ^ 63"

lemma convert_string:
  assumes "string_ok cs"
  shows "windows_utf16_to_utf8 (concat (map utf16le cs)) = Ok (read_as cs @ [0])"
proof (cases "hd cs = 0xFEFF")
  case True
  then obtain cs' where cs: "cs = 0xFEFF # cs'" using assms by (cases cs) (auto simp: string_ok_def)
  then have "\<forall>c \<in> set cs'. scalar c" "length (concat (map utf16le cs')) + 2 < 2 ^ 63"
    using assms by (auto simp: string_ok_def mark_bytes)
  from convert_marked(1)[OF this] show ?thesis by (simp add: cs mark_bytes)
next
  case False
  then have "read_as cs = concat (map utf8 cs)" "no_bom cs" using assms by (auto simp: read_as_def no_bom_def string_ok_def)
  then show ?thesis using assms convert_text[of cs] by (auto simp: string_ok_def)
qed

text \<open>A list of strings in a value: each non-empty, ended by two zero bytes, the list by two more.\<close>

definition multi_sz :: "nat list list \<Rightarrow> byte list" where
  "multi_sz css = concat (map (\<lambda>cs. concat (map utf16le cs) @ [0, 0]) css) @ [0, 0]"

lemma utf16le_nonempty: "utf16le c \<noteq> []"
  by (simp add: utf16le_def unit_bytes_def)

lemma multiple_loop_text:
  "\<forall>cs \<in> set css. string_ok cs \<Longrightarrow> multiple_loop (multi_sz css @ junk) = Ok (map (\<lambda>cs. read_as cs @ [0]) css)"
proof (induction css)
  case Nil
  then show ?case by (subst multiple_loop.simps) (simp add: multi_sz_def)
next
  case (Cons cs css)
  let ?t = "concat (map utf16le cs)" and ?rest = "multi_sz css @ junk"
  have ok: "string_ok cs" and cs: "\<forall>c \<in> set cs. scalar c \<and> c \<noteq> 0" "cs \<noteq> []"
    using Cons.prems by (auto simp: string_ok_def)
  have d: "multi_sz (cs # css) @ junk = ?t @ 0 # 0 # ?rest" by (simp add: multi_sz_def)
  have len: "utf16_string_len_in_bytes_max (?t @ 0 # 0 # ?rest) = length ?t"
    using utf16_len_text[OF cs(1)] by simp
  have "0 < length ?t" using cs(2) utf16le_nonempty by (cases cs) auto
  moreover have "windows_utf16_to_utf8 ?t = Ok (read_as cs @ [0])" by (rule convert_string[OF ok])
  moreover have "multiple_loop ?rest = Ok (map (\<lambda>cs. read_as cs @ [0]) css)"
    using Cons by simp
  ultimately show ?case
    unfolding d by (subst multiple_loop.simps) (simp add: len Let_def)
qed

lemma multiple_loop_no_fault: "length p < 2 ^ 63 \<Longrightarrow> no_fault (multiple_loop p)"
proof (induction p rule: multiple_loop.induct)
  case (1 p)
  have nf: "no_fault (windows_utf16_to_utf8 (take n p))" for n
    using convert_no_fault[of "take n p"] "1.prems" by simp
  show ?case
    by (subst multiple_loop.simps) (use 1 nf in \<open>auto simp: Let_def intro!: no_fault_rbind\<close>)
qed

section \<open>Byte order\<close>

lemma bswap_32_masks:
  "bswap_32 w =
     push_bit 24 (w AND mask 8) OR push_bit 8 (w AND push_bit 8 (mask 8)) OR
     (drop_bit 8 w AND push_bit 8 (mask 8)) OR (drop_bit 24 w AND mask 8)"
proof -
  have m: "mask 8 = (0xff :: u32)" by (simp add: mask_eq_exp_minus_1)
  show ?thesis unfolding m by (simp add: bswap_32_def push_bit_eq_mult)
qed

lemma bit_bswap_32:
  assumes "n < 8"
  shows "bit (bswap_32 w) n = bit w (n + 24)" "bit (bswap_32 w) (n + 8) = bit w (n + 16)"
    "bit (bswap_32 w) (n + 16) = bit w (n + 8)" "bit (bswap_32 w) (n + 24) = bit w n"
  using assms unfolding bswap_32_masks by (auto simp: bit_simps add.commute)

lemma less_8: "n < (8::nat) \<longleftrightarrow> n = 0 \<or> n = 1 \<or> n = 2 \<or> n = 3 \<or> n = 4 \<or> n = 5 \<or> n = 6 \<or> n = 7"
  by auto

lemma bit_get32_byte:
  assumes "n < 8"
  shows "bit (get32 m a) n = bit (m a) n" "bit (get32 m a) (n + 8) = bit (m (a + 1)) n"
    "bit (get32 m a) (n + 16) = bit (m (a + 2)) n" "bit (get32 m a) (n + 24) = bit (m (a + 3)) n"
  using assms unfolding less_8 by (auto simp: get32_def bit_get_le)

lemma be32toh_reverses_byte:
  assumes "n < 8" and "k \<in> {0, 8, 16, 24}"
  shows "bit (be32toh (get32 (list_mem [a, b, c, d]) 0)) (n + k) = bit (get32 (list_mem [d, c, b, a]) 0) (n + k)"
  using assms by (auto simp: be32toh_def bit_bswap_32 bit_get32_byte list_mem_def)

lemma be32toh_reverses: "be32toh (get32 (list_mem [a, b, c, d]) 0) = get32 (list_mem [d, c, b, a]) 0"
proof (rule bit_word_eqI)
  fix n
  assume "n < LENGTH(32)"
  then consider "n < 8" | "n - 8 < 8" "n = (n - 8) + 8" | "n - 16 < 8" "n = (n - 16) + 16"
    | "n - 24 < 8" "n = (n - 24) + 24"
    by fastforce
  then show "bit (be32toh (get32 (list_mem [a, b, c, d]) 0)) n = bit (get32 (list_mem [d, c, b, a]) 0) n"
    using be32toh_reverses_byte[of n 0] be32toh_reverses_byte[of "n - 8" 8]
      be32toh_reverses_byte[of "n - 16" 16] be32toh_reverses_byte[of "n - 24" 24]
    by cases simp_all
qed

section \<open>Properties\<close>

text \<open>
  C23: \<^verbatim>\<open>windows_utf16_to_utf8\<close> terminates for every input shorter than \<open>2 ^ 63\<close> bytes: two rounds of
  the loop that doubles the output buffer are enough, the buffer is never doubled past the size of
  a \<^verbatim>\<open>size_t\<close>, and the result is a string or one of the conversion errors.
\<close>

theorem utf16_to_utf8_two_rounds:
  assumes "length input < 2 ^ 63"
  shows "windows_utf16_to_utf8 input = convert_loop 2 Initial input (length input) \<and>
    no_fault (windows_utf16_to_utf8 input) \<and> windows_utf16_to_utf8 input \<noteq> Err E2BIG"
proof -
  have e: "windows_utf16_to_utf8 input = convert_loop (Suc (Suc 63)) Initial input (length input)"
    by (simp add: windows_utf16_to_utf8_def del: convert_loop.simps)
  have t: "convert_loop 2 Initial input (length input) = convert_loop (Suc (Suc 0)) Initial input (length input)"
    by (simp only: numeral_2_eq_2)
  have nf: "no_fault (fst (iconv ic input n))" for ic n
    using iconv_no_fault by (auto simp: no_fault_iff)
  have fits: "fst (iconv ic input (2 * length input)) \<noteq> Err E2BIG" for ic by (rule iconv_fits) simp
  show ?thesis
    unfolding e t convert_loop_two[OF assms]
    using fits by (auto simp: rbind_Err intro!: no_fault_rbind nf)
qed

text \<open>
  C22: \<^verbatim>\<open>windows_utf16_to_utf8\<close> turns the UTF-16LE encoding of a text (a list of Unicode scalar values, shorter
  than \<open>2 ^ 63 - 2\<close> bytes) that does not begin with U+FEFF or U+FFFE, surrogate pairs included, into its UTF-8
  encoding, whether or not the first, input-sized buffer was large enough. A byte-order mark of either order
  in front of a text sets the byte order in which the text is read, and is dropped when the UTF-8 text fits the
  first buffer; when it does not, the mark stays as the first character of the result.
\<close>

theorem utf16_to_utf8_correct:
  assumes "\<forall>c \<in> set cs. scalar c" and "length (concat (map utf16le cs)) + 2 < 2 ^ 63"
    and "mark = (if length (concat (map utf8 cs)) \<le> length (concat (map utf16le cs)) + 2 then [] else utf8 0xFEFF)"
  shows "(no_bom cs \<longrightarrow> windows_utf16_to_utf8 (concat (map utf16le cs)) = Ok (concat (map utf8 cs) @ [0])) \<and>
    windows_utf16_to_utf8 ([0xff, 0xfe] @ concat (map utf16le cs)) = Ok (mark @ concat (map utf8 cs) @ [0]) \<and>
    windows_utf16_to_utf8 ([0xfe, 0xff] @ swap_pairs (concat (map utf16le cs))) = Ok (mark @ concat (map utf8 cs) @ [0])"
proof -
  have "read_as (0xFEFF # cs) = mark @ concat (map utf8 cs)" using assms(3) by (simp add: read_as_def mark_bytes)
  then show ?thesis using convert_text[OF assms(1)] convert_marked[OF assms(1,2)] assms(2) by simp
qed

text \<open>
  C25: the string of a value ends at the first pair of zero bytes: whatever junk follows it in the
  data, \<^verbatim>\<open>hivex_value_string\<close> returns the UTF-8 form of the text before the terminator (a text without a zero
  that does not begin with U+FEFF or U+FFFE).
\<close>

theorem value_string_ignores_junk:
  assumes "hivex_value_value h v = Ok (t, len, concat (map utf16le cs) @ [0, 0] @ junk)"
    and "t = hive_t_string \<or> t = hive_t_expand_string \<or> t = hive_t_link"
    and "text_ok cs"
  shows "hivex_value_string h v = Ok (concat (map utf8 cs) @ [0])"
proof -
  let ?t = "concat (map utf16le cs)"
  have cs: "\<forall>c \<in> set cs. scalar c \<and> c \<noteq> 0" "no_bom cs" "length ?t < 2 ^ 63"
    using assms(3) by (auto simp: text_ok_def)
  have l: "len = length ?t + 2 + length junk" using assms(1) by (auto simp: hivex_value_value_def Let_def split: if_splits dest!: arg_cong[where f = length])
  have "utf16_string_len_in_bytes_max (?t @ 0 # 0 # junk) = length ?t"
    using utf16_len_text[OF cs(1)] by simp
  moreover have "windows_utf16_to_utf8 ?t = Ok (concat (map utf8 cs) @ [0])"
    using cs by (intro convert_text) auto
  ultimately show ?thesis using assms(1,2) l by (auto simp: hivex_value_string_def Let_def)
qed

text \<open>
  C24: a value that holds a list of texts, each ended by a pair of zero bytes and the list by another pair, is
  returned by \<^verbatim>\<open>hivex_value_multiple_strings\<close> as those texts in UTF-8 and in order, whatever follows. A text is
  not empty, has no zero and does not begin with U+FFFE; one that begins with U+FEFF loses it when the rest in
  UTF-8 is no longer than the whole in UTF-16 (\<open>read_as\<close>).
\<close>

theorem value_multiple_strings_correct:
  assumes "hivex_value_value h v = Ok (hive_t_multiple_strings, len, multi_sz css @ junk)"
    and "\<forall>cs \<in> set css. string_ok cs"
  shows "hivex_value_multiple_strings h v = Ok (map (\<lambda>cs. read_as cs @ [0]) css)"
proof -
  have "len = length (multi_sz css @ junk)" using assms(1) by (auto simp: hivex_value_value_def Let_def split: if_splits dest!: arg_cong[where f = length])
  with assms multiple_loop_text[OF assms(2)] show ?thesis
    by (simp add: hivex_value_multiple_strings_def)
qed

text \<open>
  A big-endian number is read with its first byte as the most significant: \<^verbatim>\<open>hivex_value_dword\<close>
  of a value of type \<^verbatim>\<open>hive_t_dword_be\<close> is what the reversed bytes give as a little-endian number.
\<close>

lemma value_dword_big_endian:
  assumes "hivex_value_value h v = Ok (hive_t_dword_be, 4, [a, b, c, d])"
    and "hivex_value_value h v' = Ok (hive_t_dword, 4, [d, c, b, a])"
  shows "hivex_value_dword h v = hivex_value_dword h v'"
proof -
  have "hive_t_dword_be \<noteq> hive_t_dword" by (simp add: hive_t_dword_be_def hive_t_dword_def)
  with assms show ?thesis by (simp add: hivex_value_dword_def be32toh_reverses)
qed

end
