(* ===== verification/Frames.thy ===== *)
theory Frames
  imports Strings
begin

text \<open>
  How the writing operations change a handle, in two relations the component theories share:
  \<open>wrote h h' b\<close>, a write into the body of the block \<open>b\<close>, and \<open>upd h h' A\<close>, a sequence of
  allocations and writes that changes, in the blocks that were in use before, only the bytes at
  addresses in \<open>A\<close>, keeps those blocks in use and keeps the invariant.
\<close>

lemma sfor_append: "sfor f (xs @ ys) s = sbind (sfor f xs) (\<lambda>_. sfor f ys) s"
  by (induction xs arbitrary: s) (simp_all add: sbind_def split: prod.split result.split)

lemma sbind_unit: "sbind m sret s = m s"
  by (simp add: sbind_def split: prod.split result.split)

lemma sbind_assoc: "sbind (sbind m f) g s = sbind m (\<lambda>x. sbind (f x) g) s"
  by (simp add: sbind_def split: prod.split result.split)

lemma check_block_refuses:
  assumes "hive_ok h" and "\<not> (IS_VALID_BLOCK h b \<and> id_of h b = i)"
  shows "check_block h b i e = Err e"
  using assms(2) hive_ok_valid(3,4)[OF assms(1), of b] by (auto simp: check_block_def BLOCK_ID_EQ_def id_of_def rd_in)

section \<open>Writing inside one block\<close>

definition wrote :: "hive \<Rightarrow> hive \<Rightarrow> nat \<Rightarrow> bool" where
  "wrote h h' b \<longleftrightarrow>
     hive_ok h' \<and> same_handle h h' \<and> hsize h' = hsize h \<and> endpages h' = endpages h \<and>
     (\<forall>x. IS_VALID_BLOCK h' x \<longleftrightarrow> IS_VALID_BLOCK h x) \<and>
     (\<forall>i. i < b + 4 \<or> b + blen h b \<le> i \<longrightarrow> addr h' i = addr h i)"

lemma wrote_body:
  assumes h: "hive_ok h" and b: "IS_VALID_BLOCK h b"
    and m: "\<And>i. i < b + 4 \<or> b + blen h b \<le> i \<Longrightarrow> m i = addr h i"
  shows "wrote h (h\<lparr>addr := m\<rparr>) b"
proof -
  obtain pgs where w: "hive_wf h pgs" using h by (auto simp: hive_ok_def)
  have "hive_wf (h\<lparr>addr := m\<rparr>) pgs"
    by (rule hive_wf_body_write[OF w hive_wf_valid[OF w b] m])
  moreover have "0x1020 \<le> b" using hive_ok_valid(1)[OF h b] .
  ultimately show ?thesis
    using m by (auto simp: wrote_def hive_ok_def same_handle_def IS_VALID_BLOCK_def)
qed

lemma wrote_blen: "wrote h h' b \<Longrightarrow> blen h' b = blen h b"
proof -
  assume "wrote h h' b"
  then have "get32 (addr h') b = get32 (addr h) b" by (intro st32.load_cong) (simp add: wrote_def)
  then show ?thesis by (simp add: blen_def)
qed

lemma wrote_trans: "wrote h h1 b \<Longrightarrow> wrote h1 h2 b \<Longrightarrow> wrote h h2 b"
  using wrote_blen[of h h1 b] by (auto simp: wrote_def intro: same_handle_trans)

lemma wrote_kept:
  assumes "hive_ok h" and "wrote h h' b" and "IS_VALID_BLOCK h b" "IS_VALID_BLOCK h c" "c \<noteq> b"
  shows "kept h h' c"
  using hive_ok_disjoint[OF assms(1,4,3,5)] assms(2) by (auto simp: wrote_def kept_def)

lemma wrote_id_of:
  assumes "hive_ok h" and "wrote h h' b" and "IS_VALID_BLOCK h b" "IS_VALID_BLOCK h c" "c \<noteq> b"
  shows "id_of h' c = id_of h c"
  using kept_load(4)[OF wrote_kept[OF assms], of "c + 4" 2] hive_ok_valid(4)[OF assms(1,4)]
  by (simp add: id_of_def)

section \<open>Sequences of allocations and writes\<close>

definition upd :: "hive \<Rightarrow> hive \<Rightarrow> nat set \<Rightarrow> bool" where
  "upd h h' A \<longleftrightarrow>
     hive_ok h' \<and> same_handle h h' \<and>
     (\<forall>c. IS_VALID_BLOCK h c \<longrightarrow> IS_VALID_BLOCK h' c \<and> blen h' c = blen h c \<and>
        (\<forall>i. c \<le> i \<longrightarrow> i < c + blen h c \<longrightarrow> i \<notin> A \<longrightarrow> addr h' i = addr h i))"

lemma updD:
  assumes "upd h h' A" and "IS_VALID_BLOCK h c"
  shows "IS_VALID_BLOCK h' c" "blen h' c = blen h c"
    "c \<le> i \<Longrightarrow> i < c + blen h c \<Longrightarrow> i \<notin> A \<Longrightarrow> addr h' i = addr h i"
  using assms by (auto simp: upd_def)

lemma upd_ok: "upd h h' A \<Longrightarrow> hive_ok h'" "upd h h' A \<Longrightarrow> same_handle h h'"
  "upd h h' A \<Longrightarrow> writable h' = writable h" "upd h h' A \<Longrightarrow> endpages h \<le> endpages h'"
  by (auto simp: upd_def same_handle_def)

lemma upd_refl: "hive_ok h \<Longrightarrow> upd h h {}"
  by (simp add: upd_def)

lemma upd_trans:
  assumes "upd h h1 A" and "upd h1 h2 B"
  shows "upd h h2 (A \<union> B)"
  using assms unfolding upd_def by (auto intro: same_handle_trans)

text \<open>Writes into a block that was allocated on the way do not count as changes.\<close>

lemma upd_trans_fresh:
  assumes u: "upd h h1 A" and w: "upd h1 h2 (B \<union> C)" and d: "IS_VALID_BLOCK h1 d" "\<not> IS_VALID_BLOCK h d"
    and B: "B \<subseteq> {d..<d + blen h1 d}"
  shows "upd h h2 (A \<union> C)"
proof -
  have ok1: "hive_ok h1" using u by (simp add: upd_def)
  have "addr h2 i = addr h i" if c: "IS_VALID_BLOCK h c" "c \<le> i" "i < c + blen h c" "i \<notin> A \<union> C" for c i
  proof -
    have c1: "IS_VALID_BLOCK h1 c" "blen h1 c = blen h c" using updD[OF u c(1)] by auto
    have "c \<noteq> d" using c(1) d(2) by auto
    from hive_ok_disjoint[OF ok1 c1(1) d(1) this] have "i \<notin> B" using B c(2,3) c1(2) by auto
    with c updD(3)[OF u c(1), of i] updD(3)[OF w c1(1), of i] c1(2) show ?thesis by simp
  qed
  with u w show ?thesis unfolding upd_def by (auto intro: same_handle_trans)
qed

lemma blocks_apart:
  assumes "hive_ok h" and "IS_VALID_BLOCK h b" "IS_VALID_BLOCK h c" "b \<noteq> c"
    and "b \<le> i" "i < b + blen h b"
  shows "\<not> (c \<le> i \<and> i < c + blen h c)"
  using hive_ok_disjoint[OF assms(1-4)] assms(5,6) by auto

lemma upd_mono: "upd h h' A \<Longrightarrow> A \<subseteq> B \<Longrightarrow> upd h h' B"
  by (auto simp: upd_def)

lemma upd_alloc: "hive_ok h \<Longrightarrow> alloc_post h n bid off h' \<Longrightarrow> upd h h' {}"
proof -
  assume h: "hive_ok h" and p: "alloc_post h n bid off h'"
  have "blen h' c = blen h c" if "IS_VALID_BLOCK h c" for c
    using p that kept_blen[of h h' c] hive_ok_valid(4)[OF h that] by (simp add: alloc_post_def)
  with p show ?thesis by (auto simp: upd_def alloc_post_def kept_def)
qed

lemma upd_load:
  assumes "upd h h' A" and "IS_VALID_BLOCK h c" and "c \<le> a"
  shows "a + 2 \<le> c + blen h c \<Longrightarrow> (\<And>i. a \<le> i \<Longrightarrow> i < a + 2 \<Longrightarrow> i \<notin> A) \<Longrightarrow> get16 (addr h') a = get16 (addr h) a"
    "a + 4 \<le> c + blen h c \<Longrightarrow> (\<And>i. a \<le> i \<Longrightarrow> i < a + 4 \<Longrightarrow> i \<notin> A) \<Longrightarrow> get32 (addr h') a = get32 (addr h) a"
    "a + 8 \<le> c + blen h c \<Longrightarrow> (\<And>i. a \<le> i \<Longrightarrow> i < a + 8 \<Longrightarrow> i \<notin> A) \<Longrightarrow> get64 (addr h') a = get64 (addr h) a"
    "a + n \<le> c + blen h c \<Longrightarrow> (\<And>i. a \<le> i \<Longrightarrow> i < a + n \<Longrightarrow> i \<notin> A) \<Longrightarrow> get_bytes (addr h') a n = get_bytes (addr h) a n"
  using updD(3)[OF assms(1,2)] assms(3)
  by (auto intro!: st16.load_cong st32.load_cong st64.load_cong get_bytes_cong)

lemma upd_kept:
  assumes "upd h h' A" and "IS_VALID_BLOCK h c" and "{c..<c + blen h c} \<inter> A = {}"
  shows "kept h h' c"
  using updD(3)[OF assms(1,2)] assms(3) by (auto simp: kept_def disjoint_iff)

lemma wrote_upd:
  assumes h: "hive_ok h" and b: "IS_VALID_BLOCK h b" and w: "wrote h h' b"
    and A: "\<And>i. b + 4 \<le> i \<Longrightarrow> i < b + blen h b \<Longrightarrow> i \<notin> A \<Longrightarrow> addr h' i = addr h i"
  shows "upd h h' A"
proof -
  have "blen h' c = blen h c" if c: "IS_VALID_BLOCK h c" for c
    using wrote_blen[OF w] kept_blen[OF wrote_kept[OF h w b c]] hive_ok_valid(4)[OF h c] by (cases "c = b") auto
  moreover have "addr h' i = addr h i" if "i \<notin> A" for i
    using that A[of i] w by (cases "i < b + 4 \<or> b + blen h b \<le> i") (auto simp: wrote_def)
  ultimately show ?thesis using w by (auto simp: upd_def wrote_def)
qed

lemma upd_write:
  assumes h: "hive_ok h" and b: "IS_VALID_BLOCK h b" and a: "b + 4 \<le> a" "a + n \<le> b + blen h b"
    and m: "\<And>i. i < a \<or> a + n \<le> i \<Longrightarrow> m i = addr h i"
  shows "upd h (h\<lparr>addr := m\<rparr>) {a..<a + n}"
proof -
  have w: "wrote h (h\<lparr>addr := m\<rparr>) b" using a by (intro wrote_body[OF h b] m) auto
  show ?thesis by (rule wrote_upd[OF h b w]) (use m in auto)
qed

lemma wr_upd:
  assumes h: "hive_ok h" and b: "IS_VALID_BLOCK h b" and a: "b + 4 \<le> a"
  shows "a + 4 \<le> b + blen h b \<Longrightarrow>
      wr32 a w32 h = (Ok (), h\<lparr>addr := put32 (addr h) a w32\<rparr>) \<and> upd h (h\<lparr>addr := put32 (addr h) a w32\<rparr>) {a..<a + 4}"
    "a + 2 \<le> b + blen h b \<Longrightarrow>
      wr16 a w16 h = (Ok (), h\<lparr>addr := put16 (addr h) a w16\<rparr>) \<and> upd h (h\<lparr>addr := put16 (addr h) a w16\<rparr>) {a..<a + 2}"
    "a + 8 \<le> b + blen h b \<Longrightarrow>
      wr64 a w64 h = (Ok (), h\<lparr>addr := put64 (addr h) a w64\<rparr>) \<and> upd h (h\<lparr>addr := put64 (addr h) a w64\<rparr>) {a..<a + 8}"
    "a + length bs \<le> b + blen h b \<Longrightarrow>
      wr_bytes a bs h = (Ok (), h\<lparr>addr := put_bytes (addr h) a bs\<rparr>) \<and> upd h (h\<lparr>addr := put_bytes (addr h) a bs\<rparr>) {a..<a + length bs}"
proof -
  note bh = hive_ok_valid(3)[OF h b]
  show "wr32 a w32 h = (Ok (), h\<lparr>addr := put32 (addr h) a w32\<rparr>) \<and> upd h (h\<lparr>addr := put32 (addr h) a w32\<rparr>) {a..<a + 4}"
    if "a + 4 \<le> b + blen h b"
    using upd_write[OF h b a that] that bh by (simp add: wr_in put_frames(2) del: One_nat_def add_2_eq_Suc add_2_eq_Suc')
  show "wr16 a w16 h = (Ok (), h\<lparr>addr := put16 (addr h) a w16\<rparr>) \<and> upd h (h\<lparr>addr := put16 (addr h) a w16\<rparr>) {a..<a + 2}"
    if "a + 2 \<le> b + blen h b"
    using upd_write[OF h b a that] that bh by (simp add: wr_in put_frames(1) del: One_nat_def add_2_eq_Suc add_2_eq_Suc')
  show "wr64 a w64 h = (Ok (), h\<lparr>addr := put64 (addr h) a w64\<rparr>) \<and> upd h (h\<lparr>addr := put64 (addr h) a w64\<rparr>) {a..<a + 8}"
    if "a + 8 \<le> b + blen h b"
    using upd_write[OF h b a that] that bh by (simp add: wr_in put_frames(3) del: One_nat_def add_2_eq_Suc add_2_eq_Suc')
  show "wr_bytes a bs h = (Ok (), h\<lparr>addr := put_bytes (addr h) a bs\<rparr>) \<and> upd h (h\<lparr>addr := put_bytes (addr h) a bs\<rparr>) {a..<a + length bs}"
    if "a + length bs \<le> b + blen h b"
    using upd_write[OF h b a that] that bh by (simp add: wr_in put_bytes_outside)
qed

text \<open>A record stays a record when its own bytes are left alone.\<close>

lemma upd_is_nk:
  assumes u: "upd h h' A" and nk: "is_nk h n"
    and d: "\<And>i. n + 4 \<le> i \<Longrightarrow> i < n + 6 \<Longrightarrow> i \<notin> A" "\<And>i. n + 76 \<le> i \<Longrightarrow> i < n + 78 \<Longrightarrow> i \<notin> A"
  shows "is_nk h' n"
proof -
  have v: "IS_VALID_BLOCK h n" and b: "80 \<le> blen h n" using nk by (auto simp: is_nk_def)
  have "get16 (addr h') (n + 76) = get16 (addr h) (n + 76)"
    by (rule upd_load(1)[OF u v]) (use b d(2) in auto)
  moreover have "id_of h' n = id_of h n"
    unfolding id_of_def by (rule upd_load(4)[OF u v]) (use b d(1) in auto)
  ultimately show ?thesis using nk updD(1,2)[OF u v] by (simp add: is_nk_def)
qed

end
