(* ===== verification/Write_Values.thy ===== *)
theory Write_Values
  imports Frames
begin

text \<open>
  Writing values: \<^verbatim>\<open>delete_values\<close>, \<^verbatim>\<open>hivex_node_set_values\<close> and \<^verbatim>\<open>hivex_node_set_value\<close> of
  \<^verbatim>\<open>lib/hivex.c\<close>. A \<^verbatim>\<open>hive_set_value\<close> is a record of its key, type and data (whose length is the
  field \<^verbatim>\<open>len\<close>). The body of the loop of \<^verbatim>\<open>hivex_node_set_values\<close> is the definition \<open>set_one\<close>.

  The theorems: on a well-formed handle, for a node that owns its values, deleting frees exactly
  the value list, the value records and their data blocks; setting values succeeds, keeps the
  invariant, and reading the node back gives the keys, types and data that were set.
\<close>

section \<open>Definitions\<close>

definition delete_value :: "hive_value_h \<Rightarrow> (hive, unit) op" where
  "delete_value v =
     sbind (sget (\<lambda>h. rd32 h (v + vk_data_len))) (\<lambda>len.
     sbind (if len AND 0x80000000 = 0
            then sbind (sget (\<lambda>h. rd32 h (v + vk_data_offset))) (\<lambda>w.
                   mark_block_unused (unat w + 0x1000))
            else sret ()) (\<lambda>_.
     mark_block_unused v))"

definition delete_values :: "hive_node_h \<Rightarrow> (hive, unit) op" where
  "delete_values node =
     sbind (sassert writable) (\<lambda>_.
     sbind (sget (\<lambda>h. get_values h node)) (\<lambda>(values, blocks).
     sbind (sfor_z mark_block_unused blocks) (\<lambda>_.
     sbind (sfor_z delete_value values) (\<lambda>_.
     sbind (wr32 (node + nk_nr_values) 0) (\<lambda>_.
     wr32 (node + nk_vallist) 0xffffffff)))))"

record hive_set_value =
  sv_key :: "byte list"
  sv_t :: u32
  sv_value :: "byte list"

definition update_max32 :: "nat \<Rightarrow> nat \<Rightarrow> (hive, unit) op" where
  "update_max32 a n =
     sbind (sget (\<lambda>h. rd32 h a)) (\<lambda>m. if unat m < n then wr32 a (of_nat n) else sret ())"

definition fill_vk :: "nat \<Rightarrow> hive_set_value \<Rightarrow> (hive, unit) op" where
  "fill_vk vk v =
     (let name_len = strlen (sv_key v); len = of_nat (length (sv_value v)) :: u32 in
      sbind (wr16 (vk + vk_name_len) (of_nat name_len)) (\<lambda>_.
      sbind (wr_bytes (vk + vk_name) (cstr (sv_key v) @ [0])) (\<lambda>_.
      sbind (wr32 (vk + vk_data_type) (sv_t v)) (\<lambda>_.
      sbind (wr32 (vk + vk_data_len) (if len \<le> 4 then len OR 0x80000000 else len)) (\<lambda>_.
      wr16 (vk + vk_flags) (if name_len = 0 then 0 else 1))))))"

definition store_data :: "nat \<Rightarrow> byte list \<Rightarrow> (hive, unit) op" where
  "store_data vk data =
     (if length data \<le> 4 then wr_bytes (vk + vk_data_offset) data
      else
        sbind (allocate_block (length data + 4) nul_id) (\<lambda>offs.
        sbind (wr_bytes (offs + 4) data) (\<lambda>_.
        wr32 (vk + vk_data_offset) (of_nat offs - 0x1000))))"

definition set_one :: "hive_node_h \<Rightarrow> nat \<Rightarrow> nat \<times> hive_set_value \<Rightarrow> (hive, unit) op" where
  "set_one node vallist_offs = (\<lambda>(i, v).
     sbind (allocate_block (sizeof ntreg_vk_record + strlen (sv_key v)) id_vk) (\<lambda>vk_offs.
     sbind (wr32 (vallist_offs + vl_offset + 4 * i) (of_nat vk_offs - 0x1000)) (\<lambda>_.
     sbind (fill_vk vk_offs v) (\<lambda>_.
     sbind (store_data vk_offs (sv_value v)) (\<lambda>_.
     sbind (update_max32 (node + nk_max_vk_name_len) (strlen (sv_key v) * 2)) (\<lambda>_.
     update_max32 (node + nk_max_vk_data_len) (length (sv_value v))))))))"

definition hivex_node_set_values :: "hive_node_h \<Rightarrow> hive_set_value list \<Rightarrow> (hive, unit) op" where
  "hivex_node_set_values node values h =
     (if \<not> writable h then (Err EROFS, h)
      else
        sbind (sget (\<lambda>h. check_block h node id_nk EINVAL)) (\<lambda>_.
        sbind (delete_values node) (\<lambda>_.
        if values = [] then sret ()
        else
          sbind (allocate_block (sizeof ntreg_value_list + (length values - 1) * 4) nul_id) (\<lambda>vallist_offs.
          sbind (wr32 (node + nk_nr_values) (of_nat (length values))) (\<lambda>_.
          sbind (wr32 (node + nk_vallist) (of_nat vallist_offs - 0x1000)) (\<lambda>_.
          sfor (set_one node vallist_offs) (enumerate 0 values)))))) h)"

text \<open>The loop over the previous values; \<open>idx\<close> is the index of the last one with the new key.\<close>

fun previous_values ::
  "hive \<Rightarrow> byte list \<Rightarrow> nat list \<Rightarrow> hive_set_value list \<Rightarrow> nat option \<Rightarrow>
     (hive_set_value list \<times> nat option) result" where
  "previous_values h key [] acc idx = Fault (OutOfBounds 0)"
| "previous_values h key (v # vs) acc idx =
     (if v = 0 then Ok (acc, idx)
      else
        rbind (hivex_value_value h v) (\<lambda>(t, len, valval).
        rbind (hivex_value_key h v) (\<lambda>valkey.
        previous_values h key vs (acc @ [\<lparr>sv_key = valkey, sv_t = t, sv_value = valval\<rparr>])
          (if STRCASEEQ valkey key then Some (length acc) else idx))))"

definition hivex_node_set_value :: "hive_node_h \<Rightarrow> hive_set_value \<Rightarrow> (hive, unit) op" where
  "hivex_node_set_value node val =
     sbind (sget (\<lambda>h. hivex_node_values h node)) (\<lambda>prev_values.
     sbind (sget (\<lambda>h. previous_values h (sv_key val) prev_values [] None)) (\<lambda>(values, idx_of_val).
     hivex_node_set_values node
       (case idx_of_val of Some i \<Rightarrow> values[i := val] | None \<Rightarrow> values @ [val])))"

section \<open>Deleting values\<close>

definition value_data :: "hive \<Rightarrow> nat \<Rightarrow> nat list" where
  "value_data h v =
     (if get32 (addr h) (v + 8) AND 0x80000000 = 0 then [unat (get32 (addr h) (v + 12)) + 0x1000] else [])"

definition owned_by :: "hive \<Rightarrow> nat \<Rightarrow> nat list" where
  "owned_by h v = value_data h v @ [v]"

definition owned :: "hive \<Rightarrow> nat \<Rightarrow> nat list" where
  "owned h node = value_blocks h node @ concat (map (owned_by h) (value_offsets h node))"

text \<open>The node's values are records of their own: no block is used twice or shared with the node.\<close>

definition values_own :: "hive \<Rightarrow> nat \<Rightarrow> bool" where
  "values_own h node \<longleftrightarrow>
     vallist_ok h node \<and> distinct (owned h node) \<and>
     (\<forall>b \<in> set (owned h node). IS_VALID_BLOCK h b \<and> b \<noteq> node) \<and>
     (\<forall>v \<in> set (value_offsets h node). is_vk h v)"

lemma delete_value_eq:
  assumes "v + 24 \<le> hsize h"
  shows "delete_value v h = sfor mark_block_unused (owned_by h v) h"
proof -
  have "sfor mark_block_unused [v] = mark_block_unused v" by (rule ext) (simp add: sbind_unit)
  then show ?thesis using assms
    by (simp add: delete_value_def owned_by_def value_data_def sbind_sget sbind_assoc rd_in)
qed

lemma kept_vk:
  assumes "kept h h' v" and "24 \<le> blen h v"
  shows "owned_by h' v = owned_by h v" "blen h' v = blen h v"
  using assms kept_load(2)[OF assms(1), of "v + 8"] kept_load(2)[OF assms(1), of "v + 12"] kept_blen[OF assms(1)]
  by (simp_all add: owned_by_def value_data_def)

lemma delete_loop:
  assumes "heap_inv h" and "distinct (concat (map (owned_by h) vs))"
    and "\<forall>b \<in> set (concat (map (owned_by h) vs)). IS_VALID_BLOCK h b" and "\<forall>v \<in> set vs. 24 \<le> blen h v"
  shows "sfor delete_value vs h = sfor mark_block_unused (concat (map (owned_by h) vs)) h"
  using assms
proof (induction vs arbitrary: h)
  case (Cons v vs)
  let ?o = "owned_by h v" and ?os = "concat (map (owned_by h) vs)"
  have ok: "hive_ok h" using Cons.prems(1) by (simp add: heap_inv_def)
  have vv: "IS_VALID_BLOCK h v" using Cons.prems(3) by (simp add: owned_by_def)
  have "v + 24 \<le> hsize h" using hive_ok_valid(3)[OF ok vv] Cons.prems(4) by simp
  note dv = delete_value_eq[OF this]
  obtain h1 where h1: "sfor mark_block_unused ?o h = (Ok (), h1)" "heap_inv h1"
    "\<forall>x. IS_VALID_BLOCK h1 x \<longleftrightarrow> x \<notin> set ?o \<and> IS_VALID_BLOCK h x"
    "\<forall>x. IS_VALID_BLOCK h1 x \<longrightarrow> kept h h1 x"
    using hp.free_all_law[OF Cons.prems(1), of ?o] Cons.prems(2,3) by auto
  have w: "owned_by h1 w = owned_by h w \<and> 24 \<le> blen h1 w" if "w \<in> set vs" for w
  proof -
    have "w \<in> set ?os" using that by (auto simp: owned_by_def)
    then have "IS_VALID_BLOCK h1 w" using h1(3) Cons.prems(2,3) by auto
    then have "kept h h1 w" using h1(4) by simp
    from kept_vk[OF this] Cons.prems(4) that show ?thesis by simp
  qed
  have eq: "map (owned_by h1) vs = map (owned_by h) vs" using w by simp
  have "sfor delete_value vs h1 = sfor mark_block_unused (concat (map (owned_by h1) vs)) h1"
  proof (rule Cons.IH[OF h1(2)])
    show "distinct (concat (map (owned_by h1) vs))" unfolding eq using Cons.prems(2) by simp
    show "\<forall>b \<in> set (concat (map (owned_by h1) vs)). IS_VALID_BLOCK h1 b"
      unfolding eq using h1(3) Cons.prems(2,3) by auto
    show "\<forall>v \<in> set vs. 24 \<le> blen h1 v" using w by simp
  qed
  then show ?case
    using h1(1) by (simp add: dv sbind_def[of "delete_value v"] sfor_append sbind_def[of "sfor mark_block_unused ?o"] eq
        del: concat.simps(2)) (simp add: sfor_append sbind_def)
qed simp

definition delete_post :: "hive \<Rightarrow> nat \<Rightarrow> hive \<Rightarrow> bool" where
  "delete_post h node h' \<longleftrightarrow>
     hive_ok h' \<and> same_handle h h' \<and>
     (\<forall>x. IS_VALID_BLOCK h' x \<longleftrightarrow> x \<notin> set (owned h node) \<and> IS_VALID_BLOCK h x) \<and>
     (\<forall>c. IS_VALID_BLOCK h' c \<longrightarrow> c \<noteq> node \<longrightarrow> kept h h' c) \<and>
     (\<forall>i. node \<le> i \<longrightarrow> i < node + 40 \<or> (node + 48 \<le> i \<and> i < node + blen h node) \<longrightarrow>
        addr h' i = addr h i) \<and>
     is_nk h' node \<and> nr_values h' node = 0"

lemma value_blocks_nonzero: "0 \<notin> set (value_blocks h node)"
  by (simp add: value_blocks_def value_list_def)

lemma owned_values: "v \<in> set (value_offsets h node) \<Longrightarrow> v \<in> set (owned h node)"
  by (auto simp: owned_def owned_by_def)

lemma delete_values_post:
  assumes h: "hive_ok h" and w: "writable h" and o: "values_own h node"
  obtains h' where "delete_values node h = (Ok (), h')" "delete_post h node h'"
proof -
  let ?vs = "value_offsets h node" and ?bs = "value_blocks h node"
  let ?os = "concat (map (owned_by h) ?vs)"
  have inv: "heap_inv h" using h w by (simp add: heap_inv_def)
  have vo: "vallist_ok h node" and d: "distinct (?bs @ ?os)"
    and v: "\<forall>b \<in> set (?bs @ ?os). IS_VALID_BLOCK h b \<and> b \<noteq> node" and vk: "\<forall>v \<in> set ?vs. is_vk h v"
    using o by (auto simp: values_own_def owned_def)
  have nk: "is_nk h node" using vo by (simp add: vallist_ok_def)
  have vn: "IS_VALID_BLOCK h node" using nk by (simp add: is_nk_def)
  obtain h1 where h1: "sfor mark_block_unused ?bs h = (Ok (), h1)" "heap_inv h1"
    "\<forall>x. IS_VALID_BLOCK h1 x \<longleftrightarrow> x \<notin> set ?bs \<and> IS_VALID_BLOCK h x"
    "\<forall>x. IS_VALID_BLOCK h1 x \<longrightarrow> kept h h1 x" "same_handle h h1"
    using hp.free_all_law[OF inv, of ?bs] d v by auto
  have kv: "owned_by h1 x = owned_by h x \<and> 24 \<le> blen h1 x" if "x \<in> set ?vs" for x
  proof -
    have "x \<in> set ?os" using that by (auto simp: owned_by_def)
    then have "IS_VALID_BLOCK h1 x" using h1(3) d v by auto
    then have "kept h h1 x" using h1(4) by simp
    moreover have "24 \<le> blen h x" using vk that by (auto simp: is_vk_def)
    ultimately show ?thesis using kept_vk by simp
  qed
  have eq: "map (owned_by h1) ?vs = map (owned_by h) ?vs" using kv by simp
  have dl: "sfor delete_value ?vs h1 = sfor mark_block_unused ?os h1"
    unfolding eq[symmetric] by (rule delete_loop[OF h1(2)]) (unfold eq, use d v h1(3) kv in auto)
  have v1: "\<forall>b \<in> set ?os. IS_VALID_BLOCK h1 b" and dd: "distinct ?os" using d v h1(3) by auto
  obtain h2 where h2: "sfor mark_block_unused ?os h1 = (Ok (), h2)" "heap_inv h2"
    "\<forall>x. IS_VALID_BLOCK h2 x \<longleftrightarrow> x \<notin> set ?os \<and> IS_VALID_BLOCK h1 x"
    "\<forall>x. IS_VALID_BLOCK h2 x \<longrightarrow> kept h1 h2 x" "same_handle h1 h2"
    using hp.free_all_law[OF h1(2) dd v1] by blast
  have val2: "IS_VALID_BLOCK h2 x \<longleftrightarrow> x \<notin> set (owned h node) \<and> IS_VALID_BLOCK h x" for x
    using h1(3) h2(3) by (auto simp: owned_def)
  have k2: "kept h h2 x" if "IS_VALID_BLOCK h2 x" for x
    using that hp.keep_trans[OF inv] h1(3,4) h2(3,4) by blast
  have n2: "IS_VALID_BLOCK h2 node" using val2 v vn by (auto simp: owned_def)
  have ok2: "hive_ok h2" using h2(2) by (simp add: heap_inv_def)
  have bl: "80 \<le> blen h node" using nk by (simp add: is_nk_def)
  have bl2: "blen h2 node = blen h node" using kept_blen[OF k2[OF n2]] bl by simp
  let ?m = "put32 (put32 (addr h2) (node + 40) 0) (node + 44) 0xffffffff"
  let ?h3 = "h2\<lparr>addr := ?m\<rparr>"
  have sz: "node + 80 \<le> hsize h2" using hive_ok_valid(3)[OF ok2 n2] bl bl2 by simp
  have out: "?m i = addr h2 i" if "i < node + 40 \<or> node + 48 \<le> i" for i
    using that by (auto simp: put_frames)
  have wr: "wrote h2 ?h3 node" using bl bl2 by (intro wrote_body[OF ok2 n2] out) auto
  have kb: "addr ?h3 i = addr h i" if "node \<le> i" "i < node + 40 \<or> (node + 48 \<le> i \<and> i < node + blen h node)" for i
    using that out k2[OF n2] bl by (auto simp: kept_def)
  have g16: "get16 ?m (node + 76) = get16 (addr h) (node + 76)" "get_bytes ?m (node + 4) 2 = get_bytes (addr h) (node + 4) 2"
    using kept_load(1)[OF k2[OF n2], of "node + 76"] kept_load(4)[OF k2[OF n2], of "node + 4" 2] bl
    by (simp_all add: mem_frame)
  have "is_nk ?h3 node"
    using nk wr n2 bl2 wrote_blen[OF wr] g16 by (simp add: is_nk_def id_of_def wrote_def)
  moreover have "nr_values ?h3 node = 0" by (simp add: nr_values_def mem_frame)
  moreover have "kept h ?h3 c" if "IS_VALID_BLOCK ?h3 c" "c \<noteq> node" for c
  proof -
    have c: "IS_VALID_BLOCK h2 c" using that wr by (simp add: wrote_def)
    then have "IS_VALID_BLOCK h c" using val2 by simp
    then show ?thesis using hp.keep_trans[OF inv _ k2[OF c] wrote_kept[OF ok2 wr n2 c that(2)]] by simp
  qed
  moreover have "IS_VALID_BLOCK ?h3 x \<longleftrightarrow> x \<notin> set (owned h node) \<and> IS_VALID_BLOCK h x" for x
    using wr val2 by (simp add: wrote_def)
  moreover have "same_handle h ?h3"
    using h1(5) h2(5) wr same_handle_trans unfolding wrote_def by blast
  ultimately have "delete_post h node ?h3" using wr kb by (simp add: delete_post_def wrote_def)
  moreover have "delete_values node h = (Ok (), ?h3)"
  proof -
    have "0 \<notin> set ?vs" using value_offsets_nonzero[of 0 h node] by auto
    then have z: "sfor_z mark_block_unused (?bs @ [0]) h = (Ok (), h1)" "sfor_z delete_value (?vs @ [0]) h1 = (Ok (), h2)"
      using h1(1) h2(1) dl value_blocks_nonzero by (simp_all add: sfor_z_terminated)
    show ?thesis using w sz
      by (simp add: delete_values_def get_values_eq[OF h vo] sbind_def z wr_in)
  qed
  ultimately show ?thesis using that by blast
qed

section \<open>Storing one value\<close>

text \<open>What a value record and its data block hold; \<open>d\<close> is the data block of a long value.\<close>

definition data_word :: "byte list \<Rightarrow> u32" where
  "data_word data = (let len = of_nat (length data) :: u32 in if len \<le> 4 then len OR 0x80000000 else len)"

definition data_at :: "hive \<Rightarrow> nat \<Rightarrow> nat \<Rightarrow> byte list \<Rightarrow> bool" where
  "data_at h v d data \<longleftrightarrow>
     (if length data \<le> 4 then get_bytes (addr h) (v + 12) (length data) = data
      else get32 (addr h) (v + 12) = of_nat d - 0x1000 \<and> IS_VALID_BLOCK h d \<and> d \<noteq> v \<and>
        length data + 4 \<le> blen h d \<and> get_bytes (addr h) (d + 4) (length data) = data)"

definition head_at :: "hive \<Rightarrow> nat \<Rightarrow> hive_set_value \<Rightarrow> bool" where
  "head_at h v sv \<longleftrightarrow>
     IS_VALID_BLOCK h v \<and> id_of h v = id_vk \<and> 24 + strlen (sv_key sv) \<le> blen h v \<and>
     get16 (addr h) (v + 6) = of_nat (strlen (sv_key sv)) \<and>
     get_bytes (addr h) (v + 24) (strlen (sv_key sv)) = cstr (sv_key sv) \<and>
     get32 (addr h) (v + 16) = sv_t sv \<and> get32 (addr h) (v + 8) = data_word (sv_value sv)"

definition entry_at :: "hive \<Rightarrow> nat \<Rightarrow> nat \<Rightarrow> hive_set_value \<Rightarrow> bool" where
  "entry_at h v d sv \<longleftrightarrow> head_at h v sv \<and> data_at h v d (sv_value sv)"

definition sv_ok :: "hive_set_value \<Rightarrow> bool" where
  "sv_ok sv \<longleftrightarrow>
     strlen (sv_key sv) < 2 ^ 16 \<and> length (sv_value sv) + 4 \<le> HIVEX_MAX_ALLOCATION"

lemma head_at_upd:
  assumes u: "upd h h' A" and hd: "head_at h v sv"
    and d: "\<And>i. v \<le> i \<Longrightarrow> i < v + blen h v \<Longrightarrow> i \<in> A \<Longrightarrow> v + 12 \<le> i \<and> i < v + 16"
  shows "head_at h' v sv"
proof -
  have v: "IS_VALID_BLOCK h v" and b: "24 + strlen (sv_key sv) \<le> blen h v" using hd by (auto simp: head_at_def)
  note ld = upd_load[OF u v]
  have nd: "i \<notin> A" if "v \<le> i" "i < v + 12 \<or> v + 16 \<le> i" "i < v + 24 + strlen (sv_key sv)" for i
  proof
    assume "i \<in> A"
    moreover have "i < v + blen h v" using that(3) b by linarith
    ultimately show False using d[OF that(1)] that(2) by auto
  qed
  have "get16 (addr h') (v + 6) = get16 (addr h) (v + 6)" using b by (intro ld(1) nd) auto
  moreover have "get32 (addr h') (v + 8) = get32 (addr h) (v + 8)" using b by (intro ld(2) nd) auto
  moreover have "get32 (addr h') (v + 16) = get32 (addr h) (v + 16)" using b by (intro ld(2) nd) auto
  moreover have "id_of h' v = id_of h v" unfolding id_of_def using b by (intro ld(4) nd) auto
  moreover have "get_bytes (addr h') (v + 24) (strlen (sv_key sv)) = get_bytes (addr h) (v + 24) (strlen (sv_key sv))"
    using b by (intro ld(4) nd) auto
  ultimately show ?thesis using hd updD(1,2)[OF u v] by (simp add: head_at_def)
qed

lemma data_at_upd:
  assumes u: "upd h h' A" and v: "IS_VALID_BLOCK h v" "24 \<le> blen h v" and da: "data_at h v d data"
    and a: "\<And>i. v + 12 \<le> i \<Longrightarrow> i < v + 16 \<Longrightarrow> i \<notin> A"
      "\<And>i. 4 < length data \<Longrightarrow> d \<le> i \<Longrightarrow> i < d + blen h d \<Longrightarrow> i \<notin> A"
  shows "data_at h' v d data"
proof (cases "length data \<le> 4")
  case True
  then have "get_bytes (addr h') (v + 12) (length data) = get_bytes (addr h) (v + 12) (length data)"
    using v(2) a(1) by (intro upd_load(4)[OF u v(1)]) auto
  with True da show ?thesis by (simp add: data_at_def)
next
  case False
  then have d: "IS_VALID_BLOCK h d" "length data + 4 \<le> blen h d" using da by (auto simp: data_at_def)
  have "get32 (addr h') (v + 12) = get32 (addr h) (v + 12)"
    using v(2) a(1) by (intro upd_load(2)[OF u v(1)]) auto
  moreover have "get_bytes (addr h') (d + 4) (length data) = get_bytes (addr h) (d + 4) (length data)"
    using d a(2) False by (intro upd_load(4)[OF u d(1)]) auto
  ultimately show ?thesis using False da updD(1,2)[OF u d(1)] by (simp add: data_at_def)
qed

lemma strlen_cstr: "length (cstr k) = strlen k"
  by (simp add: strlen_def)

lemma fill_vk_post:
  assumes h: "hive_ok h" and v: "IS_VALID_BLOCK h v" "25 + strlen (sv_key sv) \<le> blen h v"
    and id: "id_of h v = id_vk"
  obtains h' where "fill_vk v sv h = (Ok (), h')"
    "upd h h' ({v + 6..<v + 12} \<union> {v + 16..<v + blen h v})" "head_at h' v sv"
proof -
  let ?n = "strlen (sv_key sv)"
  let ?m = "put16 (put32 (put32 (put_bytes (put16 (addr h) (v + 6) (of_nat ?n)) (v + 24) (cstr (sv_key sv) @ [0]))
    (v + 16) (sv_t sv)) (v + 8) (data_word (sv_value sv))) (v + 20) (if ?n = 0 then 0 else 1)"
  let ?h = "h\<lparr>addr := ?m\<rparr>"
  have sz: "v + 25 + ?n \<le> hsize h" using hive_ok_valid(3)[OF h v(1)] v(2) by simp
  have len: "length (cstr (sv_key sv) @ [0]) = ?n + 1" by (simp add: strlen_cstr)
  have eq: "fill_vk v sv h = (Ok (), ?h)"
    using sz by (simp add: fill_vk_def Let_def sbind_def wr_in data_word_def strlen_cstr)
  have out: "?m i = addr h i" if "i < v + 6 \<or> (v + 12 \<le> i \<and> i < v + 16) \<or> v + 25 + ?n \<le> i" for i
    using that by (auto simp: put_frames put_bytes_outside strlen_cstr)
  have w: "wrote h ?h v" using v(2) by (intro wrote_body[OF h v(1)] out) auto
  have u: "upd h ?h ({v + 6..<v + 12} \<union> {v + 16..<v + blen h v})"
    by (rule wrote_upd[OF h v(1) w]) (use out in auto)
  have "get_bytes ?m (v + 24) ?n = cstr (sv_key sv)"
    using get_put_bytes_prefix[of ?n "cstr (sv_key sv) @ [0]"] len by (simp add: mem_frame strlen_cstr)
  then have "head_at ?h v sv"
    using v id updD(1,2)[OF u v(1)]
    by (simp add: head_at_def id_of_def mem_frame strlen_cstr)
  with eq u that show ?thesis by blast
qed

lemma alloc_postD:
  assumes "alloc_post h n bid off h'"
  shows "hive_ok h'" "\<not> IS_VALID_BLOCK h off" "IS_VALID_BLOCK h' off" "blen h' off = round8 n" "n \<le> blen h' off"
    "\<And>i. 4 \<le> i \<Longrightarrow> i < round8 n \<Longrightarrow> addr h' (off + i) = fresh_byte bid i"
  using assms round8(1)[of n] by (auto simp: alloc_post_def)

lemma id_lengths: "length nul_id = 2" "length id_vk = 2" "length id_nk = 2" "length id_lh = 2" "length id_lf = 2"
  by (simp_all add: nul_id_def id_vk_def id_nk_def id_lh_def id_lf_def)

lemma store_data_post:
  assumes h: "hive_ok h" "writable h" and v: "IS_VALID_BLOCK h v" "24 \<le> blen h v"
    and len: "length data + 4 \<le> HIVEX_MAX_ALLOCATION"
  obtains h' d where "store_data v data h = (Ok (), h')" "upd h h' {v + 12..<v + 16}" "data_at h' v d data"
    "4 < length data \<Longrightarrow> \<not> IS_VALID_BLOCK h d"
proof (cases "length data \<le> 4")
  case True
  have w: "wr_bytes (v + 12) data h = (Ok (), h\<lparr>addr := put_bytes (addr h) (v + 12) data\<rparr>) \<and>
      upd h (h\<lparr>addr := put_bytes (addr h) (v + 12) data\<rparr>) {v + 12..<v + 12 + length data}"
    by (rule wr_upd(4)[OF h(1) v(1)]) (use v(2) True in auto)
  have "upd h (h\<lparr>addr := put_bytes (addr h) (v + 12) data\<rparr>) {v + 12..<v + 16}"
    by (rule upd_mono[OF conjunct2[OF w]]) (use True in auto)
  with w True that show ?thesis by (simp add: store_data_def data_at_def get_put_bytes)
next
  case False
  obtain d h1 where al: "allocate_block (length data + 4) nul_id h = (Ok d, h1)"
    and p: "alloc_post h (length data + 4) nul_id d h1"
    using allocate_block_post[OF h le_add2 len] id_lengths by metis
  note ap = alloc_postD[OF p] and u1 = upd_alloc[OF h(1) p]
  let ?h2 = "h1\<lparr>addr := put_bytes (addr h1) (d + 4) data\<rparr>"
  have w2: "wr_bytes (d + 4) data h1 = (Ok (), ?h2) \<and> upd h1 ?h2 {d + 4..<d + 4 + length data}"
    by (rule wr_upd(4)[OF ap(1,3)]) (use ap(5) in auto)
  have u2: "upd h ?h2 ({} \<union> {})"
    by (rule upd_trans_fresh[OF u1 _ ap(3,2)]) (use w2 ap(5) in auto)
  have v2: "IS_VALID_BLOCK ?h2 v" "blen ?h2 v = blen h v" using updD[OF u2 v(1)] by auto
  have ok2: "hive_ok ?h2" using upd_ok(1)[OF u2] .
  let ?h3 = "?h2\<lparr>addr := put32 (addr ?h2) (v + 12) (of_nat d - 0x1000)\<rparr>"
  have w3: "wr32 (v + 12) (of_nat d - 0x1000) ?h2 = (Ok (), ?h3) \<and> upd ?h2 ?h3 {v + 12..<v + 12 + 4}"
    by (rule wr_upd(1)[OF ok2 v2(1)]) (use v2(2) v(2) in auto)
  have "upd h ?h3 ({} \<union> {} \<union> {v + 12..<v + 12 + 4})" using upd_trans[OF u2 conjunct2[OF w3]] by simp
  then have u3: "upd h ?h3 {v + 12..<v + 16}" by (simp add: add.commute)
  have dv: "d \<noteq> v" using ap(2) v(1) by auto
  have d2: "IS_VALID_BLOCK ?h2 d" "blen ?h2 d = blen h1 d" using updD[OF conjunct2[OF w2] ap(3)] by auto
  have d3: "IS_VALID_BLOCK ?h3 d" "blen ?h3 d = blen h1 d"
    using updD[OF conjunct2[OF w3] d2(1)] d2(2) by auto
  have apart: "i \<notin> {v + 12..<v + 12 + 4}" if "d + 4 \<le> i" "i < d + 4 + length data" for i
    using blocks_apart[OF ok2 d2(1) v2(1) dv, of i] that d2(2) v2(2) v(2) ap(5) by auto
  have "get_bytes (addr ?h3) (d + 4) (length data) = get_bytes (addr ?h2) (d + 4) (length data)"
    by (rule upd_load(4)[OF conjunct2[OF w3] d2(1)]) (use d2(2) ap(5) apart in auto)
  then have "data_at ?h3 v d data" using False d3 dv ap(5) by (simp add: data_at_def get_put_bytes)
  moreover have "store_data v data h = (Ok (), ?h3)"
    using False al w2 w3 by (simp add: store_data_def sbind_def)
  ultimately show ?thesis using that u3 ap(2) by blast
qed

lemma update_max32_post:
  assumes h: "hive_ok h" and b: "IS_VALID_BLOCK h b" "b + 4 \<le> a" "a + 4 \<le> b + blen h b"
  obtains h' where "update_max32 a n h = (Ok (), h')" "upd h h' {a..<a + 4}"
proof -
  have rd: "rd32 h a = Ok (get32 (addr h) a)" using hive_ok_valid(3)[OF h b(1)] b(3) by simp
  show ?thesis
  proof (cases "unat (get32 (addr h) a) < n")
    case True
    then have "update_max32 a n h = wr32 a (of_nat n) h" by (simp add: update_max32_def sbind_sget rd)
    with wr_upd(1)[OF h b, of "of_nat n"] that show ?thesis by simp
  next
    case False
    then have "update_max32 a n h = (Ok (), h)" by (simp add: update_max32_def sbind_sget rd)
    moreover have "upd h h {a..<a + 4}" by (rule upd_mono[OF upd_refl[OF h]]) simp
    ultimately show ?thesis using that by simp
  qed
qed

lemma set_one_post:
  assumes h: "hive_ok h" "writable h" and nk: "is_nk h node"
    and vl: "IS_VALID_BLOCK h vl" "vl \<noteq> node" "8 + 4 * i \<le> blen h vl" and sv: "sv_ok sv"
  obtains h' v d where "set_one node vl (i, sv) h = (Ok (), h')"
    "upd h h' ({vl + 4 + 4 * i..<vl + 8 + 4 * i} \<union> {node + 64..<node + 72})"
    "entry_at h' v d sv" "\<not> IS_VALID_BLOCK h v" "4 < length (sv_value sv) \<Longrightarrow> \<not> IS_VALID_BLOCK h d"
    "get32 (addr h') (vl + 4 + 4 * i) = of_nat v - 0x1000"
proof -
  let ?n = "25 + strlen (sv_key sv)"
  have nv: "IS_VALID_BLOCK h node" "80 \<le> blen h node" using nk by (auto simp: is_nk_def)
  have n: "4 \<le> ?n" "?n \<le> HIVEX_MAX_ALLOCATION" and len: "length (sv_value sv) + 4 \<le> HIVEX_MAX_ALLOCATION"
    using sv by (auto simp: sv_ok_def HIVEX_MAX_ALLOCATION_def)
  obtain v h1 where al: "allocate_block ?n id_vk h = (Ok v, h1)" and p: "alloc_post h ?n id_vk v h1"
    using allocate_block_post[OF h n id_lengths(2)] by blast
  note ap = alloc_postD[OF p] and u1 = upd_alloc[OF h(1) p]
  have w1: "writable h1" using upd_ok(3)[OF u1] h(2) by simp
  have vl1: "IS_VALID_BLOCK h1 vl" "blen h1 vl = blen h vl" using updD[OF u1 vl(1)] by auto
  let ?h2 = "h1\<lparr>addr := put32 (addr h1) (vl + 4 + 4 * i) (of_nat v - 0x1000)\<rparr>"
  have w2: "wr32 (vl + 4 + 4 * i) (of_nat v - 0x1000) h1 = (Ok (), ?h2) \<and> upd h1 ?h2 {vl + 4 + 4 * i..<vl + 4 + 4 * i + 4}"
    by (rule wr_upd(1)[OF ap(1) vl1(1)]) (use vl1(2) vl(3) in auto)
  note u2 = conjunct2[OF w2]
  have ok2: "hive_ok ?h2" using upd_ok(1)[OF u2] .
  have v2: "IS_VALID_BLOCK ?h2 v" "blen ?h2 v = blen h1 v" using updD[OF u2 ap(3)] by auto
  have vvl: "v \<noteq> vl" "v \<noteq> node" using ap(2) vl(1) nv(1) by auto
  have "id_of h1 v = id_vk"
    using ap(6)[of 4] ap(6)[of 5] round8(1)[of ?n] by (simp add: id_of_def get_bytes_def fresh_byte_def id_vk_def upt_rec add.assoc)
  moreover have "id_of ?h2 v = id_of h1 v"
  proof -
    have "j \<notin> {vl + 4 + 4 * i..<vl + 4 + 4 * i + 4}" if "v \<le> j" "j < v + blen h1 v" for j
      using blocks_apart[OF ap(1,3) vl1(1) vvl(1) that] vl1(2) vl(3) by auto
    then show ?thesis unfolding id_of_def by (intro upd_load(4)[OF u2 ap(3)]) (use ap(5) in auto)
  qed
  ultimately have id2: "id_of ?h2 v = id_vk" by simp
  obtain h3 where f: "fill_vk v sv ?h2 = (Ok (), h3)" "head_at h3 v sv"
    "upd ?h2 h3 ({v + 6..<v + 12} \<union> {v + 16..<v + blen ?h2 v})"
    using fill_vk_post[OF ok2 v2(1) _ id2] v2(2) ap(5) by metis
  let ?A = "{vl + 4 + 4 * i..<vl + 8 + 4 * i}"
  have u3: "upd h1 h3 (?A \<union> ({v + 6..<v + 12} \<union> {v + 16..<v + blen ?h2 v}))"
    by (rule upd_mono[OF upd_trans[OF u2 f(3)]]) auto
  have ok3: "hive_ok h3" "writable h3" using upd_ok[OF u3] w1 by auto
  have v3: "IS_VALID_BLOCK h3 v" "blen h3 v = blen h1 v" using updD[OF u3 ap(3)] by auto
  have v24: "24 \<le> blen h3 v" using v3(2) ap(5) by simp
  obtain h4 d where sd: "store_data v (sv_value sv) h3 = (Ok (), h4)" "upd h3 h4 {v + 12..<v + 16}"
    "data_at h4 v d (sv_value sv)" "4 < length (sv_value sv) \<Longrightarrow> \<not> IS_VALID_BLOCK h3 d"
    using store_data_post[OF ok3 v3(1) v24 len] by metis
  have hd4: "head_at h4 v sv" by (rule head_at_upd[OF sd(2) f(2)]) auto
  have u4: "upd h1 h4 (?A \<union> ({v + 6..<v + 12} \<union> {v + 16..<v + blen ?h2 v}) \<union> {v + 12..<v + 16})"
    by (rule upd_trans[OF u3 sd(2)])
  have ok4: "hive_ok h4" using upd_ok(1)[OF u4] .
  have n1: "IS_VALID_BLOCK h1 node" "blen h1 node = blen h node" using updD[OF u1 nv(1)] by auto
  have n4: "IS_VALID_BLOCK h4 node" "blen h4 node = blen h node" using updD[OF u4 n1(1)] n1(2) by auto
  obtain h5 where m5: "update_max32 (node + 64) (strlen (sv_key sv) * 2) h4 = (Ok (), h5)"
    "upd h4 h5 {node + 64..<node + 64 + 4}"
    by (rule update_max32_post[OF ok4 n4(1), of "node + 64"]) (use n4(2) nv(2) in auto)
  have n5: "hive_ok h5" "IS_VALID_BLOCK h5 node" "blen h5 node = blen h node"
    using updD[OF m5(2) n4(1)] upd_ok(1)[OF m5(2)] n4(2) by auto
  obtain h6 where m6: "update_max32 (node + 68) (length (sv_value sv)) h5 = (Ok (), h6)"
    "upd h5 h6 {node + 68..<node + 68 + 4}"
    by (rule update_max32_post[OF n5(1,2), of "node + 68"]) (use n5(3) nv(2) in auto)
  have u46: "upd h4 h6 {node + 64..<node + 72}"
    by (rule upd_mono[OF upd_trans[OF m5(2) m6(2)]]) auto
  have v4: "IS_VALID_BLOCK h4 v" "blen h4 v = blen h1 v" using updD[OF sd(2) v3(1)] v3(2) by auto
  have apart: "j \<notin> {node + 64..<node + 72}" if "b \<le> j" "j < b + blen h4 b" "IS_VALID_BLOCK h4 b" "b \<noteq> node" for b j
    using blocks_apart[OF ok4 that(3) n4(1) that(4,1,2)] n4(2) nv(2) by auto
  have hd6: "head_at h6 v sv"
    by (rule head_at_upd[OF u46 hd4]) (use apart[OF _ _ v4(1) vvl(2)] in blast)
  have n3: "IS_VALID_BLOCK h3 node" using updD(1)[OF u3 n1(1)] .
  have da6: "data_at h6 v d (sv_value sv)"
  proof (rule data_at_upd[OF u46 v4(1) _ sd(3)])
    show "24 \<le> blen h4 v" using v4(2) ap(5) by simp
    show "j \<notin> {node + 64..<node + 72}" if "v + 12 \<le> j" "j < v + 16" for j
      using that v4(2) ap(5) by (intro apart[of v, OF _ _ v4(1) vvl(2)]) auto
    show "j \<notin> {node + 64..<node + 72}" if "4 < length (sv_value sv)" "d \<le> j" "j < d + blen h4 d" for j
      using that sd(3,4) n3 by (intro apart[of d]) (auto simp: data_at_def)
  qed
  have u6: "upd h h6 ({} \<union> (?A \<union> {node + 64..<node + 72}))"
  proof (rule upd_trans_fresh[OF u1 _ ap(3,2)])
    show "upd h1 h6 ({v + 6..<v + blen h1 v} \<union> (?A \<union> {node + 64..<node + 72}))"
      by (rule upd_mono[OF upd_trans[OF u4 u46]]) (use v2(2) ap(5) in auto)
    show "{v + 6..<v + blen h1 v} \<subseteq> {v..<v + blen h1 v}" by auto
  qed
  have g: "get32 (addr h6) (vl + 4 + 4 * i) = of_nat v - 0x1000"
  proof -
    have l2: "IS_VALID_BLOCK ?h2 vl" "blen ?h2 vl = blen h vl" using updD[OF u2 vl1(1)] vl1(2) by auto
    have u26: "upd ?h2 h6 ({v + 6..<v + blen h1 v} \<union> {node + 64..<node + 72})"
      by (rule upd_mono[OF upd_trans[OF upd_trans[OF f(3) sd(2)] u46]]) (use v2(2) ap(5) in auto)
    have n2: "IS_VALID_BLOCK ?h2 node" "blen ?h2 node = blen h node" using updD[OF u2 n1(1)] n1(2) by auto
    have "j \<notin> {v + 6..<v + blen h1 v} \<union> {node + 64..<node + 72}" if "vl \<le> j" "j < vl + blen ?h2 vl" for j
      using blocks_apart[OF ok2 l2(1) v2(1) vvl(1)[symmetric] that] blocks_apart[OF ok2 l2(1) n2(1) vl(2) that]
        v2(2) n2(2) nv(2) by auto
    then have "get32 (addr h6) (vl + 4 + 4 * i) = get32 (addr ?h2) (vl + 4 + 4 * i)"
      by (intro upd_load(2)[OF u26 l2(1)]) (use l2(2) vl(3) in auto)
    then show ?thesis by simp
  qed
  have nd: "\<not> IS_VALID_BLOCK h d" if "4 < length (sv_value sv)"
    using sd(4)[OF that] updD(1)[OF u3] updD(1)[OF u1] by blast
  have "set_one node vl (i, sv) h = (Ok (), h6)"
    using al w2 f(1) sd(1) m5(1) m6(1) by (simp add: set_one_def sbind_def)
  with u6 hd6 da6 ap(2) nd g show ?thesis by (intro that[of h6 v d]) (simp_all add: entry_at_def)
qed

section \<open>Storing all values\<close>

definition apart_from :: "nat set \<Rightarrow> nat \<Rightarrow> nat \<Rightarrow> hive_set_value \<Rightarrow> bool" where
  "apart_from B v d sv \<longleftrightarrow> v \<notin> B \<and> (4 < length (sv_value sv) \<longrightarrow> d \<notin> B)"

lemma entry_at_upd:
  assumes h: "hive_ok h" and u: "upd h h' A" and e: "entry_at h v d sv" and ap: "apart_from B v d sv"
    and B: "\<And>b. b \<in> B \<Longrightarrow> IS_VALID_BLOCK h b" and A: "\<And>i. i \<in> A \<Longrightarrow> \<exists>b \<in> B. b \<le> i \<and> i < b + blen h b"
  shows "entry_at h' v d sv"
proof -
  have v: "IS_VALID_BLOCK h v" "24 \<le> blen h v" using e by (auto simp: entry_at_def head_at_def)
  have out: "i \<notin> A" if "c \<le> i" "i < c + blen h c" "IS_VALID_BLOCK h c" "c \<notin> B" for c i
  proof
    assume "i \<in> A"
    then obtain b where b: "b \<in> B" "b \<le> i" "i < b + blen h b" using A by blast
    then have "c \<noteq> b" using that(4) by auto
    from blocks_apart[OF h that(3) B[OF b(1)] this that(1,2)] b show False by simp
  qed
  have "head_at h' v sv"
    by (rule head_at_upd[OF u]) (use e out[of v] v ap in \<open>auto simp: entry_at_def apart_from_def\<close>)
  moreover have "data_at h' v d (sv_value sv)"
  proof (rule data_at_upd[OF u v])
    show "data_at h v d (sv_value sv)" using e by (simp add: entry_at_def)
    show "i \<notin> A" if "v + 12 \<le> i" "i < v + 16" for i
      using that v ap by (intro out[of v]) (auto simp: apart_from_def)
    show "i \<notin> A" if "4 < length (sv_value sv)" "d \<le> i" "i < d + blen h d" for i
      using that e ap by (intro out[of d]) (auto simp: apart_from_def entry_at_def data_at_def)
  qed
  ultimately show ?thesis by (simp add: entry_at_def)
qed

text \<open>The blocks one value uses, its data before the record, as \<open>owned_by\<close> lists them.\<close>

definition own_of :: "nat \<times> nat \<Rightarrow> hive_set_value \<Rightarrow> nat list" where
  "own_of e sv = (if 4 < length (sv_value sv) then [snd e] else []) @ [fst e]"

lemma own_of_valid: "entry_at h (fst e) (snd e) sv \<Longrightarrow> x \<in> set (own_of e sv) \<Longrightarrow> IS_VALID_BLOCK h x"
  by (auto simp: own_of_def entry_at_def head_at_def data_at_def split: if_splits)

definition stored :: "hive \<Rightarrow> nat \<Rightarrow> nat \<Rightarrow> (nat \<times> nat) list \<Rightarrow> hive_set_value list \<Rightarrow> bool" where
  "stored h node vl es svs \<longleftrightarrow>
     length es = length svs \<and> distinct (concat (map2 own_of es svs)) \<and>
     (\<forall>j < length svs. entry_at h (fst (es ! j)) (snd (es ! j)) (svs ! j) \<and>
        apart_from {node, vl} (fst (es ! j)) (snd (es ! j)) (svs ! j) \<and>
        get32 (addr h) (vl + 4 + 4 * j) = of_nat (fst (es ! j)) - 0x1000)"

lemma stored_valid:
  assumes "stored h node vl es svs" and "x \<in> set (concat (map2 own_of es svs))"
  shows "IS_VALID_BLOCK h x" "x \<notin> {node, vl}"
proof -
  obtain j where j: "j < length svs" "x \<in> set (own_of (es ! j) (svs ! j))"
    using assms by (auto simp: stored_def set_zip)
  show "IS_VALID_BLOCK h x" using own_of_valid[of h "es ! j" "svs ! j" x] assms(1) j by (simp add: stored_def)
  show "x \<notin> {node, vl}" using assms(1) j by (auto simp: stored_def apart_from_def own_of_def split: if_splits)
qed

lemma stored_upd:
  assumes h: "hive_ok h" and u: "upd h h' ({vl + 4 + 4 * k..<vl + 8 + 4 * k} \<union> {node + 64..<node + 72})"
    and vl: "IS_VALID_BLOCK h vl" "8 + 4 * k \<le> blen h vl" and nk: "is_nk h node" and n: "vl \<noteq> node"
    and s: "stored h node vl es svs" and k: "length svs \<le> k"
  shows "stored h' node vl es svs"
proof -
  have nv: "IS_VALID_BLOCK h node" "80 \<le> blen h node" using nk by (auto simp: is_nk_def)
  let ?A = "{vl + 4 + 4 * k..<vl + 8 + 4 * k} \<union> {node + 64..<node + 72}"
  have A: "\<exists>b \<in> {node, vl}. b \<le> i \<and> i < b + blen h b" if "i \<in> ?A" for i
    using that vl(2) nv(2) by auto
  have "get32 (addr h') (vl + 4 + 4 * j) = get32 (addr h) (vl + 4 + 4 * j)" if "j < length svs" for j
  proof (rule upd_load(2)[OF u vl(1)])
    show "i \<notin> ?A" if i: "vl + 4 + 4 * j \<le> i" "i < vl + 4 + 4 * j + 4" for i
      using blocks_apart[OF h vl(1) nv(1) n, of i] i \<open>j < length svs\<close> k vl(2) nv(2) by auto
  qed (use that k vl(2) in auto)
  moreover have "entry_at h' (fst (es ! j)) (snd (es ! j)) (svs ! j)" if "j < length svs" for j
    by (rule entry_at_upd[OF h u, of _ _ _ "{node, vl}"]) (use s that A vl(1) nv(1) in \<open>auto simp: stored_def\<close>)
  ultimately show ?thesis using s by (simp add: stored_def)
qed

lemma set_loop:
  assumes "hive_ok h" "writable h" "is_nk h node" "IS_VALID_BLOCK h vl" "vl \<noteq> node"
    "4 + 4 * (length svs + length rest) \<le> blen h vl" "\<forall>sv \<in> set rest. sv_ok sv" "stored h node vl es svs"
  shows "\<exists>h' es'. sfor (set_one node vl) (enumerate (length svs) rest) h = (Ok (), h') \<and>
    upd h h' ({vl + 4..<vl + blen h vl} \<union> {node + 64..<node + 72}) \<and> stored h' node vl es' (svs @ rest) \<and>
    (\<forall>x \<in> set (concat (map2 own_of es' (svs @ rest))). x \<in> set (concat (map2 own_of es svs)) \<or> \<not> IS_VALID_BLOCK h x)"
  using assms
proof (induction rest arbitrary: h svs es)
  case Nil
  have "upd h h ({vl + 4..<vl + blen h vl} \<union> {node + 64..<node + 72})"
    by (rule upd_mono[OF upd_refl[OF Nil(1)]]) simp
  with Nil show ?case by auto
next
  case (Cons sv rest)
  let ?k = "length svs"
  have nv: "IS_VALID_BLOCK h node" using Cons.prems(3) by (simp add: is_nk_def)
  have b8: "8 + 4 * ?k \<le> blen h vl" and svk: "sv_ok sv" using Cons.prems(6,7) by auto
  obtain h1 v d where o: "set_one node vl (?k, sv) h = (Ok (), h1)"
    "upd h h1 ({vl + 4 + 4 * ?k..<vl + 8 + 4 * ?k} \<union> {node + 64..<node + 72})"
    "entry_at h1 v d sv" "\<not> IS_VALID_BLOCK h v" "4 < length (sv_value sv) \<Longrightarrow> \<not> IS_VALID_BLOCK h d"
    "get32 (addr h1) (vl + 4 + 4 * ?k) = of_nat v - 0x1000"
    using set_one_post[OF Cons.prems(1-5) b8 svk] by blast
  note u = o(2)
  have h1: "hive_ok h1" "writable h1" using upd_ok[OF u] Cons.prems(2) by auto
  have vl1: "IS_VALID_BLOCK h1 vl" "blen h1 vl = blen h vl" using updD[OF u Cons.prems(4)] by auto
  have nb: "80 \<le> blen h node" using Cons.prems(3) by (simp add: is_nk_def)
  have nk1: "is_nk h1 node"
  proof (rule upd_is_nk[OF u Cons.prems(3)])
    show "i \<notin> {vl + 4 + 4 * ?k..<vl + 8 + 4 * ?k} \<union> {node + 64..<node + 72}" if "node + 4 \<le> i" "i < node + 6" for i
      using blocks_apart[OF Cons.prems(1) nv Cons.prems(4) Cons.prems(5)[symmetric], of i] that b8 nb by auto
    show "i \<notin> {vl + 4 + 4 * ?k..<vl + 8 + 4 * ?k} \<union> {node + 64..<node + 72}" if "node + 76 \<le> i" "i < node + 78" for i
      using blocks_apart[OF Cons.prems(1) nv Cons.prems(4) Cons.prems(5)[symmetric], of i] that b8 nb by auto
  qed
  have s1: "stored h1 node vl es svs"
    by (rule stored_upd[OF Cons.prems(1) u Cons.prems(4) b8 Cons.prems(3,5,8)]) simp
  have a1: "apart_from {node, vl} v d sv"
    using o(4,5) nv Cons.prems(4) by (auto simp: apart_from_def)
  have fresh: "\<not> IS_VALID_BLOCK h x" if "x \<in> set (own_of (v, d) sv)" for x
    using that o(4,5) by (auto simp: own_of_def split: if_splits)
  have split: "concat (map2 own_of (es @ [(v, d)]) (svs @ [sv])) = concat (map2 own_of es svs) @ own_of (v, d) sv"
    using Cons.prems(8) by (simp add: stored_def)
  have "distinct (own_of (v, d) sv)" using o(3) by (auto simp: own_of_def entry_at_def data_at_def)
  moreover have "set (concat (map2 own_of es svs)) \<inter> set (own_of (v, d) sv) = {}"
    using stored_valid(1)[OF Cons.prems(8)] fresh by blast
  ultimately have "distinct (concat (map2 own_of (es @ [(v, d)]) (svs @ [sv])))"
    using Cons.prems(8) unfolding split distinct_append by (simp only: stored_def simp_thms)
  then have st1: "stored h1 node vl (es @ [(v, d)]) (svs @ [sv])"
    using o(3,6) s1 a1 unfolding stored_def by (auto simp: nth_append less_Suc_eq)
  obtain h' es' where r: "sfor (set_one node vl) (enumerate (length (svs @ [sv])) rest) h1 = (Ok (), h')"
    "upd h1 h' ({vl + 4..<vl + blen h1 vl} \<union> {node + 64..<node + 72})" "stored h' node vl es' ((svs @ [sv]) @ rest)"
    "\<forall>x \<in> set (concat (map2 own_of es' ((svs @ [sv]) @ rest))).
       x \<in> set (concat (map2 own_of (es @ [(v, d)]) (svs @ [sv]))) \<or> \<not> IS_VALID_BLOCK h1 x"
    using Cons.IH[OF h1 nk1 vl1(1) Cons.prems(5) _ _ st1] Cons.prems(6,7) vl1(2) by auto
  have "upd h h' ({vl + 4..<vl + blen h vl} \<union> {node + 64..<node + 72})"
    by (rule upd_mono[OF upd_trans[OF u r(2)]]) (use vl1(2) b8 in auto)
  moreover have "sfor (set_one node vl) (enumerate ?k (sv # rest)) h = (Ok (), h')"
    using o(1) r(1) by (simp add: sbind_def)
  moreover have "x \<in> set (concat (map2 own_of es svs)) \<or> \<not> IS_VALID_BLOCK h x"
    if "x \<in> set (concat (map2 own_of es' (svs @ sv # rest)))" for x
  proof -
    have "x \<in> set (concat (map2 own_of es' ((svs @ [sv]) @ rest)))" using that by simp
    from bspec[OF r(4) this, unfolded split set_append] fresh[of x] updD(1)[OF u, of x] show ?thesis by blast
  qed
  ultimately show ?case using r(3) by (intro exI[of _ h'] exI[of _ es']) (simp only: append.assoc append.simps simp_thms ball_simps, blast)
qed

section \<open>Reading back\<close>

lemma word_small:
  assumes "n < 2 ^ 31"
  shows "(of_nat n :: u32) AND 0x80000000 = 0" "unat ((of_nat n :: u32) AND 0x7fffffff) = n"
proof -
  have u: "unat (of_nat n :: u32) = n" using assms by (simp add: unat_of_nat take_bit_nat_eq_self)
  have m: "(0x7fffffff :: u32) = mask 31" by (simp add: mask_eq_exp_minus_1)
  show "unat ((of_nat n :: u32) AND 0x7fffffff) = n"
    unfolding m using assms by (simp add: take_bit_eq_mask[symmetric] unsigned_take_bit_eq u take_bit_nat_eq_self)
  have p: "(0x80000000 :: u32) = push_bit 31 1" by simp
  have "\<not> bit (of_nat n :: u32) 31"
  proof -
    have "n div 2 ^ 31 = 0" using assms by simp
    then have "\<not> bit n 31" by (simp add: bit_iff_odd)
    then show ?thesis by (simp add: bit_of_nat_iff)
  qed
  then show "(of_nat n :: u32) AND 0x80000000 = 0"
    unfolding p using bit_iff_and_push_bit_not_eq_0[of "of_nat n :: u32" 31] by simp
qed

lemma data_word_split:
  assumes "length data + 4 \<le> HIVEX_MAX_ALLOCATION"
  shows "data_word data AND 0x80000000 \<noteq> 0 \<longleftrightarrow> length data \<le> 4"
    "unat (data_word data AND 0x7fffffff) = length data"
proof -
  have n: "length data < 2 ^ 31" using assms by (simp add: HIVEX_MAX_ALLOCATION_def)
  have le: "(of_nat (length data) :: u32) \<le> 4 \<longleftrightarrow> length data \<le> 4"
    using n by (simp add: word_le_nat_alt unat_of_nat take_bit_nat_eq_self)
  have small: "k = 0 \<or> k = 1 \<or> k = 2 \<or> k = 3 \<or> k = 4" if "k \<le> 4" for k :: nat using that by auto
  have "(data_word data AND 0x80000000 \<noteq> 0 \<longleftrightarrow> length data \<le> 4) \<and> unat (data_word data AND 0x7fffffff) = length data"
  proof (cases "length data \<le> 4")
    case True
    then have "data_word data = of_nat (length data) OR 0x80000000" using le by (simp add: data_word_def)
    with small[OF True] True show ?thesis by auto
  next
    case False
    then have "data_word data = of_nat (length data)" using le by (simp add: data_word_def)
    with False word_small[OF n] show ?thesis by simp
  qed
  then show "data_word data AND 0x80000000 \<noteq> 0 \<longleftrightarrow> length data \<le> 4"
    "unat (data_word data AND 0x7fffffff) = length data" by blast+
qed

lemma offset_word:
  assumes "0x1000 \<le> b" and "b < 2 ^ 32"
  shows "unat (of_nat b - 0x1000 :: u32) + 0x1000 = b"
proof -
  have u: "unat (of_nat b :: u32) = b" using assms(2) by (simp add: unat_of_nat take_bit_nat_eq_self)
  then have "(0x1000 :: u32) \<le> of_nat b" using assms(1) by (simp add: word_le_nat_alt)
  then have "unat (of_nat b - 0x1000 :: u32) = b - 0x1000" using u by (simp add: unat_sub)
  then show ?thesis using assms(1) by simp
qed

lemma entry_reads:
  assumes h: "hive_ok h" and ep: "endpages h \<le> 2 ^ 32" and e: "entry_at h v d sv" and sv: "sv_ok sv"
  shows "is_vk h v" "hivex_value_key h v = Ok (cstr (sv_key sv) @ [0])"
    "hivex_value_value h v = Ok (sv_t sv, length (sv_value sv), sv_value sv)"
proof -
  let ?data = "sv_value sv"
  have hd: "head_at h v sv" and da: "data_at h v d ?data" using e by (simp_all add: entry_at_def)
  have len: "length ?data + 4 \<le> HIVEX_MAX_ALLOCATION" "strlen (sv_key sv) < 2 ^ 16"
    using sv by (simp_all add: sv_ok_def)
  have nl: "unat (get16 (addr h) (v + 6)) = strlen (sv_key sv)"
    using hd len(2) by (simp add: head_at_def unat_of_nat take_bit_nat_eq_self)
  show vk: "is_vk h v" using hd nl by (simp add: is_vk_def head_at_def)
  then show "hivex_value_key h v = Ok (cstr (sv_key sv) @ [0])"
    using hivex_value_key_eq[OF h vk] nl hd by (simp add: head_at_def)
  note vb = is_vk_bounds[OF h vk]
  have ck: "check_block h v id_vk EINVAL = Ok ()" using vk vb by (auto simp: is_vk_def)
  have rd: "rd32 h (v + 16) = Ok (sv_t sv)" "rd32 h (v + 8) = Ok (data_word ?data)"
    "rd32 h (v + 12) = Ok (get32 (addr h) (v + 12))"
    using hd vb(2) by (simp_all add: head_at_def)
  note ds = data_word_split[OF len(1)]
  have max: "\<not> HIVEX_MAX_VALUE_LEN < length ?data"
    using len(1) by (simp add: HIVEX_MAX_ALLOCATION_def HIVEX_MAX_VALUE_LEN_def)
  show "hivex_value_value h v = Ok (sv_t sv, length ?data, ?data)"
  proof (cases "length ?data \<le> 4")
    case True
    have "rd_bytes h (v + 12) (length ?data) = Ok ?data" using True da vb(2) by (simp add: data_at_def)
    with True ck rd ds max show ?thesis by (simp add: hivex_value_value_def Let_def del: rd_Ok check_block_bid)
  next
    case False
    have d: "IS_VALID_BLOCK h d" "length ?data + 4 \<le> blen h d" "get32 (addr h) (v + 12) = of_nat d - 0x1000"
      "get_bytes (addr h) (d + 4) (length ?data) = ?data"
      using da False by (auto simp: data_at_def)
    note db = hive_ok_valid[OF h d(1)]
    have od: "unat (get32 (addr h) (v + 12)) + 0x1000 = d"
      unfolding d(3) using db(1,2,4) ep by (intro offset_word) auto
    have room: "data_room (blen h d) = blen h d - 4"
      using db(4) hive_ok_blen_bound[OF h d(1)] by (intro data_room) simp_all
    have rb: "rd_bytes h (d + 4) (length ?data) = Ok ?data" using d db(3) by simp
    have nlt: "\<not> data_room (blen h d) < length ?data" using room d(2) by simp
    show ?thesis
      using ck rd ds max False d(1) db(7) nlt rb
      by (simp add: hivex_value_value_def Let_def od del: rd_Ok check_block_bid)
  qed
qed

lemma entry_owned_by:
  assumes h: "hive_ok h" and ep: "endpages h \<le> 2 ^ 32" and e: "entry_at h (fst x) (snd x) sv" and sv: "sv_ok sv"
  shows "owned_by h (fst x) = own_of x sv"
proof -
  have "get32 (addr h) (fst x + 8) = data_word (sv_value sv)" using e by (simp add: entry_at_def head_at_def)
  moreover have "unat (get32 (addr h) (fst x + 12)) + 0x1000 = snd x" if "4 < length (sv_value sv)"
  proof -
    have d: "get32 (addr h) (fst x + 12) = of_nat (snd x) - 0x1000" "IS_VALID_BLOCK h (snd x)"
      using e that by (auto simp: entry_at_def data_at_def)
    show ?thesis unfolding d(1) using hive_ok_valid(1,2,4)[OF h d(2)] ep by (intro offset_word) auto
  qed
  ultimately show ?thesis
    using data_word_split(1)[of "sv_value sv"] sv by (auto simp: owned_by_def value_data_def own_of_def sv_ok_def)
qed

section \<open>Setting the values of a node\<close>

definition holds_values :: "hive \<Rightarrow> nat \<Rightarrow> hive_set_value list \<Rightarrow> bool" where
  "holds_values h node svs \<longleftrightarrow>
     (\<exists>vs. hivex_node_values h node = Ok (vs @ [0]) \<and> length vs = length svs \<and>
        (\<forall>i < length svs. hivex_value_key h (vs ! i) = Ok (cstr (sv_key (svs ! i)) @ [0]) \<and>
           hivex_value_value h (vs ! i) =
             Ok (sv_t (svs ! i), length (sv_value (svs ! i)), sv_value (svs ! i))))"

definition set_post :: "hive \<Rightarrow> nat \<Rightarrow> hive_set_value list \<Rightarrow> hive \<Rightarrow> bool" where
  "set_post h node svs h' \<longleftrightarrow>
     hive_ok h' \<and> same_handle h h' \<and> is_nk h' node \<and>
     (endpages h' \<le> 2 ^ 32 \<longrightarrow> holds_values h' node svs \<and> values_own h' node \<and>
        (\<forall>b \<in> set (owned h' node). b \<in> set (owned h node) \<or> \<not> IS_VALID_BLOCK h b)) \<and>
     (\<forall>i. node \<le> i \<longrightarrow> i < node + blen h node \<longrightarrow> i \<notin> {node + 40..<node + 48} \<union> {node + 64..<node + 72} \<longrightarrow>
        addr h' i = addr h i) \<and>
     (\<forall>c. IS_VALID_BLOCK h c \<longrightarrow> c \<notin> set (owned h node) \<longrightarrow> c \<noteq> node \<longrightarrow>
        IS_VALID_BLOCK h' c \<and> kept h h' c)"

lemma stored_holds:
  assumes h: "hive_ok h" and ep: "endpages h \<le> 2 ^ 32" and nk: "is_nk h node"
    and n: "nr_values h node = length svs" "length svs \<le> HIVEX_MAX_VALUES" "svs \<noteq> []"
    and vl: "IS_VALID_BLOCK h vl" "4 + 4 * length svs \<le> blen h vl" "value_list h node = vl"
    and st: "stored h node vl es svs" and sv: "\<forall>sv \<in> set svs. sv_ok sv" and vn: "vl \<noteq> node"
  shows "holds_values h node svs \<and> values_own h node" "owned h node = vl # concat (map2 own_of es svs)"
proof -
  have len: "length es = length svs" using st by (simp add: stored_def)
  have e: "entry_at h (fst (es ! i)) (snd (es ! i)) (svs ! i)"
    "get32 (addr h) (vl + 4 + 4 * i) = of_nat (fst (es ! i)) - 0x1000" if "i < length svs" for i
    using st that by (auto simp: stored_def)
  note rd = entry_reads[OF h ep e(1)]
  have vk: "is_vk h (fst (es ! i))" if "i < length svs" for i using rd(1)[OF that] sv that by simp
  have key: "vl_key h vl i = fst (es ! i)" if i: "i < length svs" for i
  proof -
    have v: "IS_VALID_BLOCK h (fst (es ! i))" using vk[OF i] by (simp add: is_vk_def)
    show ?thesis unfolding vl_key_def e(2)[OF i]
      using hive_ok_valid(1,2,4)[OF h v] ep by (intro offset_word) auto
  qed
  have vo: "value_offsets h node = map fst es"
    by (rule nth_equalityI) (auto simp: value_offsets_def n(1) vl(3) len key)
  have "IS_VALID_BLOCK h v" if "v \<in> set (map fst es)" for v
    using that vk len by (auto simp: in_set_conv_nth[of v] is_vk_def simp del: in_set_conv_nth set_map)
  then have vok: "vallist_ok h node"
    using nk n vl by (simp add: vallist_ok_def vo)
  then have "hivex_node_values h node = Ok (map fst es @ [0])"
    by (simp add: hivex_node_values_def get_values_eq[OF h] vo)
  then have hv: "holds_values h node svs" unfolding holds_values_def
    using rd(2,3) sv len by (intro exI[of _ "map fst es"]) auto
  have "map (owned_by h) (map fst es) = map2 own_of es svs"
    by (rule nth_equalityI) (auto simp: len intro!: entry_owned_by[OF h ep e(1)] sv[rule_format])
  then show ow: "owned h node = vl # concat (map2 own_of es svs)"
    using n by (simp add: owned_def value_blocks_def vo vl(3))
  have "values_own h node"
    unfolding values_own_def
  proof (intro conjI)
    show "vallist_ok h node" by (rule vok)
    have "vl \<notin> set (concat (map2 own_of es svs))" using stored_valid(2)[OF st] by blast
    then show "distinct (owned h node)" using st unfolding ow distinct.simps(2) by (simp only: stored_def simp_thms)
    show "\<forall>b \<in> set (owned h node). IS_VALID_BLOCK h b \<and> b \<noteq> node"
      unfolding ow list.set(2) using stored_valid[OF st] vl(1) vn by blast
    show "\<forall>v \<in> set (value_offsets h node). is_vk h v"
      unfolding vo using vk len by (auto simp: in_set_conv_nth) (metis fst_conv)
  qed
  with hv show "holds_values h node svs \<and> values_own h node" by simp
qed

lemma set_values_empty:
  assumes "hive_ok h" and "nr_values h node = 0" and "is_nk h node"
  shows "holds_values h node [] \<and> values_own h node \<and> owned h node = []"
proof -
  have "vallist_ok h node" using assms by (simp add: vallist_ok_def value_offsets_def)
  then show ?thesis
    using get_values_eq[OF assms(1)] assms(2)
    by (simp add: holds_values_def hivex_node_values_def value_offsets_def values_own_def owned_def value_blocks_def)
qed

lemma fill_values_post:
  assumes h: "hive_ok h" "writable h" and nk: "is_nk h node"
    and svs: "svs \<noteq> []" "length svs \<le> HIVEX_MAX_VALUES" "\<forall>sv \<in> set svs. sv_ok sv"
  obtains h' where "sbind (allocate_block (sizeof ntreg_value_list + (length svs - 1) * 4) nul_id) (\<lambda>vl.
      sbind (wr32 (node + nk_nr_values) (of_nat (length svs))) (\<lambda>_.
      sbind (wr32 (node + nk_vallist) (of_nat vl - 0x1000)) (\<lambda>_.
      sfor (set_one node vl) (enumerate 0 svs)))) h = (Ok (), h')"
    "upd h h' ({node + 40..<node + 48} \<union> {node + 64..<node + 72})" "is_nk h' node"
    "endpages h' \<le> 2 ^ 32 \<Longrightarrow> holds_values h' node svs \<and> values_own h' node \<and> (\<forall>b \<in> set (owned h' node). \<not> IS_VALID_BLOCK h b)"
proof -
  have nv: "IS_VALID_BLOCK h node" "80 \<le> blen h node" using nk by (auto simp: is_nk_def)
  let ?n = "8 + (length svs - 1) * 4"
  have n: "4 \<le> ?n" "?n \<le> HIVEX_MAX_ALLOCATION" "?n = 4 + 4 * length svs"
    using svs(1,2) by (cases svs; simp add: HIVEX_MAX_VALUES_def HIVEX_MAX_ALLOCATION_def)+
  obtain vl h1 where al: "allocate_block ?n nul_id h = (Ok vl, h1)" and p: "alloc_post h ?n nul_id vl h1"
    using allocate_block_post[OF h n(1,2) id_lengths(1)] by blast
  note ap = alloc_postD[OF p] and u1 = upd_alloc[OF h(1) p]
  have n1: "IS_VALID_BLOCK h1 node" "blen h1 node = blen h node" using updD[OF u1 nv(1)] by auto
  let ?h3 = "h1\<lparr>addr := put32 (put32 (addr h1) (node + 40) (of_nat (length svs))) (node + 44) (of_nat vl - 0x1000)\<rparr>"
  have u3: "upd h1 ?h3 {node + 40..<node + 40 + 8}"
    by (rule upd_write[OF ap(1) n1(1)]) (use n1(2) nv(2) in \<open>auto simp: put_frames\<close>)
  have w3: "wr32 (node + 40) (of_nat (length svs)) h1 = (Ok (), h1\<lparr>addr := put32 (addr h1) (node + 40) (of_nat (length svs))\<rparr>)"
    "wr32 (node + 44) (of_nat vl - 0x1000) (h1\<lparr>addr := put32 (addr h1) (node + 40) (of_nat (length svs))\<rparr>) = (Ok (), ?h3)"
    using hive_ok_valid(3)[OF ap(1) n1(1)] n1(2) nv(2) by (auto simp: wr_in)
  have u13: "upd h ?h3 ({} \<union> {node + 40..<node + 40 + 8})" by (rule upd_trans[OF u1 u3])
  have ok3: "hive_ok ?h3" "writable ?h3" using upd_ok[OF u13] h(2) by auto
  have vl3: "IS_VALID_BLOCK ?h3 vl" "blen ?h3 vl = blen h1 vl" using updD[OF u3 ap(3)] by auto
  have vln: "vl \<noteq> node" using ap(2) nv(1) by auto
  have nk3: "is_nk ?h3 node" by (rule upd_is_nk[OF u13 nk]) auto
  have n3: "IS_VALID_BLOCK ?h3 node" "blen ?h3 node = blen h node" using updD[OF u13 nv(1)] by auto
  have fit: "4 + 4 * length svs \<le> blen ?h3 vl" using vl3(2) ap(5) n(3) by simp
  obtain h' es where l: "sfor (set_one node vl) (enumerate 0 svs) ?h3 = (Ok (), h')"
    "upd ?h3 h' ({vl + 4..<vl + blen ?h3 vl} \<union> {node + 64..<node + 72})" "stored h' node vl es svs"
    "\<forall>x \<in> set (concat (map2 own_of es svs)). \<not> IS_VALID_BLOCK ?h3 x"
    using set_loop[OF ok3 nk3 vl3(1) vln, of "[]" svs "[]"] fit svs(3) by (auto simp: stored_def)
  have apart: "i \<notin> {vl + 4..<vl + blen ?h3 vl} \<union> {node + 64..<node + 72}"
    if "node \<le> i" "i < node + 64 \<or> (node + 72 \<le> i \<and> i < node + 80)" for i
    using blocks_apart[OF ok3(1) n3(1) vl3(1) vln[symmetric], of i] that n3(2) nv(2) by auto
  have nk': "is_nk h' node" by (rule upd_is_nk[OF l(2) nk3]) (use apart in auto)
  have "get32 (addr h') (node + 40) = get32 (addr ?h3) (node + 40)" "get32 (addr h') (node + 44) = get32 (addr ?h3) (node + 44)"
    using n3(2) nv(2) by (intro upd_load(2)[OF l(2) n3(1)] apart; simp)+
  then have fields: "get32 (addr h') (node + 40) = of_nat (length svs)" "get32 (addr h') (node + 44) = of_nat vl - 0x1000"
    by (simp_all add: mem_frame)
  have ok': "hive_ok h'" using upd_ok(1)[OF l(2)] .
  have vl': "IS_VALID_BLOCK h' vl" "blen h' vl = blen ?h3 vl" using updD[OF l(2) vl3(1)] by auto
  have holds: "holds_values h' node svs \<and> values_own h' node \<and> (\<forall>b \<in> set (owned h' node). \<not> IS_VALID_BLOCK h b)"
    if ep: "endpages h' \<le> 2 ^ 32"
  proof -
    have "nr_values h' node = length svs"
      using svs(2) by (simp add: nr_values_def fields HIVEX_MAX_VALUES_def unat_of_nat take_bit_nat_eq_self)
    moreover have "4 + 4 * length svs \<le> blen h' vl" using vl'(2) fit by simp
    moreover have "value_list h' node = vl"
      unfolding value_list_def fields using hive_ok_valid(1,2,4)[OF ok' vl'(1)] ep by (intro offset_word) auto
    ultimately have "holds_values h' node svs \<and> values_own h' node" "owned h' node = vl # concat (map2 own_of es svs)"
      by (rule stored_holds[OF ok' ep nk' _ svs(2,1) vl'(1) _ _ l(3) svs(3) vln])+
    then show ?thesis using l(4) ap(2) updD(1)[OF u13] unfolding \<open>owned h' node = _\<close> list.set(2) by blast
  qed
  have "upd h1 h' ({vl + 4..<vl + blen ?h3 vl} \<union> ({node + 40..<node + 48} \<union> {node + 64..<node + 72}))"
    by (rule upd_mono[OF upd_trans[OF u3 l(2)]]) auto
  then have "upd h h' ({} \<union> ({node + 40..<node + 48} \<union> {node + 64..<node + 72}))"
    by (rule upd_trans_fresh[OF u1 _ ap(3,2)]) (use vl3(2) in auto)
  moreover have "sbind (allocate_block (sizeof ntreg_value_list + (length svs - 1) * 4) nul_id) (\<lambda>vl.
      sbind (wr32 (node + nk_nr_values) (of_nat (length svs))) (\<lambda>_.
      sbind (wr32 (node + nk_vallist) (of_nat vl - 0x1000)) (\<lambda>_.
      sfor (set_one node vl) (enumerate 0 svs)))) h = (Ok (), h')"
    using al w3 l(1) by (simp add: sbind_def)
  ultimately show ?thesis using that nk' holds by simp
qed

lemma set_values_post:
  assumes h: "hive_ok h" "writable h" and o: "values_own h node"
    and svs: "length svs \<le> HIVEX_MAX_VALUES" "\<forall>sv \<in> set svs. sv_ok sv"
  obtains h' where "hivex_node_set_values node svs h = (Ok (), h')" "set_post h node svs h'"
proof -
  obtain h1 where d: "delete_values node h = (Ok (), h1)" "delete_post h node h1"
    using delete_values_post[OF h o] by blast
  have nk: "is_nk h node" using o by (simp add: values_own_def vallist_ok_def)
  then have ck: "check_block h node id_nk EINVAL = Ok ()"
    using is_nk_bounds(2)[OF h(1) nk] by (auto simp: is_nk_def)
  have p: "hive_ok h1" "same_handle h h1" "is_nk h1 node" "nr_values h1 node = 0"
    "\<And>c. IS_VALID_BLOCK h1 c \<longleftrightarrow> c \<notin> set (owned h node) \<and> IS_VALID_BLOCK h c"
    "\<And>c. IS_VALID_BLOCK h1 c \<Longrightarrow> c \<noteq> node \<Longrightarrow> kept h h1 c"
    using d(2) by (auto simp: delete_post_def)
  have w1: "writable h1" using p(2) h(2) by (simp add: same_handle_def)
  have nb: "addr h1 i = addr h i"
    if "node \<le> i" "i < node + blen h node" "i \<notin> {node + 40..<node + 48} \<union> {node + 64..<node + 72}" for i
    using d(2) that by (simp add: delete_post_def) (metis linorder_not_less)
  have "get32 (addr h1) node = get32 (addr h) node"
    using nk by (intro st32.load_cong nb) (auto simp: is_nk_def)
  then have bl: "blen h1 node = blen h node" by (simp add: blen_def)
  show ?thesis
  proof (cases "svs = []")
    case True
    have "hivex_node_set_values node svs h = (Ok (), h1)"
      using True h(2) ck d(1) by (simp add: hivex_node_set_values_def sbind_def del: check_block_bid)
    moreover have "set_post h node svs h1"
      using nb p set_values_empty[OF p(1,4,3)] True by (simp add: set_post_def)
    ultimately show ?thesis by (rule that)
  next
    case False
    obtain h' where f: "sbind (allocate_block (sizeof ntreg_value_list + (length svs - 1) * 4) nul_id) (\<lambda>vl.
        sbind (wr32 (node + nk_nr_values) (of_nat (length svs))) (\<lambda>_.
        sbind (wr32 (node + nk_vallist) (of_nat vl - 0x1000)) (\<lambda>_.
        sfor (set_one node vl) (enumerate 0 svs)))) h1 = (Ok (), h')"
      "upd h1 h' ({node + 40..<node + 48} \<union> {node + 64..<node + 72})" "is_nk h' node"
      "endpages h' \<le> 2 ^ 32 \<Longrightarrow> holds_values h' node svs \<and> values_own h' node \<and> (\<forall>b \<in> set (owned h' node). \<not> IS_VALID_BLOCK h1 b)"
      using fill_values_post[OF p(1) w1 p(3) False svs] by blast
    have n1: "IS_VALID_BLOCK h1 node" "80 \<le> blen h1 node" using p(3) by (auto simp: is_nk_def)
    have "IS_VALID_BLOCK h' c \<and> kept h h' c"
      if c: "IS_VALID_BLOCK h c" "c \<notin> set (owned h node)" "c \<noteq> node" for c
    proof -
      have c1: "IS_VALID_BLOCK h1 c" using c p(5) by simp
      have "kept h1 h' c"
        by (rule upd_kept[OF f(2) c1]) (use blocks_apart[OF p(1) c1 n1(1) c(3)] n1(2) in fastforce)
      then show ?thesis
        using kept_trans[OF p(6)[OF c1 c(3)]] hive_ok_valid(4)[OF h(1) c(1)] updD(1)[OF f(2) c1] by simp
    qed
    moreover have "addr h' i = addr h i"
      if "node \<le> i" "i < node + blen h node" "i \<notin> {node + 40..<node + 48} \<union> {node + 64..<node + 72}" for i
      using updD(3)[OF f(2) n1(1), of i] nb[OF that] that bl by simp
    ultimately have "set_post h node svs h'"
      using f(3,4) upd_ok[OF f(2)] same_handle_trans[OF p(2)] p(5) by (auto simp: set_post_def)
    moreover have "hivex_node_set_values node svs h = (Ok (), h')"
      using False h(2) ck d(1) f(1) by (simp add: hivex_node_set_values_def sbind_def[of "sget _"] sbind_def[of "delete_values _"] del: check_block_bid)
    ultimately show ?thesis using that by blast
  qed
qed

section \<open>Setting one value\<close>

lemma cstr_terminated [simp]: "cstr (cstr k @ [0]) = cstr k" "cstr (cstr k) = cstr k"
proof -
  have "takeWhile (\<lambda>c. c \<noteq> 0) (takeWhile (\<lambda>c. c \<noteq> 0) k @ [0]) = takeWhile (\<lambda>c. c \<noteq> 0) k" for k :: "byte list"
    by (induction k) auto
  then show "cstr (cstr k @ [0]) = cstr k" by (simp add: cstr_def)
  show "cstr (cstr k) = cstr k" by (simp add: cstr_def)
qed

lemma strlen_terminated [simp]: "strlen (cstr k @ [0]) = strlen k"
  by (simp add: strlen_def)

definition same_key :: "byte list \<Rightarrow> hive_set_value \<Rightarrow> bool" where
  "same_key key sv \<longleftrightarrow> STRCASEEQ (sv_key sv) key"

definition reread :: "hive_set_value \<Rightarrow> hive_set_value" where
  "reread sv = sv\<lparr>sv_key := cstr (sv_key sv) @ [0]\<rparr>"

text \<open>The list the operation is meant to store: the value replaces the last one with its key, or is added.\<close>

definition put_value :: "hive_set_value \<Rightarrow> hive_set_value list \<Rightarrow> hive_set_value list" where
  "put_value val svs =
     (let is = filter (\<lambda>i. same_key (sv_key val) (svs ! i)) [0..<length svs]
      in if is = [] then svs @ [val] else svs[last is := val])"

lemma reread_simps [simp]:
  "sv_t (reread sv) = sv_t sv" "sv_value (reread sv) = sv_value sv" "cstr (sv_key (reread sv)) = cstr (sv_key sv)"
  "sv_ok (reread sv) = sv_ok sv"
  by (simp_all add: reread_def sv_ok_def)

lemma previous_values_eq:
  assumes "length vs = length svs" and "0 \<notin> set vs"
    and "\<And>i. i < length svs \<Longrightarrow> hivex_value_key h (vs ! i) = Ok (cstr (sv_key (svs ! i)) @ [0]) \<and>
      hivex_value_value h (vs ! i) = Ok (sv_t (svs ! i), length (sv_value (svs ! i)), sv_value (svs ! i))"
  shows "previous_values h key (vs @ [0]) acc idx =
    Ok (acc @ map reread svs,
        if \<exists>sv \<in> set svs. same_key key sv
        then Some (length acc + last (filter (\<lambda>i. same_key key (svs ! i)) [0..<length svs])) else idx)"
  using assms
proof (induction vs arbitrary: svs acc idx)
  case (Cons v vs)
  then obtain sv svs' where svs: "svs = sv # svs'" "length vs = length svs'" by (cases svs) auto
  have v: "hivex_value_key h v = Ok (cstr (sv_key sv) @ [0])"
    "hivex_value_value h v = Ok (sv_t sv, length (sv_value sv), sv_value sv)" "v \<noteq> 0"
    using Cons.prems(3)[of 0] Cons.prems(2) by (auto simp: svs)
  have rr: "\<lparr>sv_key = cstr (sv_key sv) @ [0], sv_t = sv_t sv, sv_value = sv_value sv\<rparr> = reread sv"
    by (simp add: reread_def)
  have eq: "STRCASEEQ (cstr (sv_key sv) @ [0]) key = same_key key sv"
    by (simp add: same_key_def STRCASEEQ_iff)
  have flt: "filter (\<lambda>i. same_key key ((sv # svs') ! i)) [0..<length (sv # svs')] =
      (if same_key key sv then [0] else []) @ map Suc (filter (\<lambda>i. same_key key (svs' ! i)) [0..<length svs'])"
    by (simp add: upt_conv_Cons map_Suc_upt[symmetric] filter_map comp_def del: upt_Suc map_Suc_upt)
  have ex: "(\<exists>sv \<in> set svs'. same_key key sv) \<longleftrightarrow> filter (\<lambda>i. same_key key (svs' ! i)) [0..<length svs'] \<noteq> []"
    by (simp add: filter_empty_conv Bex_def in_set_conv_nth) blast
  have IH: "previous_values h key (vs @ [0]) acc' idx' = Ok (acc' @ map reread svs',
      if \<exists>sv \<in> set svs'. same_key key sv
      then Some (length acc' + last (filter (\<lambda>i. same_key key (svs' ! i)) [0..<length svs'])) else idx')" for acc' idx'
    using Cons.prems(2) Cons.prems(3)[of "Suc _"] by (intro Cons.IH) (auto simp: svs)
  show ?case
    unfolding svs(1) flt using v ex by (simp add: IH rr eq last_map)
qed simp

lemma reread_idem [simp]: "reread (reread sv) = reread sv"
  by (simp add: reread_def)

lemma reread_eqD:
  assumes "reread x = reread y"
  shows "cstr (sv_key x) = cstr (sv_key y)" "sv_t x = sv_t y" "sv_value x = sv_value y" "sv_ok x = sv_ok y"
  using reread_simps[of x] reread_simps[of y] unfolding assms by simp_all

lemma holds_values_reread:
  assumes "map reread xs = map reread ys"
  shows "holds_values h node xs \<longleftrightarrow> holds_values h node ys"
proof -
  have len: "length xs = length ys" using map_eq_imp_length_eq[OF assms] .
  have "reread (xs ! i) = reread (ys ! i)" if "i < length ys" for i
    using arg_cong[OF assms, of "\<lambda>l. l ! i"] that len by simp
  then have e: "i < length ys \<Longrightarrow> cstr (sv_key (xs ! i)) = cstr (sv_key (ys ! i)) \<and>
      sv_t (xs ! i) = sv_t (ys ! i) \<and> sv_value (xs ! i) = sv_value (ys ! i)" for i
    using reread_eqD by blast
  show ?thesis unfolding holds_values_def len by (simp add: e cong: conj_cong imp_cong)
qed

lemma put_value_eq:
  "put_value val svs =
     (if \<exists>sv \<in> set svs. same_key (sv_key val) sv
      then svs[last (filter (\<lambda>i. same_key (sv_key val) (svs ! i)) [0..<length svs]) := val] else svs @ [val])"
proof -
  have "(\<exists>sv \<in> set svs. same_key (sv_key val) sv) \<longleftrightarrow>
      filter (\<lambda>i. same_key (sv_key val) (svs ! i)) [0..<length svs] \<noteq> []"
    by (simp add: filter_empty_conv Bex_def in_set_conv_nth) blast
  then show ?thesis by (simp add: put_value_def Let_def)
qed

lemma put_value_ok:
  "length (put_value val svs) \<le> Suc (length svs)"
  "\<forall>sv \<in> set svs. sv_ok sv \<Longrightarrow> sv_ok val \<Longrightarrow> \<forall>sv \<in> set (put_value val svs). sv_ok sv"
  using set_update_subset_insert[of svs _ val] by (auto simp: put_value_eq dest!: subsetD)

text \<open>Setting one value is setting all values with the new one in its place.\<close>

lemma set_value_run:
  assumes hv: "holds_values h node svs"
  obtains L where "hivex_node_set_value node val h = hivex_node_set_values node L h"
    "map reread L = map reread (put_value val svs)"
proof -
  obtain vs where vs: "hivex_node_values h node = Ok (vs @ [0])" "length vs = length svs"
    "\<And>i. i < length svs \<Longrightarrow> hivex_value_key h (vs ! i) = Ok (cstr (sv_key (svs ! i)) @ [0]) \<and>
      hivex_value_value h (vs ! i) = Ok (sv_t (svs ! i), length (sv_value (svs ! i)), sv_value (svs ! i))"
    using hv by (auto simp: holds_values_def)
  have nz: "0 \<notin> set vs" using vals.terminated[OF vs(1)] by simp
  obtain idx where prev: "previous_values h (sv_key val) (vs @ [0]) [] None = Ok (map reread svs, idx)"
    and idx: "idx = (if \<exists>sv \<in> set svs. same_key (sv_key val) sv
      then Some (last (filter (\<lambda>i. same_key (sv_key val) (svs ! i)) [0..<length svs])) else None)"
    by (simp add: previous_values_eq[OF vs(2) nz vs(3)])
  let ?L = "case idx of Some i \<Rightarrow> (map reread svs)[i := val] | None \<Rightarrow> map reread svs @ [val]"
  have "map reread ?L = map reread (put_value val svs)"
    by (simp add: idx put_value_eq map_update comp_def)
  moreover have "hivex_node_set_value node val h = hivex_node_set_values node ?L h"
    by (simp add: hivex_node_set_value_def sbind_sget vs(1) prev)
  ultimately show ?thesis using that by blast
qed

lemma set_value_post:
  assumes h: "hive_ok h" "writable h" and o: "values_own h node" and hv: "holds_values h node svs"
    and svs: "length svs < HIVEX_MAX_VALUES" "\<forall>sv \<in> set svs. sv_ok sv" "sv_ok val"
  obtains h' where "hivex_node_set_value node val h = (Ok (), h')" "set_post h node (put_value val svs) h'"
proof -
  obtain L where L: "hivex_node_set_value node val h = hivex_node_set_values node L h"
    "map reread L = map reread (put_value val svs)" by (rule set_value_run[OF hv])
  have len: "length L = length (put_value val svs)" using map_eq_imp_length_eq[OF L(2)] .
  have "sv_ok x \<longleftrightarrow> sv_ok (reread x)" for x by simp
  then have "(\<forall>sv \<in> set L. sv_ok sv) \<longleftrightarrow> (\<forall>sv \<in> set (map reread L). sv_ok sv)" by simp
  then have "\<forall>sv \<in> set L. sv_ok sv" unfolding L(2) using put_value_ok(2)[OF svs(2,3)] by simp
  then obtain h' where "hivex_node_set_values node L h = (Ok (), h')" "set_post h node L h'"
    using set_values_post[OF h o, of L] len put_value_ok(1)[of val svs] svs(1) by auto
  moreover have "set_post h node (put_value val svs) h'"
    using calculation(2) unfolding set_post_def holds_values_reread[OF L(2)] .
  ultimately show ?thesis using that L(1) by simp
qed

section \<open>Properties\<close>

text \<open>C19: On a well-formed writable handle, \<^verbatim>\<open>delete_values\<close> of a node that owns its values
  succeeds: it frees exactly the value list, the value records and their data blocks, keeps the
  bytes of every other block in use, leaves the node's other fields alone, and the node then has
  no values.\<close>

theorem delete_values_correct:
  assumes "hive_ok h" and "writable h" and "values_own h node"
  shows "\<exists>h'. delete_values node h = (Ok (), h') \<and> delete_post h node h' \<and>
    hivex_node_values h' node = Ok [0]"
proof -
  obtain h' where d: "delete_values node h = (Ok (), h')" "delete_post h node h'"
    using delete_values_post[OF assms] by blast
  then have "holds_values h' node []" using set_values_empty[of h' node] by (simp add: delete_post_def)
  with d show ?thesis by (auto simp: holds_values_def)
qed

text \<open>C7: \<^verbatim>\<open>hivex_node_set_values\<close> round trip. On a well-formed writable handle, for a node that owns
  its values and at most \<^verbatim>\<open>HIVEX_MAX_VALUES\<close> new values of admissible size, the operation succeeds,
  the handle stays well formed, the blocks of other records keep their bytes, and (as long as the
  hive is within 4 GB) reading the node's values back gives exactly the keys, types and data that
  were set, in that order, and the node again owns its values.\<close>

theorem set_values_round_trip:
  assumes "hive_ok h" and "writable h" and "values_own h node"
    and "length svs \<le> HIVEX_MAX_VALUES" and "\<forall>sv \<in> set svs. sv_ok sv"
  shows "\<exists>h'. hivex_node_set_values node svs h = (Ok (), h') \<and> set_post h node svs h'"
  using set_values_post[OF assms] by blast

text \<open>C18: \<^verbatim>\<open>hivex_node_set_value\<close> on a node holding the values \<open>svs\<close>: afterwards the node holds \<open>svs\<close>
  with the last value of the same key (up to case) replaced by the new one, or with the new one
  appended when there is none; the other records are kept.\<close>

theorem set_value_updates:
  assumes "hive_ok h" and "writable h" and "values_own h node" and "holds_values h node svs"
    and "length svs < HIVEX_MAX_VALUES" and "\<forall>sv \<in> set svs. sv_ok sv" and "sv_ok val"
  shows "\<exists>h'. hivex_node_set_value node val h = (Ok (), h') \<and> set_post h node (put_value val svs) h'"
  using set_value_post[OF assms] by blast

text \<open>C40: \<^verbatim>\<open>hivex_node_set_values\<close> refuses, leaving the handle as it was: \<^verbatim>\<open>EROFS\<close> on a handle not
  opened for writing, and \<^verbatim>\<open>EINVAL\<close> for an offset that is no block in use with an \<^verbatim>\<open>nk\<close> id.\<close>

theorem set_values_refuses:
  assumes "hive_ok h"
  shows "(\<not> writable h \<longrightarrow> hivex_node_set_values node svs h = (Err EROFS, h)) \<and>
    (writable h \<longrightarrow> \<not> (IS_VALID_BLOCK h node \<and> id_of h node = id_nk) \<longrightarrow>
       hivex_node_set_values node svs h = (Err EINVAL, h))"
  using check_block_refuses[OF assms] by (simp add: hivex_node_set_values_def sbind_def)

end
