(* ===== verification/Write_Nodes.thy ===== *)
theory Write_Nodes
  imports Write_Values
begin

text \<open>
  Adding nodes: \<^verbatim>\<open>calc_hash\<close>, \<^verbatim>\<open>new_lh_record\<close>, \<^verbatim>\<open>insert_lf_record\<close>, \<^verbatim>\<open>compare_name_with_nk_name\<close> and
  \<^verbatim>\<open>hivex_node_add_child\<close> of \<^verbatim>\<open>lib/hivex.c\<close>. The last one is split at its comments: \<open>create_nk\<close>
  (the new record), \<open>inherit_sk\<close>, \<open>find_posn\<close> (the search that ends in \<^verbatim>\<open>goto insert_it\<close>),
  \<open>relink\<close> (the parent or the ri-record that referenced the old lf-record) and \<open>link_child\<close>.

  The theorems: on a well-formed handle and a parent whose index is in order, adding a child
  whose name is new puts it into the parent's list of children in front of the first child with
  a greater name, keeps the other children and their names, and the new node reads back with its
  name, its parent and no children or values.
\<close>

section \<open>Definitions\<close>

text \<open>\<^verbatim>\<open>name[i]\<close> is a signed \<^verbatim>\<open>char\<close>: bytes above 127 are sign-extended into the hash.\<close>

definition lh_hash :: "byte list \<Rightarrow> u32" where
  "lh_hash name = foldl (\<lambda>h c. h * 37 + scast (c_toupper c)) 0 name"

definition calc_hash :: "byte list \<Rightarrow> byte list \<Rightarrow> nat \<Rightarrow> (hive, unit) op" where
  "calc_hash type name ret =
     (if take 2 type = id_lf then wr_bytes ret (take 4 (cstr name))
      else wr32 ret (lh_hash (cstr name)))"

definition new_lh_record :: "byte list \<Rightarrow> hive_node_h \<Rightarrow> (hive, nat) op" where
  "new_lh_record name node =
     sbind (allocate_block (sizeof ntreg_lf_record) id_lh) (\<lambda>offset.
     sbind (wr16 (offset + lf_nr_keys) 1) (\<lambda>_.
     sbind (wr32 (offset + lf_keys) (of_nat node - 0x1000)) (\<lambda>_.
     sbind (calc_hash id_lh name (offset + lf_keys + 4)) (\<lambda>_.
     sret offset))))"

definition copy_key :: "nat \<Rightarrow> nat \<Rightarrow> nat \<times> nat \<Rightarrow> (hive, unit) op" where
  "copy_key new_lf old_lf = (\<lambda>(i, j).
     sbind (sget (\<lambda>h. rd_bytes h (old_lf + lf_keys + 8 * j) 8)) (\<lambda>key.
     wr_bytes (new_lf + lf_keys + 8 * i) key))"

text \<open>The new record is filled: the keys before \<^verbatim>\<open>posn\<close>, the new key, the remaining keys.\<close>

definition fill_lf :: "nat \<Rightarrow> nat \<Rightarrow> nat \<Rightarrow> nat \<Rightarrow> byte list \<Rightarrow> hive_node_h \<Rightarrow> (hive, unit) op" where
  "fill_lf new_offs old_offs posn nr_keys name node =
     sbind (wr16 (new_offs + lf_nr_keys) (of_nat nr_keys)) (\<lambda>_.
     sbind (sfor (copy_key new_offs old_offs) (map (\<lambda>i. (i, i)) [0..<posn])) (\<lambda>_.
     sbind (wr32 (new_offs + lf_keys + 8 * posn) (of_nat node - 0x1000)) (\<lambda>_.
     sbind (sget (\<lambda>h. rd_bytes h (new_offs + block_id) 2)) (\<lambda>new_id.
     sbind (calc_hash new_id name (new_offs + lf_keys + 8 * posn + 4)) (\<lambda>_.
     sfor (copy_key new_offs old_offs) (map (\<lambda>i. (i, i - 1)) [posn + 1..<nr_keys]))))))"

definition insert_lf_record :: "nat \<Rightarrow> nat \<Rightarrow> byte list \<Rightarrow> hive_node_h \<Rightarrow> (hive, nat) op" where
  "insert_lf_record old_offs posn name node =
     sbind (sassert (\<lambda>h. IS_VALID_BLOCK h old_offs)) (\<lambda>_.
     sbind (sget (\<lambda>h. rd_bytes h (old_offs + block_id) 2)) (\<lambda>bid.
     sbind (sassert (\<lambda>_. bid = id_lf \<or> bid = id_lh)) (\<lambda>_.
     sbind (sget (\<lambda>h. rd16 h (old_offs + lf_nr_keys))) (\<lambda>w.
     let nr_keys = unat w + 1 in
     sbind (allocate_block (sizeof ntreg_lf_record + (nr_keys - 1) * 8) bid) (\<lambda>new_offs.
     sbind (fill_lf new_offs old_offs posn nr_keys name node) (\<lambda>_.
     sbind (mark_block_unused old_offs) (\<lambda>_.
     sret new_offs)))))))"

definition compare_name_with_nk_name :: "hive \<Rightarrow> byte list \<Rightarrow> hive_node_h \<Rightarrow> int result" where
  "compare_name_with_nk_name h name nk_offs =
     (if \<not> IS_VALID_BLOCK h nk_offs then Fault AssertFailed
      else
        rbind (BLOCK_ID_EQ h nk_offs id_nk) (\<lambda>b.
        if \<not> b then Fault AssertFailed
        else
          (case hivex_node_name h nk_offs of
             Ok nname \<Rightarrow> Ok (strcasecmp name nname)
           | Err e \<Rightarrow> Ok 0
           | Fault z \<Rightarrow> Fault z)))"

definition create_nk :: "hive_node_h \<Rightarrow> byte list \<Rightarrow> (hive, hive_node_h) op" where
  "create_nk parent name =
     sbind (allocate_block (sizeof ntreg_nk_record + strlen name) id_nk) (\<lambda>node.
     sbind (wr16 (node + nk_flags) 0x0020) (\<lambda>_.
     sbind (wr32 (node + nk_parent) (of_nat parent - 0x1000)) (\<lambda>_.
     sbind (wr32 (node + nk_subkey_lf) 0xffffffff) (\<lambda>_.
     sbind (wr32 (node + nk_subkey_lf_volatile) 0xffffffff) (\<lambda>_.
     sbind (wr32 (node + nk_vallist) 0xffffffff) (\<lambda>_.
     sbind (wr32 (node + nk_classname) 0xffffffff) (\<lambda>_.
     sbind (wr16 (node + nk_name_len) (of_nat (strlen name))) (\<lambda>_.
     sbind (wr_bytes (node + nk_name) (cstr name @ [0])) (\<lambda>_.
     sret node)))))))))"

definition inherit_sk :: "hive_node_h \<Rightarrow> hive_node_h \<Rightarrow> (hive, unit) op" where
  "inherit_sk parent node =
     sbind (sget (\<lambda>h. rd32 h (parent + nk_sk))) (\<lambda>w.
     let parent_sk_offset = unat w + 0x1000 in
     sbind (sget (\<lambda>h. check_block h parent_sk_offset id_sk EFAULT)) (\<lambda>_.
     sbind (sget (\<lambda>h. rd32 h (parent_sk_offset + sk_refcount))) (\<lambda>refcount.
     sbind (wr32 (parent_sk_offset + sk_refcount) (refcount + 1)) (\<lambda>_.
     sbind (wr32 (node + nk_sk) (of_nat parent_sk_offset - 0x1000)) (\<lambda>_.
     sbind (sget (\<lambda>h. rd64 h (parent + nk_timestamp))) (\<lambda>timestamp.
     wr64 (node + nk_timestamp) timestamp))))))"

text \<open>The first key of \<^verbatim>\<open>old_lf\<close>, from \<open>j\<close> on, whose node has a greater name.\<close>

fun find_key :: "hive \<Rightarrow> byte list \<Rightarrow> nat \<Rightarrow> nat list \<Rightarrow> nat option result" where
  "find_key h name old_lf [] = Ok None"
| "find_key h name old_lf (j # js) =
     rbind (rd32 h (old_lf + lf_keys + 8 * j)) (\<lambda>w.
     rbind (compare_name_with_nk_name h name (unat w + 0x1000)) (\<lambda>r.
     if r < 0 then Ok (Some j) else find_key h name old_lf js))"

definition is_lf_block :: "hive \<Rightarrow> nat \<Rightarrow> bool result" where
  "is_lf_block h b =
     rbind (BLOCK_ID_EQ h b id_lf) (\<lambda>lf. if lf then Ok True else BLOCK_ID_EQ h b id_lh)"

fun find_posn :: "hive \<Rightarrow> byte list \<Rightarrow> nat list \<Rightarrow> nat \<Rightarrow> (nat \<times> nat) result" where
  "find_posn h name [] old_offs = Fault (OutOfBounds 0)"
| "find_posn h name (b # bs) old_offs =
     (if b = 0 then
        (if old_offs = 0 then Fault AssertFailed
         else rbind (rd16 h (old_offs + lf_nr_keys)) (\<lambda>n. Ok (old_offs, unat n)))
      else
        rbind (is_lf_block h b) (\<lambda>lf.
        if lf then
          rbind (rd16 h (b + lf_nr_keys)) (\<lambda>n.
          rbind (find_key h name b [0..<unat n]) (\<lambda>found.
          case found of Some j \<Rightarrow> Ok (b, j) | None \<Rightarrow> find_posn h name bs b))
        else find_posn h name bs old_offs))"

fun relink_ri :: "nat \<Rightarrow> nat \<Rightarrow> nat \<Rightarrow> nat list \<Rightarrow> (hive, bool) op" where
  "relink_ri old_offs new_offs ri [] = sret False"
| "relink_ri old_offs new_offs ri (j # js) =
     sbind (sget (\<lambda>h. rd32 h (ri + ri_offset + 4 * j))) (\<lambda>w.
     if unat (w + 0x1000) = old_offs
     then sbind (wr32 (ri + ri_offset + 4 * j) (of_nat new_offs - 0x1000)) (\<lambda>_. sret True)
     else relink_ri old_offs new_offs ri js)"

fun relink_blocks :: "nat \<Rightarrow> nat \<Rightarrow> nat list \<Rightarrow> (hive, unit) op" where
  "relink_blocks old_offs new_offs [] = sfault (OutOfBounds 0)"
| "relink_blocks old_offs new_offs (b # bs) =
     (if b = 0 then sfail ENOTSUP
      else
        sbind (sget (\<lambda>h. BLOCK_ID_EQ h b id_ri)) (\<lambda>is_ri.
        if is_ri then
          sbind (sget (\<lambda>h. rd16 h (b + ri_nr_offsets))) (\<lambda>n.
          sbind (relink_ri old_offs new_offs b [0..<unat n]) (\<lambda>found.
          if found then sret () else relink_blocks old_offs new_offs bs))
        else relink_blocks old_offs new_offs bs))"

definition relink :: "hive_node_h \<Rightarrow> nat \<Rightarrow> nat \<Rightarrow> nat list \<Rightarrow> (hive, unit) op" where
  "relink parent old_offs new_offs blocks =
     sbind (sget (\<lambda>h. rd32 h (parent + nk_subkey_lf))) (\<lambda>w.
     if unat (w + 0x1000) = old_offs
     then wr32 (parent + nk_subkey_lf) (of_nat new_offs - 0x1000)
     else relink_blocks old_offs new_offs blocks)"

definition link_child :: "hive_node_h \<Rightarrow> byte list \<Rightarrow> hive_node_h \<Rightarrow> nat \<Rightarrow> nat list \<Rightarrow> (hive, unit) op" where
  "link_child parent name node nr_subkeys_in_parent_nk blocks =
     (if nr_subkeys_in_parent_nk = 0 then
        sbind (sfor_z mark_block_unused blocks) (\<lambda>_.
        sbind (new_lh_record name node) (\<lambda>lh_offs.
        wr32 (parent + nk_subkey_lf) (of_nat lh_offs - 0x1000)))
      else
        sbind (sget (\<lambda>h. find_posn h name blocks 0)) (\<lambda>(old_offs, j).
        sbind (insert_lf_record old_offs j name node) (\<lambda>new_offs.
        relink parent old_offs new_offs blocks)))"

definition count_child :: "hive_node_h \<Rightarrow> byte list \<Rightarrow> nat \<Rightarrow> (hive, unit) op" where
  "count_child parent name nr_subkeys_in_parent_nk =
     sbind (wr32 (parent + nk_nr_subkeys) (of_nat (nr_subkeys_in_parent_nk + 1))) (\<lambda>_.
     sbind (sget (\<lambda>h. rd16 h (parent + nk_max_subkey_name_len))) (\<lambda>max.
     if unat max < strlen name * 2
     then wr16 (parent + nk_max_subkey_name_len) (of_nat (strlen name * 2)) else sret ()))"

definition hivex_node_add_child :: "hive_node_h \<Rightarrow> byte list \<Rightarrow> (hive, hive_node_h) op" where
  "hivex_node_add_child parent name h =
     (if \<not> writable h then (Err EROFS, h)
      else
        sbind (sget (\<lambda>h. check_block h parent id_nk EINVAL)) (\<lambda>_.
        if strlen name = 0 then sfail EINVAL
        else
          sbind (\<lambda>h. case hivex_node_get_child h parent name of
                   Ok c \<Rightarrow> (if c \<noteq> 0 then Err EEXIST else Ok (), h)
                 | Err e \<Rightarrow> (Ok (), h)
                 | Fault z \<Rightarrow> (Fault z, h)) (\<lambda>_.
          sbind (create_nk parent name) (\<lambda>node.
          sbind (inherit_sk parent node) (\<lambda>_.
          sbind (sget (\<lambda>h. get_children h parent 0)) (\<lambda>(unused, blocks).
          sbind (sget (\<lambda>h. rd32 h (parent + nk_nr_subkeys))) (\<lambda>w.
          sbind (link_child parent name node (unat w) blocks) (\<lambda>_.
          sbind (count_child parent name (unat w)) (\<lambda>_.
          sret node)))))))) h)"

section \<open>Index records\<close>

lemma get32_shift: "(\<And>k. k < 4 \<Longrightarrow> m (a + k) = m' (b + k)) \<Longrightarrow> get32 m a = get32 m' b"
proof -
  assume e: "\<And>k. k < 4 \<Longrightarrow> m (a + k) = m' (b + k)"
  show ?thesis using e[of 0] e[of 1] e[of 2] e[of 3] by (simp add: get32_bytes)
qed

lemma fresh_id:
  assumes "alloc_post h n bid off h'" and "6 \<le> n" and "bid \<in> {id_nk, id_vk, id_lf, id_lh}"
  shows "id_of h' off = bid"
proof -
  have "addr h' (off + 4) = fresh_byte bid 4" "addr h' (off + 5) = fresh_byte bid 5"
    using alloc_postD(6)[OF assms(1)] round8(1)[of n] assms(2) by auto
  moreover have "length bid = 2" "bid ! 0 \<noteq> 0" "bid ! 1 \<noteq> 0"
    using assms(3) by (auto simp: id_nk_def id_vk_def id_lf_def id_lh_def)
  ultimately show ?thesis
    by (auto simp: id_of_def fresh_byte_def less_2_cases_iff ac_simps intro!: nth_equalityI)
qed

lemma calc_hash_post:
  assumes "a + 4 \<le> hsize h"
  obtains m where "calc_hash t name a h = (Ok (), h\<lparr>addr := m\<rparr>)"
    "\<And>i. i < a \<or> a + 4 \<le> i \<Longrightarrow> m i = addr h i"
proof (cases "take 2 t = id_lf")
  case True
  have "length (take 4 (cstr name)) \<le> 4" by simp
  with True assms show ?thesis
    by (intro that[of "put_bytes (addr h) a (take 4 (cstr name))"]) (auto simp: calc_hash_def wr_in put_bytes_outside)
next
  case False
  with assms show ?thesis
    by (intro that[of "put32 (addr h) a (lh_hash (cstr name))"]) (auto simp: calc_hash_def wr_in put_frames)
qed

text \<open>An offset as a 32-bit field holds it: unchanged within the first 4 GB.\<close>

definition off32 :: "nat \<Rightarrow> nat" where
  "off32 b = unat (of_nat b - 0x1000 :: u32) + 0x1000"

lemma off32_id: "0x1000 \<le> b \<Longrightarrow> b < 2 ^ 32 \<Longrightarrow> off32 b = b"
  by (simp add: off32_def offset_word)

lemma off32_valid: "hive_ok h \<Longrightarrow> IS_VALID_BLOCK h b \<Longrightarrow> endpages h \<le> 2 ^ 32 \<Longrightarrow> off32 b = b"
  using hive_ok_valid(1,2,4)[of h b] by (intro off32_id) simp_all

lemma new_lh_post:
  assumes h: "hive_ok h" "writable h"
  obtains off h' where "new_lh_record name node h = (Ok off, h')" "upd h h' {}" "\<not> IS_VALID_BLOCK h off"
    "lf_ok h' off" "lf_offsets h' off = [off32 node]"
proof -
  obtain off h1 where al: "allocate_block 16 id_lh h = (Ok off, h1)" and p: "alloc_post h 16 id_lh off h1"
    using allocate_block_post[OF h, of 16 id_lh] by (auto simp: HIVEX_MAX_ALLOCATION_def id_lengths)
  note ap = alloc_postD[OF p]
  let ?m = "put32 (put32 (put16 (addr h1) (off + 6) 1) (off + 8) (of_nat node - 0x1000)) (off + 12) (lh_hash (cstr name))"
  let ?h = "h1\<lparr>addr := ?m\<rparr>"
  have sz: "off + 16 \<le> hsize h1" using hive_ok_valid(3)[OF ap(1,3)] ap(5) by simp
  have "take 2 id_lh \<noteq> id_lf" by (simp add: id_lh_def id_lf_def)
  then have run: "new_lh_record name node h = (Ok off, ?h)"
    using al sz by (simp add: new_lh_record_def sbind_def calc_hash_def wr_in ac_simps)
  have u: "upd h1 ?h {off + 4..<off + 4 + 12}"
    using ap(5) by (intro upd_write[OF ap(1,3)]) (auto simp: put_frames)
  have "upd h ?h ({} \<union> {})"
    by (rule upd_trans_fresh[OF upd_alloc[OF h(1) p] _ ap(3,2)]) (use u ap(5) in auto)
  moreover have "id_of ?h off = id_lh"
    using fresh_id[OF p] by (simp add: id_of_def mem_frame)
  then have "is_lf ?h off" using updD(1)[OF u ap(3)] by (simp add: is_lf_def)
  moreover have "lf_count ?h off = 1" by (simp add: lf_count_def mem_frame)
  moreover have "lf_key ?h off 0 = off32 node" by (simp add: lf_key_def off32_def mem_frame)
  moreover have "16 \<le> blen ?h off" using updD(2)[OF u ap(3)] ap(5) by simp
  ultimately show ?thesis using run ap(2) by (intro that[of off ?h]) (auto simp: lf_ok_def lf_offsets_def)
qed

lemma copy_keys_post:
  assumes h: "hive_ok h" and v: "IS_VALID_BLOCK h new" "IS_VALID_BLOCK h old" "new \<noteq> old"
    and n: "8 + 8 * b \<le> blen h new" and o: "\<And>i. a \<le> i \<Longrightarrow> i < b \<Longrightarrow> 16 + 8 * f i \<le> blen h old"
  shows "\<exists>h'. sfor (copy_key new old) (map (\<lambda>i. (i, f i)) [a..<b]) h = (Ok (), h') \<and>
    upd h h' {new + 8 + 8 * a..<new + 8 + 8 * b} \<and>
    (\<forall>i k. a \<le> i \<longrightarrow> i < b \<longrightarrow> k < 8 \<longrightarrow> addr h' (new + 8 + 8 * i + k) = addr h (old + 8 + 8 * f i + k))"
  using n o
proof (induction b)
  case 0
  then show ?case using upd_mono[OF upd_refl[OF h]] by simp
next
  case (Suc b)
  show ?case
  proof (cases "a \<le> b")
    case False
    then show ?thesis using upd_mono[OF upd_refl[OF h]] by simp
  next
    case True
    obtain h1 where h1: "sfor (copy_key new old) (map (\<lambda>i. (i, f i)) [a..<b]) h = (Ok (), h1)"
      "upd h h1 {new + 8 + 8 * a..<new + 8 + 8 * b}"
      "\<And>i k. a \<le> i \<Longrightarrow> i < b \<Longrightarrow> k < 8 \<Longrightarrow> addr h1 (new + 8 + 8 * i + k) = addr h (old + 8 + 8 * f i + k)"
      using Suc by auto
    have v1: "IS_VALID_BLOCK h1 new" "blen h1 new = blen h new" "IS_VALID_BLOCK h1 old" "blen h1 old = blen h old"
      using updD[OF h1(2) v(1)] updD[OF h1(2) v(2)] by auto
    note ok1 = upd_ok(1)[OF h1(2)]
    let ?bs = "get_bytes (addr h1) (old + 8 + 8 * f b) 8"
    let ?h = "h1\<lparr>addr := put_bytes (addr h1) (new + 8 + 8 * b) ?bs\<rparr>"
    have o: "16 + 8 * f b \<le> blen h old" using Suc.prems(2) True by simp
    have "wr_bytes (new + 8 + 8 * b) ?bs h1 = (Ok (), ?h) \<and>
        upd h1 ?h {new + 8 + 8 * b..<new + 8 + 8 * b + length ?bs}"
      by (rule wr_upd(4)[OF ok1 v1(1)]) (use Suc.prems(1) v1(2) in auto)
    then have w: "wr_bytes (new + 8 + 8 * b) ?bs h1 = (Ok (), ?h)" "upd h1 ?h {new + 8 + 8 * b..<new + 16 + 8 * b}"
      by (simp_all add: ac_simps)
    have "rd_bytes h1 (old + 8 + 8 * f b) 8 = Ok ?bs"
      using hive_ok_valid(3)[OF ok1 v1(3)] v1(4) o by simp
    then have c: "copy_key new old (b, f b) h1 = (Ok (), ?h)"
      using w(1) by (simp add: copy_key_def sbind_sget del: rd_Ok)
    have "sfor (copy_key new old) (map (\<lambda>i. (i, f i)) [a..<Suc b]) h = (Ok (), ?h)"
      using True h1(1) c by (simp add: sfor_append sbind_def)
    moreover have "upd h ?h {new + 8 + 8 * a..<new + 8 + 8 * Suc b}"
      by (rule upd_mono[OF upd_trans[OF h1(2) w(2)]]) (use True in auto)
    moreover have "addr ?h (new + 8 + 8 * i + k) = addr h (old + 8 + 8 * f i + k)"
      if "a \<le> i" "i < Suc b" "k < 8" for i k
    proof (cases "i = b")
      case i: True
      have "old + 8 + 8 * f b + k \<notin> {new + 8 + 8 * a..<new + 8 + 8 * b}"
        using blocks_apart[OF h v(2,1) v(3)[symmetric], of "old + 8 + 8 * f b + k"] o that(3) Suc.prems(1) by auto
      then have "addr h1 (old + 8 + 8 * f b + k) = addr h (old + 8 + 8 * f b + k)"
        using o that(3) by (intro updD(3)[OF h1(2) v(2)]) auto
      with i that(3) show ?thesis by (simp add: put_bytes_def)
    next
      case False
      then have "new + 8 + 8 * i + k < new + 8 + 8 * b" using that by simp
      with False h1(3)[of i k] that show ?thesis by (simp add: put_bytes_outside)
    qed
    ultimately show ?thesis by blast
  qed
qed

text \<open>What the operations keep: every block in use outside \<open>B\<close> stays in use with its bytes.\<close>

definition keeps :: "hive \<Rightarrow> hive \<Rightarrow> nat set \<Rightarrow> bool" where
  "keeps h h' B \<longleftrightarrow>
     hive_ok h' \<and> same_handle h h' \<and>
     (\<forall>c. IS_VALID_BLOCK h c \<longrightarrow> c \<notin> B \<longrightarrow> IS_VALID_BLOCK h' c \<and> kept h h' c)"

lemma keepsD:
  assumes "keeps h h' B" and "IS_VALID_BLOCK h c" "c \<notin> B"
  shows "IS_VALID_BLOCK h' c" "kept h h' c"
  using assms by (auto simp: keeps_def)

lemma keeps_ok: "keeps h h' B \<Longrightarrow> hive_ok h'" "keeps h h' B \<Longrightarrow> same_handle h h'"
  "keeps h h' B \<Longrightarrow> writable h' = writable h" "keeps h h' B \<Longrightarrow> endpages h \<le> endpages h'"
  by (auto simp: keeps_def same_handle_def)

lemma keeps_trans:
  assumes h: "hive_ok h" and k1: "keeps h h1 B" and k2: "keeps h1 h2 C"
  shows "keeps h h2 (B \<union> C)"
proof -
  have "kept h h2 c" if "IS_VALID_BLOCK h c" "c \<notin> B \<union> C" for c
    using kept_trans[OF keepsD(2)[OF k1 that(1)] keepsD(2)[OF k2 keepsD(1)[OF k1 that(1)]]]
      hive_ok_valid(4)[OF h that(1)] that(2) by simp
  with k1 k2 show ?thesis unfolding keeps_def by (auto intro: same_handle_trans)
qed

text \<open>Changes to blocks that were not in use before do not count.\<close>

lemma keeps_restrict:
  assumes "keeps h h' B" and "\<And>c. c \<in> B \<Longrightarrow> IS_VALID_BLOCK h c \<Longrightarrow> c \<in> C"
  shows "keeps h h' C"
  using assms unfolding keeps_def by blast

lemma upd_keeps:
  assumes h: "hive_ok h" and u: "upd h h' A"
    and A: "\<And>i. i \<in> A \<Longrightarrow> \<exists>b \<in> B. IS_VALID_BLOCK h b \<and> b \<le> i \<and> i < b + blen h b"
  shows "keeps h h' B"
proof -
  have "kept h h' c" if c: "IS_VALID_BLOCK h c" "c \<notin> B" for c
  proof (rule upd_kept[OF u c(1)])
    have "i \<notin> A" if "c \<le> i" "i < c + blen h c" for i
      using A[of i] blocks_apart[OF h c(1) _ _ that] c(2) by blast
    then show "{c..<c + blen h c} \<inter> A = {}" by auto
  qed
  then show ?thesis using u by (auto simp: keeps_def upd_def)
qed

lemma free_keeps:
  assumes h: "hive_ok h" and v: "IS_VALID_BLOCK h b" and f: "free_post h b h'"
  shows "keeps h h' {b}" "\<not> IS_VALID_BLOCK h' b"
proof -
  have "kept h h' c" if "IS_VALID_BLOCK h c" "c \<noteq> b" for c
    using hive_ok_disjoint[OF h that(1) v that(2)] hive_ok_valid(4)[OF h v] f by (auto simp: kept_def free_post_def)
  then show "keeps h h' {b}" using f by (auto simp: keeps_def free_post_def)
  show "\<not> IS_VALID_BLOCK h' b" using f by (simp add: free_post_def)
qed

lemma kept_lf:
  assumes "kept h h' b" and "IS_VALID_BLOCK h' b" and "lf_ok h b"
  shows "lf_ok h' b" "lf_offsets h' b = lf_offsets h b" "id_of h' b = id_of h b"
proof -
  have bl: "blen h' b = blen h b" "8 + 8 * lf_count h b \<le> blen h b"
    using assms kept_blen[of h h' b] by (auto simp: lf_ok_def)
  show i: "id_of h' b = id_of h b" using kept_load(4)[OF assms(1), of "b + 4" 2] bl(2) by (simp add: id_of_def)
  have c: "lf_count h' b = lf_count h b" using kept_load(1)[OF assms(1), of "b + 6"] bl(2) by (simp add: lf_count_def)
  have k: "lf_key h' b j = lf_key h b j" if "j < lf_count h b" for j
    using kept_load(2)[OF assms(1), of "b + 8 + 8 * j"] that bl(2) by (simp add: lf_key_def)
  then show "lf_offsets h' b = lf_offsets h b" by (simp add: lf_offsets_def c)
  show "lf_ok h' b" using assms(2,3) i c bl by (simp add: lf_ok_def is_lf_def)
qed

lemma insert_lf_fill:
  assumes h: "hive_ok h" and v: "IS_VALID_BLOCK h new" "new \<noteq> old" and lf: "lf_ok h old"
    and nb: "16 + 8 * lf_count h old \<le> blen h new" and p: "posn \<le> lf_count h old" "lf_count h old < 2 ^ 16 - 1"
    and new_id: "id_of h new = id_of h old"
  obtains h' where "fill_lf new old posn (lf_count h old + 1) name node h = (Ok (), h')"
    "upd h h' {new + 4..<new + blen h new}" "lf_ok h' new" "id_of h' new = id_of h old"
    "lf_offsets h' new = take posn (lf_offsets h old) @ off32 node # drop posn (lf_offsets h old)"
proof -
  let ?n = "lf_count h old"
  have ov: "IS_VALID_BLOCK h old" "8 + 8 * ?n \<le> blen h old" using lf by (auto simp: lf_ok_def is_lf_def)
  let ?h1 = "h\<lparr>addr := put16 (addr h) (new + 6) (of_nat (?n + 1))\<rparr>"
  have w1: "wr16 (new + 6) (of_nat (?n + 1)) h = (Ok (), ?h1) \<and> upd h ?h1 {new + 6..<new + 6 + 2}"
    by (rule wr_upd(2)[OF h v(1)]) (use nb in auto)
  note u1 = conjunct2[OF w1]
  have v1: "IS_VALID_BLOCK ?h1 new" "blen ?h1 new = blen h new" "IS_VALID_BLOCK ?h1 old" "blen ?h1 old = blen h old"
    using updD[OF u1 v(1)] updD[OF u1 ov(1)] by auto
  obtain h2 where h2: "sfor (copy_key new old) (map (\<lambda>i. (i, i)) [0..<posn]) ?h1 = (Ok (), h2)"
    "upd ?h1 h2 {new + 8 + 8 * 0..<new + 8 + 8 * posn}"
    "\<forall>i k. 0 \<le> i \<longrightarrow> i < posn \<longrightarrow> k < 8 \<longrightarrow> addr h2 (new + 8 + 8 * i + k) = addr ?h1 (old + 8 + 8 * i + k)"
    using copy_keys_post[OF upd_ok(1)[OF u1] v1(1,3) v(2), of posn 0 "\<lambda>i. i"] v1(2,4) nb p(1) ov(2) by auto
  have v2: "IS_VALID_BLOCK h2 new" "blen h2 new = blen h new" "IS_VALID_BLOCK h2 old" "blen h2 old = blen h old"
    using updD[OF h2(2) v1(1)] updD[OF h2(2) v1(3)] v1(2,4) by auto
  note ok2 = upd_ok(1)[OF h2(2)]
  let ?h3 = "h2\<lparr>addr := put32 (addr h2) (new + 8 + 8 * posn) (of_nat node - 0x1000)\<rparr>"
  have w3: "wr32 (new + 8 + 8 * posn) (of_nat node - 0x1000) h2 = (Ok (), ?h3)"
    using hive_ok_valid(3)[OF ok2 v2(1)] v2(2) nb p(1) by (simp add: wr_in)
  obtain m where m: "calc_hash (id_of ?h3 new) name (new + 8 + 8 * posn + 4) ?h3 = (Ok (), ?h3\<lparr>addr := m\<rparr>)"
    "\<And>i. i < new + 8 + 8 * posn + 4 \<or> new + 8 + 8 * posn + 4 + 4 \<le> i \<Longrightarrow> m i = addr ?h3 i"
    by (rule calc_hash_post[of "new + 8 + 8 * posn + 4" ?h3])
      (use hive_ok_valid(3)[OF ok2 v2(1)] v2(2) nb p(1) in auto)
  let ?h4 = "h2\<lparr>addr := m\<rparr>"
  have u4: "upd h2 ?h4 {new + 8 + 8 * posn..<new + 8 + 8 * posn + 8}"
    by (rule upd_write[OF ok2 v2(1)]) (use v2(2) nb p(1) m(2) in \<open>auto simp: put_frames\<close>)
  have key: "get32 m (new + 8 + 8 * posn) = of_nat node - 0x1000"
  proof -
    have "get32 m (new + 8 + 8 * posn) = get32 (addr ?h3) (new + 8 + 8 * posn)"
      by (rule st32.load_cong) (simp add: m(2))
    then show ?thesis by simp
  qed
  have v4: "IS_VALID_BLOCK ?h4 new" "blen ?h4 new = blen h new" "IS_VALID_BLOCK ?h4 old" "blen ?h4 old = blen h old"
    using updD[OF u4 v2(1)] updD[OF u4 v2(3)] v2(2,4) by auto
  have "\<exists>h'. sfor (copy_key new old) (map (\<lambda>i. (i, i - 1)) [posn + 1..<?n + 1]) ?h4 = (Ok (), h') \<and>
    upd ?h4 h' {new + 8 + 8 * (posn + 1)..<new + 8 + 8 * (?n + 1)} \<and>
    (\<forall>i k. posn + 1 \<le> i \<longrightarrow> i < ?n + 1 \<longrightarrow> k < 8 \<longrightarrow> addr h' (new + 8 + 8 * i + k) = addr ?h4 (old + 8 + 8 * (i - 1) + k))"
    by (rule copy_keys_post[OF upd_ok(1)[OF u4] v4(1,3) v(2)]) (use v4(2,4) nb ov(2) in auto)
  then obtain h5 where h5: "sfor (copy_key new old) (map (\<lambda>i. (i, i - 1)) [posn + 1..<?n + 1]) ?h4 = (Ok (), h5)"
    "upd ?h4 h5 {new + 8 + 8 * (posn + 1)..<new + 8 + 8 * (?n + 1)}"
    "\<And>i k. posn + 1 \<le> i \<Longrightarrow> i < ?n + 1 \<Longrightarrow> k < 8 \<Longrightarrow> addr h5 (new + 8 + 8 * i + k) = addr ?h4 (old + 8 + 8 * (i - 1) + k)"
    by blast
  have u14: "upd h ?h4 {new + 4..<new + blen h new}"
    by (rule upd_mono[OF upd_trans[OF upd_trans[OF u1 h2(2)] u4]]) (use nb p(1) in auto)
  have u: "upd h h5 {new + 4..<new + blen h new}"
    by (rule upd_mono[OF upd_trans[OF u14 h5(2)]]) (use nb in auto)
  have old_kept: "addr hx i = addr h i"
    if "upd h hx {new + 4..<new + blen h new}" "old \<le> i" "i < old + blen h old" for hx i
    using blocks_apart[OF h ov(1) v(1) v(2)[symmetric] that(2,3)] by (intro updD(3)[OF that(1) ov(1) that(2,3)]) auto
  have h1_old: "addr ?h1 i = addr h i" if "old \<le> i" "i < old + blen h old" for i
    by (rule old_kept[OF _ that]) (rule upd_mono[OF u1], use nb in auto)
  have below: "addr h5 i = addr h2 i" if "new \<le> i" "i < new + 8 + 8 * posn" for i
    using updD(3)[OF h5(2) v4(1), of i] updD(3)[OF u4 v2(1), of i] that nb p(1) v4(2) v2(2) by simp
  have key5: "get32 (addr h5) (new + 8 + 8 * i) =
      (if i < posn then get32 (addr h) (old + 8 + 8 * i)
       else if i = posn then of_nat node - 0x1000 else get32 (addr h) (old + 8 + 8 * (i - 1)))" if i: "i < ?n + 1" for i
  proof -
    consider "i < posn" | "i = posn" | "posn + 1 \<le> i" by linarith
    then show ?thesis
    proof cases
      case 1
      then have "get32 (addr h5) (new + 8 + 8 * i) = get32 (addr h) (old + 8 + 8 * i)"
        using h2(3) h1_old below p(1) ov(2) by (intro get32_shift) (auto simp del: hive.simps)
      then show ?thesis using 1 by simp
    next
      case 2
      have "get32 (addr h5) (new + 8 + 8 * posn) = get32 (addr ?h4) (new + 8 + 8 * posn)"
        by (rule upd_load(2)[OF h5(2) v4(1)]) (use v4(2) nb p(1) in auto)
      then show ?thesis using 2 key by simp
    next
      case 3
      then have "get32 (addr h5) (new + 8 + 8 * i) = get32 (addr h) (old + 8 + 8 * (i - 1))"
        using h5(3) i ov(2) by (intro get32_shift) (auto simp: old_kept[OF u14, simplified])
      then show ?thesis using 3 by simp
    qed
  qed
  have cnt: "lf_count h5 new = ?n + 1"
  proof -
    have "addr h2 i = addr ?h1 i" if "new \<le> i" "i < new + 8" for i
      using that nb v1(2) by (intro updD(3)[OF h2(2) v1(1)]) auto
    then have "get16 (addr h5) (new + 6) = get16 (addr ?h1) (new + 6)"
      using below by (intro st16.load_cong) (simp del: hive.simps)
    then show ?thesis using p(2) by (simp add: lf_count_def unat_of_nat take_bit_nat_eq_self del: of_nat_Suc)
  qed
  have head: "addr h2 i = addr h i" if "new + 4 \<le> i" "i < new + 6" for i
  proof -
    have "addr h2 i = addr ?h1 i" using that nb v1(2) by (intro updD(3)[OF h2(2) v1(1)]) auto
    then show ?thesis using that by (simp add: put_frames)
  qed
  have id3: "id_of ?h3 new = id_of h old" "id_of h5 new = id_of h old"
    unfolding new_id[symmetric] unfolding id_of_def using head below by (auto intro!: get_bytes_cong simp: put_frames)
  have offs: "lf_offsets h5 new = take posn (lf_offsets h old) @ off32 node # drop posn (lf_offsets h old)"
  proof (rule nth_equalityI)
    show "lf_offsets h5 new ! i = (take posn (lf_offsets h old) @ off32 node # drop posn (lf_offsets h old)) ! i"
      if "i < length (lf_offsets h5 new)" for i
      using that key5[of i] p(1)
      by (auto simp: lf_offsets_def cnt nth_append lf_key_def off32_def nth_Cons' simp del: upt_Suc)
  qed (use p(1) in \<open>simp add: lf_offsets_def cnt\<close>)
  have "IS_VALID_BLOCK h5 new" "blen h5 new = blen h new" using updD[OF u v(1)] by auto
  then have "lf_ok h5 new" using cnt nb id3(2) lf by (simp add: lf_ok_def is_lf_def)
  moreover have "rd_bytes ?h3 (new + 4) 2 = Ok (id_of ?h3 new)"
    using hive_ok_valid(3)[OF ok2 v2(1)] v2(2) nb by (simp add: id_of_def)
  ultimately show ?thesis
    using w1 h2(1) w3 m(1) h5(1) id3 u offs
    by (intro that[of h5]) (simp_all add: fill_lf_def sbind_def del: rd_Ok upt_Suc of_nat_Suc)
qed

lemma insert_lf_post:
  assumes h: "hive_ok h" "writable h" and lf: "lf_ok h old" and p: "posn \<le> lf_count h old" "lf_count h old \<le> HIVEX_MAX_SUBKEYS"
  obtains new h' where "insert_lf_record old posn name node h = (Ok new, h')" "keeps h h' {old}"
    "\<not> IS_VALID_BLOCK h new" "lf_ok h' new" "id_of h' new = id_of h old"
    "lf_offsets h' new = take posn (lf_offsets h old) @ off32 node # drop posn (lf_offsets h old)"
proof -
  let ?n = "lf_count h old" and ?id = "id_of h old"
  have ov: "IS_VALID_BLOCK h old" "?id = id_lf \<or> ?id = id_lh" using lf by (auto simp: lf_ok_def is_lf_def)
  have ids: "?id \<in> {id_nk, id_vk, id_lf, id_lh}" "length ?id = 2" using ov(2) by (auto simp: id_lengths)
  have sz: "4 \<le> 16 + ?n * 8" "16 + ?n * 8 \<le> HIVEX_MAX_ALLOCATION" "?n < 2 ^ 16 - 1"
    using p(2) by (simp_all add: HIVEX_MAX_ALLOCATION_def HIVEX_MAX_SUBKEYS_def)
  obtain new h1 where al: "allocate_block (16 + ?n * 8) ?id h = (Ok new, h1)" and ap: "alloc_post h (16 + ?n * 8) ?id new h1"
    using allocate_block_post[OF h sz(1,2) ids(2)] by blast
  note a = alloc_postD[OF ap] and u1 = upd_alloc[OF h(1) ap]
  have ne: "new \<noteq> old" using a(2) ov(1) by auto
  have k1: "keeps h h1 {}" by (rule upd_keeps[OF h(1) u1]) simp
  note o1 = kept_lf[OF keepsD(2)[OF k1 ov(1)] keepsD(1)[OF k1 ov(1)] lf, simplified]
  have c1: "lf_count h1 old = ?n" using arg_cong[OF o1(2), of length] by (simp add: lf_offsets_def)
  obtain h2 where h2: "fill_lf new old posn (lf_count h1 old + 1) name node h1 = (Ok (), h2)"
    "upd h1 h2 {new + 4..<new + blen h1 new}" "lf_ok h2 new" "id_of h2 new = id_of h1 old"
    "lf_offsets h2 new = take posn (lf_offsets h1 old) @ off32 node # drop posn (lf_offsets h1 old)"
    by (rule insert_lf_fill[OF a(1,3) ne o1(1), of posn name node])
      (use a(5) c1 p(1) sz(3) o1(3) fresh_id[OF ap _ ids(1)] in auto)
  have k2: "keeps h1 h2 {new}" by (rule upd_keeps[OF a(1) h2(2)]) (use a(3) in auto)
  have k12: "keeps h h2 {}" by (rule keeps_restrict[OF keeps_trans[OF h(1) k1 k2]]) (use a(2) in auto)
  have v2: "IS_VALID_BLOCK h2 old" "IS_VALID_BLOCK h2 new" "writable h2"
    using keepsD(1)[OF k12 ov(1)] h2(3) keeps_ok(3)[OF k12] h(2) by (auto simp: lf_ok_def is_lf_def)
  obtain h3 where h3: "mark_block_unused old h2 = (Ok (), h3)" "free_post h2 old h3"
    using mark_block_unused_post[OF keeps_ok(1)[OF k12] v2(3,1)] by blast
  note f = free_keeps[OF keeps_ok(1)[OF k12] v2(1) h3(2)]
  have k: "keeps h h3 {old}" using keeps_trans[OF h(1) k12 f(1)] by simp
  note n3 = kept_lf[OF keepsD(2)[OF f(1) v2(2)] keepsD(1)[OF f(1) v2(2)] h2(3)]
  have rd: "rd_bytes h (old + 4) 2 = Ok ?id" "rd16 h (old + 6) = Ok (get16 (addr h) (old + 6))"
    using hive_ok_valid(3,4)[OF h(1) ov(1)] by (simp_all add: id_of_def)
  have run: "insert_lf_record old posn name node h = (Ok new, h3)"
    using ov rd al h2(1) h3(1)
    by (simp add: insert_lf_record_def sbind_def Let_def sassert_def lf_count_def[symmetric] c1
        del: rd_Ok upt_Suc of_nat_Suc)
  show ?thesis
    using n3 ne h2(4,5) o1(2,3) by (intro that[OF run k a(2)]) auto
qed

section \<open>The position of a new child\<close>

text \<open>The name of a node, and the test the search makes: the new name does not come before it.\<close>

definition node_name :: "hive \<Rightarrow> nat \<Rightarrow> byte list" where
  "node_name h node = get_bytes (addr h) (node + 80) (unat (get16 (addr h) (node + 76)))"

definition not_before :: "hive \<Rightarrow> byte list \<Rightarrow> nat \<Rightarrow> bool" where
  "not_before h name c \<longleftrightarrow> 0 \<le> strcasecmp name (node_name h c)"

lemma cstr_snoc_nul [simp]: "cstr (xs @ [0]) = cstr xs"
  by (simp add: cstr_def takeWhile_tail)

lemma compare_name_eq:
  assumes "hive_ok h" and "is_nk h c"
  shows "compare_name_with_nk_name h name c = Ok (strcasecmp name (node_name h c))"
proof -
  have v: "IS_VALID_BLOCK h c" "id_of h c = id_nk" using assms(2) by (auto simp: is_nk_def)
  have "rd_bytes h (c + 4) 2 = Ok id_nk" using hive_ok_valid(3,4)[OF assms(1) v(1)] v(2) by (simp add: id_of_def)
  moreover have "hivex_node_name h c = Ok (node_name h c @ [0])"
    using hivex_node_name_eq[OF assms] by (simp add: node_name_def)
  ultimately show ?thesis using v(1)
    by (simp add: compare_name_with_nk_name_def BLOCK_ID_EQ_def strcasecmp_def del: rd_Ok)
qed

lemma find_key_eq:
  assumes h: "hive_ok h" and lf: "lf_ok h b" and js: "\<forall>j \<in> set js. j < lf_count h b \<and> is_nk h (lf_key h b j)"
  shows "find_key h name b js = Ok (find (\<lambda>j. \<not> not_before h name (lf_key h b j)) js)"
  using js
proof (induction js)
  case (Cons j js)
  have v: "IS_VALID_BLOCK h b" "8 + 8 * lf_count h b \<le> blen h b" using lf by (auto simp: lf_ok_def is_lf_def)
  have "rd32 h (b + 8 + 8 * j) = Ok (get32 (addr h) (b + 8 + 8 * j))"
    using hive_ok_valid(3)[OF h v(1)] v(2) Cons.prems by simp
  then show ?case
    using Cons compare_name_eq[OF h, of "lf_key h b j" name]
    by (simp add: lf_key_def[symmetric] not_before_def not_le del: rd_Ok)
qed simp

lemma is_lf_block_eq:
  assumes "hive_ok h" and "IS_VALID_BLOCK h b"
  shows "is_lf_block h b = Ok (id_of h b = id_lf \<or> id_of h b = id_lh)"
proof -
  have "rd_bytes h (b + 4) 2 = Ok (id_of h b)" using hive_ok_valid(3,4)[OF assms] by (simp add: id_of_def)
  then show ?thesis by (simp add: is_lf_block_def BLOCK_ID_EQ_def del: rd_Ok)
qed

lemma lf_okD:
  assumes "hive_ok h" and "lf_ok h b"
  shows "IS_VALID_BLOCK h b" "b \<noteq> 0" "rd16 h (b + 6) = Ok (get16 (addr h) (b + 6))" "is_lf_block h b = Ok True"
proof -
  show v: "IS_VALID_BLOCK h b" using assms(2) by (auto simp: lf_ok_def is_lf_def)
  show "b \<noteq> 0" using hive_ok_valid(1)[OF assms(1) v] by simp
  show "rd16 h (b + 6) = Ok (get16 (addr h) (b + 6))" using hive_ok_valid(3,4)[OF assms(1) v] by simp
  show "is_lf_block h b = Ok True"
    using is_lf_block_eq[OF assms(1) v] assms(2) by (simp add: lf_ok_def is_lf_def)
qed

text \<open>The search over a list of lf-records: the first key that must come after the new name.\<close>

lemma find_posn_cases:
  assumes h: "hive_ok h" and bs: "\<forall>b \<in> set bs. lf_ok h b \<and> (\<forall>c \<in> set (lf_offsets h b). is_nk h c)"
    and l: "last (old # bs) \<noteq> 0" "lf_ok h (last (old # bs))"
  shows "(\<exists>pre b post j. bs = pre @ b # post \<and> find_posn h name (bs @ [0]) old = Ok (b, j) \<and> j < lf_count h b \<and>
      (\<forall>c \<in> set (concat (map (lf_offsets h) pre) @ take j (lf_offsets h b)). not_before h name c) \<and>
      \<not> not_before h name (lf_offsets h b ! j)) \<or>
    find_posn h name (bs @ [0]) old = Ok (last (old # bs), lf_count h (last (old # bs))) \<and>
      (\<forall>c \<in> set (concat (map (lf_offsets h) bs)). not_before h name c)"
  using bs l
proof (induction bs arbitrary: old)
  case Nil
  then show ?case using lf_okD(3)[OF h] by (simp add: lf_count_def del: rd_Ok)
next
  case (Cons b bs)
  let ?P = "not_before h name"
  have lf: "lf_ok h b" using Cons.prems(1) by simp
  note d = lf_okD[OF h lf]
  have fk: "find_key h name b [0..<lf_count h b] = Ok (find (\<lambda>j. \<not> ?P (lf_key h b j)) [0..<lf_count h b])"
    using Cons.prems(1) by (intro find_key_eq[OF h lf]) (auto simp: lf_offsets_def)
  have step: "find_posn h name ((b # bs) @ [0]) old =
      (case find (\<lambda>j. \<not> ?P (lf_key h b j)) [0..<lf_count h b] of Some j \<Rightarrow> Ok (b, j) | None \<Rightarrow> find_posn h name (bs @ [0]) b)"
    using d fk by (simp add: lf_count_def del: rd_Ok)
  show ?case
  proof (cases "find (\<lambda>j. \<not> ?P (lf_key h b j)) [0..<lf_count h b]")
    case None
    then have all: "\<forall>c \<in> set (lf_offsets h b). ?P c" by (auto simp: find_None_iff lf_offsets_def)
    have eq: "find_posn h name ((b # bs) @ [0]) old = find_posn h name (bs @ [0]) b" using step None by simp
    have "last (b # bs) \<noteq> 0" "lf_ok h (last (b # bs))" using Cons.prems(2,3) by (simp_all split: if_splits)
    from Cons.IH[OF _ this] Cons.prems(1)
    consider pre b' post j where "bs = pre @ b' # post" "find_posn h name (bs @ [0]) b = Ok (b', j)" "j < lf_count h b'"
        "\<forall>c \<in> set (concat (map (lf_offsets h) pre) @ take j (lf_offsets h b')). ?P c" "\<not> ?P (lf_offsets h b' ! j)"
      | "find_posn h name (bs @ [0]) b = Ok (last (b # bs), lf_count h (last (b # bs)))"
        "\<forall>c \<in> set (concat (map (lf_offsets h) bs)). ?P c" by auto
    then show ?thesis
    proof cases
      case 1
      then show ?thesis unfolding eq using all
        by (rule_tac disjI1, rule_tac exI[of _ "b # pre"], rule_tac exI[of _ b'], rule_tac exI[of _ post], rule_tac exI[of _ j]) auto
    next
      case 2
      then show ?thesis unfolding eq using all by (intro disjI2) auto
    qed
  next
    case (Some j)
    then have j: "j < lf_count h b" "\<not> ?P (lf_key h b j)" "\<And>i. i < j \<Longrightarrow> ?P (lf_key h b i)"
      by (auto simp: find_Some_iff)
    have "?P c" if "c \<in> set (take j (lf_offsets h b))" for c
      using that j(1,3) by (auto simp: in_set_conv_nth lf_offsets_def)
    then show ?thesis unfolding step Some
      using j(1,2)
      by (rule_tac disjI1, rule_tac exI[of _ "[]"], rule_tac exI[of _ b], rule_tac exI[of _ bs], rule_tac exI[of _ j])
        (auto simp: lf_offsets_def)
  qed
qed

text \<open>The position in the flat list of children: in front of the first child with a greater name.\<close>

lemma takeWhile_at:
  assumes "\<forall>c \<in> set xs. P c" and "ys = [] \<or> \<not> P (hd ys)"
  shows "length (takeWhile P (xs @ ys)) = length xs"
  using assms by (cases ys; induction xs) auto

lemma find_posn_flat:
  assumes h: "hive_ok h" and bs: "\<forall>b \<in> set bs. lf_ok h b \<and> (\<forall>c \<in> set (lf_offsets h b). is_nk h c)" and ne: "bs \<noteq> []"
  obtains pre b post j where "bs = pre @ b # post" "find_posn h name (bs @ [0]) 0 = Ok (b, j)" "j \<le> lf_count h b"
    "length (concat (map (lf_offsets h) pre)) + j =
       length (takeWhile (not_before h name) (concat (map (lf_offsets h) bs)))"
proof -
  let ?P = "not_before h name" and ?o = "\<lambda>bs. concat (map (lf_offsets h) bs)"
  have lst: "last (0 # bs) = last bs" "lf_ok h (last bs)" using ne bs by auto
  consider pre b post j where "bs = pre @ b # post" "find_posn h name (bs @ [0]) 0 = Ok (b, j)" "j < lf_count h b"
      "\<forall>c \<in> set (?o pre @ take j (lf_offsets h b)). ?P c" "\<not> ?P (lf_offsets h b ! j)"
    | "find_posn h name (bs @ [0]) 0 = Ok (last bs, lf_count h (last bs))" "\<forall>c \<in> set (?o bs). ?P c"
    using find_posn_cases[OF h bs, of 0 name] lst lf_okD(2)[OF h lst(2)] by auto
  then show ?thesis
  proof cases
    case (1 pre b post j)
    have "?o bs = (?o pre @ take j (lf_offsets h b)) @ drop j (lf_offsets h b) @ ?o post"
      unfolding 1(1) by simp
    moreover have "hd (drop j (lf_offsets h b) @ ?o post) = lf_offsets h b ! j"
      using 1(3) by (simp add: hd_append hd_drop_conv_nth)
    ultimately have "length (takeWhile ?P (?o bs)) = length (?o pre @ take j (lf_offsets h b))"
      using takeWhile_at[OF 1(4), of "drop j (lf_offsets h b) @ ?o post"] 1(5) by simp
    then show ?thesis using 1(1-3) by (intro that[of pre b post j]) auto
  next
    case 2
    have b: "bs = butlast bs @ last bs # []" using ne by simp
    have "?o bs = ?o (butlast bs) @ lf_offsets h (last bs)" by (subst b) simp
    moreover have "length (takeWhile ?P (?o bs)) = length (?o bs)" using takeWhile_at[OF 2(2), of "[]"] by simp
    ultimately show ?thesis using 2(1) by (intro that[OF b]) simp_all
  qed
qed

lemma insert_flat:
  assumes "j \<le> length ys" and "length xs + j = k"
  shows "xs @ (take j ys @ n # drop j ys) @ zs = take k (xs @ ys @ zs) @ n # drop k (xs @ ys @ zs)"
  using assms by auto

section \<open>The link from the parent\<close>

lemma off_wrap: "unat w + 0x1000 < 2 ^ 32 \<Longrightarrow> unat (w + 0x1000 :: u32) = unat w + 0x1000"
  by (simp add: unat_word_ariths)

text \<open>The lf-records a node's index leads to: one record, or those listed in an ri-record.\<close>

definition index_form :: "hive \<Rightarrow> nat \<Rightarrow> nat list \<Rightarrow> bool" where
  "index_form h p leaves \<longleftrightarrow>
     (if id_of h (index_block h p) = id_ri
      then IS_VALID_BLOCK h (index_block h p) \<and> leaves = ri_offsets h (index_block h p) \<and>
        8 + 4 * length leaves \<le> blen h (index_block h p)
      else leaves = [index_block h p])"

lemma index_formD:
  assumes "index_form h p leaves" and "is_nk h p" and "nr_subkeys h p = length (concat (map (lf_offsets h) leaves))"
    and "nr_subkeys h p \<noteq> 0" "nr_subkeys h p \<le> HIVEX_MAX_SUBKEYS" and "\<forall>b \<in> set leaves. lf_ok h b"
  shows "index_ok h p" "leaf_blocks h p = leaves" "child_offsets h p = concat (map (lf_offsets h) leaves)"
proof -
  show l: "leaf_blocks h p = leaves" using assms(1,4) by (auto simp: leaf_blocks_def index_form_def split: if_splits)
  then show c: "child_offsets h p = concat (map (lf_offsets h) leaves)" by (simp add: child_offsets_def)
  have v: "IS_VALID_BLOCK h b" if "b \<in> set leaves" for b using assms(6) that by (auto simp: lf_ok_def is_lf_def)
  have "\<forall>b \<in> set (child_blocks h p). IS_VALID_BLOCK h b"
    using assms(1,4) v by (auto simp: child_blocks_def index_form_def split: if_splits)
  moreover have "id_of h (index_block h p) = id_ri \<longrightarrow>
      8 + 4 * length (ri_offsets h (index_block h p)) \<le> blen h (index_block h p)"
    using assms(1) by (auto simp: index_form_def)
  ultimately show "index_ok h p" using assms l c by (simp add: index_ok_def)
qed

lemma index_okD:
  assumes "index_ok h p" and "nr_subkeys h p \<noteq> 0"
  shows "index_form h p (leaf_blocks h p)" "leaf_blocks h p \<noteq> []" "\<forall>b \<in> set (leaf_blocks h p). lf_ok h b"
    "child_blocks h p = (if id_of h (index_block h p) = id_ri then [index_block h p] else []) @ leaf_blocks h p"
    "IS_VALID_BLOCK h (index_block h p)"
  using assms by (auto simp: index_ok_def index_form_def leaf_blocks_def child_blocks_def child_offsets_def split: if_splits)

lemma relink_ri_hit:
  assumes js: "\<And>j. j \<in> set js \<Longrightarrow> ri_key h ri j \<noteq> old \<and> ri_key h ri j < 2 ^ 32 \<and> ri + 12 + 4 * j \<le> hsize h"
    and k: "ri_key h ri k = old" "old < 2 ^ 32" "ri + 12 + 4 * k \<le> hsize h"
  shows "relink_ri old new ri (js @ k # ks) h =
    (Ok True, h\<lparr>addr := put32 (addr h) (ri + 8 + 4 * k) (of_nat new - 0x1000)\<rparr>)"
  using js
proof (induction js)
  case Nil
  have "rd32 h (ri + 8 + 4 * k) = Ok (get32 (addr h) (ri + 8 + 4 * k))" using k(3) by simp
  then show ?case
    using k off_wrap[of "get32 (addr h) (ri + 8 + 4 * k)"]
    by (simp add: sbind_def ri_key_def wr_in del: rd_Ok)
next
  case (Cons j js)
  have j: "ri_key h ri j \<noteq> old" "ri_key h ri j < 2 ^ 32" "ri + 12 + 4 * j \<le> hsize h" using Cons.prems by auto
  have "rd32 h (ri + 8 + 4 * j) = Ok (get32 (addr h) (ri + 8 + 4 * j))" using j(3) by simp
  then show ?case
    using Cons j off_wrap[of "get32 (addr h) (ri + 8 + 4 * j)"] by (simp add: sbind_def ri_key_def del: rd_Ok)
qed

lemma relink_lf_eq:
  assumes "index_block h p = old" and "old < 2 ^ 32" and "p + 36 \<le> hsize h"
  shows "relink p old new blocks h = (Ok (), h\<lparr>addr := put32 (addr h) (p + 32) (of_nat new - 0x1000)\<rparr>)"
proof -
  have "rd32 h (p + 32) = Ok (get32 (addr h) (p + 32))" using assms(3) by simp
  then show ?thesis using assms off_wrap[of "get32 (addr h) (p + 32)"]
    by (simp add: relink_def sbind_def index_block_def wr_in del: rd_Ok)
qed

lemma relink_ri_eq:
  assumes h: "hive_ok h" "ri < 2 ^ 32" and p: "p + 36 \<le> hsize h"
    and ri: "index_block h p = ri" "IS_VALID_BLOCK h ri" "id_of h ri = id_ri" "ri \<noteq> old" "old < 2 ^ 32"
    and o: "ri_offsets h ri = pre @ old # post" "old \<notin> set pre" "\<forall>b \<in> set pre. b < 2 ^ 32"
      "8 + 4 * length (ri_offsets h ri) \<le> blen h ri"
  shows "relink p old new (ri # blocks) h =
    (Ok (), h\<lparr>addr := put32 (addr h) (ri + 8 + 4 * length pre) (of_nat new - 0x1000)\<rparr>)"
proof -
  note rb = hive_ok_valid[OF h(1) ri(2)]
  have pre: "rd32 h (p + 32) = Ok (get32 (addr h) (p + 32))" "rd_bytes h (ri + 4) 2 = Ok id_ri"
    "rd16 h (ri + 6) = Ok (get16 (addr h) (ri + 6))"
    using p rb(3,4) ri(3) by (simp_all add: id_of_def)
  have wrap: "unat (get32 (addr h) (p + 32) + 0x1000) = ri"
    using off_wrap[of "get32 (addr h) (p + 32)"] ri(1) rb(2,4) h(2) by (simp add: index_block_def)
  let ?n = "unat (get16 (addr h) (ri + 6))" and ?k = "length pre"
  have n: "?n = length pre + Suc (length post)" using arg_cong[OF o(1), of length] by (simp add: ri_offsets_def)
  have key: "ri_key h ri j = (pre @ old # post) ! j" if "j < ?n" for j
    using arg_cong[OF o(1), of "\<lambda>l. l ! j"] that by (simp add: ri_offsets_def)
  have "[0..<?n] = [0..<?k] @ [?k..<?n]" "[?k..<?n] = ?k # [Suc ?k..<?n]"
    using upt_add_eq_append[of 0 ?k "Suc (length post)"] n by (auto simp: upt_conv_Cons simp del: upt_Suc)
  then have "[0..<?n] = [0..<?k] @ ?k # [Suc ?k..<?n]" by simp
  moreover have "relink_ri old new ri ([0..<?k] @ ?k # [Suc ?k..<?n]) h =
      (Ok True, h\<lparr>addr := put32 (addr h) (ri + 8 + 4 * ?k) (of_nat new - 0x1000)\<rparr>)"
  proof (rule relink_ri_hit)
    show "ri_key h ri j \<noteq> old \<and> ri_key h ri j < 2 ^ 32 \<and> ri + 12 + 4 * j \<le> hsize h" if "j \<in> set [0..<?k]" for j
      using that key[of j] n o(2,4) rb(3) nth_mem[of j pre] o(3) by (auto simp: nth_append o(1))
    show "ri_key h ri ?k = old" using key[of ?k] n by (simp add: nth_append)
    show "ri + 12 + 4 * ?k \<le> hsize h" using o(4) rb(3) by (simp add: o(1))
  qed (rule ri(5))
  ultimately have "relink_ri old new ri [0..<?n] h =
      (Ok True, h\<lparr>addr := put32 (addr h) (ri + 8 + 4 * ?k) (of_nat new - 0x1000)\<rparr>)" by simp
  then show ?thesis
    using pre wrap ri(4) rb(1) by (simp add: relink_def sbind_def BLOCK_ID_EQ_def del: rd_Ok)
qed

text \<open>A parent whose index is in order: no record twice, and every child is a node.\<close>

definition index_own :: "hive \<Rightarrow> nat \<Rightarrow> bool" where
  "index_own h p \<longleftrightarrow>
     index_ok h p \<and> distinct (child_blocks h p) \<and> (\<forall>c \<in> set (child_offsets h p). is_nk h c)"

lemma kept_nk:
  assumes "kept h h' n" and "IS_VALID_BLOCK h' n" and "is_nk h n"
  shows "is_nk h' n" "node_name h' n = node_name h n" "nr_subkeys h' n = nr_subkeys h n"
    "index_block h' n = index_block h n" "nr_values h' n = nr_values h n"
proof -
  have b: "80 + unat (get16 (addr h) (n + 76)) \<le> blen h n" "blen h' n = blen h n"
    using assms kept_blen[of h h' n] by (auto simp: is_nk_def)
  have l: "get16 (addr h') (n + 76) = get16 (addr h) (n + 76)" using kept_load(1)[OF assms(1)] b(1) by simp
  have i: "id_of h' n = id_of h n" using kept_load(4)[OF assms(1), of "n + 4" 2] b(1) by (simp add: id_of_def)
  show "is_nk h' n" using assms(2,3) l i b by (simp add: is_nk_def)
  show "node_name h' n = node_name h n" using kept_load(4)[OF assms(1), of "n + 80"] b(1) by (simp add: node_name_def l)
  show "nr_subkeys h' n = nr_subkeys h n" "index_block h' n = index_block h n" "nr_values h' n = nr_values h n"
    using kept_load(2)[OF assms(1), of "n + 24"] kept_load(2)[OF assms(1), of "n + 32"]
      kept_load(2)[OF assms(1), of "n + 40"] b(1)
    by (simp_all add: nr_subkeys_def index_block_def nr_values_def)
qed

lemma kept_ri:
  assumes "kept h h' ri" and "8 + 4 * length (ri_offsets h ri) \<le> blen h ri"
  shows "ri_offsets h' ri = ri_offsets h ri" "id_of h' ri = id_of h ri" "blen h' ri = blen h ri"
proof -
  show "blen h' ri = blen h ri" using kept_blen[OF assms(1)] assms(2) by simp
  show "id_of h' ri = id_of h ri" using kept_load(4)[OF assms(1), of "ri + 4" 2] assms(2) by (simp add: id_of_def)
  have n: "get16 (addr h') (ri + 6) = get16 (addr h) (ri + 6)" using kept_load(1)[OF assms(1)] assms(2) by simp
  have "ri_key h' ri j = ri_key h ri j" if "j < unat (get16 (addr h) (ri + 6))" for j
    using kept_load(2)[OF assms(1), of "ri + 8 + 4 * j"] that assms(2) by (simp add: ri_key_def ri_offsets_def)
  then show "ri_offsets h' ri = ri_offsets h ri" by (simp add: ri_offsets_def n)
qed

lemma kept_lfs:
  assumes "\<forall>b \<in> set ls. lf_ok h b \<and> IS_VALID_BLOCK h' b \<and> kept h h' b"
  shows "\<forall>b \<in> set ls. lf_ok h' b" "map (lf_offsets h') ls = map (lf_offsets h) ls"
  using assms kept_lf[of h h'] by auto

lemma keeps_lfs:
  assumes k: "keeps h h' B" and l: "\<forall>b \<in> set ls. lf_ok h b \<and> b \<notin> B"
  shows "\<forall>b \<in> set ls. lf_ok h' b" "map (lf_offsets h') ls = map (lf_offsets h) ls"
proof -
  have "\<forall>b \<in> set ls. lf_ok h b \<and> IS_VALID_BLOCK h' b \<and> kept h h' b"
    using l keepsD[OF k] by (auto simp: lf_ok_def is_lf_def)
  from kept_lfs[OF this] show "\<forall>b \<in> set ls. lf_ok h' b" "map (lf_offsets h') ls = map (lf_offsets h) ls" .
qed

text \<open>The index of a node depends on two fields of the node and the bytes of its index records alone.\<close>

lemma index_same:
  assumes iok: "index_ok h p" and pk: "is_nk h' p" "nr_subkeys h' p = nr_subkeys h p" "index_block h' p = index_block h p"
    and k: "\<And>b. b \<in> set (child_blocks h p) \<Longrightarrow> IS_VALID_BLOCK h' b \<and> kept h h' b"
  shows "index_ok h' p" "child_offsets h' p = child_offsets h p" "child_blocks h' p = child_blocks h p"
    "leaf_blocks h' p = leaf_blocks h p"
proof -
  have "index_ok h' p \<and> child_offsets h' p = child_offsets h p \<and> child_blocks h' p = child_blocks h p \<and>
    leaf_blocks h' p = leaf_blocks h p"
  proof (cases "nr_subkeys h p = 0")
    case True
    then show ?thesis using pk by (simp add: index_ok_def child_offsets_def child_blocks_def leaf_blocks_def)
  next
    case False
    note f = index_okD[OF iok False]
    let ?ls = "leaf_blocks h p" and ?ix = "index_block h p"
    have "?ix \<in> set (child_blocks h p)" using False by (simp add: child_blocks_def)
    then have kx: "kept h h' ?ix" "IS_VALID_BLOCK h' ?ix" using k by auto
    have "\<forall>b \<in> set ?ls. lf_ok h b \<and> IS_VALID_BLOCK h' b \<and> kept h h' b" using f(3,4) k by auto
    note ls' = kept_lfs[OF this]
    have form: "index_form h' p ?ls" and id: "id_of h' ?ix = id_of h ?ix"
    proof -
      have "8 \<le> blen h ?ix" using f(1,3) by (auto simp: index_form_def lf_ok_def split: if_splits)
      then show id: "id_of h' ?ix = id_of h ?ix"
        using kept_load(4)[OF kx(1), of "?ix + 4" 2] by (simp add: id_of_def)
      show "index_form h' p ?ls"
        using f(1) kept_ri[OF kx(1)] kx(2) by (auto simp: index_form_def pk(3) id split: if_splits)
    qed
    have n: "nr_subkeys h p = length (child_offsets h p)" "nr_subkeys h p \<le> HIVEX_MAX_SUBKEYS"
      using iok by (auto simp: index_ok_def)
    have "index_ok h' p" "leaf_blocks h' p = ?ls" "child_offsets h' p = concat (map (lf_offsets h') ?ls)"
      using index_formD[OF form pk(1) _ _ _ ls'(1)] n False unfolding pk(2) ls'(2) by (auto simp: child_offsets_def)
    then show ?thesis using f(4) index_okD(4)[of h' p] False
      unfolding pk(2) ls'(2) by (simp add: child_offsets_def pk(2,3) id)
  qed
  then show "index_ok h' p" "child_offsets h' p = child_offsets h p" "child_blocks h' p = child_blocks h p"
    "leaf_blocks h' p = leaf_blocks h p" by auto
qed

lemma index_kept:
  assumes iok: "index_ok h p" and k: "\<And>b. b \<in> set (p # child_blocks h p) \<Longrightarrow> IS_VALID_BLOCK h' b \<and> kept h h' b"
  shows "index_ok h' p" "child_offsets h' p = child_offsets h p" "child_blocks h' p = child_blocks h p"
    "leaf_blocks h' p = leaf_blocks h p"
proof -
  have nk: "is_nk h p" using iok by (simp add: index_ok_def)
  have kp: "kept h h' p" "IS_VALID_BLOCK h' p" using k by auto
  note s = index_same[OF iok kept_nk(1,3,4)[OF kp nk] k]
  show "index_ok h' p" "child_offsets h' p = child_offsets h p" "child_blocks h' p = child_blocks h p"
    "leaf_blocks h' p = leaf_blocks h p" using s by simp_all
qed

lemma index_keeps:
  assumes k: "keeps h h' B" and ix: "index_own h p" and p: "p \<notin> B"
    and d: "\<forall>b \<in> set (child_blocks h p). b \<notin> B" "\<forall>c \<in> set (child_offsets h p). c \<notin> B"
  shows "index_own h' p" "child_offsets h' p = child_offsets h p" "child_blocks h' p = child_blocks h p"
    "leaf_blocks h' p = leaf_blocks h p" "nr_subkeys h' p = nr_subkeys h p"
    "\<forall>c \<in> set (child_offsets h p). node_name h' c = node_name h c"
proof -
  have iok: "index_ok h p" and nk: "is_nk h p" and ch: "\<forall>c \<in> set (child_offsets h p). is_nk h c"
    using ix by (auto simp: index_own_def index_ok_def)
  have vp: "IS_VALID_BLOCK h p" using nk by (simp add: is_nk_def)
  show nr: "nr_subkeys h' p = nr_subkeys h p" using kept_nk(3)[OF keepsD(2,1)[OF k vp p] nk] keepsD[OF k vp p] by simp
  have vb: "\<forall>b \<in> set (child_blocks h p). IS_VALID_BLOCK h b" using iok by (simp add: index_ok_def)
  have kb: "IS_VALID_BLOCK h' b \<and> kept h h' b" if "b \<in> set (p # child_blocks h p)" for b
  proof -
    have "IS_VALID_BLOCK h b" "b \<notin> B" using that vp p vb d(1) by auto
    with keepsD[OF k] show ?thesis by simp
  qed
  note all = index_kept[OF iok kb]
  have c: "is_nk h' c \<and> node_name h' c = node_name h c" if "c \<in> set (child_offsets h p)" for c
  proof -
    have "is_nk h c" "c \<notin> B" using that ch d(2) by auto
    then show ?thesis using keepsD[OF k, of c] kept_nk[of h h' c] by (simp add: is_nk_def)
  qed
  then show "index_own h' p" using all ix by (simp add: index_own_def)
  show "child_offsets h' p = child_offsets h p" "child_blocks h' p = child_blocks h p" "leaf_blocks h' p = leaf_blocks h p"
    using all by auto
  show "\<forall>c \<in> set (child_offsets h p). node_name h' c = node_name h c" using c by blast
qed

section \<open>The new node\<close>

definition node_sk :: "hive \<Rightarrow> nat \<Rightarrow> nat" where
  "node_sk h node = unat (get32 (addr h) (node + 48)) + 0x1000"

definition sk_ok :: "hive \<Rightarrow> nat \<Rightarrow> bool" where
  "sk_ok h sk \<longleftrightarrow> IS_VALID_BLOCK h sk \<and> id_of h sk = id_sk \<and> 20 \<le> blen h sk"

definition refcount :: "hive \<Rightarrow> nat \<Rightarrow> u32" where
  "refcount h sk = get32 (addr h) (sk + 16)"

text \<open>A node without children and values, with the given name and parent.\<close>

definition leaf_node :: "hive \<Rightarrow> nat \<Rightarrow> nat \<Rightarrow> byte list \<Rightarrow> bool" where
  "leaf_node h node parent name \<longleftrightarrow>
     is_nk h node \<and> node_name h node = cstr name \<and> nr_subkeys h node = 0 \<and> nr_values h node = 0 \<and>
     get32 (addr h) (node + 20) = of_nat parent - 0x1000 \<and> get32 (addr h) (node + 52) = 0xffffffff"

lemma create_nk_post:
  assumes h: "hive_ok h" "writable h" and name: "strlen name < 2 ^ 16"
  obtains node h' where "create_nk parent name h = (Ok node, h')" "upd h h' {}" "\<not> IS_VALID_BLOCK h node"
    "leaf_node h' node parent name"
proof -
  let ?n = "81 + strlen name"
  obtain node h1 where al: "allocate_block ?n id_nk h = (Ok node, h1)" and p: "alloc_post h ?n id_nk node h1"
    using allocate_block_post[OF h, of ?n id_nk] name by (auto simp: HIVEX_MAX_ALLOCATION_def id_lengths)
  note a = alloc_postD[OF p]
  let ?m = "put_bytes (put16 (put32 (put32 (put32 (put32 (put32 (put16 (addr h1) (node + 6) 0x20)
     (node + 20) (of_nat parent - 0x1000)) (node + 32) 0xffffffff) (node + 36) 0xffffffff) (node + 44) 0xffffffff)
     (node + 52) 0xffffffff) (node + 76) (of_nat (strlen name))) (node + 80) (cstr name @ [0])"
  let ?h = "h1\<lparr>addr := ?m\<rparr>"
  have len: "length (cstr name) = strlen name" by (simp add: strlen_def)
  have sz: "node + ?n \<le> hsize h1" using hive_ok_valid(3)[OF a(1,3)] a(5) by simp
  have run: "create_nk parent name h = (Ok node, ?h)"
    using al sz by (simp add: create_nk_def sbind_def wr_in len)
  have u: "upd h1 ?h {node + 4..<node + 4 + (?n - 4)}"
    using a(5) by (intro upd_write[OF a(1,3)]) (auto simp: put_frames put_bytes_outside len)
  have "upd h ?h ({} \<union> {})"
    by (rule upd_trans_fresh[OF upd_alloc[OF h(1) p] _ a(3,2)]) (use u a(5) in auto)
  moreover have "id_of ?h node = id_nk"
    using fresh_id[OF p] by (simp add: id_of_def mem_frame len)
  moreover have "unat (get16 ?m (node + 76)) = strlen name"
    using name by (simp add: mem_frame len unat_of_nat take_bit_nat_eq_self)
  moreover have "get_bytes ?m (node + 80) (strlen name) = cstr name"
    using get_put_bytes_prefix[of "strlen name" "cstr name @ [0]"] len by simp
  moreover have z: "get32 (addr h1) (node + i) = 0" if "6 \<le> i" "i + 4 \<le> 80" for i
  proof -
    have "addr h1 (node + i + k) = 0" if "k < 4" for k
      using a(6)[of "i + k"] that \<open>6 \<le> i\<close> \<open>i + 4 \<le> 80\<close> round8(1)[of ?n] by (simp add: fresh_byte_def ac_simps)
    from this[of 0] this[of 1] this[of 2] this[of 3] show ?thesis by (simp add: get32_bytes)
  qed
  moreover have "IS_VALID_BLOCK ?h node" "?n \<le> blen ?h node" using updD[OF u a(3)] a(5) by auto
  ultimately have "leaf_node ?h node parent name"
    by (simp add: leaf_node_def is_nk_def node_name_def nr_subkeys_def nr_values_def mem_frame len)
  with run a(2) \<open>upd h ?h ({} \<union> {})\<close> show ?thesis by (intro that[of node ?h]) simp_all
qed

lemma inherit_sk_post:
  assumes h: "hive_ok h" and nk: "is_nk h parent" and sk: "sk_ok h (node_sk h parent)"
    and n: "leaf_node h node parent name" "node \<noteq> parent"
  obtains h' where "inherit_sk parent node h = (Ok (), h')"
    "upd h h' ({node_sk h parent + 16..<node_sk h parent + 20} \<union> {node..<node + blen h node})"
    "leaf_node h' node parent name" "refcount h' (node_sk h parent) = refcount h (node_sk h parent) + 1"
    "node_sk h' node = node_sk h parent"
proof -
  let ?sk = "node_sk h parent"
  have nn: "is_nk h node" using n(1) by (simp add: leaf_node_def)
  note pb = is_nk_bounds[OF h nk] and nb = is_nk_bounds[OF h nn]
  have vs: "IS_VALID_BLOCK h ?sk" "20 \<le> blen h ?sk" "id_of h ?sk = id_sk" using sk by (auto simp: sk_ok_def)
  have vn: "IS_VALID_BLOCK h node" "80 \<le> blen h node" "id_of h node = id_nk" using nn by (auto simp: is_nk_def)
  have vp: "IS_VALID_BLOCK h parent" "80 \<le> blen h parent" "id_of h parent = id_nk" using nk by (auto simp: is_nk_def)
  have ne: "?sk \<noteq> node" "?sk \<noteq> parent" using vs(3) vn(3) vp(3) by auto
  note hs = hive_ok_valid(3)[OF h vs(1)] hive_ok_valid(3)[OF h vn(1)] hive_ok_valid(3)[OF h vp(1)]
  let ?m1 = "put32 (addr h) (?sk + 16) (refcount h ?sk + 1)"
  let ?m2 = "put32 ?m1 (node + 48) (of_nat ?sk - 0x1000)"
  let ?m3 = "put64 ?m2 (node + 8) (get64 ?m2 (parent + 8))"
  let ?h1 = "h\<lparr>addr := ?m1\<rparr>" and ?h = "h\<lparr>addr := ?m3\<rparr>"
  have u1: "upd h ?h1 {?sk + 16..<?sk + 16 + 4}"
    by (rule upd_write[OF h vs(1)]) (use vs(2) in \<open>auto simp: put_frames\<close>)
  have v1: "IS_VALID_BLOCK ?h1 node" "blen ?h1 node = blen h node" using updD[OF u1 vn(1)] by auto
  have u2: "upd ?h1 (?h1\<lparr>addr := ?m3\<rparr>) {node + 8..<node + 8 + 44}"
    by (rule upd_write[OF upd_ok(1)[OF u1] v1(1)]) (use v1(2) vn(2) in \<open>auto simp: put_frames\<close>)
  have out: "i < ?sk + 16 \<or> ?sk + 20 \<le> i" if "node \<le> i" "i < node + blen h node" for i
    using blocks_apart[OF h vn(1) vs(1) ne(1)[symmetric] that] vs(2) by auto
  have same: "?m3 i = addr h i" if "node \<le> i" "i < node + 8 \<or> (node + 16 \<le> i \<and> i < node + 48) \<or> (node + 52 \<le> i \<and> i < node + blen h node)" for i
    using that out[of i] vn(2) by (auto simp: put_frames)
  have nl: "unat (get16 (addr h) (node + 76)) + 80 \<le> blen h node" using nn by (simp add: is_nk_def)
  have "get16 ?m3 (node + 76) = get16 (addr h) (node + 76)"
    by (intro st16.load_cong same) (use vn(2) in auto)
  moreover have "get_bytes ?m3 (node + 80) (unat (get16 (addr h) (node + 76))) = get_bytes (addr h) (node + 80) (unat (get16 (addr h) (node + 76)))"
    by (intro get_bytes_cong same) (use nl in auto)
  moreover have "id_of ?h node = id_of h node" unfolding id_of_def by (simp, intro get_bytes_cong same) auto
  moreover have "get32 ?m3 (node + 24) = get32 (addr h) (node + 24)" "get32 ?m3 (node + 40) = get32 (addr h) (node + 40)"
    "get32 ?m3 (node + 20) = get32 (addr h) (node + 20)" "get32 ?m3 (node + 52) = get32 (addr h) (node + 52)"
    using vn(2) by (intro st32.load_cong same; simp)+
  moreover have "IS_VALID_BLOCK ?h node" "blen ?h node = blen h node" using updD[OF u2 v1(1)] v1(2) by auto
  ultimately have leaf: "leaf_node ?h node parent name"
    using n(1) nl by (simp add: leaf_node_def is_nk_def node_name_def nr_subkeys_def nr_values_def)
  have "refcount ?h ?sk = refcount h ?sk + 1"
  proof -
    have "get32 ?m3 (?sk + 16) = get32 ?m1 (?sk + 16)"
      using hive_ok_disjoint[OF h vs(1) vn(1) ne(1)] vs(2) vn(2) by (intro st32.load_cong) (auto simp: put_frames)
    then show ?thesis by (simp add: refcount_def)
  qed
  moreover have "node_sk ?h node = ?sk"
    unfolding node_sk_def[of ?h] by (simp add: mem_frame node_sk_def)
  moreover have "inherit_sk parent node h = (Ok (), ?h)"
  proof -
    have r: "rd32 h (parent + 48) = Ok (get32 (addr h) (parent + 48))" using hs vp(2) by simp
    have e: "unat (get32 (addr h) (parent + 48)) + 0x1000 = ?sk" by (simp add: node_sk_def)
    have "check_block h ?sk id_sk EFAULT = Ok ()" "rd32 h (?sk + 16) = Ok (refcount h ?sk)"
      using hs vs by (auto simp: refcount_def)
    moreover have "rd64 (?h1\<lparr>addr := ?m2\<rparr>) (parent + 8) = Ok (get64 ?m2 (parent + 8))" using hs vp(2) by simp
    ultimately show ?thesis
      unfolding inherit_sk_def sbind_sget nk_offsets r result.case Let_def e
      using hs vs(2) vn(2) by (simp add: sbind_def wr_in del: rd_Ok check_block_bid)
  qed
  moreover have "upd h ?h ({?sk + 16..<?sk + 20} \<union> {node..<node + blen h node})"
    by (rule upd_mono[OF upd_trans[OF u1 u2[simplified]]]) (use vn(2) in auto)
  ultimately show ?thesis using leaf that[of ?h] by blast
qed

section \<open>Linking the new node\<close>

definition insert_child :: "hive \<Rightarrow> byte list \<Rightarrow> nat list \<Rightarrow> nat \<Rightarrow> nat list" where
  "insert_child h name cs node =
     takeWhile (not_before h name) cs @ node # dropWhile (not_before h name) cs"

lemma length_insert_child [simp]: "length (insert_child h name cs node) = Suc (length cs)"
  unfolding insert_child_def
  by (simp, metis length_append takeWhile_dropWhile_id)

lemma insert_child_flat:
  assumes "j \<le> length ys" and "length xs + j = length (takeWhile (not_before h name) (xs @ ys @ zs))"
  shows "xs @ (take j ys @ n # drop j ys) @ zs = insert_child h name (xs @ ys @ zs) n"
proof -
  let ?P = "not_before h name" and ?l = "xs @ ys @ zs"
  have "takeWhile ?P ?l = take (length xs + j) ?l" "dropWhile ?P ?l = drop (length xs + j) ?l"
    unfolding assms(2) by (rule takeWhile_eq_take, rule dropWhile_eq_drop)
  note e = this
  show ?thesis unfolding insert_child_def e by (rule insert_flat[OF assms(1) refl])
qed

definition linked :: "hive \<Rightarrow> nat \<Rightarrow> byte list \<Rightarrow> nat \<Rightarrow> hive \<Rightarrow> bool" where
  "linked h p name node h' \<longleftrightarrow>
     (\<exists>leaves. index_form h' p leaves \<and> distinct leaves \<and> (\<forall>b \<in> set leaves. lf_ok h' b) \<and>
        concat (map (lf_offsets h') leaves) = insert_child h name (child_offsets h p) node \<and>
        (\<forall>b \<in> insert (index_block h' p) (set leaves). b \<in> set (child_blocks h p) \<or> \<not> IS_VALID_BLOCK h b))"

definition same_but :: "hive \<Rightarrow> hive \<Rightarrow> nat \<Rightarrow> nat set \<Rightarrow> bool" where
  "same_but h h' b A \<longleftrightarrow>
     IS_VALID_BLOCK h' b \<and> blen h' b = blen h b \<and>
     (\<forall>i. b \<le> i \<longrightarrow> i < b + blen h b \<longrightarrow> i \<notin> A \<longrightarrow> addr h' i = addr h i)"

lemma kept_same_but: "kept h h' b \<Longrightarrow> IS_VALID_BLOCK h' b \<Longrightarrow> 4 \<le> blen h b \<Longrightarrow> same_but h h' b A"
  using kept_blen[of h h' b] by (simp add: same_but_def keptD)

lemma upd_same_but: "upd h h' A \<Longrightarrow> IS_VALID_BLOCK h b \<Longrightarrow> same_but h h' b A"
  by (simp add: same_but_def upd_def)

lemma same_but_trans: "same_but h h1 b A \<Longrightarrow> same_but h1 h2 b C \<Longrightarrow> same_but h h2 b (A \<union> C)"
  by (simp add: same_but_def)

lemma same_but_nk:
  assumes "same_but h h' p A" and "is_nk h p"
    and "\<And>i. p + 4 \<le> i \<Longrightarrow> i < p + 6 \<Longrightarrow> i \<notin> A" "\<And>i. p + 76 \<le> i \<Longrightarrow> i < p + blen h p \<Longrightarrow> i \<notin> A"
  shows "is_nk h' p" "node_name h' p = node_name h p"
proof -
  have b: "80 + unat (get16 (addr h) (p + 76)) \<le> blen h p" using assms(2) by (simp add: is_nk_def)
  have e: "addr h' i = addr h i" if "p \<le> i" "i < p + blen h p" "i \<notin> A" for i
    using assms(1) that by (simp add: same_but_def)
  have l: "get16 (addr h') (p + 76) = get16 (addr h) (p + 76)" using assms(4) b by (intro st16.load_cong e) auto
  have "id_of h' p = id_of h p" unfolding id_of_def using assms(3) b by (intro get_bytes_cong e) auto
  then show "is_nk h' p" using assms(1,2) l by (simp add: is_nk_def same_but_def)
  show "node_name h' p = node_name h p"
    unfolding node_name_def l using assms(4) b by (intro get_bytes_cong e) auto
qed

lemma same_but_get32:
  assumes "same_but h h' p A" and "n + 4 \<le> blen h p" and "\<And>i. p + n \<le> i \<Longrightarrow> i < p + n + 4 \<Longrightarrow> i \<notin> A"
  shows "get32 (addr h') (p + n) = get32 (addr h) (p + n)"
  using assms by (intro st32.load_cong) (auto simp: same_but_def)

text \<open>Writing the link into the parent itself.\<close>

lemma link_in_parent:
  assumes h: "hive_ok h" and nk: "is_nk h p" and lf: "lf_ok h new"
  obtains h' where "wr32 (p + 32) (of_nat new - 0x1000) h = (Ok (), h')" "upd h h' {p + 32..<p + 36}"
    "index_block h' p = off32 new" "lf_ok h' new" "lf_offsets h' new = lf_offsets h new" "id_of h' new = id_of h new"
proof -
  let ?h = "h\<lparr>addr := put32 (addr h) (p + 32) (of_nat new - 0x1000)\<rparr>"
  have vp: "IS_VALID_BLOCK h p" "80 \<le> blen h p" "id_of h p = id_nk" using nk by (auto simp: is_nk_def)
  have vn: "IS_VALID_BLOCK h new" "new \<noteq> p" using lf vp(3) by (auto simp: lf_ok_def is_lf_def)
  have w: "wr32 (p + 32) (of_nat new - 0x1000) h = (Ok (), ?h) \<and> upd h ?h {p + 32..<p + 32 + 4}"
    by (rule wr_upd(1)[OF h vp(1)]) (use vp(2) in auto)
  have k: "keeps h ?h {p}" by (rule upd_keeps[OF h conjunct2[OF w]]) (use vp in auto)
  have kn: "kept h ?h new" "IS_VALID_BLOCK ?h new" using keepsD[OF k vn(1)] vn(2) by auto
  have e: "p + 32 + 4 = p + 36" by simp
  show ?thesis
    using w[unfolded e] kept_lf[OF kn lf] by (intro that[of ?h]) (simp_all add: index_block_def off32_def)
qed

lemma link_first_post:
  assumes h: "hive_ok h" "writable h" and ix: "index_own h p" and nr: "nr_subkeys h p = 0"
    and n: "IS_VALID_BLOCK h node"
  obtains h' where "link_child p name node (nr_subkeys h p) (child_blocks h p @ [0]) h = (Ok (), h')"
    "keeps h h' {p}" "same_but h h' p {p + 32..<p + 36}" "endpages h' \<le> 2 ^ 32 \<Longrightarrow> linked h p name node h'"
proof -
  have nk: "is_nk h p" using ix by (auto simp: index_own_def index_ok_def)
  have vp: "IS_VALID_BLOCK h p" "80 \<le> blen h p" using nk by (auto simp: is_nk_def)
  have emp: "child_blocks h p = []" "child_offsets h p = []"
    using nr by (simp_all add: child_blocks_def child_offsets_def leaf_blocks_def)
  obtain lh h1 where l: "new_lh_record name node h = (Ok lh, h1)" "upd h h1 {}" "\<not> IS_VALID_BLOCK h lh"
    "lf_ok h1 lh" "lf_offsets h1 lh = [off32 node]"
    using new_lh_post[OF h] by blast
  have nk1: "is_nk h1 p" by (rule upd_is_nk[OF l(2) nk]) simp_all
  obtain h2 where w: "wr32 (p + 32) (of_nat lh - 0x1000) h1 = (Ok (), h2)" "upd h1 h2 {p + 32..<p + 36}"
    "index_block h2 p = off32 lh" "lf_ok h2 lh" "lf_offsets h2 lh = lf_offsets h1 lh" "id_of h2 lh = id_of h1 lh"
    using link_in_parent[OF upd_ok(1)[OF l(2)] nk1 l(4)] by blast
  have u: "upd h h2 {p + 32..<p + 36}" using upd_trans[OF l(2) w(2)] by simp
  have k: "keeps h h2 {p}" by (rule upd_keeps[OF h(1) u]) (use vp in auto)
  have "linked h p name node h2" if ep: "endpages h2 \<le> 2 ^ 32"
  proof -
    have "IS_VALID_BLOCK h2 lh" "IS_VALID_BLOCK h2 node" using w(4) updD(1)[OF u n] by (auto simp: lf_ok_def is_lf_def)
    then have "off32 lh = lh" "off32 node = node" using off32_valid[OF upd_ok(1)[OF u] _ ep] by auto
    moreover have "id_of h2 lh \<noteq> id_ri" using w(4) by (auto simp: lf_ok_def is_lf_def)
    ultimately show ?thesis
      unfolding linked_def using w l(3,5) by (intro exI[of _ "[lh]"]) (simp add: index_form_def insert_child_def emp)
  qed
  then show ?thesis
    using l(1) w(1) nr emp k upd_same_but[OF u vp(1)] by (intro that[of h2]) (simp_all add: link_child_def sbind_def)
qed

text \<open>Writing the link into the ri-record.\<close>

lemma link_in_ri:
  assumes h: "hive_ok h" and ri: "IS_VALID_BLOCK h ri" "8 + 4 * length (ri_offsets h ri) \<le> blen h ri" "id_of h ri = id_ri"
    and o: "ri_offsets h ri = pre @ old # post"
    and h': "h' = h\<lparr>addr := put32 (addr h) (ri + 8 + 4 * length pre) (of_nat new - 0x1000)\<rparr>"
  shows "upd h h' {ri + 8..<ri + blen h ri}" "ri_offsets h' ri = pre @ off32 new # post" "id_of h' ri = id_ri"
proof -
  let ?k = "length pre"
  have k: "8 + 4 * ?k + 4 \<le> blen h ri" using ri(2) by (simp add: o)
  have "upd h h' {ri + 8 + 4 * ?k..<ri + 8 + 4 * ?k + 4}"
    unfolding h' by (rule upd_write[OF h ri(1)]) (use k in \<open>auto simp: put_frames\<close>)
  then show "upd h h' {ri + 8..<ri + blen h ri}" by (rule upd_mono) (use k in auto)
  show "id_of h' ri = id_ri" using ri(3) by (simp add: h' id_of_def mem_frame)
  have n: "unat (get16 (addr h) (ri + 6)) = Suc (?k + length post)" using arg_cong[OF o, of length] by (simp add: ri_offsets_def)
  have c: "get16 (addr h') (ri + 6) = get16 (addr h) (ri + 6)" by (simp add: h' mem_frame)
  have key: "ri_key h ri j = (pre @ old # post) ! j" if "j < Suc (?k + length post)" for j
    using arg_cong[OF o, of "\<lambda>l. l ! j"] that by (simp add: ri_offsets_def n del: upt_Suc)
  have key': "ri_key h' ri j = (if j = ?k then off32 new else ri_key h ri j)" for j
  proof (cases "j = ?k")
    case False
    then have "get32 (addr h') (ri + 8 + 4 * j) = get32 (addr h) (ri + 8 + 4 * j)"
      unfolding h' by (simp, intro st32.load_store_other) (cases "j < ?k"; simp)
    then show ?thesis using False by (simp add: ri_key_def)
  qed (simp add: h' ri_key_def off32_def)
  show "ri_offsets h' ri = pre @ off32 new # post"
    by (rule nth_equalityI) (auto simp: ri_offsets_def c n key' key nth_append nth_Cons' simp del: upt_Suc)
qed

lemma index_own_ids:
  assumes "index_own h p"
  shows "p \<notin> set (child_blocks h p)" "\<And>n. is_nk h n \<Longrightarrow> n \<notin> set (child_blocks h p)"
    "\<And>s. id_of h s = id_sk \<Longrightarrow> s \<notin> set (child_blocks h p) \<and> s \<notin> set (child_offsets h p) \<and> s \<noteq> p"
proof -
  have iok: "index_ok h p" and ch: "\<forall>c \<in> set (child_offsets h p). is_nk h c" using assms by (auto simp: index_own_def)
  have ids: "id_of h b \<in> {id_lf, id_lh, id_ri}" if "b \<in> set (child_blocks h p)" for b
  proof -
    have "nr_subkeys h p \<noteq> 0" using that by (auto simp: child_blocks_def split: if_splits)
    note f = index_okD[OF iok this]
    show ?thesis using that f(3,4) by (auto simp: lf_ok_def is_lf_def split: if_splits)
  qed
  then show n: "\<And>n. is_nk h n \<Longrightarrow> n \<notin> set (child_blocks h p)" by (fastforce simp: is_nk_def)
  have nk: "is_nk h p" using iok by (simp add: index_ok_def)
  then show "p \<notin> set (child_blocks h p)" using n by simp
  have "id_sk \<notin> {id_lf, id_lh, id_ri}" by (simp add: id_sk_def id_lf_def id_lh_def id_ri_def)
  then show "\<And>s. id_of h s = id_sk \<Longrightarrow> s \<notin> set (child_blocks h p) \<and> s \<notin> set (child_offsets h p) \<and> s \<noteq> p"
    using ids ch nk by (fastforce simp: is_nk_def)
qed

lemma find_posn_index:
  assumes h: "hive_ok h" and ix: "index_own h p" and nr: "nr_subkeys h p \<noteq> 0"
  obtains pre b post j where "leaf_blocks h p = pre @ b # post" "find_posn h name (child_blocks h p @ [0]) 0 = Ok (b, j)"
    "j \<le> lf_count h b"
    "length (concat (map (lf_offsets h) pre)) + j = length (takeWhile (not_before h name) (child_offsets h p))"
proof -
  have iok: "index_ok h p" and ch: "\<forall>c \<in> set (child_offsets h p). is_nk h c" using ix by (auto simp: index_own_def)
  note f = index_okD[OF iok nr]
  have "\<forall>b \<in> set (leaf_blocks h p). lf_ok h b \<and> (\<forall>c \<in> set (lf_offsets h b). is_nk h c)"
    using f(3) ch by (auto simp: child_offsets_def)
  then obtain pre b post j where r: "leaf_blocks h p = pre @ b # post" "find_posn h name (leaf_blocks h p @ [0]) 0 = Ok (b, j)"
    "j \<le> lf_count h b"
    "length (concat (map (lf_offsets h) pre)) + j = length (takeWhile (not_before h name) (concat (map (lf_offsets h) (leaf_blocks h p))))"
    using find_posn_flat[OF h _ f(2), of name] by metis
  have "find_posn h name (child_blocks h p @ [0]) 0 = find_posn h name (leaf_blocks h p @ [0]) 0"
    using is_lf_block_eq[OF h f(5)] hive_ok_valid(1)[OF h f(5)] by (auto simp: f(4))
  with r show ?thesis by (intro that[of pre b post j]) (simp_all add: child_offsets_def)
qed

lemma relink_post:
  assumes h: "hive_ok h" and ix: "index_own h p" and nr: "nr_subkeys h p \<noteq> 0"
    and small: "\<forall>b \<in> set (child_blocks h p). b < 2 ^ 32" and ls: "leaf_blocks h p = pre @ old # post"
    and k1: "keeps h h1 {old}" and new: "lf_ok h1 new" "\<not> IS_VALID_BLOCK h new"
  obtains h' B where "relink p old new (child_blocks h p @ [0]) h1 = (Ok (), h')" "keeps h1 h' B"
    "B \<subseteq> insert p (set (child_blocks h p))" "\<forall>b \<in> set (pre @ new # post). b \<notin> B" "same_but h1 h' p {p + 32..<p + 36}"
    "endpages h' \<le> 2 ^ 32 \<Longrightarrow>
      index_form h' p (pre @ new # post) \<and> index_block h' p \<in> insert new (set (child_blocks h p))"
proof -
  have iok: "index_ok h p" and nk: "is_nk h p" and dist: "distinct (child_blocks h p)"
    using ix by (auto simp: index_own_def index_ok_def)
  note f = index_okD[OF iok nr] and ids = index_own_ids[OF ix]
  let ?ix = "index_block h p"
  have vp: "IS_VALID_BLOCK h p" "80 \<le> blen h p" using nk by (auto simp: is_nk_def)
  have old: "old \<in> set (child_blocks h p)" "old \<noteq> p" "old < 2 ^ 32" using f(4) ls ids(1) small by auto
  have kp: "kept h h1 p" "IS_VALID_BLOCK h1 p" using keepsD[OF k1 vp(1)] old(2) by auto
  note p1 = kept_nk[OF kp nk]
  note ok1 = keeps_ok(1)[OF k1]
  have p36: "p + 36 \<le> hsize h1" using is_nk_bounds(2)[OF ok1 p1(1)] by simp
  have vn: "IS_VALID_BLOCK h1 new" using new(1) by (simp add: lf_ok_def is_lf_def)
  have leaf_ne: "\<forall>b \<in> set (pre @ new # post). b \<noteq> p" and new_ne: "new \<noteq> ?ix"
    using f(4,5) ls ids(1) new(2) vp(1) by auto
  show ?thesis
  proof (cases "id_of h ?ix = id_ri")
    case False
    then have one: "pre = []" "post = []" "old = ?ix" using f(1) ls by (cases pre; simp add: index_form_def)+
    obtain h2 where w: "wr32 (p + 32) (of_nat new - 0x1000) h1 = (Ok (), h2)" "upd h1 h2 {p + 32..<p + 36}"
      "index_block h2 p = off32 new" "lf_ok h2 new" "lf_offsets h2 new = lf_offsets h1 new" "id_of h2 new = id_of h1 new"
      using link_in_parent[OF ok1 p1(1) new(1)] by blast
    have "relink p old new (child_blocks h p @ [0]) h1 = (Ok (), h2)"
      using relink_lf_eq[of h1 p old new] p1(4) one old(3) p36 w(1) by (simp add: wr_in)
    moreover have "keeps h1 h2 {p}" by (rule upd_keeps[OF ok1 w(2)]) (use p1(1) in \<open>auto simp: is_nk_def\<close>)
    moreover have "index_form h2 p [new] \<and> index_block h2 p = new" if "endpages h2 \<le> 2 ^ 32"
      using w(3,4) off32_valid[OF upd_ok(1)[OF w(2)] _ that, of new] by (auto simp: index_form_def lf_ok_def is_lf_def)
    ultimately show ?thesis
      using upd_same_but[OF w(2) kp(2)] leaf_ne one by (intro that[of h2 "{p}"]) simp_all
  next
    case True
    have ne: "?ix \<noteq> old" "old \<notin> set pre" "?ix \<notin> set (pre @ post)" using dist f(4) True ls by auto
    have kx: "kept h h1 ?ix" "IS_VALID_BLOCK h1 ?ix" using keepsD[OF k1 f(5)] ne(1) by auto
    have ri: "ri_offsets h ?ix = pre @ old # post" "8 + 4 * length (ri_offsets h ?ix) \<le> blen h ?ix"
      using f(1) True unfolding ls[symmetric] by (auto simp: index_form_def)
    note r1 = kept_ri[OF kx(1) ri(2)]
    have ri1: "ri_offsets h1 ?ix = pre @ old # post" "8 + 4 * length (ri_offsets h1 ?ix) \<le> blen h1 ?ix" "id_of h1 ?ix = id_ri"
      using r1 ri True by auto
    have sm: "\<forall>b \<in> set pre. b < 2 ^ 32" "?ix < 2 ^ 32" using small f(4) ls True by auto
    define h2 where "h2 = h1\<lparr>addr := put32 (addr h1) (?ix + 8 + 4 * length pre) (of_nat new - 0x1000)\<rparr>"
    note l = link_in_ri[OF ok1 kx(2) ri1(2,3,1) h2_def]
    have "child_blocks h p @ [0] = ?ix # leaf_blocks h p @ [0]" using f(4) True by simp
    then have run: "relink p old new (child_blocks h p @ [0]) h1 = (Ok (), h2)"
      unfolding h2_def using relink_ri_eq[OF ok1 sm(2) p36 p1(4) kx(2) ri1(3) ne(1) old(3) ri1(1) ne(2) sm(1) ri1(2)] by simp
    have k: "keeps h1 h2 {?ix}" by (rule upd_keeps[OF ok1 l(1)]) (use kx(2) in auto)
    have pne: "p \<noteq> ?ix" using ids(1) f(4) True by auto
    have kp2: "kept h1 h2 p" "IS_VALID_BLOCK h2 p" using keepsD[OF k kp(2)] pne by auto
    have vi2: "IS_VALID_BLOCK h2 ?ix" "blen h2 ?ix = blen h1 ?ix" using updD[OF l(1) kx(2)] by auto
    have vn2: "IS_VALID_BLOCK h2 new" using keepsD(1)[OF k vn] new_ne by simp
    have "index_form h2 p (pre @ new # post) \<and> index_block h2 p = ?ix" if "endpages h2 \<le> 2 ^ 32"
      using kept_nk(4)[OF kp2 p1(1)] p1(4) l(2,3) vi2 ri1(1,2) off32_valid[OF keeps_ok(1)[OF k] vn2 that]
      by (simp add: index_form_def)
    moreover have "same_but h1 h2 p {p + 32..<p + 36}"
      using is_nk_bounds[OF ok1 p1(1)] p1(1) by (intro kept_same_but[OF kp2]) (simp add: is_nk_def)
    ultimately show ?thesis
      using ne new_ne f(4) True by (intro that[OF run k]) auto
  qed
qed

lemma link_insert_post:
  assumes h: "hive_ok h" "writable h" and ix: "index_own h p" and nr: "nr_subkeys h p \<noteq> 0"
    and small: "\<forall>b \<in> set (child_blocks h p). b < 2 ^ 32" and n: "is_nk h node" "node \<noteq> p"
  obtains h' where "link_child p name node (nr_subkeys h p) (child_blocks h p @ [0]) h = (Ok (), h')"
    "keeps h h' (insert p (set (child_blocks h p)))" "same_but h h' p {p + 32..<p + 36}"
    "endpages h' \<le> 2 ^ 32 \<Longrightarrow> linked h p name node h'"
proof -
  have iok: "index_ok h p" and nk: "is_nk h p" and dist: "distinct (child_blocks h p)"
    using ix by (auto simp: index_own_def index_ok_def)
  note f = index_okD[OF iok nr] and ids = index_own_ids[OF ix]
  obtain pre old post j where s: "leaf_blocks h p = pre @ old # post"
    "find_posn h name (child_blocks h p @ [0]) 0 = Ok (old, j)" "j \<le> lf_count h old"
    "length (concat (map (lf_offsets h) pre)) + j = length (takeWhile (not_before h name) (child_offsets h p))"
    using find_posn_index[OF h(1) ix nr] by metis
  have lf: "lf_ok h old" using f(3) s(1) by simp
  have co: "child_offsets h p = concat (map (lf_offsets h) pre) @ lf_offsets h old @ concat (map (lf_offsets h) post)"
    by (simp add: child_offsets_def s(1))
  have cnt: "lf_count h old \<le> HIVEX_MAX_SUBKEYS"
    using iok arg_cong[OF co, of length] by (simp add: index_ok_def)
  obtain new h1 where i: "insert_lf_record old j name node h = (Ok new, h1)" "keeps h h1 {old}"
    "\<not> IS_VALID_BLOCK h new" "lf_ok h1 new" "id_of h1 new = id_of h old"
    "lf_offsets h1 new = take j (lf_offsets h old) @ off32 node # drop j (lf_offsets h old)"
    using insert_lf_post[OF h lf s(3) cnt] by metis
  obtain h' B where r: "relink p old new (child_blocks h p @ [0]) h1 = (Ok (), h')" "keeps h1 h' B"
    "B \<subseteq> insert p (set (child_blocks h p))" "\<forall>b \<in> set (pre @ new # post). b \<notin> B" "same_but h1 h' p {p + 32..<p + 36}"
    "endpages h' \<le> 2 ^ 32 \<Longrightarrow>
      index_form h' p (pre @ new # post) \<and> index_block h' p \<in> insert new (set (child_blocks h p))"
    using relink_post[OF h(1) ix nr small s(1) i(2,4,3)] by metis
  have run: "link_child p name node (nr_subkeys h p) (child_blocks h p @ [0]) h = (Ok (), h')"
    using s(2) i(1) r(1) nr by (simp add: link_child_def sbind_def)
  have old: "old \<in> set (child_blocks h p)" "old \<noteq> p" using f(4) s(1) ids(1) by auto
  have k: "keeps h h' (insert p (set (child_blocks h p)))"
    by (rule keeps_restrict[OF keeps_trans[OF h(1) i(2) r(2)]]) (use r(3) old in auto)
  have d: "distinct (pre @ old # post)" using dist f(4) s(1) by auto
  have lfs: "\<forall>b \<in> set (pre @ post). lf_ok h b \<and> b \<notin> {old}" using f(3) s(1) d by auto
  note l1 = keeps_lfs[OF i(2) lfs]
  have "\<forall>b \<in> set (pre @ new # post). lf_ok h1 b \<and> b \<notin> B" using l1(1) i(4) r(4) by auto
  note l2 = keeps_lfs[OF r(2) this]
  have "linked h p name node h'" if ep: "endpages h' \<le> 2 ^ 32"
  proof -
    have "node \<notin> insert p (set (child_blocks h p))" using ids(2)[OF n(1)] n(2) by simp
    then have "IS_VALID_BLOCK h' node" using keepsD(1)[OF k] n(1) by (simp add: is_nk_def)
    then have on: "off32 node = node" using off32_valid[OF keeps_ok(1)[OF k] _ ep] by simp
    have "concat (map (lf_offsets h') (pre @ new # post)) =
        concat (map (lf_offsets h) pre) @ (take j (lf_offsets h old) @ node # drop j (lf_offsets h old)) @ concat (map (lf_offsets h) post)"
      using l1(2) i(6) on unfolding l2(2) by (simp cong: map_cong)
    also have "\<dots> = insert_child h name (child_offsets h p) node"
      unfolding co by (rule insert_child_flat) (use s(3,4) co in simp_all)
    finally have "concat (map (lf_offsets h') (pre @ new # post)) = insert_child h name (child_offsets h p) node" .
    moreover have "distinct (pre @ new # post)"
      using d i(3) lfs by (auto simp: lf_ok_def is_lf_def)
    moreover have "\<forall>b \<in> insert (index_block h' p) (set (pre @ new # post)). b \<in> set (child_blocks h p) \<or> \<not> IS_VALID_BLOCK h b"
      using r(6)[OF ep] i(3) f(4) s(1) by auto
    ultimately show ?thesis unfolding linked_def using r(6)[OF ep] l2(1) by blast
  qed
  moreover have "same_but h h' p {p + 32..<p + 36}"
  proof -
    have "kept h h1 p" "IS_VALID_BLOCK h1 p" using keepsD[OF i(2)] nk old(2) by (auto simp: is_nk_def)
    then have "same_but h h1 p {}" using nk by (intro kept_same_but) (simp_all add: is_nk_def)
    from same_but_trans[OF this r(5)] show ?thesis by simp
  qed
  ultimately show ?thesis using that[OF run k] by blast
qed

section \<open>Adding a child\<close>

lemma count_child_post:
  assumes h: "hive_ok h" and nk: "is_nk h p" and n: "n < HIVEX_MAX_SUBKEYS"
  obtains h' where "count_child p name n h = (Ok (), h')" "upd h h' ({p + 24..<p + 28} \<union> {p + 56..<p + 58})"
    "nr_subkeys h' p = n + 1"
proof -
  have vp: "IS_VALID_BLOCK h p" "80 \<le> blen h p" using nk by (auto simp: is_nk_def)
  have e: "p + 24 + 4 = p + 28" "p + 56 + 2 = p + 58" by simp_all
  let ?h1 = "h\<lparr>addr := put32 (addr h) (p + 24) (of_nat (n + 1))\<rparr>"
  have w1: "wr32 (p + 24) (of_nat (n + 1)) h = (Ok (), ?h1) \<and> upd h ?h1 {p + 24..<p + 24 + 4}"
    by (rule wr_upd(1)[OF h vp(1)]) (use vp(2) in auto)
  note u1 = conjunct2[OF w1, unfolded e]
  have v1: "IS_VALID_BLOCK ?h1 p" "blen ?h1 p = blen h p" using updD[OF u1 vp(1)] by auto
  have n1: "nr_subkeys ?h1 p = n + 1"
    using n by (simp add: nr_subkeys_def HIVEX_MAX_SUBKEYS_def unat_of_nat take_bit_nat_eq_self del: of_nat_Suc)
  have rd: "rd16 ?h1 (p + 56) = Ok (get16 (addr ?h1) (p + 56))"
    using hive_ok_valid(3)[OF h vp(1)] vp(2) by simp
  let ?big = "unat (get16 (addr ?h1) (p + 56)) < strlen name * 2"
  let ?h2 = "?h1\<lparr>addr := put16 (addr ?h1) (p + 56) (of_nat (strlen name * 2))\<rparr>"
  have w2: "wr16 (p + 56) (of_nat (strlen name * 2)) ?h1 = (Ok (), ?h2) \<and> upd ?h1 ?h2 {p + 56..<p + 56 + 2}"
    by (rule wr_upd(2)[OF upd_ok(1)[OF u1] v1(1)]) (use v1(2) vp(2) in auto)
  note u2 = conjunct2[OF w2, unfolded e]
  have run: "count_child p name n h = (Ok (), if ?big then ?h2 else ?h1)"
    using w1 w2 rd by (simp add: count_child_def sbind_def del: rd_Ok of_nat_Suc of_nat_mult)
  show ?thesis
  proof (cases ?big)
    case True
    have "nr_subkeys ?h2 p = nr_subkeys ?h1 p" by (simp add: nr_subkeys_def mem_frame)
    then show ?thesis using that[of ?h2] run True upd_trans[OF u1 u2] n1 by simp
  next
    case False
    have "upd h ?h1 ({p + 24..<p + 28} \<union> {p + 56..<p + 58})" by (rule upd_mono[OF u1]) simp
    then show ?thesis using that[of ?h1] run False n1 by simp
  qed
qed

lemma count_linked:
  assumes g: "hive_ok h1" and lk: "linked h p name node h1" and nk: "is_nk h1 p"
    and u: "upd h1 h' ({p + 24..<p + 28} \<union> {p + 56..<p + 58})" and nr: "nr_subkeys h' p = length (child_offsets h p) + 1"
    and max: "length (child_offsets h p) < HIVEX_MAX_SUBKEYS"
  shows "index_ok h' p" "child_offsets h' p = insert_child h name (child_offsets h p) node" "distinct (child_blocks h' p)"
    "\<forall>b \<in> set (child_blocks h' p). b \<in> set (child_blocks h p) \<or> \<not> IS_VALID_BLOCK h b"
proof -
  obtain leaves where l: "index_form h1 p leaves" "distinct leaves" "\<forall>b \<in> set leaves. lf_ok h1 b"
    "concat (map (lf_offsets h1) leaves) = insert_child h name (child_offsets h p) node"
    "\<forall>b \<in> insert (index_block h1 p) (set leaves). b \<in> set (child_blocks h p) \<or> \<not> IS_VALID_BLOCK h b"
    using lk unfolding linked_def by blast
  have vp: "IS_VALID_BLOCK h1 p" "80 \<le> blen h1 p" "id_of h1 p = id_nk" using nk by (auto simp: is_nk_def)
  have k: "keeps h1 h' {p}" by (rule upd_keeps[OF g u]) (use vp in auto)
  have nk': "is_nk h' p" by (rule upd_is_nk[OF u nk]) auto
  have ib: "index_block h' p = index_block h1 p"
    unfolding index_block_def by (subst upd_load(2)[OF u vp(1)]) (use vp in auto)
  have "\<forall>b \<in> set leaves. lf_ok h1 b \<and> b \<notin> {p}" using l(3) vp(3) by (auto simp: lf_ok_def is_lf_def)
  note lf = keeps_lfs[OF k this]
  have ix: "id_of h' (index_block h1 p) = id_of h1 (index_block h1 p) \<and> index_form h' p leaves"
  proof (cases "id_of h1 (index_block h1 p) = id_ri")
    case True
    then have "index_block h1 p \<noteq> p" using vp(3) by auto
    moreover have "IS_VALID_BLOCK h1 (index_block h1 p)" using l(1) True by (simp add: index_form_def)
    ultimately have kx: "kept h1 h' (index_block h1 p)" "IS_VALID_BLOCK h' (index_block h1 p)" using keepsD[OF k] by auto
    have room: "8 + 4 * length (ri_offsets h1 (index_block h1 p)) \<le> blen h1 (index_block h1 p)"
      using l(1) True by (auto simp: index_form_def)
    show ?thesis using kept_ri[OF kx(1) room] kx(2) l(1) True room by (simp add: index_form_def ib)
  next
    case False
    then have x: "leaves = [index_block h1 p]" using l(1) by (simp add: index_form_def)
    then have lx: "lf_ok h1 (index_block h1 p)" "IS_VALID_BLOCK h1 (index_block h1 p)" "index_block h1 p \<noteq> p"
      using l(3) vp(3) by (auto simp: lf_ok_def is_lf_def)
    show ?thesis using kept_lf(3)[OF keepsD(2,1)[OF k lx(2)] lx(1)] lx(3) keepsD[OF k lx(2)] x False
      by (simp add: index_form_def ib)
  qed
  have len: "nr_subkeys h' p = length (concat (map (lf_offsets h') leaves))" "nr_subkeys h' p \<noteq> 0"
    "nr_subkeys h' p \<le> HIVEX_MAX_SUBKEYS"
    using nr max unfolding lf(2) l(4) by simp_all
  note r = index_formD[OF conjunct2[OF ix] nk' len lf(1)]
  show "index_ok h' p" by (rule r(1))
  show "child_offsets h' p = insert_child h name (child_offsets h p) node" using r(3) lf(2) l(4) by simp
  have "index_block h' p \<notin> set leaves" if "id_of h' (index_block h' p) = id_ri"
    using lf(1) that by (auto simp: lf_ok_def is_lf_def)
  then show "distinct (child_blocks h' p)" using index_okD(4)[OF r(1) len(2)] r(2) l(2) by simp
  show "\<forall>b \<in> set (child_blocks h' p). b \<in> set (child_blocks h p) \<or> \<not> IS_VALID_BLOCK h b"
    using l(5) unfolding index_okD(4)[OF r(1) len(2)] r(2) ib by auto
qed

lemma kept_leaf_node:
  assumes "kept h h' node" and "IS_VALID_BLOCK h' node" and "leaf_node h node p name"
  shows "leaf_node h' node p name"
proof -
  have nk: "is_nk h node" using assms(3) by (simp add: leaf_node_def)
  then have "80 \<le> blen h node" by (simp add: is_nk_def)
  then have "get32 (addr h') (node + 20) = get32 (addr h) (node + 20)" "get32 (addr h') (node + 52) = get32 (addr h) (node + 52)"
    using kept_load(2)[OF assms(1)] by simp_all
  with kept_nk[OF assms(1,2) nk] assms(3) show ?thesis by (simp add: leaf_node_def)
qed

lemma kept_sk:
  assumes "kept h h' s" and "IS_VALID_BLOCK h' s" and "sk_ok h s"
  shows "sk_ok h' s" "refcount h' s = refcount h s"
proof -
  have b: "20 \<le> blen h s" "id_of h s = id_sk" using assms(3) by (auto simp: sk_ok_def)
  then show "sk_ok h' s"
    using assms(2) kept_blen[OF assms(1)] kept_load(4)[OF assms(1), of "s + 4" 2] by (simp add: sk_ok_def id_of_def)
  show "refcount h' s = refcount h s" using kept_load(2)[OF assms(1), of "s + 16"] b by (simp add: refcount_def)
qed

text \<open>What adding a child does: the blocks it changes are the parent, the parent's sk-record and
  the index; the parent's list of children gains the new node at its place.\<close>

definition add_post :: "hive \<Rightarrow> nat \<Rightarrow> byte list \<Rightarrow> nat \<Rightarrow> hive \<Rightarrow> bool" where
  "add_post h p name node h' \<longleftrightarrow>
     keeps h h' ({p, node_sk h p} \<union> set (child_blocks h p)) \<and> \<not> IS_VALID_BLOCK h node \<and>
     leaf_node h' node p name \<and> node_sk h' node = node_sk h p \<and>
     sk_ok h' (node_sk h p) \<and> refcount h' (node_sk h p) = refcount h (node_sk h p) + 1 \<and>
     same_but h h' (node_sk h p) {node_sk h p + 16..<node_sk h p + 20} \<and>
     same_but h h' p ({p + 24..<p + 28} \<union> {p + 32..<p + 36} \<union> {p + 56..<p + 58}) \<and>
     (endpages h' \<le> 2 ^ 32 \<longrightarrow>
        index_own h' p \<and> child_offsets h' p = insert_child h name (child_offsets h p) node \<and>
        (\<forall>c \<in> set (child_offsets h p). node_name h' c = node_name h c) \<and>
        (\<forall>b \<in> set (child_blocks h' p). b \<in> set (child_blocks h p) \<or> \<not> IS_VALID_BLOCK h b))"

lemma new_node_post:
  assumes h: "hive_ok h" "writable h" and nk: "is_nk h p" and sk: "sk_ok h (node_sk h p)" and name: "strlen name < 2 ^ 16"
  obtains node h1 h2 where "create_nk p name h = (Ok node, h1)" "inherit_sk p node h1 = (Ok (), h2)"
    "upd h h2 {node_sk h p + 16..<node_sk h p + 20}" "\<not> IS_VALID_BLOCK h node" "leaf_node h2 node p name"
    "refcount h2 (node_sk h p) = refcount h (node_sk h p) + 1" "node_sk h2 node = node_sk h p"
proof -
  let ?sk = "node_sk h p"
  obtain node h1 where c: "create_nk p name h = (Ok node, h1)" "upd h h1 {}" "\<not> IS_VALID_BLOCK h node"
    "leaf_node h1 node p name"
    using create_nk_post[OF h name] by blast
  have nk1: "is_nk h1 p" by (rule upd_is_nk[OF c(2) nk]) simp_all
  have vp: "IS_VALID_BLOCK h p" "80 \<le> blen h p" using nk by (auto simp: is_nk_def)
  have vs: "IS_VALID_BLOCK h ?sk" "20 \<le> blen h ?sk" "id_of h ?sk = id_sk" using sk by (auto simp: sk_ok_def)
  have s1: "node_sk h1 p = ?sk" unfolding node_sk_def by (subst upd_load(2)[OF c(2) vp(1)]) (use vp(2) in auto)
  have "id_of h1 ?sk = id_of h ?sk"
    unfolding id_of_def by (rule upd_load(4)[OF c(2) vs(1)]) (use vs(2) in auto)
  then have sk1: "sk_ok h1 (node_sk h1 p)" using updD[OF c(2) vs(1)] vs by (simp add: sk_ok_def s1)
  have ne: "node \<noteq> p" using c(3) vp(1) by auto
  obtain h2 where i: "inherit_sk p node h1 = (Ok (), h2)"
    "upd h1 h2 ({?sk + 16..<?sk + 20} \<union> {node..<node + blen h1 node})"
    "leaf_node h2 node p name" "refcount h2 ?sk = refcount h1 ?sk + 1" "node_sk h2 node = ?sk"
    using inherit_sk_post[OF upd_ok(1)[OF c(2)] nk1 sk1 c(4) ne] unfolding s1 by blast
  have vn: "IS_VALID_BLOCK h1 node" using c(4) by (simp add: leaf_node_def is_nk_def)
  have i2: "upd h1 h2 ({node..<node + blen h1 node} \<union> {?sk + 16..<?sk + 20})" using i(2) by (simp add: Un_commute)
  have u: "upd h h2 ({} \<union> {?sk + 16..<?sk + 20})" by (rule upd_trans_fresh[OF c(2) i2 vn c(3)]) simp
  have "refcount h1 ?sk = refcount h ?sk"
    unfolding refcount_def by (rule upd_load(2)[OF c(2) vs(1)]) (use vs(2) in auto)
  with i u show ?thesis by (intro that[OF c(1) i(1) _ c(3)]) simp_all
qed

lemma link_child_post:
  assumes h: "hive_ok h" "writable h" and ix: "index_own h p"
    and small: "\<forall>b \<in> set (child_blocks h p). b < 2 ^ 32" and n: "is_nk h node" "node \<noteq> p"
  obtains h' where "link_child p name node (nr_subkeys h p) (child_blocks h p @ [0]) h = (Ok (), h')"
    "keeps h h' (insert p (set (child_blocks h p)))" "same_but h h' p {p + 32..<p + 36}"
    "endpages h' \<le> 2 ^ 32 \<Longrightarrow> linked h p name node h'"
proof (cases "nr_subkeys h p = 0")
  case True
  then have "child_blocks h p = []" by (simp add: child_blocks_def)
  then show ?thesis using link_first_post[OF h ix True, of node name] n(1) that by (auto simp: is_nk_def)
next
  case False
  then show ?thesis using link_insert_post[OF h ix False small n] that by blast
qed

lemma insert_child_cong:
  "\<forall>c \<in> set cs. node_name h' c = node_name h c \<Longrightarrow> insert_child h' name cs node = insert_child h name cs node"
  unfolding insert_child_def by (auto simp: not_before_def cong: takeWhile_cong dropWhile_cong)

lemma get_child_absent:
  assumes h: "hive_ok h" and ix: "index_own h p"
    and new: "\<forall>c \<in> set (child_offsets h p). \<not> STRCASEEQ (node_name h c) name"
  shows "hivex_node_get_child h p name = Ok 0"
    "get_children h p 0 = Ok (child_offsets h p @ [0], child_blocks h p @ [0])"
proof -
  have iok: "index_ok h p" and ch: "\<forall>c \<in> set (child_offsets h p). is_nk h c" using ix by (auto simp: index_own_def)
  show g: "get_children h p 0 = Ok (child_offsets h p @ [0], child_blocks h p @ [0])"
    using ch by (intro get_children_eq[OF h iok]) (auto simp: is_nk_def)
  have "kids.differs h name c" if "c \<in> set (child_offsets h p)" for c
    unfolding kids.differs_def using that ch new hivex_node_name_eq[OF h, of c]
    by (auto simp: node_name_def STRCASEEQ_iff)
  moreover have "0 \<notin> set (child_offsets h p)" using child_offsets_nonzero[of 0] by auto
  ultimately have "find_named (hivex_node_name h) name (child_offsets h p @ [0]) = find_named (hivex_node_name h) name [0]"
    by (intro kids.find_skip)
  then show "hivex_node_get_child h p name = Ok 0" by (simp add: hivex_node_get_child_def hivex_node_children_def g)
qed

lemma add_child_facts:
  assumes h: "hive_ok h" and ix: "index_own h p" and sk: "sk_ok h (node_sk h p)" and max: "nr_subkeys h p < HIVEX_MAX_SUBKEYS"
    and k2: "keeps h h2 {node_sk h p}" "sk_ok h2 (node_sk h p)" "same_but h h2 (node_sk h p) {node_sk h p + 16..<node_sk h p + 20}"
    and n: "leaf_node h2 node p name" "\<not> IS_VALID_BLOCK h node"
    and r2: "refcount h2 (node_sk h p) = refcount h (node_sk h p) + 1" "node_sk h2 node = node_sk h p"
    and k3: "keeps h2 h3 (insert p (set (child_blocks h p)))" "same_but h2 h3 p {p + 32..<p + 36}"
      "endpages h3 \<le> 2 ^ 32 \<Longrightarrow> linked h2 p name node h3"
    and u4: "upd h3 h4 ({p + 24..<p + 28} \<union> {p + 56..<p + 58})" "nr_subkeys h4 p = nr_subkeys h p + 1"
  shows "add_post h p name node h4"
proof -
  let ?sk = "node_sk h p" and ?cs = "child_offsets h p" and ?bs = "child_blocks h p"
  let ?A = "{p + 24..<p + 28} \<union> {p + 32..<p + 36} \<union> {p + 56..<p + 58}"
  have iok: "index_ok h p" and nk: "is_nk h p" and ch: "\<forall>c \<in> set ?cs. is_nk h c"
    using ix by (auto simp: index_own_def index_ok_def)
  have vsk: "IS_VALID_BLOCK h ?sk" "id_of h ?sk = id_sk" "20 \<le> blen h ?sk" using sk by (auto simp: sk_ok_def)
  have vp: "IS_VALID_BLOCK h p" "80 \<le> blen h p" using nk by (auto simp: is_nk_def)
  note ids = index_own_ids[OF ix]
  have ne: "?sk \<notin> set ?bs" "?sk \<notin> set ?cs" "?sk \<noteq> p" using ids(3)[OF vsk(2)] by auto
  have x2: "index_own h2 p" "child_offsets h2 p = ?cs" "\<forall>c \<in> set ?cs. node_name h2 c = node_name h c"
    using index_keeps[OF k2(1) ix] ne by auto
  have kp: "kept h h2 p" "IS_VALID_BLOCK h2 p" using keepsD[OF k2(1) vp(1)] ne(3) by auto
  have nk2: "is_nk h2 p" by (rule kept_nk(1)[OF kp nk])
  have nk3: "is_nk h3 p" by (rule same_but_nk(1)[OF k3(2) nk2]) auto
  have v3: "IS_VALID_BLOCK h3 p" "80 \<le> blen h3 p" using nk3 by (auto simp: is_nk_def)
  note ok2 = keeps_ok(1)[OF k2(1)] and ok3 = keeps_ok(1)[OF k3(1)] and ok4 = upd_ok(1)[OF u4(1)]
  have k4: "keeps h3 h4 {p}" by (rule upd_keeps[OF ok3 u4(1)]) (use v3 in auto)
  have k24: "keeps h2 h4 (insert p (set ?bs))" using keeps_trans[OF ok2 k3(1) k4] by (simp add: insert_commute)
  have k: "keeps h h4 ({p, ?sk} \<union> set ?bs)"
    by (rule keeps_restrict[OF keeps_trans[OF h k2(1) k24]]) auto
  have nn: "is_nk h2 node" "IS_VALID_BLOCK h2 node" using n(1) by (auto simp: leaf_node_def is_nk_def)
  have ix2: "child_blocks h2 p = ?bs" using index_keeps(3)[OF k2(1) ix] ne by auto
  have "node \<noteq> p" using n(2) vp(1) by auto
  then have nb: "node \<notin> insert p (set ?bs)" using index_own_ids(2)[OF x2(1) nn(1)] ix2 by simp
  have kn: "kept h2 h4 node" "IS_VALID_BLOCK h4 node" using keepsD[OF k24 nn(2) nb] by auto
  have leaf: "leaf_node h4 node p name" by (rule kept_leaf_node[OF kn n(1)])
  have "node_sk h4 node = node_sk h2 node"
    using kept_load(2)[OF kn(1), of "node + 48"] nn(1) by (simp add: node_sk_def is_nk_def)
  moreover have "sk_ok h4 ?sk" "refcount h4 ?sk = refcount h2 ?sk" "same_but h h4 ?sk {?sk + 16..<?sk + 20}"
  proof -
    have "kept h2 h4 ?sk" "IS_VALID_BLOCK h4 ?sk" using keepsD[OF k24, of ?sk] k2(2) ne by (auto simp: sk_ok_def)
    from kept_sk[OF this k2(2)] show "sk_ok h4 ?sk" "refcount h4 ?sk = refcount h2 ?sk" .
    have "same_but h2 h4 ?sk {}" using \<open>kept h2 h4 ?sk\<close> \<open>IS_VALID_BLOCK h4 ?sk\<close> k2(2) by (intro kept_same_but) (simp_all add: sk_ok_def)
    from same_but_trans[OF k2(3) this] show "same_but h h4 ?sk {?sk + 16..<?sk + 20}" by simp
  qed
  moreover have sb: "same_but h h4 p ?A"
  proof -
    have "same_but h h2 p {}" using vp(2) by (intro kept_same_but[OF kp]) simp
    from same_but_trans[OF same_but_trans[OF this k3(2)] upd_same_but[OF u4(1) v3(1)]] show ?thesis
      by (simp add: Un_ac)
  qed
  moreover have "index_own h4 p \<and> child_offsets h4 p = insert_child h name ?cs node \<and>
      (\<forall>c \<in> set ?cs. node_name h4 c = node_name h c) \<and>
      (\<forall>b \<in> set (child_blocks h4 p). b \<in> set ?bs \<or> \<not> IS_VALID_BLOCK h b)" if ep: "endpages h4 \<le> 2 ^ 32"
  proof -
    have "endpages h3 \<le> 2 ^ 32" using upd_ok(4)[OF u4(1)] ep by simp
    from k3(3)[OF this] have lk: "linked h2 p name node h3" .
    have len: "nr_subkeys h p = length ?cs" using iok by (simp add: index_ok_def)
    note cl = count_linked[OF ok3 lk nk3 u4(1), unfolded x2(2)]
    have c4: "index_ok h4 p" "child_offsets h4 p = insert_child h name ?cs node" "distinct (child_blocks h4 p)"
      using cl(1-3) u4(2) max len insert_child_cong[OF x2(3)] by auto
    have "IS_VALID_BLOCK h2 b" if "IS_VALID_BLOCK h b" for b
      using keepsD(1)[OF k2(1) that] k2(2) by (cases "b = ?sk") (auto simp: sk_ok_def)
    then have bl: "\<forall>b \<in> set (child_blocks h4 p). b \<in> set ?bs \<or> \<not> IS_VALID_BLOCK h b"
      using cl(4) u4(2) max len ix2 by auto
    have old: "is_nk h4 c \<and> node_name h4 c = node_name h c" if c: "c \<in> set ?cs" for c
    proof (cases "c = p")
      case True
      show ?thesis using same_but_nk[OF sb nk] vp(2) True by auto
    next
      case False
      have "c \<notin> {p, ?sk} \<union> set ?bs" using False ne(2) c ids(2) ch by auto
      moreover have "IS_VALID_BLOCK h c" using c ch by (auto simp: is_nk_def)
      ultimately show ?thesis using keepsD[OF k] kept_nk[of h h4 c] c ch by simp
    qed
    have "is_nk h4 c" if "c \<in> set (child_offsets h4 p)" for c
    proof -
      have "c = node \<or> c \<in> set ?cs"
        using that unfolding c4(2) insert_child_def by (auto dest: set_takeWhileD set_dropWhileD)
      then show ?thesis using old leaf by (auto simp: leaf_node_def)
    qed
    then show ?thesis using c4 old bl by (simp add: index_own_def)
  qed
  ultimately show ?thesis using k leaf n(2) r2 by (simp add: add_post_def)
qed

lemma add_child_post:
  assumes h: "hive_ok h" "writable h" "endpages h \<le> 2 ^ 32" and ix: "index_own h p" and sk: "sk_ok h (node_sk h p)"
    and max: "nr_subkeys h p < HIVEX_MAX_SUBKEYS" and name: "0 < strlen name" "strlen name < 2 ^ 16"
    and new: "\<forall>c \<in> set (child_offsets h p). \<not> STRCASEEQ (node_name h c) name"
  obtains node h' where "hivex_node_add_child p name h = (Ok node, h')" "add_post h p name node h'"
proof -
  let ?sk = "node_sk h p" and ?cs = "child_offsets h p" and ?bs = "child_blocks h p"
  have iok: "index_ok h p" and nk: "is_nk h p"
    using ix by (auto simp: index_own_def index_ok_def)
  have vsk: "IS_VALID_BLOCK h ?sk" "id_of h ?sk = id_sk" "20 \<le> blen h ?sk" using sk by (auto simp: sk_ok_def)
  obtain node h1 h2 where c: "create_nk p name h = (Ok node, h1)" "inherit_sk p node h1 = (Ok (), h2)"
    "upd h h2 {?sk + 16..<?sk + 20}" "\<not> IS_VALID_BLOCK h node" "leaf_node h2 node p name"
    "refcount h2 ?sk = refcount h ?sk + 1" "node_sk h2 node = ?sk"
    using new_node_post[OF h(1,2) nk sk name(2)] by blast
  have k2: "keeps h h2 {?sk}" by (rule upd_keeps[OF h(1) c(3)]) (use vsk in auto)
  have ok2: "hive_ok h2" "writable h2" using keeps_ok[OF k2] h(2) by auto
  have "id_of h2 ?sk = id_of h ?sk" unfolding id_of_def by (rule upd_load(4)[OF c(3) vsk(1)]) (use vsk(3) in auto)
  then have sk2: "sk_ok h2 ?sk" using updD[OF c(3) vsk(1)] vsk by (simp add: sk_ok_def)
  have "\<forall>b \<in> set ?bs. b \<notin> {?sk}" "\<forall>c \<in> set ?cs. c \<notin> {?sk}" "p \<notin> {?sk}"
    using index_own_ids(3)[OF ix vsk(2)] by auto
  note x2 = index_keeps[OF k2 ix this(3,1,2)]
  have small: "\<forall>b \<in> set (child_blocks h2 p). b < 2 ^ 32"
    using iok hive_ok_valid(2,4)[OF h(1)] h(3) x2(3) by (fastforce simp: index_ok_def)
  have "node \<noteq> p" using c(4) nk by (auto simp: is_nk_def)
  then obtain h3 where l: "link_child p name node (nr_subkeys h2 p) (child_blocks h2 p @ [0]) h2 = (Ok (), h3)"
    "keeps h2 h3 (insert p (set (child_blocks h2 p)))" "same_but h2 h3 p {p + 32..<p + 36}"
    "endpages h3 \<le> 2 ^ 32 \<Longrightarrow> linked h2 p name node h3"
    using link_child_post[OF ok2 x2(1) small, of node name] c(5) by (auto simp: leaf_node_def)
  have nk2: "is_nk h2 p" using x2(1) by (auto simp: index_own_def index_ok_def)
  have nk3: "is_nk h3 p" by (rule same_but_nk(1)[OF l(3) nk2]) auto
  obtain h4 where u4: "count_child p name (nr_subkeys h p) h3 = (Ok (), h4)"
    "upd h3 h4 ({p + 24..<p + 28} \<union> {p + 56..<p + 58})" "nr_subkeys h4 p = nr_subkeys h p + 1"
    using count_child_post[OF keeps_ok(1)[OF l(2)] nk3 max] by blast
  have ck: "check_block h p id_nk EINVAL = Ok ()" using nk is_nk_bounds(2)[OF h(1) nk] by (auto simp: is_nk_def)
  have g2: "get_children h2 p 0 = Ok (?cs @ [0], ?bs @ [0])"
    using get_child_absent(2)[OF ok2(1) x2(1), of name] x2(2,3,6) new by simp
  have rd: "rd32 h2 (p + 24) = Ok (get32 (addr h2) (p + 24))" "unat (get32 (addr h2) (p + 24)) = nr_subkeys h p"
    using is_nk_bounds(2)[OF ok2(1) nk2] x2(5) by (simp_all add: nr_subkeys_def)
  have "hivex_node_add_child p name h = (Ok node, h4)"
    using h(2) ck name(1) get_child_absent(1)[OF h(1) ix new] c(1,2) g2 rd l(1) u4(1)
    by (simp add: hivex_node_add_child_def sbind_def x2(3,5) del: rd_Ok check_block_bid)
  then show ?thesis
    using add_child_facts[OF h(1) ix sk max k2 sk2 upd_same_but[OF c(3) vsk(1)] c(5,4,6,7) _ l(3,4) u4(2,3)] l(2) x2(3) that by simp
qed

section \<open>The order of names and the hash\<close>

lemma casecmp_trans:
  assumes "casecmp xs ys \<le> 0" and "casecmp ys zs < 0" and "0 \<notin> set xs" "0 \<notin> set ys" "0 \<notin> set zs"
  shows "casecmp xs zs < 0"
  using assms
proof (induction xs ys arbitrary: zs rule: casecmp.induct)
  case 1
  then show ?case by (cases zs) auto
next
  case (2 y ys)
  show ?case
  proof (cases zs)
    case (Cons z zs')
    have "lower z \<noteq> 0" using 2 Cons by auto
    then have "0 < uint (lower z)" by (metis uint_0_iff uint_ge_0 order_le_less)
    then show ?thesis using Cons by simp
  qed (use 2 in auto)
next
  case (3 x xs)
  then have "lower x \<noteq> 0" by auto
  then have "0 < uint (lower x)" by (metis uint_0_iff uint_ge_0 order_le_less)
  then show ?case using 3 by simp
next
  case (4 x xs y ys)
  show ?case
  proof (cases zs)
    case Nil
    have "0 \<le> uint (lower y)" by simp
    then show ?thesis using 4 Nil by simp
  next
    case (Cons z zs')
    show ?thesis
    proof (cases "lower x = lower y \<and> lower y = lower z")
      case True
      then show ?thesis using 4 Cons by simp
    next
      case False
      have "uint (lower x) \<le> uint (lower y)" using 4(2) by (simp split: if_splits)
      moreover have "uint (lower y) \<le> uint (lower z)" using 4(3) Cons by (simp split: if_splits)
      moreover have "uint (lower x) \<noteq> uint (lower z)"
        using False calculation unfolding word_uint_eq_iff by linarith
      ultimately show ?thesis using Cons by (auto simp: word_uint_eq_iff)
    qed
  qed
qed

text \<open>The names of the children come in strictly increasing order.\<close>

definition in_order :: "hive \<Rightarrow> nat list \<Rightarrow> bool" where
  "in_order h cs \<longleftrightarrow> sorted_wrt (\<lambda>a b. strcasecmp (node_name h a) (node_name h b) < 0) cs"

lemma strcasecmp_trans: "strcasecmp a b \<le> 0 \<Longrightarrow> strcasecmp b c < 0 \<Longrightarrow> strcasecmp a c < 0"
  unfolding strcasecmp_def by (erule casecmp_trans) (auto dest: cstr_nonzero)

lemma not_before_iff: "not_before h name c \<longleftrightarrow> strcasecmp (node_name h c) name \<le> 0"
  using strcasecmp_antisym[of "node_name h c" name] by (simp add: not_before_def)

lemma in_order_insert:
  assumes o: "in_order h cs" and new: "\<forall>c \<in> set cs. \<not> STRCASEEQ (node_name h c) name"
    and same: "\<forall>c \<in> set cs. node_name h' c = node_name h c" and n: "node_name h' node = cstr name"
  shows "in_order h' (insert_child h name cs node)"
proof -
  let ?P = "not_before h name" and ?lt = "\<lambda>h a b. strcasecmp (node_name h a) (node_name h b) < 0"
  have cmp: "strcasecmp a (cstr name) = strcasecmp a name" "strcasecmp (cstr name) a = strcasecmp name a" for a
    by (simp_all add: strcasecmp_def)
  have tk: "set (takeWhile ?P cs) \<subseteq> set cs" and dr: "set (dropWhile ?P cs) \<subseteq> set cs"
    by (auto dest: set_takeWhileD set_dropWhileD)
  have split: "sorted_wrt (?lt h) (takeWhile ?P cs @ dropWhile ?P cs)" using o by (simp add: in_order_def)
  have below: "strcasecmp (node_name h c) name < 0" if "c \<in> set (takeWhile ?P cs)" for c
    using set_takeWhileD[OF that] new by (force simp: not_before_iff STRCASEEQ_def)
  have above: "strcasecmp name (node_name h c) < 0" if "c \<in> set (dropWhile ?P cs)" for c
  proof (cases "dropWhile ?P cs")
    case (Cons d ds)
    have d: "strcasecmp name (node_name h d) < 0"
      using hd_dropWhile[of ?P cs] Cons by (simp add: not_before_def)
    show ?thesis
    proof (cases "c = d")
      case False
      then have "?lt h d c" using split that Cons by (simp add: sorted_wrt_append)
      with d show ?thesis using strcasecmp_trans[of name "node_name h d" "node_name h c"] by simp
    qed (use d in simp)
  qed (use that in \<open>simp del: dropWhile_eq_Nil_conv\<close>)
  have m: "sorted_wrt (?lt h') xs" if "sorted_wrt (?lt h) xs" "set xs \<subseteq> set cs" for xs
  proof (rule sorted_wrt_mono_rel[OF _ that(1)])
    show "?lt h' x y" if "x \<in> set xs" "y \<in> set xs" "?lt h x y" for x y
      using that same subsetD[OF \<open>set xs \<subseteq> set cs\<close>] by simp
  qed
  show ?thesis
    unfolding in_order_def insert_child_def
    using split[unfolded sorted_wrt_append] m[of "takeWhile ?P cs"] m[of "dropWhile ?P cs"] below above same tk dr n
    by (auto simp: sorted_wrt_append cmp subset_iff)
qed

lemma c_toupper_lower: "c_toupper (lower c) = c_toupper c"
proof (cases "65 \<le> c \<and> c \<le> 90")
  case True
  then have b: "65 \<le> unat c" "unat c \<le> 90" by (simp_all add: word_le_nat_alt)
  then have "unat (c + 32) = unat c + 32" by (simp add: unat_word_ariths)
  then have "97 \<le> c + 32" "c + 32 \<le> 122" using b by (simp_all add: word_le_nat_alt)
  moreover have "\<not> 97 \<le> c" using b by (simp add: word_le_nat_alt)
  ultimately show ?thesis using True by (simp add: lower_def c_toupper_def)
qed (auto simp: lower_def)

lemma lh_hash_lower: "lh_hash (map lower name) = lh_hash name"
proof -
  have "foldl (\<lambda>h c. h * 37 + scast (c_toupper c)) s (map lower name) = foldl (\<lambda>h c. h * 37 + scast (c_toupper c)) s name"
    for s :: u32
    by (induction name arbitrary: s) (simp_all add: c_toupper_lower)
  then show ?thesis by (simp add: lh_hash_def)
qed

section \<open>Properties\<close>

text \<open>C8: \<^verbatim>\<open>hivex_node_add_child\<close> on a well-formed writable handle (within 4 GB), for a parent whose index
  and security record are in order and a name no child has: the call succeeds with a block that
  was not in use, the children of the parent are the old ones with the new node in front of the
  first one with a greater name, all other records keep their bytes, and the new node is found
  by its name and reads back with its name, its parent, no children and no values.\<close>

theorem add_child_correct:
  assumes "hive_ok h" and "writable h" and "endpages h \<le> 2 ^ 32" and "index_own h parent" and "sk_ok h (node_sk h parent)"
    and "nr_subkeys h parent < HIVEX_MAX_SUBKEYS" and "0 < strlen name" and "strlen name < 2 ^ 16"
    and "\<forall>c \<in> set (child_offsets h parent). \<not> STRCASEEQ (node_name h c) name"
  shows "\<exists>node h'. hivex_node_add_child parent name h = (Ok node, h') \<and> add_post h parent name node h' \<and>
    (endpages h' \<le> 2 ^ 32 \<longrightarrow>
       hivex_node_children h' parent = Ok (insert_child h name (child_offsets h parent) node @ [0]) \<and>
       hivex_node_get_child h' parent name = Ok node \<and> hivex_node_name h' node = Ok (cstr name @ [0]) \<and>
       hivex_node_parent h' node = Ok parent \<and> hivex_node_children h' node = Ok [0] \<and>
       hivex_node_values h' node = Ok [0])"
proof -
  obtain node h' where r: "hivex_node_add_child parent name h = (Ok node, h')" and p: "add_post h parent name node h'"
    using add_child_post[OF assms] by blast
  let ?cs = "child_offsets h parent"
  have "hivex_node_children h' parent = Ok (insert_child h name ?cs node @ [0]) \<and>
       hivex_node_get_child h' parent name = Ok node \<and> hivex_node_name h' node = Ok (cstr name @ [0]) \<and>
       hivex_node_parent h' node = Ok parent \<and> hivex_node_children h' node = Ok [0] \<and> hivex_node_values h' node = Ok [0]"
    if ep: "endpages h' \<le> 2 ^ 32"
  proof (intro conjI)
    have ok: "hive_ok h'" and leaf: "leaf_node h' node parent name" and ix: "index_own h' parent"
      and co: "child_offsets h' parent = insert_child h name ?cs node"
      and nm: "\<forall>c \<in> set ?cs. node_name h' c = node_name h c" and vp: "IS_VALID_BLOCK h' parent"
      using p ep by (auto simp: add_post_def keeps_def same_but_def)
    have nk: "is_nk h' node" and nn: "node_name h' node = cstr name" using leaf by (auto simp: leaf_node_def)
    have ch: "\<forall>c \<in> set (child_offsets h' parent). is_nk h' c" using ix by (simp add: index_own_def)
    show c: "hivex_node_children h' parent = Ok (insert_child h name ?cs node @ [0])"
      using get_children_eq[OF ok, of parent 0] ix ch by (auto simp: index_own_def is_nk_def hivex_node_children_def co)
    have name_of: "hivex_node_name h' c = Ok (node_name h' c @ [0])" if "is_nk h' c" for c
      using hivex_node_name_eq[OF ok that] by (simp add: node_name_def)
    show "hivex_node_name h' node = Ok (cstr name @ [0])" using name_of[OF nk] nn by simp
    have e: "insert_child h name ?cs node @ [0] = takeWhile (not_before h name) ?cs @ node # dropWhile (not_before h name) ?cs @ [0]"
      by (simp add: insert_child_def)
    show "hivex_node_get_child h' parent name = Ok node"
    proof (rule kids.search_hit[OF c[unfolded e]])
      show "kids.matches h' name node" using name_of[OF nk] nn by (simp add: kids.matches_def STRCASEEQ_iff)
      show "kids.differs h' name y" if "y \<in> set (takeWhile (not_before h name) ?cs)" for y
      proof -
        have "y \<in> set ?cs" using that by (auto dest: set_takeWhileD)
        then show ?thesis using name_of[of y] nm assms(9) ch co that
          by (auto simp: kids.differs_def STRCASEEQ_iff insert_child_def)
      qed
    qed
    have rd: "rd32 h' (node + 20) = Ok (of_nat parent - 0x1000)"
      using is_nk_bounds(2)[OF ok nk] leaf by (simp add: leaf_node_def)
    have "check_block h' node id_nk EINVAL = Ok ()" using nk is_nk_bounds(2)[OF ok nk] by (auto simp: is_nk_def)
    then show "hivex_node_parent h' node = Ok parent"
      using rd off32_valid[OF ok vp ep] vp
      by (simp add: hivex_node_parent_def Let_def off32_def del: rd_Ok check_block_bid)
    have z: "nr_subkeys h' node = 0" "nr_values h' node = 0" using leaf by (auto simp: leaf_node_def)
    have "index_ok h' node" "child_offsets h' node = []"
      using nk z by (simp_all add: index_ok_def child_offsets_def leaf_blocks_def child_blocks_def)
    then show "hivex_node_children h' node = Ok [0]"
      using get_children_eq[OF ok, of node 0] by (simp add: hivex_node_children_def)
    show "hivex_node_values h' node = Ok [0]"
      using set_values_empty[OF ok z(2) nk] by (auto simp: holds_values_def)
  qed
  with r p show ?thesis by blast
qed

text \<open>C13: Children stay sorted. If the parent's children are in increasing order of their names (up to
  case), then after \<^verbatim>\<open>hivex_node_add_child\<close> they still are, which is what the comment in the code
  says Windows relies on.\<close>

theorem add_child_keeps_order:
  assumes "hive_ok h" and "writable h" and "endpages h \<le> 2 ^ 32" and "index_own h parent" and "sk_ok h (node_sk h parent)"
    and "nr_subkeys h parent < HIVEX_MAX_SUBKEYS" and "0 < strlen name" and "strlen name < 2 ^ 16"
    and "\<forall>c \<in> set (child_offsets h parent). \<not> STRCASEEQ (node_name h c) name"
    and "in_order h (child_offsets h parent)"
  shows "\<exists>node h'. hivex_node_add_child parent name h = (Ok node, h') \<and>
    (endpages h' \<le> 2 ^ 32 \<longrightarrow> in_order h' (child_offsets h' parent))"
proof -
  obtain node h' where r: "hivex_node_add_child parent name h = (Ok node, h')" and p: "add_post h parent name node h'"
    using add_child_post[OF assms(1-9)] by blast
  then show ?thesis
    using in_order_insert[OF assms(10,9)] by (auto simp: add_post_def leaf_node_def)
qed

text \<open>C39: \<^verbatim>\<open>hivex_node_add_child\<close> refuses and leaves the handle as it was: \<^verbatim>\<open>EROFS\<close> when it is not writable,
  \<^verbatim>\<open>EINVAL\<close> when the parent is no \<^verbatim>\<open>nk\<close> block in use or the name is empty, \<^verbatim>\<open>EEXIST\<close> when a child of
  that name is found.\<close>

theorem add_child_refuses:
  assumes "hive_ok h"
  shows "(\<not> writable h \<longrightarrow> hivex_node_add_child parent name h = (Err EROFS, h)) \<and>
    (writable h \<longrightarrow> \<not> (IS_VALID_BLOCK h parent \<and> id_of h parent = id_nk) \<longrightarrow>
       hivex_node_add_child parent name h = (Err EINVAL, h)) \<and>
    (writable h \<longrightarrow> strlen name = 0 \<longrightarrow> hivex_node_add_child parent name h = (Err EINVAL, h)) \<and>
    (writable h \<longrightarrow> IS_VALID_BLOCK h parent \<longrightarrow> id_of h parent = id_nk \<longrightarrow> 0 < strlen name \<longrightarrow>
       (\<forall>c. hivex_node_get_child h parent name = Ok c \<longrightarrow> c \<noteq> 0 \<longrightarrow>
          hivex_node_add_child parent name h = (Err EEXIST, h)))"
proof -
  have ck: "check_block h parent id_nk EINVAL =
      (if IS_VALID_BLOCK h parent \<and> id_of h parent = id_nk then Ok () else Err EINVAL)"
    using check_block_refuses[OF assms] hive_ok_valid(3,4)[OF assms, of parent] by auto
  then show ?thesis by (auto simp: hivex_node_add_child_def sbind_def simp del: check_block_bid)
qed

text \<open>The hash stored in an lh-record does not depend on the case of the name, as lookups by name
  do not.\<close>

lemma calc_hash_case_insensitive:
  assumes "STRCASEEQ a b"
  shows "calc_hash id_lh a ret h = calc_hash id_lh b ret h"
proof -
  have "lh_hash (cstr a) = lh_hash (cstr b)"
    using assms lh_hash_lower[of "cstr a"] lh_hash_lower[of "cstr b"] by (simp add: STRCASEEQ_iff)
  then show ?thesis by (simp add: calc_hash_def id_lh_def id_lf_def)
qed

end
