(* ===== verification/Visit.thy ===== *)
theory Visit
  imports Strings
begin

text \<open>
  The visitor of \<^verbatim>\<open>lib/hivex.c\<close>. A visitor is a record of optional callbacks; a callback is an
  operation on the handle and the caller's own state (\<^verbatim>\<open>opaque\<close>), and \<open>Err e\<close> is a callback that
  returned \<^verbatim>\<open>-1\<close>. The bitmap \<^verbatim>\<open>unvisited\<close> is threaded through the traversal.

  The \<^verbatim>\<open>goto error\<close> of an internal error gives \<^verbatim>\<open>0\<close> or \<^verbatim>\<open>-1\<close> depending on
  \<^verbatim>\<open>HIVEX_VISIT_SKIP_BAD\<close>; in the parts of the function it leaves early \<open>Ok False\<close> is the exit
  with \<^verbatim>\<open>0\<close> and \<open>Ok True\<close> goes on.

  The recursion over the children takes fuel. The bitmap loses one bit per visited node, so the
  number of its slots is enough, which is proved below.
\<close>

section \<open>Definitions\<close>

type_synonym 's vstate = "hive \<times> 's"

record 's hivex_visitor =
  node_start :: "(hive_node_h \<Rightarrow> byte list \<Rightarrow> ('s vstate, unit) op) option"
  node_end :: "(hive_node_h \<Rightarrow> byte list \<Rightarrow> ('s vstate, unit) op) option"
  value_string :: "(hive_node_h \<Rightarrow> hive_value_h \<Rightarrow> u32 \<Rightarrow> nat \<Rightarrow> byte list \<Rightarrow> byte list \<Rightarrow> ('s vstate, unit) op) option"
  value_multiple_strings :: "(hive_node_h \<Rightarrow> hive_value_h \<Rightarrow> u32 \<Rightarrow> nat \<Rightarrow> byte list \<Rightarrow> byte list list \<Rightarrow> ('s vstate, unit) op) option"
  value_string_invalid_utf16 :: "(hive_node_h \<Rightarrow> hive_value_h \<Rightarrow> u32 \<Rightarrow> nat \<Rightarrow> byte list \<Rightarrow> byte list option \<Rightarrow> ('s vstate, unit) op) option"
  value_dword :: "(hive_node_h \<Rightarrow> hive_value_h \<Rightarrow> u32 \<Rightarrow> nat \<Rightarrow> byte list \<Rightarrow> u32 \<Rightarrow> ('s vstate, unit) op) option"
  value_qword :: "(hive_node_h \<Rightarrow> hive_value_h \<Rightarrow> u32 \<Rightarrow> nat \<Rightarrow> byte list \<Rightarrow> u64 \<Rightarrow> ('s vstate, unit) op) option"
  value_binary :: "(hive_node_h \<Rightarrow> hive_value_h \<Rightarrow> u32 \<Rightarrow> nat \<Rightarrow> byte list \<Rightarrow> byte list \<Rightarrow> ('s vstate, unit) op) option"
  value_none :: "(hive_node_h \<Rightarrow> hive_value_h \<Rightarrow> u32 \<Rightarrow> nat \<Rightarrow> byte list \<Rightarrow> byte list \<Rightarrow> ('s vstate, unit) op) option"
  value_other :: "(hive_node_h \<Rightarrow> hive_value_h \<Rightarrow> u32 \<Rightarrow> nat \<Rightarrow> byte list \<Rightarrow> byte list \<Rightarrow> ('s vstate, unit) op) option"
  value_any :: "(hive_node_h \<Rightarrow> hive_value_h \<Rightarrow> u32 \<Rightarrow> nat \<Rightarrow> byte list \<Rightarrow> byte list \<Rightarrow> ('s vstate, unit) op) option"

definition empty_visitor :: "'s hivex_visitor" where
  "empty_visitor =
     \<lparr>node_start = None, node_end = None, value_string = None, value_multiple_strings = None,
      value_string_invalid_utf16 = None, value_dword = None, value_qword = None, value_binary = None,
      value_none = None, value_other = None, value_any = None\<rparr>"

definition HIVEX_VISIT_SKIP_BAD :: u32 where "HIVEX_VISIT_SKIP_BAD = 1"

text \<open>\<^verbatim>\<open>ret = skip_bad ? 0 : -1; goto error\<close>, and a read that does so when it fails.\<close>

definition bad :: "bool \<Rightarrow> errno \<Rightarrow> ('s, bool) op" where
  "bad skip_bad e = (if skip_bad then sret False else sfail e)"

definition or_bad :: "bool \<Rightarrow> (hive \<Rightarrow> 'a result) \<Rightarrow> ('a \<Rightarrow> ('s vstate, bool) op) \<Rightarrow> ('s vstate, bool) op" where
  "or_bad skip_bad f k st =
     (case f (fst st) of
        Ok x \<Rightarrow> k x st
      | Err e \<Rightarrow> bad skip_bad e st
      | Fault z \<Rightarrow> (Fault z, st))"

text \<open>\<^verbatim>\<open>if (vtor->cb && vtor->cb (...) == -1) goto error;\<close>\<close>

definition call :: "'f option \<Rightarrow> ('f \<Rightarrow> ('s, unit) op) \<Rightarrow> ('s, bool) op" where
  "call cb k = (case cb of None \<Rightarrow> sret True | Some f \<Rightarrow> sbind (k f) (\<lambda>_. sret True))"

definition visit_invalid_utf16 ::
  "'s hivex_visitor \<Rightarrow> hive_node_h \<Rightarrow> hive_value_h \<Rightarrow> u32 \<Rightarrow> nat \<Rightarrow> byte list \<Rightarrow> ('s vstate, bool) op" where
  "visit_invalid_utf16 vtor node value t len key st =
     (case value_string_invalid_utf16 vtor of
        None \<Rightarrow> (Ok True, st)
      | Some f \<Rightarrow>
          (case hivex_value_value (fst st) value of
             Ok (t, len, str) \<Rightarrow> sbind (f node value t len key (Some str)) (\<lambda>_. sret True) st
           | Err e \<Rightarrow> sbind (f node value t len key None) (\<lambda>_. sret True) st
           | Fault z \<Rightarrow> (Fault z, st)))"

definition visit_string_value ::
  "'s hivex_visitor \<Rightarrow> bool \<Rightarrow> hive_node_h \<Rightarrow> hive_value_h \<Rightarrow> u32 \<Rightarrow> nat \<Rightarrow> byte list \<Rightarrow> ('s vstate, bool) op" where
  "visit_string_value vtor skip_bad node value t len key st =
     (case hivex_value_string (fst st) value of
        Ok str \<Rightarrow> call (value_string vtor) (\<lambda>f. f node value t len key str) st
      | Err e \<Rightarrow>
          if e \<noteq> EILSEQ \<and> e \<noteq> EINVAL then bad skip_bad e st
          else visit_invalid_utf16 vtor node value t len key st
      | Fault z \<Rightarrow> (Fault z, st))"

definition visit_multiple_value ::
  "'s hivex_visitor \<Rightarrow> bool \<Rightarrow> hive_node_h \<Rightarrow> hive_value_h \<Rightarrow> u32 \<Rightarrow> nat \<Rightarrow> byte list \<Rightarrow> ('s vstate, bool) op" where
  "visit_multiple_value vtor skip_bad node value t len key st =
     (case hivex_value_multiple_strings (fst st) value of
        Ok strs \<Rightarrow> call (value_multiple_strings vtor) (\<lambda>f. f node value t len key strs) st
      | Err e \<Rightarrow>
          if e \<noteq> EILSEQ \<and> e \<noteq> EINVAL then bad skip_bad e st
          else visit_invalid_utf16 vtor node value t len key st
      | Fault z \<Rightarrow> (Fault z, st))"

text \<open>The number readers return \<^verbatim>\<open>-1\<close> on error and the visitor does not look at \<^verbatim>\<open>errno\<close>.\<close>

definition num_or_minus1 :: "(hive \<Rightarrow> 'a::len word result) \<Rightarrow> ('a word \<Rightarrow> ('s vstate, bool) op) \<Rightarrow> ('s vstate, bool) op" where
  "num_or_minus1 f k st =
     (case f (fst st) of Ok w \<Rightarrow> k w st | Err e \<Rightarrow> k (-1) st | Fault z \<Rightarrow> (Fault z, st))"

definition visit_typed_value ::
  "'s hivex_visitor \<Rightarrow> bool \<Rightarrow> hive_node_h \<Rightarrow> hive_value_h \<Rightarrow> u32 \<Rightarrow> nat \<Rightarrow> byte list \<Rightarrow> ('s vstate, bool) op" where
  "visit_typed_value vtor skip_bad node value t len key =
     (if t = hive_t_none then
        or_bad skip_bad (\<lambda>h. hivex_value_value h value) (\<lambda>(t', len, str).
          if t' \<noteq> hive_t_none then bad skip_bad EINVAL
          else call (value_none vtor) (\<lambda>f. f node value t' len key str))
      else if t = hive_t_string \<or> t = hive_t_expand_string \<or> t = hive_t_link then
        visit_string_value vtor skip_bad node value t len key
      else if t = hive_t_dword \<or> t = hive_t_dword_be then
        num_or_minus1 (\<lambda>h. hivex_value_dword h value) (\<lambda>i32.
          call (value_dword vtor) (\<lambda>f. f node value t len key i32))
      else if t = hive_t_qword then
        num_or_minus1 (\<lambda>h. hivex_value_qword h value) (\<lambda>i64.
          call (value_qword vtor) (\<lambda>f. f node value t len key i64))
      else if t = hive_t_binary then
        or_bad skip_bad (\<lambda>h. hivex_value_value h value) (\<lambda>(t', len, str).
          if t' \<noteq> hive_t_binary then bad skip_bad EINVAL
          else call (value_binary vtor) (\<lambda>f. f node value t' len key str))
      else if t = hive_t_multiple_strings then
        visit_multiple_value vtor skip_bad node value t len key
      else
        or_bad skip_bad (\<lambda>h. hivex_value_value h value) (\<lambda>(t', len, str).
          call (value_other vtor) (\<lambda>f. f node value t' len key str)))"

definition visit_value :: "'s hivex_visitor \<Rightarrow> bool \<Rightarrow> hive_node_h \<Rightarrow> hive_value_h \<Rightarrow> ('s vstate, bool) op" where
  "visit_value vtor skip_bad node value =
     or_bad skip_bad (\<lambda>h. hivex_value_type h value) (\<lambda>(t, len).
     or_bad skip_bad (\<lambda>h. hivex_value_key h value) (\<lambda>key.
     case value_any vtor of
       Some f \<Rightarrow>
         or_bad skip_bad (\<lambda>h. hivex_value_value h value) (\<lambda>(t, len, str).
           sbind (f node value t len key str) (\<lambda>_. sret True))
     | None \<Rightarrow> visit_typed_value vtor skip_bad node value t len key))"

primrec visit_values :: "'s hivex_visitor \<Rightarrow> bool \<Rightarrow> hive_node_h \<Rightarrow> nat list \<Rightarrow> ('s vstate, bool) op" where
  "visit_values vtor skip_bad node [] = sfault (OutOfBounds 0)"
| "visit_values vtor skip_bad node (v # vs) =
     (if v = 0 then sret True
      else sbind (visit_value vtor skip_bad node v) (\<lambda>go.
        if go then visit_values vtor skip_bad node vs else sret False))"

text \<open>The part of the state the callbacks see, inside the state of the traversal.\<close>

definition with_hive :: "('s vstate, 'a) op \<Rightarrow> ('s vstate \<times> bitmap, 'a) op" where
  "with_hive f st = (case f (fst st) of (r, s) \<Rightarrow> (r, (s, snd st)))"

definition visit_start :: "'s hivex_visitor \<Rightarrow> bool \<Rightarrow> hive_node_h \<Rightarrow> byte list \<Rightarrow> ('s vstate, bool) op" where
  "visit_start vtor skip_bad node name =
     sbind (call (node_start vtor) (\<lambda>f. f node name)) (\<lambda>_.
     or_bad skip_bad (\<lambda>h. hivex_node_values h node) (visit_values vtor skip_bad node))"

definition visit_children_of ::
  "'s hivex_visitor \<Rightarrow> bool \<Rightarrow> (nat \<Rightarrow> ('s vstate \<times> bitmap, unit) op) \<Rightarrow> hive_node_h \<Rightarrow> byte list \<Rightarrow>
     ('s vstate \<times> bitmap, unit) op" where
  "visit_children_of vtor skip_bad rec node name st =
     (case hivex_node_children (fst (fst st)) node of
        Ok cs \<Rightarrow>
          sbind (sfor_z rec cs) (\<lambda>_.
          sbind (with_hive (call (node_end vtor) (\<lambda>f. f node name))) (\<lambda>_. sret ())) st
      | Err e \<Rightarrow> ((if skip_bad then Ok () else Err e), st)
      | Fault z \<Rightarrow> (Fault z, st))"

definition visit_body ::
  "'s hivex_visitor \<Rightarrow> bool \<Rightarrow> (nat \<Rightarrow> ('s vstate \<times> bitmap, unit) op) \<Rightarrow> hive_node_h \<Rightarrow>
     ('s vstate \<times> bitmap, unit) op" where
  "visit_body vtor skip_bad rec node st =
     (case st of ((h, s), unvisited) \<Rightarrow>
        if length unvisited \<le> node div 32 then (Fault (OutOfBounds node), st)
        else if \<not> BITMAP_TST unvisited node then ((if skip_bad then Ok () else Err ELOOP), st)
        else
          let st = ((h, s), BITMAP_CLR unvisited node) in
          (case hivex_node_name h node of
             Ok name \<Rightarrow>
               sbind (with_hive (visit_start vtor skip_bad node name)) (\<lambda>go.
                 if go then visit_children_of vtor skip_bad rec node name else sret ()) st
           | Err e \<Rightarrow> ((if skip_bad then Ok () else Err e), st)
           | Fault z \<Rightarrow> (Fault z, st)))"

primrec hivex__visit_node ::
  "nat \<Rightarrow> 's hivex_visitor \<Rightarrow> bool \<Rightarrow> hive_node_h \<Rightarrow> ('s vstate \<times> bitmap, unit) op" where
  "hivex__visit_node 0 vtor skip_bad node = sfault OutOfFuel"
| "hivex__visit_node (Suc fuel) vtor skip_bad node =
     visit_body vtor skip_bad (hivex__visit_node fuel vtor skip_bad) node"

definition hivex_visit_node :: "hive_node_h \<Rightarrow> 's hivex_visitor \<Rightarrow> u32 \<Rightarrow> ('s vstate, unit) op" where
  "hivex_visit_node node vtor flags = (\<lambda>(h, s).
     let unvisited = take (1 + hsize h div 32) (bitmap h) in
     (case hivex__visit_node (Suc (bitmap_slots unvisited)) vtor (flags AND HIVEX_VISIT_SKIP_BAD \<noteq> 0)
             node ((h, s), unvisited) of
        (r, (st, _)) \<Rightarrow> (r, st)))"

definition hivex_visit :: "'s hivex_visitor \<Rightarrow> u32 \<Rightarrow> ('s vstate, unit) op" where
  "hivex_visit vtor flags = (\<lambda>(h, s).
     case hivex_root h of
       Ok root \<Rightarrow> hivex_visit_node root vtor flags (h, s)
     | Err e \<Rightarrow> hivex_visit_node 0 vtor flags (h, s)
     | Fault z \<Rightarrow> (Fault z, (h, s)))"

section \<open>The readers do not run out of fuel\<close>

definition has_fuel :: "'a result \<Rightarrow> bool" where
  "has_fuel r \<longleftrightarrow> r \<noteq> Fault OutOfFuel"

lemma has_fuel_simps [simp]:
  "has_fuel (Ok x)" "has_fuel (Err e)" "has_fuel (Fault (OutOfBounds n))" "has_fuel (Fault AssertFailed)"
  "has_fuel (Fault SignedOverflow)" "has_fuel (Fault StackOverflow)" "has_fuel (Fault ExitFailure)" "has_fuel (guard b e)"
  by (simp_all add: has_fuel_def guard_def)

lemma has_fuel_rbind:
  "has_fuel m \<Longrightarrow> (\<And>x. m = Ok x \<Longrightarrow> has_fuel (f x)) \<Longrightarrow> has_fuel (rbind m f)"
  by (cases m) (auto simp: has_fuel_def)

lemma has_fuel_no_fault: "no_fault r \<Longrightarrow> has_fuel r"
  by (auto simp: has_fuel_def)

lemma has_fuel_accessors [simp]:
  "has_fuel (rd16 h a)" "has_fuel (rd32 h a)" "has_fuel (rd64 h a)" "has_fuel (rd_bytes h a n)"
  "has_fuel (BLOCK_ID_EQ h a i)" "has_fuel (check_block h a i e)" "has_fuel (block_len h a)"
  "has_fuel (check_lf h a)" "has_fuel (add_to_offset_list l x)" "has_fuel (grow_offset_list l n)"
  "has_fuel (return_offset_list l)" "has_fuel (children_ok l l')"
proof -
  show rd: "has_fuel (rd16 h a)" "has_fuel (rd32 h a)" "has_fuel (rd64 h a)" "has_fuel (rd_bytes h a n)" for a n
    by (simp_all add: rd16_def rd32_def rd64_def rd_bytes_def)
  show b: "has_fuel (BLOCK_ID_EQ h a i)" for i by (auto simp: BLOCK_ID_EQ_def intro!: has_fuel_rbind rd)
  show "has_fuel (check_block h a i e)" by (auto simp: check_block_def intro!: has_fuel_rbind b)
  show "has_fuel (block_len h a)" by (auto simp: block_len_def Let_def intro!: has_fuel_rbind rd)
  show "has_fuel (check_lf h a)" by (auto simp: check_lf_def intro!: has_fuel_rbind b)
  show g: "has_fuel (grow_offset_list l n)" for l n by (simp add: grow_offset_list_def)
  show ad: "has_fuel (add_to_offset_list l x)" for l x
    by (auto simp: add_to_offset_list_def intro!: has_fuel_rbind g)
  show r: "has_fuel (return_offset_list l)" for l
    by (auto simp: return_offset_list_def intro!: has_fuel_rbind ad)
  show "has_fuel (children_ok l l')" by (auto simp: children_ok_def intro!: has_fuel_rbind r)
qed

lemma has_fuel_loops [simp]:
  "has_fuel (lf_loop h lf flags is c)" "has_fuel (ri_count h lf is c n)" "has_fuel (ri_copy h lf flags is c)"
  "has_fuel (values_loop h lf is c)"
proof -
  show l: "has_fuel (lf_loop h lf flags is c)" for lf "is" c
    by (induction "is" arbitrary: c) (auto simp: Let_def intro!: has_fuel_rbind)
  show "has_fuel (ri_count h lf is c n)"
    by (induction "is" arbitrary: c n) (auto simp: Let_def intro!: has_fuel_rbind)
  show "has_fuel (ri_copy h lf flags is c)"
    by (induction "is" arbitrary: c) (auto simp: Let_def intro!: has_fuel_rbind l)
  show "has_fuel (values_loop h lf is c)"
    by (induction "is" arbitrary: c) (auto simp: Let_def intro!: has_fuel_rbind)
qed

lemma has_fuel_readers [simp]:
  "has_fuel (hivex_node_name h n)" "has_fuel (hivex_node_children h n)" "has_fuel (hivex_node_values h n)"
  "has_fuel (hivex_value_key h n)" "has_fuel (hivex_value_type h n)" "has_fuel (hivex_value_value h n)"
proof -
  show "has_fuel (hivex_node_name h n)"
    by (auto simp: hivex_node_name_def Let_def intro!: has_fuel_rbind)
  have "has_fuel (get_children h n 0)"
    by (auto simp: get_children_def get_children_lf_def get_children_ri_def Let_def intro!: has_fuel_rbind)
  then show "has_fuel (hivex_node_children h n)"
    by (auto simp: hivex_node_children_def intro!: has_fuel_rbind)
  have "has_fuel (get_values h n)" by (auto simp: get_values_def Let_def intro!: has_fuel_rbind)
  then show "has_fuel (hivex_node_values h n)"
    by (auto simp: hivex_node_values_def intro!: has_fuel_rbind)
  show "has_fuel (hivex_value_key h n)"
    by (auto simp: hivex_value_key_def hivex_value_key_len_def Let_def intro!: has_fuel_rbind)
  show "has_fuel (hivex_value_type h n)"
    by (auto simp: hivex_value_type_def intro!: has_fuel_rbind)
  show "has_fuel (hivex_value_value h n)"
    by (auto simp: hivex_value_value_def Let_def intro!: has_fuel_rbind)
qed

lemma value_value_length:
  assumes "hivex_value_value h v = Ok (t, len, data)"
  shows "length data = len" "length data < 2 ^ 63"
  using assms by (auto simp: hivex_value_value_def Let_def HIVEX_MAX_VALUE_LEN_def split: if_splits)

lemma has_fuel_typed [simp]:
  "has_fuel (hivex_value_string h n)" "has_fuel (hivex_value_multiple_strings h n)"
  "has_fuel (hivex_value_dword h n)" "has_fuel (hivex_value_qword h n)"
proof -
  have cv: "has_fuel (windows_utf16_to_utf8 (take k data))" "has_fuel (multiple_loop (take k data))"
    if "hivex_value_value h n = Ok (t, len, data)" for t len data k
    using value_value_length(2)[OF that]
    by (auto intro!: has_fuel_no_fault convert_no_fault multiple_loop_no_fault)
  show "has_fuel (hivex_value_string h n)"
    by (auto simp: hivex_value_string_def Let_def intro!: has_fuel_rbind cv(1))
  show "has_fuel (hivex_value_multiple_strings h n)"
    by (auto simp: hivex_value_multiple_strings_def intro!: has_fuel_rbind cv(2))
  show "has_fuel (hivex_value_dword h n)" "has_fuel (hivex_value_qword h n)"
    by (auto simp: hivex_value_dword_def hivex_value_qword_def Let_def intro!: has_fuel_rbind)
qed

section \<open>Every traversal ends\<close>

definition op_has_fuel :: "('s, 'a) op \<Rightarrow> bool" where
  "op_has_fuel f \<longleftrightarrow> (\<forall>s. has_fuel (fst (f s)))"

text \<open>The callbacks return: none of them runs out of fuel of its own.\<close>

definition visitor_returns :: "'s hivex_visitor \<Rightarrow> bool" where
  "visitor_returns vt \<longleftrightarrow>
     (\<forall>f. node_start vt = Some f \<longrightarrow> (\<forall>n name. op_has_fuel (f n name))) \<and>
     (\<forall>f. node_end vt = Some f \<longrightarrow> (\<forall>n name. op_has_fuel (f n name))) \<and>
     (\<forall>f. value_string vt = Some f \<longrightarrow> (\<forall>n v t l k x. op_has_fuel (f n v t l k x))) \<and>
     (\<forall>f. value_multiple_strings vt = Some f \<longrightarrow> (\<forall>n v t l k x. op_has_fuel (f n v t l k x))) \<and>
     (\<forall>f. value_string_invalid_utf16 vt = Some f \<longrightarrow> (\<forall>n v t l k x. op_has_fuel (f n v t l k x))) \<and>
     (\<forall>f. value_dword vt = Some f \<longrightarrow> (\<forall>n v t l k x. op_has_fuel (f n v t l k x))) \<and>
     (\<forall>f. value_qword vt = Some f \<longrightarrow> (\<forall>n v t l k x. op_has_fuel (f n v t l k x))) \<and>
     (\<forall>f. value_binary vt = Some f \<longrightarrow> (\<forall>n v t l k x. op_has_fuel (f n v t l k x))) \<and>
     (\<forall>f. value_none vt = Some f \<longrightarrow> (\<forall>n v t l k x. op_has_fuel (f n v t l k x))) \<and>
     (\<forall>f. value_other vt = Some f \<longrightarrow> (\<forall>n v t l k x. op_has_fuel (f n v t l k x))) \<and>
     (\<forall>f. value_any vt = Some f \<longrightarrow> (\<forall>n v t l k x. op_has_fuel (f n v t l k x)))"

lemma callback_has_fuel:
  assumes "visitor_returns vt"
  shows "node_start vt = Some f1 \<Longrightarrow> op_has_fuel (f1 n name)"
    "node_end vt = Some f2 \<Longrightarrow> op_has_fuel (f2 n name)"
    "value_string vt = Some f3 \<Longrightarrow> op_has_fuel (f3 n v t l k x3)"
    "value_multiple_strings vt = Some f4 \<Longrightarrow> op_has_fuel (f4 n v t l k x4)"
    "value_string_invalid_utf16 vt = Some f5 \<Longrightarrow> op_has_fuel (f5 n v t l k x5)"
    "value_dword vt = Some f6 \<Longrightarrow> op_has_fuel (f6 n v t l k x6)"
    "value_qword vt = Some f7 \<Longrightarrow> op_has_fuel (f7 n v t l k x7)"
    "value_binary vt = Some f8 \<Longrightarrow> op_has_fuel (f8 n v t l k x8)"
    "value_none vt = Some f9 \<Longrightarrow> op_has_fuel (f9 n v t l k x9)"
    "value_other vt = Some f10 \<Longrightarrow> op_has_fuel (f10 n v t l k x10)"
    "value_any vt = Some f11 \<Longrightarrow> op_has_fuel (f11 n v t l k x11)"
  using assms unfolding visitor_returns_def by simp_all

lemma op_has_fuelD: "op_has_fuel f \<Longrightarrow> has_fuel (fst (f s))"
  by (simp add: op_has_fuel_def)

lemma op_has_fuel_sret [simp]: "op_has_fuel (sret x)" "op_has_fuel (bad b e)"
  by (simp_all add: op_has_fuel_def bad_def)

lemma op_has_fuel_sbind:
  "op_has_fuel m \<Longrightarrow> (\<And>x. op_has_fuel (f x)) \<Longrightarrow> op_has_fuel (sbind m f)"
  unfolding op_has_fuel_def sbind_def has_fuel_def
  by (auto split: prod.split result.split) (metis fst_conv)

lemma op_has_fuel_if: "op_has_fuel f \<Longrightarrow> op_has_fuel g \<Longrightarrow> op_has_fuel (if b then f else g)"
  by simp

lemma op_has_fuel_call: "(\<And>f. cb = Some f \<Longrightarrow> op_has_fuel (k f)) \<Longrightarrow> op_has_fuel (call cb k)"
  by (cases cb) (auto simp: call_def intro!: op_has_fuel_sbind)

lemma op_has_fuel_or_bad:
  assumes "\<And>h. has_fuel (g h)" and "\<And>x. op_has_fuel (k x)"
  shows "op_has_fuel (or_bad b g k)"
  using assms unfolding op_has_fuel_def or_bad_def
  by (auto simp: has_fuel_def bad_def split: result.split)

lemma op_has_fuel_num:
  assumes "\<And>h. has_fuel (g h)" and "\<And>x. op_has_fuel (k x)"
  shows "op_has_fuel (num_or_minus1 g k)"
  using assms unfolding op_has_fuel_def num_or_minus1_def
  by (auto simp: has_fuel_def split: result.split)

lemma op_has_fuel_invalid:
  assumes "visitor_returns vt"
  shows "op_has_fuel (visit_invalid_utf16 vt n v t l k)"
proof (cases "value_string_invalid_utf16 vt")
  case None
  then show ?thesis by (simp add: op_has_fuel_def visit_invalid_utf16_def)
next
  case (Some f)
  have f: "op_has_fuel (sbind (f n v t l k x) (\<lambda>_. sret True))" for t l x
    using callback_has_fuel(5)[OF assms Some] by (intro op_has_fuel_sbind) auto
  then show ?thesis
    using has_fuel_readers(6)[of _ v]
    by (auto simp: op_has_fuel_def visit_invalid_utf16_def Some has_fuel_def split: result.split)
qed

lemma op_has_fuel_strings:
  assumes "visitor_returns vt"
  shows "op_has_fuel (visit_string_value vt b n v t l k)" "op_has_fuel (visit_multiple_value vt b n v t l k)"
proof -
  note inv = op_has_fuel_invalid[OF assms]
  have "op_has_fuel (call (value_string vt) (\<lambda>f. f n v t l k x))"
    "op_has_fuel (call (value_multiple_strings vt) (\<lambda>f. f n v t l k y))" for x y
    using callback_has_fuel(3,4)[OF assms] by (auto intro!: op_has_fuel_call)
  then have c: "has_fuel (fst (call (value_string vt) (\<lambda>f. f n v t l k x) st))"
    "has_fuel (fst (call (value_multiple_strings vt) (\<lambda>f. f n v t l k y) st))"
    "has_fuel (fst (visit_invalid_utf16 vt n v t l k st))" "has_fuel (fst (bad b e st))" for x y st e
    using inv by (simp_all add: op_has_fuelD)
  have "has_fuel (fst (visit_string_value vt b n v t l k st))" for st
    using c has_fuel_typed(1)[of "fst st" v]
    by (cases "hivex_value_string (fst st) v") (simp_all add: visit_string_value_def has_fuel_def)
  then show "op_has_fuel (visit_string_value vt b n v t l k)" by (simp add: op_has_fuel_def)
  have "has_fuel (fst (visit_multiple_value vt b n v t l k st))" for st
    using c has_fuel_typed(2)[of "fst st" v]
    by (cases "hivex_value_multiple_strings (fst st) v") (simp_all add: visit_multiple_value_def has_fuel_def)
  then show "op_has_fuel (visit_multiple_value vt b n v t l k)" by (simp add: op_has_fuel_def)
qed

lemma op_has_fuel_typed:
  assumes "visitor_returns vt"
  shows "op_has_fuel (visit_typed_value vt b n v t l k)"
proof -
  note cb = callback_has_fuel[OF assms]
  have "op_has_fuel (or_bad b (\<lambda>h. hivex_value_value h v) (\<lambda>(t', len, str).
      if P t' then bad b e else call (value_none vt) (\<lambda>f. f n v t' len k str)))"
    "op_has_fuel (or_bad b (\<lambda>h. hivex_value_value h v) (\<lambda>(t', len, str).
      if P t' then bad b e else call (value_binary vt) (\<lambda>f. f n v t' len k str)))"
    "op_has_fuel (or_bad b (\<lambda>h. hivex_value_value h v) (\<lambda>(t', len, str).
      call (value_other vt) (\<lambda>f. f n v t' len k str)))"
    "op_has_fuel (num_or_minus1 (\<lambda>h. hivex_value_dword h v) (\<lambda>i. call (value_dword vt) (\<lambda>f. f n v t l k i)))"
    "op_has_fuel (num_or_minus1 (\<lambda>h. hivex_value_qword h v) (\<lambda>i. call (value_qword vt) (\<lambda>f. f n v t l k i)))"
    for P e
    by (auto intro!: op_has_fuel_or_bad op_has_fuel_num op_has_fuel_call dest: cb)
  note branches = this
  show ?thesis unfolding visit_typed_value_def
    by (intro op_has_fuel_if op_has_fuel_strings[OF assms] branches)
qed

lemma op_has_fuel_values:
  assumes "visitor_returns vt"
  shows "op_has_fuel (visit_values vt b n vs)"
proof -
  have "op_has_fuel (visit_value vt b n v)" for v
    using op_has_fuel_typed[OF assms] callback_has_fuel(11)[OF assms]
    by (auto simp: visit_value_def split: option.split intro!: op_has_fuel_or_bad op_has_fuel_sbind)
  then show ?thesis
    by (induction vs) (auto intro!: op_has_fuel_sbind simp: op_has_fuel_def[of "sfault _"])
qed

lemma op_has_fuel_start:
  assumes "visitor_returns vt"
  shows "op_has_fuel (visit_start vt b n name)"
  using callback_has_fuel(1)[OF assms] op_has_fuel_values[OF assms]
  by (auto simp: visit_start_def intro!: op_has_fuel_sbind op_has_fuel_call op_has_fuel_or_bad)

lemma sfor_z_inv:
  assumes "I st" and "\<And>c st. I st \<Longrightarrow> has_fuel (fst (f c st)) \<and> I (snd (f c st))"
  shows "has_fuel (fst (sfor_z f cs st)) \<and> I (snd (sfor_z f cs st))"
  using assms(1)
proof (induction cs arbitrary: st)
  case (Cons c cs)
  obtain r st' where f: "f c st = (r, st')" by (cases "f c st")
  with assms(2)[OF Cons.prems, of c] have "has_fuel r" "I st'" by auto
  with Cons f show ?case by (cases r) (auto simp: sbind_def)
qed simp

lemma with_hive_simps [simp]:
  "fst (with_hive f st) = fst (f (fst st))" "snd (with_hive f st) = (snd (f (fst st)), snd st)"
  by (simp_all add: with_hive_def split: prod.split)

text \<open>\<open>k\<close> bits of the bitmap are set at most: the measure of the recursion.\<close>

definition unseen :: "nat \<Rightarrow> 's vstate \<times> bitmap \<Rightarrow> bool" where
  "unseen k st \<longleftrightarrow> card (bm.present (snd st)) \<le> k"

lemma unseen_mono: "unseen k st \<Longrightarrow> k \<le> k' \<Longrightarrow> unseen k' st"
  by (simp add: unseen_def)

lemma visit_children_of_inv:
  assumes "visitor_returns vt" and "unseen k st"
    and "\<And>c st. unseen k st \<Longrightarrow> has_fuel (fst (rec c st)) \<and> unseen k (snd (rec c st))"
  shows "has_fuel (fst (visit_children_of vt b rec n name st)) \<and>
    unseen k (snd (visit_children_of vt b rec n name st))"
proof (cases "hivex_node_children (fst (fst st)) n")
  case (Ok cs)
  obtain r st' where c: "sfor_z rec cs st = (r, st')" by (cases "sfor_z rec cs st")
  then have r: "has_fuel r" "unseen k st'" using sfor_z_inv[where I = "unseen k" and f = rec and cs = cs, OF assms(2,3)] by auto
  let ?e = "with_hive (call (node_end vt) (\<lambda>f. f n name)) st'"
  have "op_has_fuel (call (node_end vt) (\<lambda>f. f n name))"
    using callback_has_fuel(2)[OF assms(1)] by (intro op_has_fuel_call)
  then have "has_fuel (fst ?e)" by (simp add: op_has_fuelD)
  moreover have "unseen k (snd ?e)" using r(2) by (simp add: unseen_def)
  ultimately have "has_fuel (fst (sbind (with_hive (call (node_end vt) (\<lambda>f. f n name))) (\<lambda>_. sret ()) st')) \<and>
      unseen k (snd (sbind (with_hive (call (node_end vt) (\<lambda>f. f n name))) (\<lambda>_. sret ()) st'))"
    by (cases ?e, cases "fst ?e") (auto simp: sbind_def has_fuel_def)
  with r show ?thesis by (cases r) (auto simp: visit_children_of_def Ok c sbind_def[of "sfor_z rec cs"] has_fuel_def)
next
  case (Err e)
  with assms(2) show ?thesis by (simp add: visit_children_of_def)
next
  case (Fault z)
  with assms(2) has_fuel_readers(2)[of "fst (fst st)" n] show ?thesis by (simp add: visit_children_of_def has_fuel_def)
qed

lemma visit_node_inv:
  assumes "visitor_returns vt" and "card (bm.present (snd st)) < fuel"
  shows "has_fuel (fst (hivex__visit_node fuel vt b n st)) \<and>
    card (bm.present (snd (snd (hivex__visit_node fuel vt b n st)))) \<le> card (bm.present (snd st))"
  using assms(2)
proof (induction fuel arbitrary: n st)
  case (Suc fuel)
  obtain h s unv where st: "st = ((h, s), unv)" by (metis surj_pair)
  show ?case
  proof (cases "length unv \<le> n div 32 \<or> \<not> BITMAP_TST unv n")
    case True
    then show ?thesis by (auto simp: st visit_body_def)
  next
    case False
    have "n div 4 div 8 < length unv" using False by (simp add: div_mult2_eq[symmetric])
    then have in_range: "n div 4 < bitmap_slots unv"
      by (simp add: bitmap_slots_def div_less_iff_less_mult mult.commute del: div_mult2_eq)
    let ?u = "BITMAP_CLR unv n"
    let ?k = "card (bm.present ?u)"
    have less: "?k < card (bm.present unv)" using bm.card_remove[OF in_range] False by simp
    then have k: "?k < fuel" using Suc.prems by (simp add: st)
    show ?thesis
    proof (cases "hivex_node_name h n")
      case (Ok name)
      obtain r s' where vs: "visit_start vt b n name (h, s) = (r, s')" by (cases "visit_start vt b n name (h, s)")
      have r: "has_fuel r" using op_has_fuelD[OF op_has_fuel_start[OF assms(1)], of b n name "(h, s)"] vs by simp
      have "has_fuel (fst (visit_children_of vt b (hivex__visit_node fuel vt b) n name (s', ?u))) \<and>
          unseen ?k (snd (visit_children_of vt b (hivex__visit_node fuel vt b) n name (s', ?u)))"
      proof (rule visit_children_of_inv[OF assms(1)])
        show "unseen ?k (s', ?u)" by (simp add: unseen_def)
        fix c st'
        assume "unseen ?k (st' :: 'a vstate \<times> bitmap)"
        with k Suc.IH[of st' c] show "has_fuel (fst (hivex__visit_node fuel vt b c st')) \<and>
            unseen ?k (snd (hivex__visit_node fuel vt b c st'))" by (auto simp: unseen_def)
      qed
      with r less False show ?thesis
        by (cases r) (auto simp: st visit_body_def Ok Let_def sbind_def[of "with_hive _"] with_hive_def vs unseen_def has_fuel_def)
    next
      case (Err e)
      with False less show ?thesis by (simp add: st visit_body_def)
    next
      case (Fault z)
      with False less has_fuel_readers(1)[of h n] show ?thesis by (simp add: st visit_body_def has_fuel_def)
    qed
  qed
qed simp

section \<open>An invariant rule for traversals\<close>

lemma sfor_z_rule:
  assumes "I st" and "\<And>c st. I st \<Longrightarrow> I (snd (f c st))"
  shows "I (snd (sfor_z f cs st))"
  using assms(1)
proof (induction cs arbitrary: st)
  case (Cons c cs)
  obtain r st' where f: "f c st = (r, st')" by (cases "f c st")
  with assms(2)[OF Cons.prems, of c] Cons show ?case by (cases r) (auto simp: sbind_def)
qed simp

lemma visit_node_rule:
  assumes clr: "\<And>h s u n. I ((h, s), u) \<Longrightarrow> n div 32 < length u \<Longrightarrow> BITMAP_TST u n \<Longrightarrow> I ((h, s), BITMAP_CLR u n)"
    and start: "\<And>h s u n name. I ((h, s), u) \<Longrightarrow> n div 32 < length u \<Longrightarrow> BITMAP_TST u n \<Longrightarrow>
      hivex_node_name h n = Ok name \<Longrightarrow> I (snd (visit_start vt b n name (h, s)), BITMAP_CLR u n)"
    and fin: "\<And>s u n name. I (s, u) \<Longrightarrow> I (snd (call (node_end vt) (\<lambda>f. f n name) s), u)"
  shows "I st \<Longrightarrow> I (snd (hivex__visit_node fuel vt b n st))"
proof (induction fuel arbitrary: n st)
  case (Suc fuel)
  obtain h s u where st: "st = ((h, s), u)" by (metis surj_pair)
  have kids: "I (snd (visit_children_of vt b (hivex__visit_node fuel vt b) n name st'))" if i: "I st'" for name st'
  proof (cases "hivex_node_children (fst (fst st')) n")
    case (Ok cs)
    obtain r st2 where c: "sfor_z (hivex__visit_node fuel vt b) cs st' = (r, st2)"
      by (cases "sfor_z (hivex__visit_node fuel vt b) cs st'")
    have "I st2" using sfor_z_rule[where I = I and f = "hivex__visit_node fuel vt b" and cs = cs, OF i Suc.IH] c by auto
    then have e: "I (snd (with_hive (call (node_end vt) (\<lambda>f. f n name)) st2))"
      using fin[of "fst st2" "snd st2" n name] by simp
    have "I (snd (sbind (with_hive (call (node_end vt) (\<lambda>f. f n name))) (\<lambda>_. sret ()) st2))"
      using e by (cases "with_hive (call (node_end vt) (\<lambda>f. f n name)) st2", cases "fst (with_hive (call (node_end vt) (\<lambda>f. f n name)) st2)")
        (auto simp: sbind_def simp del: with_hive_simps)
    with \<open>I st2\<close> show ?thesis
      by (cases r) (auto simp: visit_children_of_def Ok c sbind_def[of "sfor_z _ _"])
  qed (use i in \<open>simp_all add: visit_children_of_def\<close>)
  show ?case
  proof (cases "length u \<le> n div 32 \<or> \<not> BITMAP_TST u n")
    case True
    with Suc.prems show ?thesis by (auto simp: st visit_body_def)
  next
    case False
    then have i: "I ((h, s), u)" "n div 32 < length u" "BITMAP_TST u n" using Suc.prems st by auto
    show ?thesis
    proof (cases "hivex_node_name h n")
      case (Ok name)
      obtain r s' where vs: "visit_start vt b n name (h, s) = (r, s')" by (cases "visit_start vt b n name (h, s)")
      have "I (s', BITMAP_CLR u n)" using start[OF i Ok] vs by simp
      with kids False show ?thesis
        by (cases r) (auto simp: st visit_body_def Ok Let_def sbind_def[of "with_hive _"] with_hive_def vs)
    qed (use False clr[OF i] in \<open>simp_all add: st visit_body_def\<close>)
  qed
qed simp

section \<open>The nodes a traversal starts\<close>

text \<open>A visitor that records the nodes it is shown, in order.\<close>

definition tracer :: "nat list hivex_visitor" where
  "tracer = empty_visitor\<lparr>node_start := Some (\<lambda>node name (h, tr). (Ok (), (h, tr @ [node])))\<rparr>"

definition silent :: "('s, 'a) op \<Rightarrow> bool" where
  "silent f \<longleftrightarrow> (\<forall>st. snd (f st) = st)"

lemma silent_ops:
  "silent (sret x)" "silent (sfault z)" "silent (bad b e)" "silent (call None kf)"
  "silent f \<Longrightarrow> silent g \<Longrightarrow> silent (if c then f else g)"
  by (simp_all add: silent_def bad_def call_def)

lemma silent_reads:
  "(\<And>x. silent (k x)) \<Longrightarrow> silent (or_bad b g k)" "(\<And>x. silent (k' x)) \<Longrightarrow> silent (num_or_minus1 g' k')"
  by (auto simp: silent_def bad_def or_bad_def num_or_minus1_def split: result.split)

lemma silent_sbind: "silent m \<Longrightarrow> (\<And>x. silent (f x)) \<Longrightarrow> silent (sbind m f)"
  unfolding silent_def sbind_def by (auto split: prod.split result.split) (metis snd_conv)+

lemma tracer_values: "silent (visit_values tracer b n vs)"
proof -
  have nones: "value_string tracer = None" "value_multiple_strings tracer = None"
    "value_string_invalid_utf16 tracer = None" "value_dword tracer = None" "value_qword tracer = None"
    "value_binary tracer = None" "value_none tracer = None" "value_other tracer = None" "value_any tracer = None"
    by (simp_all add: tracer_def empty_visitor_def)
  have str: "silent (visit_string_value tracer b n v t l k)" "silent (visit_multiple_value tracer b n v t l k)"
    for v t l k
    by (auto simp: silent_def visit_string_value_def visit_multiple_value_def visit_invalid_utf16_def nones
        call_def bad_def split: result.split)
  have pair: "silent (case p of (t', len, str) \<Rightarrow> if P t' then bad b e else call None (kf t' len str))"
    "silent (case p of (t', len, str) \<Rightarrow> call None (kf t' len str))"
    for p :: "'x \<times> 'y \<times> 'z" and P e kf
    by (cases p; simp add: silent_ops)+
  have "silent (visit_typed_value tracer b n v t l k)" for v t l k
    unfolding visit_typed_value_def nones
    by (intro silent_ops(5) silent_reads str pair silent_ops(4))
  then have "silent (visit_value tracer b n v)" for v
    unfolding visit_value_def nones by (auto intro!: silent_reads)
  then show ?thesis
    by (induction vs) (auto intro!: silent_sbind silent_ops)
qed

lemma tracer_start: "snd (visit_start tracer b n name (h, tr)) = (h, tr @ [n])"
proof -
  have s: "node_start tracer = Some (\<lambda>node name (h, tr). (Ok (), (h, tr @ [node])))" by (simp add: tracer_def)
  have "silent (or_bad b (\<lambda>h. hivex_node_values h n) (visit_values tracer b n))"
    by (intro silent_reads tracer_values)
  then show ?thesis by (simp add: visit_start_def s call_def sbind_def silent_def)
qed

definition traced_once :: "(hive \<times> nat list) \<times> bitmap \<Rightarrow> bool" where
  "traced_once st \<longleftrightarrow>
     distinct (snd (fst st)) \<and>
     (\<forall>x \<in> set (snd (fst st)). x div 4 < bitmap_slots (snd st) \<and> \<not> BITMAP_TST (snd st) x)"

lemma slot_of_length: "n div 32 < length u \<Longrightarrow> n div 4 < bitmap_slots u"
proof -
  assume "n div 32 < length u"
  then have "n div 4 div 8 < length u" by (simp add: div_mult2_eq[symmetric])
  then show ?thesis by (simp add: bitmap_slots_def div_less_iff_less_mult mult.commute del: div_mult2_eq)
qed

lemma tracer_once:
  "traced_once st \<Longrightarrow> traced_once (snd (hivex__visit_node fuel tracer b n st))"
proof (erule visit_node_rule[where I = traced_once, rotated -1])
  fix h tr and u :: bitmap and n
  assume t: "traced_once ((h, tr), u)" and n: "n div 32 < length u" "BITMAP_TST u n"
  note sl = slot_of_length[OF n(1)]
  show c: "traced_once ((h, tr), BITMAP_CLR u n)"
    using t sl by (auto simp: traced_once_def bm.member_remove)
  show "traced_once (snd (visit_start tracer b n name (h, tr)), BITMAP_CLR u n)" for name
    using t n sl by (auto simp: traced_once_def tracer_start bm.member_remove)
next
  fix s and u :: bitmap and n name
  assume "traced_once (s, u)"
  then show "traced_once (snd (call (node_end tracer) (\<lambda>f. f n name) s), u)"
    by (simp add: tracer_def empty_visitor_def call_def)
qed

lemma visit_ends:
  assumes "visitor_returns vt"
  shows "fst (hivex_visit_node node vt flags (h, s)) \<noteq> Fault OutOfFuel \<and>
    fst (hivex_visit vt flags (h, s)) \<noteq> Fault OutOfFuel"
proof -
  have v: "fst (hivex_visit_node n vt flags (h, s)) \<noteq> Fault OutOfFuel" for n
  proof -
    let ?u = "take (1 + hsize h div 32) (bitmap h)"
    have "card (bm.present (snd ((h, s), ?u))) < Suc (bitmap_slots ?u)"
      using bm.card_present_le[of ?u] by simp
    from visit_node_inv[OF assms this, of "flags AND HIVEX_VISIT_SKIP_BAD \<noteq> 0" n] show ?thesis
      by (auto simp: hivex_visit_node_def Let_def has_fuel_def split: prod.split)
  qed
  then show ?thesis by (auto simp: hivex_visit_def hivex_root_def)
qed

section \<open>Properties\<close>

text \<open>
  C15: a traversal ends on every image, cyclic ones included, whatever node it starts from, provided
  the callbacks return: the recursion never uses up the fuel it is given, because every level
  clears a bit of the bitmap of unvisited blocks.
\<close>

theorem visit_terminates:
  assumes "visitor_returns vt"
  shows "fst (hivex_visit_node node vt flags (h, s)) \<noteq> Fault OutOfFuel \<and>
    fst (hivex_visit vt flags (h, s)) \<noteq> Fault OutOfFuel"
  using assms by (rule visit_ends)

text \<open>
  C16: a traversal never starts the same node twice, on any image (also when nodes share children or
  form a cycle) and with or without \<^verbatim>\<open>HIVEX_VISIT_SKIP_BAD\<close>.
\<close>

theorem visit_each_node_once:
  assumes "hivex_visit_node node tracer flags (h, []) = (r, (h', started))"
  shows "distinct started"
proof -
  let ?u = "take (1 + hsize h div 32) (bitmap h)"
  have "traced_once ((h, []), ?u)" by (simp add: traced_once_def)
  from tracer_once[OF this, of "Suc (bitmap_slots ?u)" "flags AND HIVEX_VISIT_SKIP_BAD \<noteq> 0" node] assms
  show ?thesis
    by (auto simp: hivex_visit_node_def Let_def traced_once_def simp del: hivex__visit_node.simps take_Suc
        split: prod.splits)
qed

end
