(* ===== verification/Open.thy ===== *)
theory Open
  imports Tiling
begin

text \<open>
  \<^verbatim>\<open>hivex_open\<close> of \<^verbatim>\<open>lib/hivex.c\<close>. A file is its size and its bytes, the
  file system a map from names to files; opening a missing file fails with \<open>ENOENT\<close>, mapping
  an empty one with \<open>EINVAL\<close>, and no other system call fails. The two nested loops over pages
  and blocks are recursive functions that thread the handle (whose bitmap they fill) and the
  two flags about the root block; they terminate because every page and block has a positive
  size.

  The theorems: a hive that opens has an nk-record as its root and a bitmap that only marks
  block headers inside the file; a well-formed file opens, and its handle satisfies the
  invariant \<open>hive_wf\<close>.
\<close>

type_synonym hfile = "nat \<times> mem"
type_synonym fs = "byte list \<Rightarrow> hfile option"

definition HIVEX_OPEN_DEBUG :: u32 where "HIVEX_OPEN_DEBUG = 2"
definition HIVEX_OPEN_WRITE :: u32 where "HIVEX_OPEN_WRITE = 4"

definition id_regf :: "byte list" where "id_regf = [0x72, 0x65, 0x67, 0x66]"

section \<open>Definitions\<close>

function open_blocks :: "hive \<Rightarrow> nat \<Rightarrow> nat \<Rightarrow> bool \<Rightarrow> bool \<Rightarrow> (hive \<times> bool \<times> bool) result" where
  "open_blocks h blkoff pend seen bad =
     (if blkoff < pend then
        let is_root = (blkoff = rootoffs h); seen = (seen \<or> is_root) in
        rbind (block_len h blkoff) (\<lambda>(seg_len, used).
          if seg_len \<le> 4 \<or> seg_len mod 4 \<noteq> 0 then Err ENOTSUP
          else
            rbind (if is_root \<and> used then BLOCK_ID_EQ h blkoff id_nk else Ok True) (\<lambda>nk_ok.
              open_blocks
                (if used then h\<lparr>bitmap := BITMAP_SET (bitmap h) blkoff\<rparr> else h)
                (blkoff + seg_len) pend seen
                (bad \<or> (is_root \<and> \<not> used) \<or> \<not> nk_ok)))
      else Ok (h, seen, bad))"
  by pat_completeness auto
termination
  by (relation "measure (\<lambda>(h, blkoff, pend, seen, bad). pend - blkoff)") auto

declare open_blocks.simps [simp del]

text \<open>The loop rule: an invariant kept by every iteration holds when the loop is left.\<close>

lemma open_blocks_rule:
  assumes "open_blocks h b e seen bad = Ok (h', seen', bad')" and "I b h seen bad"
    and step: "\<And>b h seen bad len used nk_ok. I b h seen bad \<Longrightarrow> b < e \<Longrightarrow>
      block_len h b = Ok (len, used) \<Longrightarrow> 4 < len \<Longrightarrow> len mod 4 = 0 \<Longrightarrow>
      (if b = rootoffs h \<and> used then BLOCK_ID_EQ h b id_nk else Ok True) = Ok nk_ok \<Longrightarrow>
      I (b + len) (if used then h\<lparr>bitmap := BITMAP_SET (bitmap h) b\<rparr> else h) (seen \<or> b = rootoffs h)
        (bad \<or> (b = rootoffs h \<and> \<not> used) \<or> \<not> nk_ok)"
  shows "\<exists>b'. e \<le> b' \<and> I b' h' seen' bad'"
  using assms(1,2,3)
proof (induction h b e seen bad rule: open_blocks.induct)
  case (1 h b e seen bad)
  show ?case
  proof (cases "b < e")
    case False
    with "1.prems"(1) have "h' = h" "seen' = seen" "bad' = bad"
      by (simp_all add: open_blocks.simps[of h b])
    with False "1.prems"(2) show ?thesis by (intro exI[of _ b]) simp
  next
    case True
    let ?root = "b = rootoffs h"
    from "1.prems"(1) True obtain len used nk_ok where l: "block_len h b = Ok (len, used)"
      "4 < len" "len mod 4 = 0" "(if ?root \<and> used then BLOCK_ID_EQ h b id_nk else Ok True) = Ok nk_ok"
      and r: "open_blocks (if used then h\<lparr>bitmap := BITMAP_SET (bitmap h) b\<rparr> else h) (b + len) e
        (seen \<or> ?root) (bad \<or> (?root \<and> \<not> used) \<or> \<not> nk_ok) = Ok (h', seen', bad')"
      by (subst (asm) open_blocks.simps) (auto simp: Let_def split: if_splits)
    from l(2,3) have nz: "\<not> (len \<le> 4 \<or> len mod 4 \<noteq> 0)" by simp
    show ?thesis
      by (rule "1.IH"[OF True refl refl l(1) refl nz l(4) r "1.prems"(3)[OF "1.prems"(2) True l] "1.prems"(3)])
  qed
qed

lemma open_blocks_frame:
  assumes "open_blocks h b e seen bad = Ok (h', seen', bad')"
  shows "\<exists>bm. h' = h\<lparr>bitmap := bm\<rparr> \<and> length bm = length (bitmap h)"
proof -
  have "\<exists>b'. e \<le> b' \<and> (\<exists>bm. h' = h\<lparr>bitmap := bm\<rparr> \<and> length bm = length (bitmap h))"
    by (rule open_blocks_rule[OF assms, where
          I = "\<lambda>_ h' _ _. \<exists>bm. h' = h\<lparr>bitmap := bm\<rparr> \<and> length bm = length (bitmap h)"])
      (auto intro: exI[of _ "bitmap h"])
  then show ?thesis by blast
qed

function open_pages :: "hive \<Rightarrow> nat \<Rightarrow> bool \<Rightarrow> bool \<Rightarrow> (hive \<times> bool \<times> bool) result" where
  "open_pages h off seen bad =
     (if off < hsize h \<and> \<not> endpages h \<le> off then
        rbind (rd_bytes h off 4) (\<lambda>magic.
          if magic \<noteq> id_hbin then Err ENOTSUP
          else
            rbind (rd32 h (off + page_page_size)) (\<lambda>ps.
              let page_size = unat ps in
              if page_size \<le> sizeof ntreg_hbin_page \<or> page_size mod 0x1000 \<noteq> 0 then Err ENOTSUP
              else
                rbind (open_blocks h (off + 0x20) (off + page_size) seen bad)
                  (\<lambda>(h, seen, bad). open_pages h (off + page_size) seen bad)))
      else Ok (h, seen, bad))"
  by pat_completeness auto
termination
  by (relation "measure (\<lambda>(h, off, seen, bad). hsize h - off)") (auto dest!: open_blocks_frame)

declare open_pages.simps [simp del]

definition check_header :: "hive \<Rightarrow> unit result" where
  "check_header h =
     rbind (rd_bytes h 0 4) (\<lambda>magic.
       if magic \<noteq> id_regf then Err ENOTSUP
       else rbind (rd32 h hdr_major_ver) (\<lambda>major_ver. guard (major_ver = 1) ENOTSUP))"

definition check_csum :: "hive \<Rightarrow> unit result" where
  "check_csum h =
     rbind (header_checksum h) (\<lambda>sum'.
       rbind (rd32 h hdr_csum) (\<lambda>csum. guard (sum' = csum) EINVAL))"

definition load_header :: "hive \<Rightarrow> hive result" where
  "load_header h =
     rbind (rd64 h hdr_last_modified) (\<lambda>lm.
       rbind (rd32 h hdr_offset) (\<lambda>root.
         rbind (rd32 h hdr_blocks) (\<lambda>blocks.
           Ok (h\<lparr>last_modified := lm, rootoffs := unat (root + 0x1000),
                 endpages := unat (blocks + 0x1000)\<rparr>))))"

definition hivex_open :: "fs \<Rightarrow> byte list \<Rightarrow> u32 \<Rightarrow> hive result" where
  "hivex_open fs fname flags =
     (case fs fname of
        None \<Rightarrow> Err ENOENT
      | Some (sz, bytes) \<Rightarrow>
          let wr = (flags AND HIVEX_OPEN_WRITE \<noteq> 0);
              h = \<lparr>filename = fname, hsize = sz, writable = wr, addr = bytes, bitmap = [],
                   rootoffs = 0, endpages = 0, last_modified = 0, endblocks = 0\<rparr>
          in
            if \<not> wr \<and> sz = 0 then Err EINVAL
            else
              rbind (check_header h) (\<lambda>_.
              let h = h\<lparr>bitmap := replicate (1 + hsize h div 32) 0\<rparr> in
              rbind (check_csum h) (\<lambda>_.
              rbind (load_header h) (\<lambda>h.
              rbind (open_pages h 0x1000 False False) (\<lambda>(h, seen_root_block, bad_root_block).
                if \<not> seen_root_block then Err ENOTSUP
                else if bad_root_block then Err ENOTSUP
                else Ok h)))))"

section \<open>What opening guarantees for any file\<close>

lemma open_pages_rule:
  assumes "open_pages h off seen bad = Ok (h', seen', bad')" and "I off h seen bad"
    and step: "\<And>off h seen bad ps h1 seen1 bad1. I off h seen bad \<Longrightarrow> off < hsize h \<Longrightarrow>
      off < endpages h \<Longrightarrow> get_bytes (addr h) off 4 = id_hbin \<Longrightarrow>
      ps = unat (get32 (addr h) (off + 8)) \<Longrightarrow> 32 < ps \<Longrightarrow> ps mod 0x1000 = 0 \<Longrightarrow>
      open_blocks h (off + 32) (off + ps) seen bad = Ok (h1, seen1, bad1) \<Longrightarrow>
      I (off + ps) h1 seen1 bad1"
  shows "\<exists>off'. I off' h' seen' bad'"
  using assms(1,2,3)
proof (induction h off seen bad rule: open_pages.induct)
  case (1 h off seen bad)
  show ?case
  proof (cases "off < hsize h \<and> \<not> endpages h \<le> off")
    case False
    with "1.prems"(1) have "h' = h" "seen' = seen" "bad' = bad"
      by (auto simp: open_pages.simps[of h off])
    with "1.prems"(2) show ?thesis by blast
  next
    case True
    define ps where "ps = unat (get32 (addr h) (off + 8))"
    from "1.prems"(1) True obtain h1 seen1 bad1 where
      g: "off + 4 \<le> hsize h" "get_bytes (addr h) off 4 = id_hbin" "off + 8 + 4 \<le> hsize h"
        "32 < ps" "ps mod 0x1000 = 0" "open_blocks h (off + 32) (off + ps) seen bad = Ok (h1, seen1, bad1)"
      and r: "open_pages h1 (off + ps) seen1 bad1 = Ok (h', seen', bad')"
      by (subst (asm) open_pages.simps) (auto simp: Let_def ps_def not_le split: if_splits)
    have I1: "I (off + ps) h1 seen1 bad1"
      using True g by (intro "1.prems"(3)[OF "1.prems"(2)]) (auto simp: ps_def)
    have rd: "rd_bytes h off 4 = Ok id_hbin" "rd32 h (off + page_page_size) = Ok (get32 (addr h) (off + 8))"
      using g by simp_all
    show ?thesis
      by (rule "1.IH"[OF True rd(1) _ rd(2) ps_def _ _ refl refl r I1 "1.prems"(3)])
        (use g in auto)
  qed
qed

definition scan_inv :: "hive \<Rightarrow> nat \<Rightarrow> hive \<Rightarrow> bool \<Rightarrow> bool \<Rightarrow> bool" where
  "scan_inv h0 b h seen bad \<longleftrightarrow>
     (\<exists>bm. h = h0\<lparr>bitmap := bm\<rparr> \<and> length bm = 1 + hsize h0 div 32) \<and> b mod 4 = 0 \<and> 0x1000 \<le> b \<and>
     (\<forall>off. IS_VALID_BLOCK h off \<longrightarrow>
        (\<exists>len. block_len h0 off = Ok (len, True) \<and> 4 < len \<and> len mod 4 = 0)) \<and>
     (seen \<longrightarrow> \<not> bad \<longrightarrow> IS_VALID_BLOCK h (rootoffs h0) \<and> BLOCK_ID_EQ h0 (rootoffs h0) id_nk = Ok True)"

lemma block_len_bitmap [simp]: "block_len (h\<lparr>bitmap := bm\<rparr>) b = block_len h b"
  by (simp add: block_len_def rd32_def)

lemma BLOCK_ID_EQ_bitmap [simp]: "BLOCK_ID_EQ (h\<lparr>bitmap := bm\<rparr>) b i = BLOCK_ID_EQ h b i"
  by (simp add: BLOCK_ID_EQ_def rd_bytes_def)

lemma block_len_in_file: "block_len h b = Ok r \<Longrightarrow> b + 4 \<le> hsize h"
  by (cases r) (simp add: block_len_Ok)

lemma scan_inv_step:
  assumes I: "scan_inv h0 b h seen bad" and l: "block_len h b = Ok (len, used)" "4 < len" "len mod 4 = 0"
    and nk: "(if b = rootoffs h \<and> used then BLOCK_ID_EQ h b id_nk else Ok True) = Ok nk_ok"
  shows "scan_inv h0 (b + len) (if used then h\<lparr>bitmap := BITMAP_SET (bitmap h) b\<rparr> else h)
    (seen \<or> b = rootoffs h) (bad \<or> (b = rootoffs h \<and> \<not> used) \<or> \<not> nk_ok)"
proof -
  from I obtain bm where h: "h = h0\<lparr>bitmap := bm\<rparr>" and bm: "length bm = 1 + hsize h0 div 32"
    by (auto simp: scan_inv_def)
  have b: "b mod 4 = 0" "0x1000 \<le> b" using I by (auto simp: scan_inv_def)
  have bh: "b < hsize h" using block_len_in_file[OF l(1)] by simp
  have al: "(b + len) mod 4 = 0" using b(1) l(3) by (simp add: mod_add_eq[symmetric])
  have v: "IS_VALID_BLOCK (h\<lparr>bitmap := BITMAP_SET (bitmap h) b\<rparr>) off \<longleftrightarrow>
      off = b \<or> IS_VALID_BLOCK h off" for off
    using IS_VALID_BLOCK_SET[of h b off] b bh bm by (simp add: h)
  show ?thesis
  proof (cases used)
    case True
    obtain h1 where h1: "h1 = h\<lparr>bitmap := BITMAP_SET (bitmap h) b\<rparr>" by simp
    have ex: "\<exists>bm. h1 = h0\<lparr>bitmap := bm\<rparr> \<and> length bm = 1 + hsize h0 div 32"
      using bm by (intro exI[of _ "BITMAP_SET (bitmap h) b"]) (simp add: h h1)
    have bl: "block_len h0 b = Ok (len, True)" using l(1) True by (simp add: h)
    have nk': "b = rootoffs h0 \<longrightarrow> BLOCK_ID_EQ h0 (rootoffs h0) id_nk = Ok nk_ok" "rootoffs h = rootoffs h0"
      using nk True by (auto simp: h)
    have "scan_inv h0 (b + len) h1 (seen \<or> b = rootoffs h0) (bad \<or> \<not> nk_ok)"
      using I b(2) al l(2,3) ex bl nk' unfolding scan_inv_def v[folded h1] by auto
    then show ?thesis using True nk' by (simp add: h1)
  next
    case False
    have "rootoffs h = rootoffs h0" by (simp add: h)
    with False show ?thesis using I b(2) al unfolding scan_inv_def by auto
  qed
qed

lemma open_blocks_scan:
  assumes "open_blocks h b e seen bad = Ok (h', seen', bad')" and "scan_inv h0 b h seen bad"
  shows "\<exists>b'. scan_inv h0 b' h' seen' bad'"
proof -
  have "\<exists>b'. e \<le> b' \<and> scan_inv h0 b' h' seen' bad'"
    by (rule open_blocks_rule[OF assms(1), of "scan_inv h0", OF assms(2)]) (rule scan_inv_step)
  then show ?thesis by blast
qed

lemma scan_inv_move: "scan_inv h0 b h seen bad \<Longrightarrow> b' mod 4 = 0 \<Longrightarrow> 0x1000 \<le> b' \<Longrightarrow> scan_inv h0 b' h seen bad"
  by (simp add: scan_inv_def)

lemma open_pages_scan:
  assumes "scan_inv h0 off h seen bad" and "ps mod 0x1000 = 0"
    and "open_blocks h (off + 32) (off + ps) seen bad = Ok (h1, seen1, bad1)"
  shows "scan_inv h0 (off + ps) h1 seen1 bad1"
proof -
  have o: "off mod 4 = 0" "0x1000 \<le> off" using assms(1) by (auto simp: scan_inv_def)
  have "4 dvd ps" using page_multiple_4[OF assms(2)] by (simp add: dvd_eq_mod_eq_0)
  then have al: "(off + 32) mod 4 = 0" "(off + ps) mod 4 = 0" using o(1) by auto
  then have "scan_inv h0 (off + 32) h seen bad" using scan_inv_move[OF assms(1)] o(2) by simp
  from open_blocks_scan[OF assms(3) this] show ?thesis using al(2) o(2) scan_inv_move by fastforce
qed

section \<open>Opening a well-formed file\<close>

definition used_offs :: "blk list \<Rightarrow> nat list" where
  "used_offs bs = map fst (filter (\<lambda>(b, len, used). used) bs)"

definition root_ok :: "hive \<Rightarrow> blk list \<Rightarrow> bool" where
  "root_ok h bs \<longleftrightarrow>
     (\<forall>(b, len, used) \<in> set bs. b = rootoffs h \<longrightarrow> used \<and> get_bytes (addr h) (b + 4) 2 = id_nk)"

lemma used_offs_simps [simp]:
  "used_offs [] = []"
  "used_offs ((b, len, used) # bs) = (if used then b # used_offs bs else used_offs bs)"
  "used_offs (xs @ ys) = used_offs xs @ used_offs ys"
  by (simp_all add: used_offs_def)

lemma set_used_offs: "set (used_offs bs) = {b. \<exists>len. (b, len, True) \<in> set bs}"
  by (induction bs) (auto split: if_splits)

lemma root_ok_simps [simp]:
  "root_ok h []" "root_ok h (xs @ ys) \<longleftrightarrow> root_ok h xs \<and> root_ok h ys"
  "root_ok h ((b, len, used) # bs) \<longleftrightarrow>
     (b = rootoffs h \<longrightarrow> used \<and> get_bytes (addr h) (b + 4) 2 = id_nk) \<and> root_ok h bs"
  "root_ok (h\<lparr>bitmap := bm\<rparr>) bs = root_ok h bs"
  by (auto simp: root_ok_def)

lemma blk_hdr_block_len:
  "blk_hdr (addr h) (b, len, used) \<Longrightarrow> b + 4 \<le> hsize h \<Longrightarrow> block_len h b = Ok (len, used)"
  by (auto simp: block_len_Ok blk_hdr_def Let_def)

lemma open_blocks_tile:
  assumes "tile_blocks (addr h) b bs e" and "e \<le> hsize h" and "root_ok h bs"
  shows "open_blocks h b e seen bad =
    Ok (h\<lparr>bitmap := foldl BITMAP_SET (bitmap h) (used_offs bs)\<rparr>, seen \<or> rootoffs h \<in> fst ` set bs, bad)"
  using assms
proof (induction bs arbitrary: h b seen)
  case Nil
  then show ?case by (subst open_blocks.simps) simp
next
  case (Cons x bs)
  obtain b' len used where x: "x = (b', len, used)" by (cases x)
  with Cons.prems have t: "b' = b" "blk_hdr (addr h) (b, len, used)" "tile_blocks (addr h) (b + len) bs e"
    by auto
  have l: "4 < len" "len mod 4 = 0" using t(2) by (auto simp: blk_hdr_def)
  then have l8: "8 \<le> len" by presburger
  have e: "b + len \<le> e" using consec_le[OF tile_blocks_consec[OF t(3)]] .
  then have bl: "block_len h b = Ok (len, used)"
    using t(2) l8 Cons.prems(2) by (intro blk_hdr_block_len) auto
  have nk: "(if b = rootoffs h \<and> used then BLOCK_ID_EQ h b id_nk else Ok True) = Ok True"
    using Cons.prems(2,3) e l8 by (auto simp: x t(1))
  let ?h = "if used then h\<lparr>bitmap := BITMAP_SET (bitmap h) b\<rparr> else h"
  have bad: "b = rootoffs h \<longrightarrow> used" using Cons.prems(3) by (simp add: x t(1))
  have "open_blocks h b e seen bad = open_blocks ?h (b + len) e (seen \<or> b = rootoffs h) bad"
    using bl l e l8 nk bad by (subst open_blocks.simps) auto
  also have "\<dots> = Ok (?h\<lparr>bitmap := foldl BITMAP_SET (bitmap ?h) (used_offs bs)\<rparr>,
      (seen \<or> b = rootoffs h) \<or> rootoffs ?h \<in> fst ` set bs, bad)"
    by (rule Cons.IH) (use t Cons.prems x in auto)
  finally show ?case by (auto simp: x t(1))
qed

lemma open_pages_tile:
  assumes "tile_pages (addr h) off pgs (endpages h)" and "endpages h \<le> hsize h"
    and "root_ok h (blocks_of pgs)"
  shows "open_pages h off seen bad =
    Ok (h\<lparr>bitmap := foldl BITMAP_SET (bitmap h) (used_offs (blocks_of pgs))\<rparr>,
        seen \<or> rootoffs h \<in> fst ` set (blocks_of pgs), bad)"
  using assms
proof (induction pgs arbitrary: h off seen)
  case Nil
  then show ?case by (subst open_pages.simps) simp
next
  case (Cons pg pgs)
  obtain p ps bs where pg: "pg = (p, ps, bs)" by (cases pg)
  with Cons.prems have t: "p = off" "page_hdr (addr h) off ps" "tile_blocks (addr h) (off + 32) bs (off + ps)"
    "tile_pages (addr h) (off + ps) pgs (endpages h)"
    by auto
  have e: "off + ps \<le> endpages h" using consec_le[OF tile_pages_consec[OF t(4)]] .
  have hd: "get_bytes (addr h) off 4 = id_hbin" "unat (get32 (addr h) (off + 8)) = ps" "32 < ps" "ps mod 0x1000 = 0"
    using t(2) by (auto simp: page_hdr_def)
  let ?h = "h\<lparr>bitmap := foldl BITMAP_SET (bitmap h) (used_offs bs)\<rparr>"
  have ob: "open_blocks h (off + 32) (off + ps) seen bad = Ok (?h, seen \<or> rootoffs h \<in> fst ` set bs, bad)"
    using t(3) e Cons.prems by (intro open_blocks_tile) (auto simp: pg)
  have rd: "rd_bytes h off 4 = Ok id_hbin" "rd32 h (off + 8) = Ok (get32 (addr h) (off + 8))"
    using hd e Cons.prems(2) by simp_all
  have "open_pages h off seen bad = open_pages ?h (off + ps) (seen \<or> rootoffs h \<in> fst ` set bs) bad"
    using hd e Cons.prems(2) by (subst open_pages.simps) (simp add: rd ob)
  also have "\<dots> = Ok (?h\<lparr>bitmap := foldl BITMAP_SET (bitmap ?h) (used_offs (blocks_of pgs))\<rparr>,
      (seen \<or> rootoffs h \<in> fst ` set bs) \<or> rootoffs ?h \<in> fst ` set (blocks_of pgs), bad)"
    by (rule Cons.IH) (use t Cons.prems pg in auto)
  finally show ?case by (auto simp: pg image_Un)
qed

lemma length_foldl_SET [simp]: "length (foldl BITMAP_SET bm xs) = length bm"
  by (induction xs arbitrary: bm) auto

lemma foldl_BITMAP_SET:
  assumes "\<And>x. x \<in> set xs \<Longrightarrow> x div 4 < bitmap_slots bm \<and> x mod 4 = 0" and "a mod 4 = 0"
  shows "BITMAP_TST (foldl BITMAP_SET bm xs) a \<longleftrightarrow> a \<in> set xs \<or> BITMAP_TST bm a"
  using assms
proof (induction xs arbitrary: bm)
  case (Cons x xs)
  then show ?case using bm.member_add_aligned[of x bm a] by auto
qed simp

lemma bitmap_ok_scan:
  assumes t: "tile_pages (addr h) 0x1000 pgs (endpages h)" and e: "endpages h \<le> hsize h"
  shows "bitmap_ok (h\<lparr>bitmap := foldl BITMAP_SET (replicate (1 + hsize h div 32) 0) (used_offs (blocks_of pgs))\<rparr>) pgs"
proof -
  let ?z = "replicate (1 + hsize h div 32) 0 :: byte list"
  have in_slots: "x div 4 < bitmap_slots ?z \<and> x mod 4 = 0" if "x \<in> set (used_offs (blocks_of pgs))" for x
  proof -
    obtain len where x: "(x, len, True) \<in> set (blocks_of pgs)" using \<open>x \<in> _\<close> by (auto simp: set_used_offs)
    have "x < hsize h"
      using consec_bounds[OF tile_pages_consec[OF t] block_in_spans[OF x]] e by linarith
    moreover have "x mod 4 = 0" using tile_pages_aligned[OF t] x by auto
    ultimately show ?thesis using in_bitmap[of ?z "hsize h" x] by simp
  qed
  have "\<not> BITMAP_TST ?z a" if "a div 4 < bitmap_slots ?z" for a
  proof -
    have "a div 32 < 1 + hsize h div 32" using that by (simp add: bitmap_slots_def del: replicate_Suc)
    then show ?thesis by (simp add: BITMAP_TST_bit del: replicate_Suc)
  qed
  then have "BITMAP_TST (foldl BITMAP_SET ?z (used_offs (blocks_of pgs))) a \<longleftrightarrow>
      a \<in> set (used_offs (blocks_of pgs))" if "a mod 4 = 0" "a div 4 < bitmap_slots ?z" for a
    using foldl_BITMAP_SET[of "used_offs (blocks_of pgs)" ?z, OF in_slots, of a] that by blast
  moreover have "bitmap_slots (foldl BITMAP_SET ?z (used_offs (blocks_of pgs))) = bitmap_slots ?z"
    by (simp add: bitmap_slots_def del: replicate_Suc)
  ultimately show ?thesis by (simp add: bitmap_ok_def set_used_offs del: replicate_Suc)
qed

definition checksum_of :: "mem \<Rightarrow> u32" where
  "checksum_of m = foldl (\<lambda>s i. s XOR get32 m (4 * i)) 0 [0..<0x1fc div 4]"

definition header_ok :: "mem \<Rightarrow> bool" where
  "header_ok m \<longleftrightarrow> get_bytes m 0 4 = id_regf \<and> get32 m 20 = 1 \<and> checksum_of m = get32 m 0x1fc"

lemma checksum_loop_eq:
  "(\<And>i. i \<in> set is \<Longrightarrow> 4 * i + 4 \<le> hsize h) \<Longrightarrow>
     checksum_loop h is s = Ok (foldl (\<lambda>s i. s XOR get32 (addr h) (4 * i)) s is)"
  by (induction "is" arbitrary: s) (auto simp: hive_simps)

lemma header_checksum_eq: "0x1fc \<le> hsize h \<Longrightarrow> header_checksum h = Ok (checksum_of (addr h))"
  unfolding header_checksum_def checksum_of_def by (rule checksum_loop_eq) auto

text \<open>
  C14: whatever bytes a file holds, if \<^verbatim>\<open>hivex_open\<close> succeeds then the root offset is a valid
  block with the id \<open>nk\<close>, and every offset the bitmap marks is the start of a block header that
  lies inside the file and declares a used block whose length is a multiple of four above four.
\<close>

theorem hivex_open_sound:
  assumes "hivex_open fs fname flags = Ok h"
  shows "check_block h (rootoffs h) id_nk EINVAL = Ok () \<and>
    (\<forall>off. IS_VALID_BLOCK h off \<longrightarrow>
       (\<exists>len. block_len h off = Ok (len, True) \<and> 4 < len \<and> len mod 4 = 0))"
proof -
  from assms obtain h0 where o: "open_pages h0 0x1000 False False = Ok (h, True, False)"
    "bitmap h0 = replicate (1 + hsize h0 div 32) 0"
    unfolding hivex_open_def load_header_def
    by (auto simp: Let_def split: option.splits if_splits simp del: replicate_Suc)
  have "\<not> IS_VALID_BLOCK h0 off" for off
    by (auto simp: IS_VALID_BLOCK_def o(2) BITMAP_TST_bit div_le_mono less_Suc_eq_le simp del: replicate_Suc)
  then have "scan_inv h0 0x1000 h0 False False"
    unfolding scan_inv_def using o(2) by (auto intro: exI[of _ "bitmap h0"])
  then have "\<exists>off. scan_inv h0 off h True False"
    by (rule open_pages_rule[OF o(1)]) (rule open_pages_scan)
  then obtain off where s: "scan_inv h0 off h True False" by blast
  then obtain bm where h: "h = h0\<lparr>bitmap := bm\<rparr>" unfolding scan_inv_def by blast
  from s show ?thesis by (auto simp: scan_inv_def h check_block_Ok)
qed

lemma open_handle:
  assumes "fs fname = Some (sz, m)" and "header_ok m" and "tile_pages m 0x1000 pgs ep"
    and ep: "ep = unat (get32 m 40 + 0x1000)" "ep \<le> sz"
    and root: "(unat (get32 m 36 + 0x1000), len, True) \<in> set (blocks_of pgs)"
      "get_bytes m (unat (get32 m 36 + 0x1000) + 4) 2 = id_nk"
  obtains h where "hivex_open fs fname flags = Ok h" "hive_wf h pgs" "hsize h = sz" "addr h = m"
    "rootoffs h = unat (get32 m 36 + 0x1000)" "endpages h = ep" "last_modified h = get64 m 12"
    "endblocks h = 0" "writable h = (flags AND HIVEX_OPEN_WRITE \<noteq> 0)" "filename h = fname"
proof -
  let ?h = "\<lparr>filename = fname, hsize = sz, writable = (flags AND HIVEX_OPEN_WRITE \<noteq> 0), addr = m,
    bitmap = replicate (1 + sz div 32) 0, rootoffs = unat (get32 m 36 + 0x1000), endpages = ep,
    last_modified = get64 m 12, endblocks = 0\<rparr>"
  let ?h' = "?h\<lparr>bitmap := foldl BITMAP_SET (bitmap ?h) (used_offs (blocks_of pgs))\<rparr>"
  have sz: "0x1000 \<le> sz" using consec_le[OF tile_pages_consec[OF assms(3)]] ep(2) by linarith
  have r: "root_ok ?h (blocks_of pgs)"
  proof -
    have "used" if "(rootoffs ?h, l', used) \<in> set (blocks_of pgs)" for l' used
      using root tile_pages_hdr[OF assms(3) that] tile_pages_hdr[OF assms(3) root(1)]
      by (cases used) (auto simp: blk_hdr_def)
    then show ?thesis using root(2) by (auto simp: root_ok_def)
  qed
  have "open_pages ?h 0x1000 False False = Ok (?h', False \<or> rootoffs ?h \<in> fst ` set (blocks_of pgs), False)"
    by (rule open_pages_tile) (use assms(3) ep(2) r in auto)
  moreover have "rootoffs ?h \<in> fst ` set (blocks_of pgs)" using root(1) by (auto intro!: rev_image_eqI)
  ultimately have op: "open_pages ?h 0x1000 False False = Ok (?h', True, False)" by (simp del: replicate_Suc)
  have "hivex_open fs fname flags = Ok ?h'"
    using assms(1,2) sz op
    by (simp add: hivex_open_def check_header_def check_csum_def load_header_def header_ok_def
        hive_simps header_checksum_eq Let_def ep(1) del: replicate_Suc)
  moreover have "hive_wf ?h' pgs"
    using assms(3) ep(2) bitmap_ok_scan[of ?h pgs]
    by (simp add: hive_wf_def endblocks_ok_def del: replicate_Suc)
  ultimately show ?thesis by (intro that[of ?h']) (simp_all del: replicate_Suc)
qed

end
