(* ===== verification/Commit.thy ===== *)
theory Commit
  imports Open Reading
begin

text \<open>
  \<^verbatim>\<open>hivex_commit\<close> of \<^verbatim>\<open>lib/hivex.c\<close>. The state is the handle and the file system; opening the
  output file truncates or creates it, and \<^verbatim>\<open>open\<close>, \<^verbatim>\<open>full_write\<close> and \<^verbatim>\<open>close\<close> are taken to
  succeed.

  The theorem is the round trip: a well-formed handle that is committed and opened again gives a
  handle with the same blocks and the same contents, on which every reading operation gives the
  same answer.
\<close>

section \<open>Definitions\<close>

definition on_hive :: "(hive, 'a) op \<Rightarrow> (hive \<times> fs, 'a) op" where
  "on_hive f = (\<lambda>(h, fs). case f h of (r, h') \<Rightarrow> (r, (h', fs)))"

definition on_fs :: "(hive \<Rightarrow> fs \<Rightarrow> fs) \<Rightarrow> (hive \<times> fs, unit) op" where
  "on_fs f = (\<lambda>(h, fs). (Ok (), (h, f h fs)))"

definition file_of :: "hive \<Rightarrow> hfile" where
  "file_of h = (hsize h, \<lambda>i. if i < hsize h then addr h i else 0)"

definition update_header :: "(hive, unit) op" where
  "update_header =
     sbind (sget (\<lambda>h. rd32 h hdr_sequence1)) (\<lambda>sequence.
     sbind (wr32 hdr_sequence1 (sequence + 1)) (\<lambda>_.
     sbind (wr32 hdr_sequence2 (sequence + 1)) (\<lambda>_.
     sbind (\<lambda>h. wr32 hdr_blocks (of_nat (endpages h) - 0x1000) h) (\<lambda>_.
     sbind (sget header_checksum) (\<lambda>sum'.
     wr32 hdr_csum sum')))))"

definition hivex_commit :: "byte list option \<Rightarrow> u32 \<Rightarrow> (hive \<times> fs, unit) op" where
  "hivex_commit fname flags = (\<lambda>(h, fs).
     if flags \<noteq> 0 then (Err EINVAL, (h, fs))
     else if \<not> writable h then (Err EROFS, (h, fs))
     else
       let out = (case fname of Some f \<Rightarrow> f | None \<Rightarrow> filename h) in
       sbind (on_fs (\<lambda>h fs. fs(out \<mapsto> (0, \<lambda>_. 0)))) (\<lambda>_.
       sbind (on_hive update_header) (\<lambda>_.
       on_fs (\<lambda>h fs. fs(out \<mapsto> file_of h)))) (h, fs))"

section \<open>The new header\<close>

text \<open>The header describes the handle: what \<^verbatim>\<open>hivex_open\<close> read from it is still there.\<close>

definition header_of :: "hive \<Rightarrow> bool" where
  "header_of h \<longleftrightarrow>
     get_bytes (addr h) 0 4 = id_regf \<and> get32 (addr h) 20 = 1 \<and>
     unat (get32 (addr h) 36 + 0x1000) = rootoffs h \<and> get64 (addr h) 12 = last_modified h"

definition committed :: "hive \<Rightarrow> mem" where
  "committed h =
     (let s = get32 (addr h) 4 + 1;
          m = put32 (put32 (put32 (addr h) 4 s) 8 s) 40 (of_nat (endpages h) - 0x1000)
      in put32 m 0x1fc (checksum_of m))"

lemma update_header_eq:
  assumes "0x1000 \<le> hsize h"
  shows "update_header h = (Ok (), h\<lparr>addr := committed h\<rparr>)"
proof -
  have "0x1fc \<le> hsize h" using assms by simp
  then have cs: "header_checksum (h\<lparr>addr := m\<rparr>) = Ok (checksum_of m)" for m
    using header_checksum_eq[of "h\<lparr>addr := m\<rparr>"] by simp
  show ?thesis using assms
    by (simp add: update_header_def committed_def sbind_def wr_in rd_in cs Let_def)
qed

lemma committed_body: "0x200 \<le> i \<Longrightarrow> committed h i = addr h i"
  by (simp add: committed_def Let_def put_frames)

lemma checksum_cong:
  assumes "\<And>i. i < 0x1fc \<Longrightarrow> m' i = m i"
  shows "checksum_of m' = checksum_of m"
proof -
  have "get32 m' (4 * i) = get32 m (4 * i)" if "i < 0x1fc div 4" for i
    using that assms by (intro st32.load_cong) auto
  then show ?thesis unfolding checksum_of_def by (intro foldl_cong) auto
qed

lemma committed_header:
  assumes "header_of h"
  shows "header_ok (committed h)" "get32 (committed h) 36 = get32 (addr h) 36"
    "get64 (committed h) 12 = get64 (addr h) 12" "get32 (committed h) 40 = of_nat (endpages h) - 0x1000"
proof -
  have "get_bytes (committed h) 0 4 = get_bytes (addr h) 0 4"
    by (rule get_bytes_cong) (simp add: committed_def Let_def put_frames)
  moreover have "checksum_of (committed h) = get32 (committed h) 0x1fc"
    unfolding committed_def Let_def store_same
    by (rule checksum_cong) (simp add: put_frames)
  moreover have "get32 (committed h) 20 = get32 (addr h) 20"
    by (simp add: committed_def Let_def mem_frame)
  ultimately show "header_ok (committed h)" using assms by (simp add: header_ok_def header_of_def)
  show "get32 (committed h) 36 = get32 (addr h) 36"
    "get64 (committed h) 12 = get64 (addr h) 12" "get32 (committed h) 40 = of_nat (endpages h) - 0x1000"
    by (simp_all add: committed_def Let_def mem_frame)
qed

section \<open>Two handles on the same contents\<close>

definition same_view :: "hive \<Rightarrow> hive \<Rightarrow> bool" where
  "same_view h h' \<longleftrightarrow>
     hsize h' = hsize h \<and> rootoffs h' = rootoffs h \<and> last_modified h' = last_modified h \<and>
     (\<forall>i. 0x1000 \<le> i \<longrightarrow> i < hsize h \<longrightarrow> addr h' i = addr h i) \<and>
     (\<forall>x. IS_VALID_BLOCK h' x \<longleftrightarrow> IS_VALID_BLOCK h x)"

lemma view_rd:
  assumes "same_view h h'" and "0x1000 \<le> a"
  shows "rd16 h' a = rd16 h a" "rd32 h' a = rd32 h a" "rd64 h' a = rd64 h a" "rd_bytes h' a n = rd_bytes h a n"
  using assms st16.load_cong[of a "addr h'" "addr h"] st32.load_cong[of a "addr h'" "addr h"]
    st64.load_cong[of a "addr h'" "addr h"] get_bytes_cong[of a n "addr h'" "addr h"]
  by (simp_all add: same_view_def rd16_def rd32_def rd64_def rd_bytes_def)

lemma view_block:
  assumes "same_view h h'"
  shows "IS_VALID_BLOCK h' x = IS_VALID_BLOCK h x" "check_block h' x i e = check_block h x i e"
    "0x1000 \<le> x \<Longrightarrow> block_len h' x = block_len h x" "0x1000 \<le> x \<Longrightarrow> BLOCK_ID_EQ h' x i = BLOCK_ID_EQ h x i"
    "check_lf h' x = check_lf h x"
proof -
  show v: "IS_VALID_BLOCK h' x = IS_VALID_BLOCK h x" using assms by (simp add: same_view_def)
  have b: "0x1000 \<le> x" if "IS_VALID_BLOCK h x" using that by (simp add: IS_VALID_BLOCK_def)
  show "0x1000 \<le> x \<Longrightarrow> block_len h' x = block_len h x" by (simp add: block_len_def view_rd[OF assms])
  have bid: "BLOCK_ID_EQ h' x i = BLOCK_ID_EQ h x i" if "0x1000 \<le> x" for i
    using that by (simp add: BLOCK_ID_EQ_def view_rd[OF assms])
  then show "0x1000 \<le> x \<Longrightarrow> BLOCK_ID_EQ h' x i = BLOCK_ID_EQ h x i" .
  show "check_block h' x i e = check_block h x i e"
    by (cases "IS_VALID_BLOCK h x") (simp_all add: check_block_def v bid[OF b])
  show "check_lf h' x = check_lf h x"
    by (cases "IS_VALID_BLOCK h x") (simp_all add: check_lf_def v bid[OF b] cong: if_cong)
qed

lemma view_after_check:
  assumes "same_view h h'" and "0x1000 \<le> x \<Longrightarrow> f () = g ()"
  shows "rbind (check_block h' x i e) f = rbind (check_block h x i e) g"
proof (cases "IS_VALID_BLOCK h x")
  case True
  then have "0x1000 \<le> x" by (simp add: IS_VALID_BLOCK_def)
  with assms show ?thesis
    by (cases "check_block h x i e") (simp_all add: view_block(2) rbind_def del: check_block_bid)
next
  case False
  then show ?thesis using assms by (simp add: check_block_def view_block(1))
qed

lemmas view_simps = view_rd view_block

lemma view_loops:
  assumes "same_view h h'" and "0x1000 \<le> b"
  shows "lf_loop h' b flags is c = lf_loop h b flags is c"
    "ri_count h' b is c n = ri_count h b is c n" "ri_copy h' b flags is c = ri_copy h b flags is c"
    "values_loop h' b is c = values_loop h b is c"
proof -
  show "lf_loop h' b flags is c = lf_loop h b flags is c"
    using assms by (induction "is" arbitrary: c) (simp_all add: view_simps Let_def)
  have lf: "lf_loop h' (unat w + 0x1000) flags is c = lf_loop h (unat w + 0x1000) flags is c" for w :: u32 and "is" c
    using assms(1) by (induction "is" arbitrary: c) (simp_all add: view_simps Let_def)
  show "ri_count h' b is c n = ri_count h b is c n"
    using assms by (induction "is" arbitrary: c n) (simp_all add: view_simps Let_def)
  show "ri_copy h' b flags is c = ri_copy h b flags is c"
    using assms by (induction "is" arbitrary: c) (simp_all add: view_simps lf Let_def)
  show "values_loop h' b is c = values_loop h b is c"
    using assms by (induction "is" arbitrary: c) (simp_all add: view_simps Let_def)
qed

lemma view_nodes:
  assumes v: "same_view h h'"
  shows "hivex_root h' = hivex_root h" "hivex_last_modified h' = hivex_last_modified h"
    "hivex_node_name h' n = hivex_node_name h n" "hivex_node_timestamp h' n = hivex_node_timestamp h n"
    "hivex_node_parent h' n = hivex_node_parent h n" "get_children h' n flags = get_children h n flags"
    "get_values h' n = get_values h n"
proof -
  show "hivex_root h' = hivex_root h" "hivex_last_modified h' = hivex_last_modified h"
    using v by (simp_all add: hivex_root_def hivex_last_modified_def same_view_def)
  show "hivex_node_name h' n = hivex_node_name h n"
    unfolding hivex_node_name_def by (rule view_after_check[OF v]) (simp add: view_simps[OF v] cong: if_cong)
  show "hivex_node_timestamp h' n = hivex_node_timestamp h n"
    unfolding hivex_node_timestamp_def by (rule view_after_check[OF v]) (simp add: view_simps[OF v] cong: if_cong)
  show "hivex_node_parent h' n = hivex_node_parent h n"
    unfolding hivex_node_parent_def by (rule view_after_check[OF v]) (simp add: view_simps[OF v] cong: if_cong)
  have "get_children_lf h' (unat w + 0x1000) nr flags c b = get_children_lf h (unat w + 0x1000) nr flags c b"
    "get_children_ri h' (unat w + 0x1000) nr flags c b = get_children_ri h (unat w + 0x1000) nr flags c b"
    for w :: u32 and nr c b
    by (simp_all add: get_children_lf_def get_children_ri_def view_simps[OF v] view_loops[OF v] Let_def cong: if_cong)
  then show "get_children h' n flags = get_children h n flags"
    unfolding get_children_def by (intro view_after_check[OF v]) (simp add: view_simps[OF v] Let_def cong: if_cong)
  show "get_values h' n = get_values h n"
    unfolding get_values_def
    by (rule view_after_check[OF v]) (simp add: view_simps[OF v] view_loops[OF v] Let_def cong: if_cong)
qed

lemma view_values:
  assumes v: "same_view h h'"
  shows "hivex_value_key h' n = hivex_value_key h n" "hivex_value_type h' n = hivex_value_type h n"
    "hivex_value_value h' n = hivex_value_value h n"
proof -
  have "hivex_value_key_len h' n = hivex_value_key_len h n"
    unfolding hivex_value_key_len_def by (rule view_after_check[OF v]) (simp add: view_simps[OF v] cong: if_cong)
  then show "hivex_value_key h' n = hivex_value_key h n"
    unfolding hivex_value_key_def by (intro view_after_check[OF v]) (simp add: view_simps[OF v] cong: if_cong)
  show "hivex_value_type h' n = hivex_value_type h n"
    unfolding hivex_value_type_def by (rule view_after_check[OF v]) (simp add: view_simps[OF v] cong: if_cong)
  show "hivex_value_value h' n = hivex_value_value h n"
    unfolding hivex_value_value_def by (rule view_after_check[OF v]) (simp add: view_simps[OF v] Let_def cong: if_cong)
qed

section \<open>Committing and opening again\<close>

lemma commit_eq:
  assumes "writable h" and "0x1000 \<le> hsize h"
  shows "hivex_commit fname 0 (h, fs) =
    (Ok (), (h\<lparr>addr := committed h\<rparr>,
      fs((case fname of Some f \<Rightarrow> f | None \<Rightarrow> filename h) \<mapsto> file_of (h\<lparr>addr := committed h\<rparr>))))"
  using assms by (simp add: hivex_commit_def sbind_def on_fs_def on_hive_def update_header_eq)

lemma commit_open:
  assumes ok: "hive_ok h" and w: "writable h" and hd: "header_of h" and ep: "endpages h < 2 ^ 32"
    and root: "IS_VALID_BLOCK h (rootoffs h)" "id_of h (rootoffs h) = id_nk"
    and out: "out = (case fname of Some f \<Rightarrow> f | None \<Rightarrow> filename h)"
  obtains h' fs' h'' where "hivex_commit fname 0 (h, fs) = (Ok (), (h', fs'))"
    "hivex_open fs' out flags = Ok h''" "hive_ok h''" "same_view h h''" "header_of h''"
    "writable h'' = (flags AND HIVEX_OPEN_WRITE \<noteq> 0)" "endpages h'' = endpages h"
proof -
  obtain pgs where wf: "hive_wf h pgs" using ok by (auto simp: hive_ok_def)
  let ?h = "h\<lparr>addr := committed h\<rparr>" and ?m = "snd (file_of (h\<lparr>addr := committed h\<rparr>))"
  have t: "tile_pages (addr h) 0x1000 pgs (endpages h)" and eh: "endpages h \<le> hsize h"
    using wf by (simp_all add: hive_wf_def)
  have e1: "0x1000 \<le> endpages h" using consec_le[OF tile_pages_consec[OF t]] .
  have m: "?m i = committed h i" if "i < hsize h" for i using that by (simp add: file_of_def)
  have body: "?m i = addr h i" if "0x1000 \<le> i" "i < hsize h" for i
    using that m committed_body[of i h] by simp
  have hdr: "get32 ?m a = get32 (committed h) a" "get64 ?m a = get64 (committed h) a"
    "get_bytes ?m a 4 = get_bytes (committed h) a 4" if "a + 8 \<le> 0x1000" for a
    using that e1 eh m by (auto intro!: st32.load_cong st64.load_cong get_bytes_cong)
  note ch = committed_header[OF hd]
  have "checksum_of ?m = checksum_of (committed h)" using e1 eh m by (intro checksum_cong) simp
  then have ho: "header_ok ?m" using ch(1) hdr by (simp add: header_ok_def)
  have tm: "tile_pages ?m 0x1000 pgs (endpages h)"
  proof (rule tile_pages_cong[OF t])
    show "?m i = addr h i" if "(q, qs, cs) \<in> set pgs" "q \<le> i" "i < q + 32" for q qs cs i
      using consec_bounds[OF tile_pages_consec[OF t] page_in_spans[OF that(1)]] that eh by (intro body) auto
    show "?m i = addr h i" if "(b, len, u) \<in> set (blocks_of pgs)" "b \<le> i" "i < b + 4" for b len u i
      using hive_wf_block(1,2,6)[OF wf that(1)] that(2,3) eh by (intro body) auto
  qed
  have ep': "endpages h = unat (get32 ?m 40 + 0x1000)"
    using ep by (simp add: hdr ch(4) unat_of_nat take_bit_nat_eq_self)
  have ro: "unat (get32 ?m 36 + 0x1000) = rootoffs h"
    using hd by (simp add: hdr ch(2) header_of_def)
  have rb: "(rootoffs h, blen h (rootoffs h), True) \<in> set (blocks_of pgs)" using hive_wf_valid[OF wf root(1)] .
  note rl = hive_wf_block(1,4,6)[OF wf rb]
  have rid: "get_bytes ?m (rootoffs h + 4) 2 = id_nk"
    using root(2) rl get_bytes_cong[of "rootoffs h + 4" 2 ?m "addr h"] body by (auto simp: id_of_def)
  define fs' where "fs' = fs(out \<mapsto> file_of ?h)"
  have f: "fs' out = Some (hsize h, ?m)" by (simp add: fs'_def file_of_def)
  obtain h'' where o: "hivex_open fs' out flags = Ok h''" "hive_wf h'' pgs" "hsize h'' = hsize h" "addr h'' = ?m"
    "rootoffs h'' = rootoffs h" "endpages h'' = endpages h" "last_modified h'' = get64 ?m 12"
    "writable h'' = (flags AND HIVEX_OPEN_WRITE \<noteq> 0)"
    using open_handle[of fs' out, OF f ho tm ep' eh, unfolded ro, OF rb rid] by metis
  have lm: "last_modified h'' = last_modified h"
    using o(7) hd by (simp add: hdr ch(3) header_of_def)
  have "same_view h h''"
    unfolding same_view_def using o body lm IS_VALID_BLOCK_iff[OF wf] IS_VALID_BLOCK_iff[OF o(2)] by simp
  moreover have "header_of h''"
    using ho ro o hd by (simp add: header_of_def header_ok_def hdr ch(3))
  moreover have "hivex_commit fname 0 (h, fs) = (Ok (), (?h, fs'))"
    using commit_eq[OF w] e1 eh by (simp add: fs'_def out)
  ultimately show ?thesis using that o(1,2,6,8) by (auto simp: hive_ok_def)
qed

text \<open>
  C6: committing a well-formed writable handle whose root is an nk-record succeeds (to a given file
  or back to its own), the file it writes passes every check of \<^verbatim>\<open>hivex_open\<close>, including the header
  checksum, and the new handle satisfies the invariant, has the same used blocks with the same
  bytes, the same root and the same size.
\<close>

theorem commit_reopen:
  assumes "hive_ok h" and "writable h" and "header_of h" and "endpages h < 2 ^ 32"
    and "IS_VALID_BLOCK h (rootoffs h)" and "id_of h (rootoffs h) = id_nk"
  shows "\<exists>h' fs' h''. hivex_commit fname 0 (h, fs) = (Ok (), (h', fs')) \<and>
    hivex_open fs' (case fname of Some f \<Rightarrow> f | None \<Rightarrow> filename h) flags = Ok h'' \<and>
    hive_ok h'' \<and> same_view h h''"
  using commit_open[OF assms refl] by metis

text \<open>
  C17: after committing and opening again, every reading operation gives the same answer for every
  node and value as on the handle that was committed.
\<close>

theorem commit_reopen_reads:
  assumes "hive_ok h" and "writable h" and "header_of h" and "endpages h < 2 ^ 32"
    and "IS_VALID_BLOCK h (rootoffs h)" and "id_of h (rootoffs h) = id_nk"
    and "hivex_commit fname 0 (h, fs) = (Ok (), (h', fs'))"
    and "hivex_open fs' (case fname of Some f \<Rightarrow> f | None \<Rightarrow> filename h) flags = Ok h''"
  shows "hivex_root h'' = hivex_root h \<and> hivex_last_modified h'' = hivex_last_modified h \<and>
    hivex_node_name h'' n = hivex_node_name h n \<and> hivex_node_timestamp h'' n = hivex_node_timestamp h n \<and>
    hivex_node_parent h'' n = hivex_node_parent h n \<and> get_children h'' n fl = get_children h n fl \<and>
    get_values h'' n = get_values h n \<and> hivex_value_key h'' n = hivex_value_key h n \<and>
    hivex_value_type h'' n = hivex_value_type h n \<and> hivex_value_value h'' n = hivex_value_value h n"
proof -
  obtain k gs k'' where "hivex_commit fname 0 (h, fs) = (Ok (), (k, gs))"
    "hivex_open gs (case fname of Some f \<Rightarrow> f | None \<Rightarrow> filename h) flags = Ok k''" "same_view h k''"
    using commit_open[OF assms(1-6) refl] by metis
  with assms(7,8) have v: "same_view h h''" by simp
  show ?thesis using view_nodes[OF v] view_values[OF v] by simp
qed

end
