(* ===== verification/Sample.thy ===== *)
theory Sample
  imports Write_Nodes Visit Commit
begin

text \<open>
  A small hive, written out byte field by byte field, at which the properties of the other
  theories are applied: a root with two children (in an lh-record) and four values (a string with
  junk after its end, two numbers and a list of strings), one security record and the rest of the
  page free. It satisfies every condition the properties ask for; the theory \<open>Witnesses\<close> applies
  the properties to it.
\<close>

section \<open>The hive\<close>

definition sample_mem :: mem where
  "sample_mem = fold (\<lambda>f. f)
     [(\<lambda>m. put_bytes m 0x0 [0x72, 0x65, 0x67, 0x66]), (\<lambda>m. put32 m 0x14 1), (\<lambda>m. put32 m 0x24 0x20),
      (\<lambda>m. put32 m 0x28 0x1000),
      (\<lambda>m. put_bytes m 0x1000 [0x68, 0x62, 0x69, 0x6e]), (\<lambda>m. put32 m 0x1008 0x1000),
      (\<lambda>m. put32 m 0x1020 0xffffffa8), (\<lambda>m. put_bytes m 0x1024 [0x6e, 0x6b]), (\<lambda>m. put32 m 0x1034 0x20),
      (\<lambda>m. put32 m 0x1038 2), (\<lambda>m. put32 m 0x1040 0x128), (\<lambda>m. put32 m 0x1048 4),
      (\<lambda>m. put32 m 0x104c 0x140), (\<lambda>m. put32 m 0x1050 0x1f8), (\<lambda>m. put32 m 0x1054 0xffffffff),
      (\<lambda>m. put16 m 0x106c 4), (\<lambda>m. put_bytes m 0x1070 [0x52, 0x4f, 0x4f, 0x54]),
      (\<lambda>m. put32 m 0x1078 0xffffffa8), (\<lambda>m. put_bytes m 0x107c [0x6e, 0x6b]), (\<lambda>m. put32 m 0x108c 0x20),
      (\<lambda>m. put32 m 0x1090 0), (\<lambda>m. put32 m 0x1098 0xffffffff), (\<lambda>m. put32 m 0x10a0 0),
      (\<lambda>m. put32 m 0x10a4 0xffffffff), (\<lambda>m. put32 m 0x10a8 0x1f8), (\<lambda>m. put32 m 0x10ac 0xffffffff),
      (\<lambda>m. put16 m 0x10c4 5), (\<lambda>m. put_bytes m 0x10c8 [0x41, 0x6c, 0x70, 0x68, 0x61]),
      (\<lambda>m. put32 m 0x10d0 0xffffffa8), (\<lambda>m. put_bytes m 0x10d4 [0x6e, 0x6b]), (\<lambda>m. put32 m 0x10e4 0x20),
      (\<lambda>m. put32 m 0x10e8 0), (\<lambda>m. put32 m 0x10f0 0xffffffff), (\<lambda>m. put32 m 0x10f8 0),
      (\<lambda>m. put32 m 0x10fc 0xffffffff), (\<lambda>m. put32 m 0x1100 0x1f8), (\<lambda>m. put32 m 0x1104 0xffffffff),
      (\<lambda>m. put16 m 0x111c 4), (\<lambda>m. put_bytes m 0x1120 [0x62, 0x65, 0x74, 0x61]),
      (\<lambda>m. put32 m 0x1128 0xffffffe8), (\<lambda>m. put_bytes m 0x112c [0x6c, 0x68]), (\<lambda>m. put16 m 0x112e 2),
      (\<lambda>m. put32 m 0x1130 0x78), (\<lambda>m. put32 m 0x1138 0xd0),
      (\<lambda>m. put32 m 0x1140 0xffffffe8), (\<lambda>m. put32 m 0x1144 0x158), (\<lambda>m. put32 m 0x1148 0x188),
      (\<lambda>m. put32 m 0x114c 0x1a8), (\<lambda>m. put32 m 0x1150 0x1c8),
      (\<lambda>m. put32 m 0x1158 0xffffffe0), (\<lambda>m. put_bytes m 0x115c [0x76, 0x6b]), (\<lambda>m. put16 m 0x115e 1),
      (\<lambda>m. put32 m 0x1160 10), (\<lambda>m. put32 m 0x1168 1), (\<lambda>m. put16 m 0x116c 1),
      (\<lambda>m. put_bytes m 0x1170 [0x73]), (\<lambda>m. put32 m 0x1164 0x178),
      (\<lambda>m. put32 m 0x1178 0xfffffff0), (\<lambda>m. put_bytes m 0x117c [0x68, 0, 0x69, 0, 0, 0, 1, 2, 3, 4]),
      (\<lambda>m. put32 m 0x1188 0xffffffe0), (\<lambda>m. put_bytes m 0x118c [0x76, 0x6b]), (\<lambda>m. put16 m 0x118e 1),
      (\<lambda>m. put32 m 0x1190 0x80000004), (\<lambda>m. put32 m 0x1198 4), (\<lambda>m. put16 m 0x119c 1),
      (\<lambda>m. put_bytes m 0x11a0 [0x6e]), (\<lambda>m. put_bytes m 0x1194 [4, 3, 2, 1]),
      (\<lambda>m. put32 m 0x11a8 0xffffffe0), (\<lambda>m. put_bytes m 0x11ac [0x76, 0x6b]), (\<lambda>m. put16 m 0x11ae 1),
      (\<lambda>m. put32 m 0x11b0 0x80000004), (\<lambda>m. put32 m 0x11b8 5), (\<lambda>m. put16 m 0x11bc 1),
      (\<lambda>m. put_bytes m 0x11c0 [0x62]), (\<lambda>m. put_bytes m 0x11b4 [1, 2, 3, 4]),
      (\<lambda>m. put32 m 0x11c8 0xffffffe0), (\<lambda>m. put_bytes m 0x11cc [0x76, 0x6b]), (\<lambda>m. put16 m 0x11ce 1),
      (\<lambda>m. put32 m 0x11d0 6), (\<lambda>m. put32 m 0x11d8 7), (\<lambda>m. put16 m 0x11dc 1),
      (\<lambda>m. put_bytes m 0x11e0 [0x6d]), (\<lambda>m. put32 m 0x11d4 0x1e8),
      (\<lambda>m. put32 m 0x11e8 0xfffffff0), (\<lambda>m. put_bytes m 0x11ec [0x61, 0, 0, 0, 0, 0]),
      (\<lambda>m. put32 m 0x11f8 0xffffffe0), (\<lambda>m. put_bytes m 0x11fc [0x73, 0x6b]), (\<lambda>m. put32 m 0x1200 0x1f8),
      (\<lambda>m. put32 m 0x1204 0x1f8), (\<lambda>m. put32 m 0x1208 3),
      (\<lambda>m. put32 m 0x1218 0xde8)]
     (\<lambda>_. 0)"

definition sample_used :: "nat list" where
  "sample_used = [0x1020, 0x1078, 0x10d0, 0x1128, 0x1140, 0x1158, 0x1178, 0x1188, 0x11a8, 0x11c8, 0x11e8, 0x11f8]"

definition sample_page :: hpage where
  "sample_page = (0x1000, 0x1000,
     [(0x1020, 88, True), (0x1078, 88, True), (0x10d0, 88, True), (0x1128, 24, True), (0x1140, 24, True),
      (0x1158, 32, True), (0x1178, 16, True), (0x1188, 32, True), (0x11a8, 32, True), (0x11c8, 32, True),
      (0x11e8, 16, True), (0x11f8, 32, True), (0x1218, 0xde8, False)])"

definition sample :: hive where
  "sample = \<lparr>filename = ascii ''hive'', hsize = 0x2000, writable = True, addr = sample_mem,
     bitmap = fold (\<lambda>b bm. BITMAP_SET bm b) sample_used (replicate 257 0), rootoffs = 0x1020,
     endpages = 0x2000, last_modified = 0, endblocks = 0\<rparr>"

lemma get_bytes_put: "n = length bs \<Longrightarrow> get_bytes (put_bytes m a bs) a n = bs"
  by (simp add: get_put_bytes)

lemma zero_reads: "get32 (\<lambda>_. 0) a = 0" "get64 (\<lambda>_. 0) a = 0" "get16 (\<lambda>_. 0) a = 0"
  by (simp_all add: get32_def get64_def get16_def get_le_def upt_rec)

lemma sample_fields [simp]:
  "get_bytes sample_mem 0x0 4 = [0x72, 0x65, 0x67, 0x66]" "get32 sample_mem 0x14 = 1" "get32 sample_mem 0x24 = 0x20"
  "get32 sample_mem 0x28 = 0x1000" "get_bytes sample_mem 0x1000 4 = [0x68, 0x62, 0x69, 0x6e]" "get32 sample_mem 0x1008 = 0x1000"
  "get32 sample_mem 0x1020 = 0xffffffa8" "get_bytes sample_mem 0x1024 2 = [0x6e, 0x6b]" "get32 sample_mem 0x1034 = 0x20"
  "get32 sample_mem 0x1038 = 2" "get32 sample_mem 0x1040 = 0x128" "get32 sample_mem 0x1048 = 4"
  "get32 sample_mem 0x104c = 0x140" "get32 sample_mem 0x1050 = 0x1f8" "get32 sample_mem 0x1054 = 0xffffffff"
  "get16 sample_mem 0x106c = 4" "get_bytes sample_mem 0x1070 4 = [0x52, 0x4f, 0x4f, 0x54]" "get32 sample_mem 0x1078 = 0xffffffa8"
  "get_bytes sample_mem 0x107c 2 = [0x6e, 0x6b]" "get32 sample_mem 0x108c = 0x20" "get32 sample_mem 0x1090 = 0"
  "get32 sample_mem 0x1098 = 0xffffffff" "get32 sample_mem 0x10a0 = 0" "get32 sample_mem 0x10a4 = 0xffffffff"
  "get32 sample_mem 0x10a8 = 0x1f8" "get32 sample_mem 0x10ac = 0xffffffff" "get16 sample_mem 0x10c4 = 5"
  "get_bytes sample_mem 0x10c8 5 = [0x41, 0x6c, 0x70, 0x68, 0x61]" "get32 sample_mem 0x10d0 = 0xffffffa8" "get_bytes sample_mem 0x10d4 2 = [0x6e, 0x6b]"
  "get32 sample_mem 0x10e4 = 0x20" "get32 sample_mem 0x10e8 = 0" "get32 sample_mem 0x10f0 = 0xffffffff"
  "get32 sample_mem 0x10f8 = 0" "get32 sample_mem 0x10fc = 0xffffffff" "get32 sample_mem 0x1100 = 0x1f8"
  "get32 sample_mem 0x1104 = 0xffffffff" "get16 sample_mem 0x111c = 4" "get_bytes sample_mem 0x1120 4 = [0x62, 0x65, 0x74, 0x61]"
  "get32 sample_mem 0x1128 = 0xffffffe8" "get_bytes sample_mem 0x112c 2 = [0x6c, 0x68]" "get16 sample_mem 0x112e = 2"
  "get32 sample_mem 0x1130 = 0x78" "get32 sample_mem 0x1138 = 0xd0" "get32 sample_mem 0x1140 = 0xffffffe8"
  "get32 sample_mem 0x1144 = 0x158" "get32 sample_mem 0x1148 = 0x188" "get32 sample_mem 0x114c = 0x1a8"
  "get32 sample_mem 0x1150 = 0x1c8" "get32 sample_mem 0x1158 = 0xffffffe0" "get_bytes sample_mem 0x115c 2 = [0x76, 0x6b]"
  "get16 sample_mem 0x115e = 1" "get32 sample_mem 0x1160 = 10" "get32 sample_mem 0x1168 = 1"
  "get16 sample_mem 0x116c = 1" "get_bytes sample_mem 0x1170 1 = [0x73]" "get32 sample_mem 0x1164 = 0x178"
  "get32 sample_mem 0x1178 = 0xfffffff0" "get_bytes sample_mem 0x117c 10 = [0x68, 0, 0x69, 0, 0, 0, 1, 2, 3, 4]" "get32 sample_mem 0x1188 = 0xffffffe0"
  "get_bytes sample_mem 0x118c 2 = [0x76, 0x6b]" "get16 sample_mem 0x118e = 1" "get32 sample_mem 0x1190 = 0x80000004"
  "get32 sample_mem 0x1198 = 4" "get16 sample_mem 0x119c = 1" "get_bytes sample_mem 0x11a0 1 = [0x6e]"
  "get_bytes sample_mem 0x1194 4 = [4, 3, 2, 1]" "get32 sample_mem 0x11a8 = 0xffffffe0" "get_bytes sample_mem 0x11ac 2 = [0x76, 0x6b]"
  "get16 sample_mem 0x11ae = 1" "get32 sample_mem 0x11b0 = 0x80000004" "get32 sample_mem 0x11b8 = 5"
  "get16 sample_mem 0x11bc = 1" "get_bytes sample_mem 0x11c0 1 = [0x62]" "get_bytes sample_mem 0x11b4 4 = [1, 2, 3, 4]"
  "get32 sample_mem 0x11c8 = 0xffffffe0" "get_bytes sample_mem 0x11cc 2 = [0x76, 0x6b]" "get16 sample_mem 0x11ce = 1"
  "get32 sample_mem 0x11d0 = 6" "get32 sample_mem 0x11d8 = 7" "get16 sample_mem 0x11dc = 1"
  "get_bytes sample_mem 0x11e0 1 = [0x6d]" "get32 sample_mem 0x11d4 = 0x1e8" "get32 sample_mem 0x11e8 = 0xfffffff0"
  "get_bytes sample_mem 0x11ec 6 = [0x61, 0, 0, 0, 0, 0]" "get32 sample_mem 0x11f8 = 0xffffffe0" "get_bytes sample_mem 0x11fc 2 = [0x73, 0x6b]"
  "get32 sample_mem 0x1200 = 0x1f8" "get32 sample_mem 0x1204 = 0x1f8" "get32 sample_mem 0x1208 = 3"
  "get32 sample_mem 0x1218 = 0xde8"
  by (simp_all add: sample_mem_def mem_frame get_bytes_put)

lemma sample_zero [simp]: "get64 sample_mem 0xc = 0"
  by (simp add: sample_mem_def mem_frame zero_reads)

lemma sample_simps [simp]:
  "filename sample = ascii ''hive''" "hsize sample = 0x2000" "writable sample" "addr sample = sample_mem"
  "rootoffs sample = 0x1020" "endpages sample = 0x2000" "last_modified sample = 0" "endblocks sample = 0"
  by (simp_all add: sample_def)

section \<open>It is well formed\<close>

lemma sample_bitmap:
  assumes "off mod 4 = 0"
  shows "BITMAP_TST (bitmap sample) off \<longleftrightarrow> off \<in> set sample_used \<or> BITMAP_TST (replicate 257 0) off"
proof -
  have "BITMAP_TST (fold (\<lambda>b bm. BITMAP_SET bm b) bs bm) off \<longleftrightarrow> off \<in> set bs \<or> BITMAP_TST bm off"
    if "\<forall>b \<in> set bs. b mod 4 = 0 \<and> b div 4 < bitmap_slots bm" for bs bm
    using that by (induction bs arbitrary: bm) (auto simp: bm.member_add_aligned assms)
  note this[of sample_used "replicate 257 0"]
  moreover have "\<forall>b \<in> set sample_used. b mod 4 = 0 \<and> b div 4 < bitmap_slots (replicate 257 0)"
    by (simp add: sample_used_def bitmap_slots_def)
  ultimately show ?thesis by (simp add: sample_def)
qed

lemma sample_wf: "hive_wf sample [sample_page]"
proof -
  have "bitmap_slots (bitmap sample) = 2056"
  proof -
    have "length (fold (\<lambda>b bm. BITMAP_SET bm b) bs bm) = length bm" for bs bm
      by (induction bs arbitrary: bm) simp_all
    then show ?thesis by (simp add: bitmap_slots_def sample_def)
  qed
  moreover have "\<not> BITMAP_TST (replicate 257 0) off" if "off div 4 < 2056" for off
    using BITMAP_TST_zeros[of "[]" off 257] that by (simp add: bitmap_slots_def)
  ultimately have "bitmap_ok sample [sample_page]"
    unfolding bitmap_ok_def by (auto simp: sample_bitmap bitmap_slots_def sample_page_def sample_used_def)
  moreover have "tile_pages sample_mem 0x1000 [sample_page] 0x2000"
    by (simp add: sample_page_def page_hdr_def blk_hdr_def id_hbin_def)
  ultimately show ?thesis by (simp add: hive_wf_def endblocks_ok_def)
qed

lemma sample_ok [simp]: "hive_ok sample"
  using sample_wf by (auto simp: hive_ok_def)

lemma sample_valid [simp]: "IS_VALID_BLOCK sample b \<longleftrightarrow> b \<in> set sample_used"
  using IS_VALID_BLOCK_iff[OF sample_wf] by (auto simp: sample_page_def sample_used_def)

lemma sample_blen [simp]:
  "blen sample 0x1020 = 88" "blen sample 0x1078 = 88" "blen sample 0x10d0 = 88" "blen sample 0x1128 = 24"
  "blen sample 0x1140 = 24" "blen sample 0x1158 = 32" "blen sample 0x1178 = 16" "blen sample 0x1188 = 32"
  "blen sample 0x11a8 = 32" "blen sample 0x11c8 = 32" "blen sample 0x11e8 = 16" "blen sample 0x11f8 = 32"
  by (simp_all add: blen_def)

lemma sample_used [simp]:
  "0x1020 \<in> set sample_used" "0x1078 \<in> set sample_used" "0x10d0 \<in> set sample_used" "0x1128 \<in> set sample_used"
  "0x1140 \<in> set sample_used" "0x1158 \<in> set sample_used" "0x1178 \<in> set sample_used" "0x1188 \<in> set sample_used"
  "0x11a8 \<in> set sample_used" "0x11c8 \<in> set sample_used" "0x11e8 \<in> set sample_used" "0x11f8 \<in> set sample_used"
  by (simp_all add: sample_used_def)

lemma sample_ids [simp]:
  "id_of sample 0x1020 = id_nk" "id_of sample 0x1078 = id_nk" "id_of sample 0x10d0 = id_nk" "id_of sample 0x1128 = id_lh"
  "id_of sample 0x1158 = id_vk" "id_of sample 0x1188 = id_vk" "id_of sample 0x11a8 = id_vk" "id_of sample 0x11c8 = id_vk"
  "id_of sample 0x11f8 = id_sk"
  by (simp_all add: id_of_def id_nk_def id_lh_def id_vk_def id_sk_def)

lemma sample_nk [simp]: "is_nk sample 0x1020" "is_nk sample 0x1078" "is_nk sample 0x10d0"
  by (simp_all add: is_nk_def)

lemma sample_root [simp]:
  "nr_subkeys sample 0x1020 = 2" "index_block sample 0x1020 = 0x1128" "lf_count sample 0x1128 = 2"
  "nr_values sample 0x1020 = 4" "value_list sample 0x1020 = 0x1140"
  by (simp_all add: nr_subkeys_def index_block_def lf_count_def nr_values_def value_list_def)

lemma sample_lf [simp]: "lf_ok sample 0x1128" "lf_offsets sample 0x1128 = [0x1078, 0x10d0]"
  by (simp_all add: lf_ok_def is_lf_def lf_offsets_def lf_key_def upt_rec)

lemma sample_children [simp]:
  "leaf_blocks sample 0x1020 = [0x1128]" "child_blocks sample 0x1020 = [0x1128]" "child_offsets sample 0x1020 = [0x1078, 0x10d0]"
  by (simp_all add: leaf_blocks_def child_blocks_def child_offsets_def)

lemma sample_index [simp]: "index_ok sample 0x1020" "index_own sample 0x1020"
  by (simp_all add: index_ok_def index_own_def HIVEX_MAX_SUBKEYS_def)

lemma sample_names [simp]:
  "node_name sample 0x1020 = ascii ''ROOT''" "node_name sample 0x1078 = ascii ''Alpha''" "node_name sample 0x10d0 = ascii ''beta''"
  by (simp_all add: node_name_def ascii_def of_char_def)

lemma sample_sk [simp]: "node_sk sample 0x1020 = 0x11f8" "sk_ok sample 0x11f8"
  by (simp_all add: node_sk_def sk_ok_def)

lemma sample_order [simp]: "in_order sample [0x1078, 0x10d0]"
  by (simp add: in_order_def strcasecmp_def cstr_def ascii_def of_char_def lower_def)

lemma sample_values [simp]: "value_offsets sample 0x1020 = [0x1158, 0x1188, 0x11a8, 0x11c8]"
  by (simp add: value_offsets_def vl_key_def upt_rec)

lemma sample_vks [simp]: "is_vk sample 0x1158" "is_vk sample 0x1188" "is_vk sample 0x11a8" "is_vk sample 0x11c8"
  by (simp_all add: is_vk_def)

lemma sample_vallist [simp]: "vallist_ok sample 0x1020"
  by (simp add: vallist_ok_def HIVEX_MAX_VALUES_def)

lemma sample_owned [simp]:
  "owned sample 0x1020 = [0x1140, 0x1178, 0x1158, 0x1188, 0x11a8, 0x11e8, 0x11c8]"
  by (simp add: owned_def value_blocks_def owned_by_def value_data_def)

lemma sample_values_own [simp]: "values_own sample 0x1020"
  by (simp add: values_own_def)

definition sample_svs :: "hive_set_value list" where
  "sample_svs =
     [\<lparr>sv_key = [0x73], sv_t = 1, sv_value = [0x68, 0, 0x69, 0, 0, 0, 1, 2, 3, 4]\<rparr>,
      \<lparr>sv_key = [0x6e], sv_t = 4, sv_value = [4, 3, 2, 1]\<rparr>,
      \<lparr>sv_key = [0x62], sv_t = 5, sv_value = [1, 2, 3, 4]\<rparr>,
      \<lparr>sv_key = [0x6d], sv_t = 7, sv_value = [0x61, 0, 0, 0, 0, 0]\<rparr>]"

lemma sample_block_len [simp]:
  "block_len sample 0x1178 = Ok (16, True)" "block_len sample 0x11e8 = Ok (16, True)"
  by (simp_all add: block_len_def hive_simps Let_def del: rd_Ok)

lemma sample_checks [simp]:
  "check_block sample 0x1158 id_vk EINVAL = Ok ()" "check_block sample 0x1188 id_vk EINVAL = Ok ()"
  "check_block sample 0x11a8 id_vk EINVAL = Ok ()" "check_block sample 0x11c8 id_vk EINVAL = Ok ()"
  by simp_all

lemma sample_value_value [simp]:
  "hivex_value_value sample 0x1158 = Ok (1, 10, [0x68, 0, 0x69, 0, 0, 0, 1, 2, 3, 4])"
  "hivex_value_value sample 0x1188 = Ok (4, 4, [4, 3, 2, 1])"
  "hivex_value_value sample 0x11a8 = Ok (5, 4, [1, 2, 3, 4])"
  "hivex_value_value sample 0x11c8 = Ok (7, 6, [0x61, 0, 0, 0, 0, 0])"
  by (simp_all add: hivex_value_value_def hive_simps Let_def HIVEX_MAX_VALUE_LEN_def data_room_def del: check_block_bid rd_Ok)

lemma sample_keys [simp]:
  "get_bytes sample_mem 0x1170 (Suc 0) = [0x73]" "get_bytes sample_mem 0x11a0 (Suc 0) = [0x6e]"
  "get_bytes sample_mem 0x11c0 (Suc 0) = [0x62]" "get_bytes sample_mem 0x11e0 (Suc 0) = [0x6d]"
  by (simp_all flip: One_nat_def)

lemma sample_value_key [simp]:
  "hivex_value_key sample 0x1158 = Ok [0x73, 0]" "hivex_value_key sample 0x1188 = Ok [0x6e, 0]"
  "hivex_value_key sample 0x11a8 = Ok [0x62, 0]" "hivex_value_key sample 0x11c8 = Ok [0x6d, 0]"
  by (simp_all add: hivex_value_key_eq)

lemma sample_node_values [simp]: "hivex_node_values sample 0x1020 = Ok [0x1158, 0x1188, 0x11a8, 0x11c8, 0]"
  by (simp add: hivex_node_values_def get_values_eq)

lemma sample_holds: "holds_values sample 0x1020 sample_svs"
  unfolding holds_values_def
proof (intro exI[of _ "[0x1158, 0x1188, 0x11a8, 0x11c8]"] conjI allI impI)
  fix i assume "i < length sample_svs"
  then have "i = 0 \<or> i = 1 \<or> i = 2 \<or> i = 3" by (auto simp: sample_svs_def)
  then show "hivex_value_key sample ([0x1158, 0x1188, 0x11a8, 0x11c8] ! i) = Ok (cstr (sv_key (sample_svs ! i)) @ [0])"
    "hivex_value_value sample ([0x1158, 0x1188, 0x11a8, 0x11c8] ! i) =
       Ok (sv_t (sample_svs ! i), length (sv_value (sample_svs ! i)), sv_value (sample_svs ! i))"
    by (elim disjE; simp add: sample_svs_def cstr_def)+
qed (simp_all add: sample_svs_def)

lemma sample_svs_ok [simp]: "length sample_svs = 4" "\<forall>sv \<in> set sample_svs. sv_ok sv"
  by (simp_all add: sample_svs_def sv_ok_def strlen_def cstr_def HIVEX_MAX_ALLOCATION_def)

lemma get_bytes_take: "n \<le> k \<Longrightarrow> get_bytes m a n = take n (get_bytes m a k)"
  by (rule nth_equalityI) simp_all

lemma get_bytes_put32: "get_bytes (put32 m a w) a 2 = [ucast w, ucast (drop_bit 8 w)]"
  by (simp add: put32_def get_put_bytes_prefix le_bytes_def upt_rec)

lemma sample_records [simp]: "records_ok sample"
proof -
  have "get_bytes sample_mem 0x1144 2 = [0x58, 1]" by (simp add: sample_mem_def mem_frame get_bytes_put32)
  then have "id_of sample 0x1140 = [0x58, 1]" "id_of sample 0x1178 = [0x68, 0]" "id_of sample 0x11e8 = [0x61, 0]"
    using get_bytes_take[of 2 10 sample_mem "0x117c"] get_bytes_take[of 2 6 sample_mem "0x11ec"] by (simp_all add: id_of_def)
  then show ?thesis
    unfolding records_ok_def
    by (simp add: sample_used_def id_nk_def id_vk_def id_lf_def id_lh_def id_ri_def del: sample_ids)
      (simp add: id_nk_def id_vk_def id_lf_def id_lh_def id_ri_def id_sk_def)
qed

lemma sample_header [simp]: "header_of sample"
  by (simp add: header_of_def id_regf_def)

end
