(* ===== verification/Full_Write.thy ===== *)
theory Full_Write
  imports Prelude
begin

text \<open>
  \<^verbatim>\<open>safe_write\<close> and \<^verbatim>\<open>full_write\<close> of \<^verbatim>\<open>gnulib/lib\<close> (\<^verbatim>\<open>safe-read.c\<close>, \<^verbatim>\<open>full-write.c\<close>), which write the
  image on a commit. The kernel is a sequence of outcomes of the \<^verbatim>\<open>write\<close> calls to come: a call
  that accepts up to \<open>n\<close> bytes (and never more than it was asked for), one that was interrupted,
  one that fails with \<open>EINVAL\<close>, or one that fails otherwise. \<open>None\<close> is a run that still waits for
  a call to return when the outcomes are used up.

  The theorem: the bytes that reach the file are always a prefix of the buffer of the length that
  is returned, and when enough calls accept something the function returns with all of it.
\<close>

section \<open>Definitions\<close>

datatype outcome = Accepts nat | Interrupted | Invalid | Fails

definition BUGGY_READ_MAXIMUM :: nat where
  "BUGGY_READ_MAXIMUM = unat ((0x7fffffff :: u32) AND NOT 8191)"

fun safe_write :: "nat \<Rightarrow> outcome list \<Rightarrow> (int \<times> outcome list) option" where
  "safe_write count [] = None"
| "safe_write count (Accepts n # os) = Some (int (min n count), os)"
| "safe_write count (Interrupted # os) = safe_write count os"
| "safe_write count (Invalid # os) =
     (if BUGGY_READ_MAXIMUM < count then safe_write BUGGY_READ_MAXIMUM os else Some (- 1, os))"
| "safe_write count (Fails # os) = Some (- 1, os)"

lemma safe_write_length: "safe_write count os = Some (r, os') \<Longrightarrow> length os' < length os"
  by (induction count os rule: safe_write.induct) (auto split: if_splits)

text \<open>The loop: what is returned (\<^verbatim>\<open>total\<close>) and the bytes that were written, in order.\<close>

function full_write_loop :: "nat \<Rightarrow> byte list \<Rightarrow> byte list \<Rightarrow> outcome list \<Rightarrow> (nat \<times> byte list) option" where
  "full_write_loop tot out ptr os =
     (if ptr = [] then Some (tot, out)
      else
        (case safe_write (length ptr) os of
           None \<Rightarrow> None
         | Some (n_rw, os') \<Rightarrow>
             if n_rw = - 1 then Some (tot, out)
             else if n_rw = 0 then Some (tot, out)
             else full_write_loop (tot + nat n_rw) (out @ take (nat n_rw) ptr) (drop (nat n_rw) ptr) os'))"
  by pat_completeness auto
termination
  by (relation "measure (\<lambda>(tot, out, ptr, os). length os)") (auto dest: safe_write_length)

declare full_write_loop.simps [simp del]

definition full_write :: "byte list \<Rightarrow> outcome list \<Rightarrow> (nat \<times> byte list) option" where
  "full_write buf os = full_write_loop 0 [] buf os"

section \<open>What is written\<close>

lemma safe_write_le: "safe_write count os = Some (r, os') \<Longrightarrow> - 1 \<le> r \<and> nat r \<le> count"
  by (induction count os rule: safe_write.induct) (auto split: if_splits)

lemma full_write_loop_prefix:
  assumes "full_write_loop tot out ptr os = Some (n, out')" and "tot = length out"
  shows "n = length out' \<and> (\<exists>k \<le> length ptr. out' = out @ take k ptr)"
  using assms
proof (induction tot out ptr os rule: full_write_loop.induct)
  case (1 tot out ptr os)
  show ?case
  proof (cases "\<exists>r os'. ptr \<noteq> [] \<and> safe_write (length ptr) os = Some (r, os') \<and> r \<noteq> - 1 \<and> r \<noteq> 0")
    case False
    then have "n = tot \<and> out' = out" using "1.prems"(1)
      by (subst (asm) full_write_loop.simps) (auto split: if_splits option.splits)
    then show ?thesis using "1.prems"(2) by (auto intro: exI[of _ 0])
  next
    case True
    then obtain r os' where r: "ptr \<noteq> []" "safe_write (length ptr) os = Some (r, os')" "r \<noteq> - 1" "r \<noteq> 0" by blast
    have le: "nat r \<le> length ptr" using safe_write_le[OF r(2)] by simp
    have "full_write_loop (tot + nat r) (out @ take (nat r) ptr) (drop (nat r) ptr) os' = Some (n, out')"
      using "1.prems"(1) r by (subst (asm) full_write_loop.simps) simp
    from "1.IH"[OF r(1) r(2) refl r(3,4) this] "1.prems"(2) le obtain k
      where k: "n = length out'" "k \<le> length ptr - nat r" "out' = out @ take (nat r) ptr @ take k (drop (nat r) ptr)"
      by auto
    have "out' = out @ take (nat r + k) ptr" using k(3) by (simp add: take_add)
    then show ?thesis using k(1,2) le by (intro conjI exI[of _ "nat r + k"]) auto
  qed
qed

text \<open>A kernel that makes progress: calls are interrupted or accept at least one byte.\<close>

definition progress :: "outcome list \<Rightarrow> bool" where
  "progress os \<longleftrightarrow> (\<forall>x \<in> set os. case x of Accepts n \<Rightarrow> 0 < n | Interrupted \<Rightarrow> True | _ \<Rightarrow> False)"

definition accepting :: "outcome list \<Rightarrow> nat" where
  "accepting os = length (filter (\<lambda>x. case x of Accepts n \<Rightarrow> True | _ \<Rightarrow> False) os)"

lemma safe_write_progress:
  assumes "progress os" and "0 < count" and "0 < accepting os"
  shows "\<exists>n os'. safe_write count os = Some (int n, os') \<and> 0 < n \<and> n \<le> count \<and> progress os' \<and>
    accepting os = Suc (accepting os')"
  using assms
  by (induction count os rule: safe_write.induct) (auto simp: progress_def accepting_def)

lemma full_write_loop_all:
  assumes "progress os" and "length ptr \<le> accepting os" and "tot = length out"
  shows "full_write_loop tot out ptr os = Some (length out + length ptr, out @ ptr)"
  using assms
proof (induction tot out ptr os rule: full_write_loop.induct)
  case (1 tot out ptr os)
  show ?case
  proof (cases "ptr = []")
    case True
    then show ?thesis using "1.prems"(3) by (simp add: full_write_loop.simps[of _ _ "[]"])
  next
    case False
    then have "0 < length ptr" "0 < accepting os" using "1.prems"(2) by (simp, cases ptr) auto
    then obtain n os' where s: "safe_write (length ptr) os = Some (int n, os')" "0 < n" "n \<le> length ptr"
      "progress os'" "accepting os = Suc (accepting os')"
      using safe_write_progress[OF "1.prems"(1)] by blast
    have "full_write_loop (tot + nat (int n)) (out @ take (nat (int n)) ptr) (drop (nat (int n)) ptr) os' =
      Some (length (out @ take (nat (int n)) ptr) + length (drop (nat (int n)) ptr), (out @ take (nat (int n)) ptr) @ drop (nat (int n)) ptr)"
      by (rule "1.IH"[OF False s(1) refl]) (use s "1.prems"(2,3) in auto)
    then show ?thesis using False s by (subst full_write_loop.simps) simp
  qed
qed

section \<open>Properties\<close>

text \<open>
  Whatever the kernel does, the bytes \<^verbatim>\<open>full_write\<close> has written when it returns are the first
  bytes of the buffer, as many as it returns.
\<close>

theorem full_write_prefix:
  assumes "full_write buf os = Some (n, out)"
  shows "n \<le> length buf \<and> out = take n buf"
  using full_write_loop_prefix[OF assms[unfolded full_write_def]] by auto

text \<open>
  C35: if every call to \<^verbatim>\<open>write\<close> is interrupted or accepts something, then \<^verbatim>\<open>full_write\<close> returns the
  size of the buffer with all of it written, after at most as many accepting calls as it has
  bytes.
\<close>

theorem full_write_completes:
  assumes "progress os" and "length buf \<le> accepting os"
  shows "full_write buf os = Some (length buf, buf)"
  using full_write_loop_all[OF assms, of 0 "[]"] by (simp add: full_write_def)

end
