(* ===== verification/Delete_Nodes.thy ===== *)
theory Delete_Nodes
  imports Write_Nodes Visit
begin

text \<open>
  Deleting nodes: \<^verbatim>\<open>delete_sk\<close>, \<^verbatim>\<open>delete_node\<close> and \<^verbatim>\<open>hivex_node_delete_child\<close> of \<^verbatim>\<open>lib/hivex.c\<close>.
  \<^verbatim>\<open>delete_node\<close> is the \<^verbatim>\<open>node_end\<close> callback of a visitor that \<^verbatim>\<open>hivex_node_delete_child\<close> runs over
  the subtree; the search for the link in the parent is \<open>unlink_key\<close> and \<open>unlink_blocks\<close>.
\<close>

section \<open>Definitions\<close>

definition delete_sk :: "nat \<Rightarrow> (hive, unit) op" where
  "delete_sk sk_offset =
     sbind (sget (\<lambda>h. check_block h sk_offset id_sk EFAULT)) (\<lambda>_.
     sbind (sget (\<lambda>h. rd32 h (sk_offset + sk_refcount))) (\<lambda>refcount.
     if refcount = 0 then sfail EINVAL
     else
       sbind (wr32 (sk_offset + sk_refcount) (refcount - 1)) (\<lambda>_.
       if refcount - 1 = 0 then
         sbind (sget (\<lambda>h. rd32 h (sk_offset + sk_prev))) (\<lambda>prev.
         sbind (sget (\<lambda>h. rd32 h (sk_offset + sk_next))) (\<lambda>next.
         let sk_prev_offset = unat prev + 0x1000; sk_next_offset = unat next + 0x1000 in
         sbind (if sk_prev_offset \<noteq> sk_offset \<and> sk_next_offset \<noteq> sk_offset then
                  sbind (wr32 (sk_prev_offset + sk_next) (of_nat sk_next_offset - 0x1000)) (\<lambda>_.
                  wr32 (sk_next_offset + sk_prev) (of_nat sk_prev_offset - 0x1000))
                else sret ()) (\<lambda>_.
         mark_block_unused sk_offset)))
       else sret ())))"

definition delete_node_sk :: "hive_node_h \<Rightarrow> (hive, unit) op" where
  "delete_node_sk node =
     sbind (sget (\<lambda>h. rd32 h (node + nk_sk))) (\<lambda>sk_offs.
     if sk_offs \<noteq> 0xffffffff then
       sbind (delete_sk (unat sk_offs + 0x1000)) (\<lambda>_.
       wr32 (node + nk_sk) 0xffffffff)
     else sret ())"

definition delete_node_classname :: "hive_node_h \<Rightarrow> (hive, unit) op" where
  "delete_node_classname node =
     sbind (sget (\<lambda>h. rd32 h (node + nk_classname))) (\<lambda>cl_offs.
     if cl_offs \<noteq> 0xffffffff then
       sbind (mark_block_unused (unat cl_offs + 0x1000)) (\<lambda>_.
       wr32 (node + nk_classname) 0xffffffff)
     else sret ())"

definition delete_node :: "hive_node_h \<Rightarrow> byte list \<Rightarrow> (hive, unit) op" where
  "delete_node node name =
     sbind (sget (\<lambda>h. get_children h node GET_CHILDREN_NO_CHECK_NK)) (\<lambda>(unused, blocks).
     sbind (sfor_z mark_block_unused blocks) (\<lambda>_.
     sbind (delete_values node) (\<lambda>_.
     sbind (delete_node_sk node) (\<lambda>_.
     sbind (delete_node_classname node) (\<lambda>_.
     mark_block_unused node)))))"

text \<open>The callback works on the handle; the visitor's \<^verbatim>\<open>opaque\<close> pointer is \<^verbatim>\<open>NULL\<close>.\<close>

definition on_handle :: "(hive, 'a) op \<Rightarrow> (hive \<times> 's, 'a) op" where
  "on_handle f = (\<lambda>(h, s). case f h of (r, h') \<Rightarrow> (r, (h', s)))"

definition delete_visitor :: "unit hivex_visitor" where
  "delete_visitor = empty_visitor\<lparr>node_end := Some (\<lambda>node name. on_handle (delete_node node name))\<rparr>"

definition visit_and_delete :: "hive_node_h \<Rightarrow> (hive, unit) op" where
  "visit_and_delete node h =
     (case hivex_visit_node node delete_visitor 0 (h, ()) of (r, (h', _)) \<Rightarrow> (r, h'))"

text \<open>The keys of one lf/lh-record from \<open>j\<close> on: the first that points to \<^verbatim>\<open>node\<close> is removed.\<close>

fun unlink_key :: "hive_node_h \<Rightarrow> nat \<Rightarrow> nat \<Rightarrow> nat list \<Rightarrow> (hive, bool) op" where
  "unlink_key node lf nr [] = sret False"
| "unlink_key node lf nr (j # js) =
     sbind (sget (\<lambda>h. rd32 h (lf + lf_keys + 8 * j))) (\<lambda>w.
     if unat (w + 0x1000) = node then
       sbind (sfor (copy_key lf lf) (map (\<lambda>i. (i, i + 1)) [j..<nr - 1])) (\<lambda>_.
       sbind (wr16 (lf + lf_nr_keys) (of_nat (nr - 1))) (\<lambda>_.
       sret True))
     else unlink_key node lf nr js)"

fun unlink_blocks :: "hive_node_h \<Rightarrow> nat list \<Rightarrow> (hive, unit) op" where
  "unlink_blocks node [] = sfault (OutOfBounds 0)"
| "unlink_blocks node (b # bs) =
     (if b = 0 then sfail ENOTSUP
      else
        sbind (sget (\<lambda>h. is_lf_block h b)) (\<lambda>lf.
        if lf then
          sbind (sget (\<lambda>h. rd16 h (b + lf_nr_keys))) (\<lambda>n.
          sbind (unlink_key node b (unat n) [0..<unat n]) (\<lambda>found.
          if found then sret () else unlink_blocks node bs))
        else unlink_blocks node bs))"

definition hivex_node_delete_child :: "hive_node_h \<Rightarrow> (hive, unit) op" where
  "hivex_node_delete_child node h =
     (if \<not> writable h then (Err EROFS, h)
      else
        sbind (sget (\<lambda>h. check_block h node id_nk EINVAL)) (\<lambda>_.
        if hivex_root h = Ok node then sfail EINVAL
        else
          sbind (sget (\<lambda>h. hivex_node_parent h node)) (\<lambda>parent.
          sbind (visit_and_delete node) (\<lambda>_.
          sbind (sget (\<lambda>h. get_children h parent GET_CHILDREN_NO_CHECK_NK)) (\<lambda>(unused, blocks).
          sbind (unlink_blocks node blocks) (\<lambda>_.
          sbind (sget (\<lambda>h. rd32 h (parent + nk_nr_subkeys))) (\<lambda>nr_subkeys.
          wr32 (parent + nk_nr_subkeys) (nr_subkeys - 1))))))) h)"

section \<open>Counting blocks\<close>

lemma hive_ok_bitmap: "hive_ok h \<Longrightarrow> length (bitmap h) = 1 + hsize h div 32"
  by (auto simp: hive_ok_def hive_wf_def bitmap_ok_def)

lemma valid_count:
  assumes h: "hive_ok h" and d: "distinct ns" and v: "\<And>n. n \<in> set ns \<Longrightarrow> IS_VALID_BLOCK h n"
  shows "length ns \<le> bitmap_slots (bitmap h)"
proof -
  have sl: "n div 4 < bitmap_slots (bitmap h)" if "n \<in> set ns" for n
  proof (rule in_bitmap[OF hive_ok_bitmap[OF h]])
    show "n < hsize h" using v[OF that] by (simp only: IS_VALID_BLOCK_def)
  qed
  have al: "n mod 4 = 0" if "n \<in> set ns" for n using v[OF that] by (simp only: IS_VALID_BLOCK_def)
  have "inj_on (\<lambda>n. n div 4) (set ns)" by (rule inj_onI) (rule aligned_eq[OF _ al al])
  then have "card (set ns) = card ((\<lambda>n. n div 4) ` set ns)" by (simp add: card_image)
  also have "\<dots> \<le> card {..<bitmap_slots (bitmap h)}" using sl by (intro card_mono) auto
  finally show ?thesis using d by (simp add: distinct_card)
qed

end
