(* ===== verification/Fuel.thy ===== *)
theory Fuel
  imports Delete_Nodes Commit
begin

text \<open>
  No operation of the library runs out of the fuel its model is given. The traversals and the converter of
  strings are the only ones that take fuel; that theirs is enough is shown in \<open>Visit\<close> and \<open>Strings\<close>. From there the
  property is carried through the programs by one rule per construct, without any condition on the image.
\<close>

section \<open>Rules\<close>

named_theorems fueled

lemma fueled_basic [fueled]:
  "op_has_fuel (sret x)" "op_has_fuel (sfail e)" "op_has_fuel (sassert P)" "op_has_fuel (supd f)"
  "op_has_fuel (sfault (OutOfBounds n))"
  by (simp_all add: op_has_fuel_def sret_def sfail_def sassert_def supd_def sfault_def)

lemma fueled_sget [fueled]: "(\<And>h. has_fuel (f h)) \<Longrightarrow> op_has_fuel (sget f)"
  by (simp add: op_has_fuel_def sget_def)

lemma fueled_split [fueled]:
  "op_has_fuel a \<Longrightarrow> op_has_fuel b \<Longrightarrow> op_has_fuel (if c then a else b)"
  "(\<And>x y. op_has_fuel (f x y)) \<Longrightarrow> op_has_fuel (case p of (x, y) \<Rightarrow> f x y)"
  "op_has_fuel a \<Longrightarrow> (\<And>x. op_has_fuel (k x)) \<Longrightarrow> op_has_fuel (case r of None \<Rightarrow> a | Some x \<Rightarrow> k x)"
  by (simp_all split: prod.split option.split)

lemmas [fueled] = op_has_fuel_sbind

text \<open>Functions that look at the state before they run.\<close>

lemma fueled_guard [fueled]:
  "has_fuel r \<Longrightarrow> op_has_fuel m \<Longrightarrow> op_has_fuel (\<lambda>s. if P s then (r, s) else m s)"
  "op_has_fuel m \<Longrightarrow> op_has_fuel m' \<Longrightarrow> op_has_fuel (\<lambda>s. if P s then m s else m' s)"
  by (simp_all add: op_has_fuel_def)

lemma fueled_peek: "(\<And>c. op_has_fuel (m c)) \<Longrightarrow> op_has_fuel (\<lambda>s. m (P s) s)"
  by (simp add: op_has_fuel_def)

lemma fueled_loops [fueled]:
  "(\<And>x. op_has_fuel (f x)) \<Longrightarrow> op_has_fuel (sfor f xs)" "(\<And>x. op_has_fuel (k x)) \<Longrightarrow> op_has_fuel (sfor_z k zs)"
proof -
  show "(\<And>x. op_has_fuel (f x)) \<Longrightarrow> op_has_fuel (sfor f xs)" by (induction xs) (simp_all add: fueled)
  show "(\<And>x. op_has_fuel (k x)) \<Longrightarrow> op_has_fuel (sfor_z k zs)" by (induction zs) (simp_all add: fueled)
qed

lemma fueled_wr [fueled]:
  "op_has_fuel (wr16 a w)" "op_has_fuel (wr32 a x)" "op_has_fuel (wr64 a y)" "op_has_fuel (wr_bytes a bs)"
  by (simp_all add: op_has_fuel_def wr16_def wr32_def wr64_def wr_bytes_def)

section \<open>Readers\<close>

lemma has_fuel_Fault [simp]: "has_fuel (Fault z) \<longleftrightarrow> z \<noteq> OutOfFuel"
  by (simp add: has_fuel_def)

lemma fuel_case:
  "has_fuel r \<Longrightarrow> (\<And>x. r = Ok x \<Longrightarrow> has_fuel (f x)) \<Longrightarrow> (\<And>e. r = Err e \<Longrightarrow> has_fuel (g e)) \<Longrightarrow>
    has_fuel (case r of Ok x \<Rightarrow> f x | Err e \<Rightarrow> g e | Fault z \<Rightarrow> Fault z)"
  by (cases r) simp_all

lemma fuel_get_children [simp]: "has_fuel (get_children h n flags)" "has_fuel (get_values h n)"
  by (auto simp: get_children_def get_children_lf_def get_children_ri_def get_values_def Let_def intro!: has_fuel_rbind)

lemma fuel_find_named: "(\<And>x. has_fuel (f x)) \<Longrightarrow> has_fuel (find_named f key xs)"
  by (induction xs) (auto intro!: has_fuel_rbind)

lemma fuel_lookups [simp]:
  "has_fuel (hivex_node_get_child h n s)" "has_fuel (hivex_node_get_value h n s)" "has_fuel (hivex_node_parent h n)"
  "has_fuel (hivex_root h)" "has_fuel (is_lf_block h b)" "has_fuel (compare_name_with_nk_name h s n)"
proof -
  show "has_fuel (hivex_node_get_child h n s)" "has_fuel (hivex_node_get_value h n s)"
    by (auto simp: hivex_node_get_child_def hivex_node_get_value_def intro!: has_fuel_rbind fuel_find_named)
  show "has_fuel (hivex_node_parent h n)" "has_fuel (is_lf_block h b)"
    by (auto simp: hivex_node_parent_def is_lf_block_def Let_def intro!: has_fuel_rbind)
  show "has_fuel (hivex_root h)" by (simp add: hivex_root_def)
  have "has_fuel (case hivex_node_name h n of Ok nname \<Rightarrow> Ok (strcasecmp s nname) | Err e \<Rightarrow> Ok 0 | Fault z \<Rightarrow> Fault z)"
    using has_fuel_readers(1)[of h n] by (auto simp: has_fuel_def split: result.split)
  then show "has_fuel (compare_name_with_nk_name h s n)"
    by (auto simp: compare_name_with_nk_name_def intro!: has_fuel_rbind)
qed

lemma fuel_find_posn [simp]: "has_fuel (find_key h name lf js)" "has_fuel (find_posn h name bs offs)"
proof -
  show k: "has_fuel (find_key h name lf js)" for lf js by (induction js) (auto intro!: has_fuel_rbind)
  show "has_fuel (find_posn h name bs offs)"
    by (induction bs arbitrary: offs) (auto intro!: has_fuel_rbind k split: option.split)
qed

lemma fuel_previous_values [simp]: "has_fuel (previous_values h key vs acc idx)"
  by (induction vs arbitrary: acc idx) (auto intro!: has_fuel_rbind)

section \<open>Writers\<close>

lemma fueled_allocate [fueled]: "op_has_fuel (allocate_block n bid)"
proof -
  have p: "op_has_fuel (allocate_page k)" for k
    unfolding op_has_fuel_def allocate_page_def Let_def by (intro allI op_has_fuelD fueled)
  have "op_has_fuel (sbind (sassert (\<lambda>h. 4 \<le> endpages h - endblocks h)) (\<lambda>_. wr32 x y))" for x y by (intro fueled)
  then have l: "op_has_fuel (\<lambda>h. if endblocks h < endpages h
      then sbind (sassert (\<lambda>h. 4 \<le> endpages h - endblocks h)) (\<lambda>_. wr32 (endblocks h) (of_nat (endpages h - endblocks h))) h
      else (Ok (), h))" by (simp add: op_has_fuel_def)
  have b: "op_has_fuel (place_block k bid)" for k
    unfolding op_has_fuel_def place_block_def Let_def by (intro allI op_has_fuelD fueled l)
  have "op_has_fuel (sbind (if c then sbind (allocate_page k) (\<lambda>newend. supd (\<lambda>h. h\<lparr>endblocks := newend\<rparr>)) else sret ())
      (\<lambda>_. place_block k bid))" for c k
    by (intro fueled p b)
  then show ?thesis by (simp add: op_has_fuel_def allocate_block_def Let_def)
qed

lemma fueled_mark [fueled]: "op_has_fuel (mark_block_unused b)"
  unfolding mark_block_unused_def by (intro fueled) simp

lemma fueled_values [fueled]: "op_has_fuel (delete_values node)" "op_has_fuel (set_one node vl x)"
proof -
  have "op_has_fuel (delete_value v)" for v unfolding delete_value_def by (intro fueled) simp_all
  then show "op_has_fuel (delete_values node)" unfolding delete_values_def by (intro fueled) simp_all
  have u: "op_has_fuel (update_max32 a n)" for a n unfolding update_max32_def by (intro fueled) simp
  have f: "op_has_fuel (fill_vk vk v)" for vk v unfolding fill_vk_def Let_def by (intro fueled)
  have s: "op_has_fuel (store_data vk data)" for vk data unfolding store_data_def by (intro fueled)
  show "op_has_fuel (set_one node vl x)" unfolding set_one_def by (intro fueled u f s)
qed

lemma fueled_set_values [fueled]: "op_has_fuel (hivex_node_set_values node svs)"
  unfolding hivex_node_set_values_def[abs_def] by (intro fueled) simp_all

lemma fueled_calc_hash [fueled]: "op_has_fuel (calc_hash t nm a)" "op_has_fuel (copy_key new old x)"
  unfolding calc_hash_def copy_key_def by (intro fueled; simp)+

lemma fueled_relink_ri [fueled]: "op_has_fuel (relink_ri old new ri js)"
proof (induction js)
  case Nil
  show ?case unfolding relink_ri.simps by (intro fueled)
next
  case (Cons j js)
  then show ?case unfolding relink_ri.simps by (intro fueled) simp_all
qed

lemma fueled_relink_blocks [fueled]: "op_has_fuel (relink_blocks old new bs)"
proof (induction bs)
  case Nil
  show ?case unfolding relink_blocks.simps by (intro fueled)
next
  case (Cons b bs)
  then show ?case unfolding relink_blocks.simps by (intro fueled) simp_all
qed

lemma fueled_link [fueled]: "op_has_fuel (link_child parent name node nr blocks)"
proof -
  have n: "op_has_fuel (new_lh_record name node)" unfolding new_lh_record_def by (intro fueled)
  have f: "op_has_fuel (fill_lf new old posn k name node)" for new old posn k
    unfolding fill_lf_def by (intro fueled) simp
  have i: "op_has_fuel (insert_lf_record old j name node)" for old j
    unfolding insert_lf_record_def Let_def by (intro fueled f) simp_all
  have r: "op_has_fuel (relink parent old new blocks)" for old new unfolding relink_def by (intro fueled) simp
  show ?thesis unfolding link_child_def by (intro fueled n i r) simp
qed

lemma fueled_add_child [fueled]: "op_has_fuel (hivex_node_add_child parent name)"
proof -
  have e: "op_has_fuel (\<lambda>h. case hivex_node_get_child h parent name of
      Ok c \<Rightarrow> (if c \<noteq> 0 then Err EEXIST else Ok (), h) | Err e \<Rightarrow> (Ok (), h) | Fault z \<Rightarrow> (Fault z, h))"
    using fuel_lookups(1)[of _ parent name] by (auto simp: op_has_fuel_def has_fuel_def split: result.split)
  have n: "op_has_fuel (create_nk parent name)" unfolding create_nk_def by (intro fueled)
  have s: "op_has_fuel (inherit_sk parent node)" for node unfolding inherit_sk_def Let_def by (intro fueled) simp_all
  have c: "op_has_fuel (count_child parent name k)" for k unfolding count_child_def by (intro fueled) simp
  show ?thesis unfolding hivex_node_add_child_def[abs_def] by (intro fueled e n s c) simp_all
qed

lemma fueled_unlink_key [fueled]: "op_has_fuel (unlink_key node lf nr js)"
proof (induction js)
  case Nil
  show ?case unfolding unlink_key.simps by (intro fueled)
next
  case (Cons j js)
  then show ?case unfolding unlink_key.simps by (intro fueled) simp_all
qed

lemma fueled_unlink_blocks [fueled]: "op_has_fuel (unlink_blocks node bs)"
proof (induction bs)
  case Nil
  show ?case unfolding unlink_blocks.simps by (intro fueled)
next
  case (Cons b bs)
  then show ?case unfolding unlink_blocks.simps by (intro fueled) simp_all
qed

text \<open>The traversal that deletes: its callback has fuel, so it ends.\<close>

lemma fueled_visit_and_delete [fueled]: "op_has_fuel (visit_and_delete node)"
proof -
  have sk: "op_has_fuel (delete_sk s)" for s unfolding delete_sk_def Let_def by (intro fueled) simp_all
  then have nsk: "op_has_fuel (delete_node_sk n)" for n unfolding delete_node_sk_def by (intro fueled) simp
  have cl: "op_has_fuel (delete_node_classname n)" for n unfolding delete_node_classname_def by (intro fueled) simp
  have "op_has_fuel (delete_node n name)" for n name unfolding delete_node_def by (intro fueled nsk cl) simp
  then have "op_has_fuel (on_handle (delete_node n name) :: (unit vstate, unit) op)" for n name
    by (auto simp: op_has_fuel_def on_handle_def split: prod.split) (metis fst_conv)
  then have "visitor_returns delete_visitor" by (simp add: visitor_returns_def delete_visitor_def empty_visitor_def)
  from visit_ends[OF this] show ?thesis
    by (auto simp: op_has_fuel_def has_fuel_def visit_and_delete_def split: prod.split) (metis fst_conv)
qed

lemma fueled_delete_child [fueled]: "op_has_fuel (hivex_node_delete_child node)"
proof -
  have "op_has_fuel (sbind (sget (\<lambda>h. check_block h node id_nk EINVAL)) (\<lambda>_.
        if root then sfail EINVAL
        else
          sbind (sget (\<lambda>h. hivex_node_parent h node)) (\<lambda>parent.
          sbind (visit_and_delete node) (\<lambda>_.
          sbind (sget (\<lambda>h. get_children h parent GET_CHILDREN_NO_CHECK_NK)) (\<lambda>(unused, blocks).
          sbind (unlink_blocks node blocks) (\<lambda>_.
          sbind (sget (\<lambda>h. rd32 h (parent + nk_nr_subkeys))) (\<lambda>nr_subkeys.
          wr32 (parent + nk_nr_subkeys) (nr_subkeys - 1))))))))" for root
    by (intro fueled) simp_all
  from fueled_peek[OF this, of "\<lambda>h. hivex_root h = Ok node"]
  show ?thesis unfolding hivex_node_delete_child_def[abs_def] by (intro fueled_guard) simp_all
qed

section \<open>Opening and committing\<close>

lemma fuel_open_blocks: "has_fuel (open_blocks h b e seen broken)"
proof (induction h b e seen broken rule: open_blocks.induct)
  case (1 h b e seen broken)
  then show ?case by (subst open_blocks.simps) (auto simp: Let_def intro!: has_fuel_rbind)
qed

lemma fuel_open_pages: "has_fuel (open_pages h off seen broken)"
proof (induction h off seen broken rule: open_pages.induct)
  case (1 h off seen broken)
  then show ?case by (subst open_pages.simps) (auto simp: Let_def intro!: has_fuel_rbind fuel_open_blocks)
qed

lemma fuel_checksum [simp]: "has_fuel (header_checksum h)"
proof -
  have "has_fuel (checksum_loop h is s)" for "is" s by (induction "is" arbitrary: s) (auto intro!: has_fuel_rbind)
  then show ?thesis by (simp add: header_checksum_def)
qed

lemma fuel_open [simp]: "has_fuel (hivex_open fs f flags)"
  by (auto simp: hivex_open_def load_header_def check_header_def check_csum_def Let_def
      intro!: has_fuel_rbind fuel_open_pages split: option.split)

lemma fueled_on_hive: "op_has_fuel f \<Longrightarrow> op_has_fuel (on_hive f)"
  by (auto simp: op_has_fuel_def on_hive_def split: prod.split) (metis fst_conv)

lemma fueled_commit: "op_has_fuel (hivex_commit fname flags)"
proof -
  have b: "op_has_fuel (\<lambda>h. wr32 hdr_blocks (of_nat (endpages h) - 0x1000) h)"
    by (simp add: op_has_fuel_def wr32_def)
  have "op_has_fuel update_header" unfolding update_header_def by (intro fueled b) simp_all
  moreover have "op_has_fuel (on_fs f)" for f by (simp add: op_has_fuel_def on_fs_def split: prod.split)
  ultimately have "op_has_fuel (sbind (on_fs f) (\<lambda>_. sbind (on_hive update_header) (\<lambda>_. on_fs g)))" for f g
    by (intro fueled fueled_on_hive)
  then show ?thesis by (auto simp: op_has_fuel_def hivex_commit_def Let_def split: prod.split)
qed

end
