(* ===== verification/Numbers.thy ===== *)
theory Numbers
  imports Prelude
begin

text \<open>
  Reading and printing numbers. \<^verbatim>\<open>strtol\<close> and \<^verbatim>\<open>xstrtol\<close> are the functions of
  \<^verbatim>\<open>gnulib/lib/strtol.c\<close> and \<^verbatim>\<open>gnulib/lib/xstrtol.c\<close> on an LP64 host (\<^verbatim>\<open>long\<close> and \<^verbatim>\<open>long long\<close> have
  64 bits, so \<^verbatim>\<open>xstrtoll\<close> is the same function) in the C locale. A returned pointer into the
  string is the number of characters before it. \<^verbatim>\<open>long\<close> values are integers, the accumulator of
  \<^verbatim>\<open>strtol\<close>, an \<^verbatim>\<open>unsigned long\<close>, is a 64-bit word.

  The theorem: \<^verbatim>\<open>strtol\<close> computes the value of the numeral, cut to the range of \<^verbatim>\<open>long\<close> with
  \<open>ERANGE\<close> when it does not fit.
\<close>

section \<open>Characters\<close>

definition c_isspace :: "byte \<Rightarrow> bool" where
  "c_isspace c \<longleftrightarrow> c = 32 \<or> c = 9 \<or> c = 10 \<or> c = 11 \<or> c = 12 \<or> c = 13"

definition c_isxdigit :: "byte \<Rightarrow> bool" where
  "c_isxdigit c \<longleftrightarrow> (48 \<le> c \<and> c \<le> 57) \<or> (65 \<le> c AND NOT 0x20 \<and> c AND NOT 0x20 \<le> 70)"

definition isalpha :: "byte \<Rightarrow> bool" where
  "isalpha c \<longleftrightarrow> (65 \<le> c \<and> c \<le> 90) \<or> (97 \<le> c \<and> c \<le> 122)"

section \<open>strtol\<close>

definition LONG_MAX :: int where "LONG_MAX = 0x7fffffffffffffff"
definition LONG_MIN :: int where "LONG_MIN = - 0x8000000000000000"
definition ULONG_MAX :: nat where "ULONG_MAX = 0xffffffffffffffff"

definition digit_val :: "byte \<Rightarrow> nat option" where
  "digit_val c =
     (if 48 \<le> c \<and> c \<le> 57 then Some (unat (c - 48))
      else if isalpha c then Some (unat (c_toupper c - 65 + 10)) else None)"

text \<open>The digits of the number: the accumulator, the overflow flag and the unread characters.\<close>

fun strtol_loop :: "nat \<Rightarrow> u64 \<Rightarrow> bool \<Rightarrow> byte list \<Rightarrow> u64 \<times> bool \<times> byte list" where
  "strtol_loop base i overflow [] = (i, overflow, [])"
| "strtol_loop base i overflow (c # s) =
     (case digit_val c of
        None \<Rightarrow> (i, overflow, c # s)
      | Some d \<Rightarrow>
          if base \<le> d then (i, overflow, c # s)
          else if ULONG_MAX div base < unat i \<or> (unat i = ULONG_MAX div base \<and> ULONG_MAX mod base < d)
          then strtol_loop base i True s
          else strtol_loop base (i * of_nat base + of_nat d) overflow s)"

definition strtol_sign :: "byte list \<Rightarrow> bool \<times> byte list" where
  "strtol_sign s =
     (case s of
        [] \<Rightarrow> (False, [])
      | c # cs \<Rightarrow> if c = 0x2d then (True, cs) else if c = 0x2b then (False, cs) else (False, s))"

definition strtol_base :: "nat \<Rightarrow> byte list \<Rightarrow> nat \<times> byte list" where
  "strtol_base base s =
     (if s \<noteq> [] \<and> hd s = 0x30 then
        if (base = 0 \<or> base = 16) \<and> tl s \<noteq> [] \<and> c_toupper (hd (tl s)) = 0x58 then (16, tl (tl s))
        else (if base = 0 then 8 else base, s)
      else (if base = 0 then 10 else base, s))"

text \<open>The end of \<^verbatim>\<open>strtol\<close> when no digit was read: \<open>save\<close> characters of \<open>s0\<close> were skipped.\<close>

definition strtol_noconv :: "byte list \<Rightarrow> nat \<Rightarrow> int \<times> nat \<times> errno option" where
  "strtol_noconv s0 save =
     (0, if 2 \<le> save \<and> c_toupper (s0 ! (save - 1)) = 0x58 \<and> s0 ! (save - 2) = 0x30 then save - 1 else 0, None)"

definition strtol_result :: "bool \<Rightarrow> u64 \<Rightarrow> bool \<Rightarrow> int \<times> errno option" where
  "strtol_result negative i overflow =
     (let limit = (if negative then 0x8000000000000000 else 0x7fffffffffffffff) in
      if overflow \<or> limit < i then (if negative then LONG_MIN else LONG_MAX, Some ERANGE)
      else (sint (if negative then - i else i), None))"

definition strtol :: "byte list \<Rightarrow> nat \<Rightarrow> (int \<times> nat \<times> errno option) result" where
  "strtol nptr base =
     (if base = 1 \<or> 36 < base then Err EINVAL
      else
        let s0 = cstr nptr; s = dropWhile c_isspace s0 in
        if s = [] then Ok (strtol_noconv s0 0)
        else
          let (negative, s) = strtol_sign s; (base, s) = strtol_base base s; save = length s0 - length s;
              (i, overflow, rest) = strtol_loop base 0 False s
          in if length rest = length s then Ok (strtol_noconv s0 save)
             else
               let (v, e) = strtol_result negative i overflow
               in Ok (v, length s0 - length rest, e))"

section \<open>xstrtol\<close>

definition LONGINT_OK :: u32 where "LONGINT_OK = 0"
definition LONGINT_OVERFLOW :: u32 where "LONGINT_OVERFLOW = 1"
definition LONGINT_INVALID_SUFFIX_CHAR :: u32 where "LONGINT_INVALID_SUFFIX_CHAR = 2"
definition LONGINT_INVALID :: u32 where "LONGINT_INVALID = 4"

text \<open>\<^verbatim>\<open>STRTOL_T_MINIMUM / scale_factor\<close> rounds towards zero.\<close>

definition bkm_scale :: "int \<Rightarrow> int \<Rightarrow> int \<times> u32" where
  "bkm_scale x scale_factor =
     (if x < - (- LONG_MIN div scale_factor) then (LONG_MIN, LONGINT_OVERFLOW)
      else if LONG_MAX div scale_factor < x then (LONG_MAX, LONGINT_OVERFLOW)
      else (x * scale_factor, LONGINT_OK))"

primrec bkm_scale_by_power :: "int \<Rightarrow> int \<Rightarrow> nat \<Rightarrow> int \<times> u32" where
  "bkm_scale_by_power x base 0 = (x, LONGINT_OK)"
| "bkm_scale_by_power x base (Suc n) =
     (let (x, err) = bkm_scale x base; (x, err') = bkm_scale_by_power x base n in (x, err OR err'))"

definition suffix_scale :: "byte \<Rightarrow> int \<Rightarrow> int \<Rightarrow> (int \<times> u32) option" where
  "suffix_scale c base x =
     (if c = 0x62 then Some (bkm_scale x 512)
      else if c = 0x42 then Some (bkm_scale x 1024)
      else if c = 0x63 then Some (x, 0)
      else if c = 0x45 then Some (bkm_scale_by_power x base 6)
      else if c = 0x47 \<or> c = 0x67 then Some (bkm_scale_by_power x base 3)
      else if c = 0x6b \<or> c = 0x4b then Some (bkm_scale_by_power x base 1)
      else if c = 0x4d \<or> c = 0x6d then Some (bkm_scale_by_power x base 2)
      else if c = 0x50 then Some (bkm_scale_by_power x base 5)
      else if c = 0x54 \<or> c = 0x74 then Some (bkm_scale_by_power x base 4)
      else if c = 0x77 then Some (bkm_scale x 2)
      else if c = 0x59 then Some (bkm_scale_by_power x base 8)
      else if c = 0x5a then Some (bkm_scale_by_power x base 7)
      else None)"

text \<open>The base and the number of characters of the suffix; \<open>p\<close> starts at its first character.\<close>

definition suffix_base :: "byte list \<Rightarrow> byte list \<Rightarrow> int \<times> nat" where
  "suffix_base valid_suffixes p =
     (if 0x30 \<in> set valid_suffixes then
        (case tl p of
           [] \<Rightarrow> (1024, 1)
         | c # cs \<Rightarrow>
             if c = 0x69 then (1024, if cs \<noteq> [] \<and> hd cs = 0x42 then 3 else 1)
             else if c = 0x42 \<or> c = 0x44 then (1000, 2) else (1024, 1))
      else (1024, 1))"

definition xstrtol_suffix :: "byte list \<Rightarrow> byte list \<Rightarrow> int \<Rightarrow> u32 \<Rightarrow> u32 \<times> int" where
  "xstrtol_suffix valid_suffixes p tmp err =
     (if hd p \<notin> set valid_suffixes then (err OR LONGINT_INVALID_SUFFIX_CHAR, tmp)
      else
        let (base, suffixes) = suffix_base valid_suffixes p in
        (case suffix_scale (hd p) base tmp of
           None \<Rightarrow> (err OR LONGINT_INVALID_SUFFIX_CHAR, tmp)
         | Some (tmp, overflow) \<Rightarrow>
             let err = err OR overflow in
             (if drop suffixes p \<noteq> [] then err OR LONGINT_INVALID_SUFFIX_CHAR else err, tmp)))"

text \<open>
  The error code, and what is stored in \<^verbatim>\<open>*val\<close>, if anything. \<open>valid_suffixes = None\<close> is \<^verbatim>\<open>NULL\<close>.
  For an inadmissible base \<^verbatim>\<open>strtol\<close> stores no end pointer, and \<^verbatim>\<open>xstrtol\<close> reads it all the same.
\<close>

definition xstrtol :: "byte list \<Rightarrow> nat \<Rightarrow> byte list option \<Rightarrow> (u32 \<times> int option) result" where
  "xstrtol s base valid_suffixes =
     (if 36 < base then Fault AssertFailed
      else
        (case strtol s base of
           Err e \<Rightarrow> Fault (OutOfBounds 0)
         | Fault z \<Rightarrow> Fault z
         | Ok (tmp, n, errno) \<Rightarrow>
        let p = drop n (cstr s);
            (invalid, tmp, err) =
              (if n = 0 then
                 (case valid_suffixes of None \<Rightarrow> True | Some vs \<Rightarrow> p = [] \<or> hd p \<notin> set (cstr vs), 1, LONGINT_OK)
               else case errno of
                 None \<Rightarrow> (False, tmp, LONGINT_OK)
               | Some e \<Rightarrow> (e \<noteq> ERANGE, tmp, LONGINT_OVERFLOW))
        in
          if invalid then Ok (LONGINT_INVALID, None)
          else
            (case valid_suffixes of
               None \<Rightarrow> Ok (err, Some tmp)
             | Some vs \<Rightarrow>
                 if p \<noteq> [] then
                   let (err, tmp) = xstrtol_suffix (cstr vs) p tmp err in Ok (err, Some tmp)
                 else Ok (err, Some tmp))))"

section \<open>Printing\<close>

definition digit_char :: "nat \<Rightarrow> byte" where
  "digit_char d = (if d < 10 then of_nat (48 + d) else of_nat (87 + d))"

fun digits :: "nat \<Rightarrow> nat \<Rightarrow> byte list" where
  "digits b n = (if n < b \<or> b < 2 then [digit_char n] else digits b (n div b) @ [digit_char (n mod b)])"

declare digits.simps [simp del]

text \<open>The conversions \<^verbatim>\<open>%d\<close> (also \<^verbatim>\<open>%ld\<close> and the like), \<^verbatim>\<open>%x\<close> and \<^verbatim>\<open>%0<w>x\<close> of \<^verbatim>\<open>printf\<close>.\<close>

definition fmt_d :: "int \<Rightarrow> byte list" where
  "fmt_d k = (if k < 0 then 0x2d # digits 10 (nat (- k)) else digits 10 (nat k))"

definition pad0 :: "nat \<Rightarrow> byte list \<Rightarrow> byte list" where
  "pad0 w ds = replicate (w - length ds) 0x30 @ ds"

definition fmt_0x :: "nat \<Rightarrow> nat \<Rightarrow> byte list" where
  "fmt_0x w n = pad0 w (digits 16 n)"

section \<open>The value of a numeral\<close>

definition is_digit :: "nat \<Rightarrow> byte \<Rightarrow> bool" where
  "is_digit b c \<longleftrightarrow> (case digit_val c of None \<Rightarrow> False | Some d \<Rightarrow> d < b)"

definition numeral_val :: "nat \<Rightarrow> byte list \<Rightarrow> nat" where
  "numeral_val b ds = foldl (\<lambda>v c. v * b + the (digit_val c)) 0 ds"

definition clamp :: "int \<Rightarrow> int" where
  "clamp v = max LONG_MIN (min LONG_MAX v)"

text \<open>The accumulator stands for the value read so far, the flag for one that has left its range.\<close>

definition acc_rep :: "u64 \<Rightarrow> bool \<Rightarrow> nat \<Rightarrow> bool" where
  "acc_rep i ov v \<longleftrightarrow> (if ov then ULONG_MAX < v else unat i = v)"

lemma acc_rep_step:
  assumes r: "acc_rep i ov v" and b: "2 \<le> b" "b \<le> 36" and d: "d < b"
  shows "if ULONG_MAX div b < unat i \<or> (unat i = ULONG_MAX div b \<and> ULONG_MAX mod b < d)
    then acc_rep i True (v * b + d) else acc_rep (i * of_nat b + of_nat d) ov (v * b + d)"
proof -
  let ?q = "ULONG_MAX div b" and ?m = "ULONG_MAX mod b"
  have M: "ULONG_MAX = ?q * b + ?m" by simp
  have mb: "?m < b" using b by simp
  have big: "ULONG_MAX < v * b + d" if "ov"
  proof -
    have "ULONG_MAX < v * 1" using r that by (simp add: acc_rep_def)
    also have "v * 1 \<le> v * b" using b(1) by (intro mult_le_mono2) simp
    finally show ?thesis by simp
  qed
  show ?thesis
  proof (cases "?q < unat i \<or> (unat i = ?q \<and> ?m < d)")
    case True
    have "ULONG_MAX < v * b + d" if "\<not> ov"
    proof (cases "?q < v")
      case t: True
      then have "(?q + 1) * b \<le> v * b" by (intro mult_le_mono1) simp
      then have "?q * b + b \<le> v * b" by simp
      with M mb show ?thesis by linarith
    next
      case False
      with True r that have "v = ?q" "?m < d" by (auto simp: acc_rep_def)
      with M show ?thesis by (metis nat_add_left_cancel_less)
    qed
    with big True show ?thesis by (auto simp: acc_rep_def)
  next
    case False
    have "unat (i * of_nat b + of_nat d) = v * b + d" if "\<not> ov"
    proof -
      have i: "unat i = v" using r that by (simp add: acc_rep_def)
      have "v * b + d \<le> ULONG_MAX"
      proof (cases "v = ?q")
        case True
        with False i have "d \<le> ?m" by simp
        then have "?q * b + d \<le> ?q * b + ?m" by (rule add_left_mono)
        with M True show ?thesis by metis
      next
        case n: False
        then have "v + 1 \<le> ?q" using False i by simp
        then have "(v + 1) * b \<le> ?q * b" by (intro mult_le_mono1)
        then have "v * b + b \<le> ?q * b" by simp
        with M d show ?thesis by linarith
      qed
      then have lt: "v * b + d < 2 ^ 64" by (simp add: ULONG_MAX_def)
      have "i * of_nat b + of_nat d = (of_nat (v * b + d) :: u64)" by (simp flip: i)
      with lt show ?thesis by (simp only: unsigned_of_nat) (simp add: take_bit_nat_eq_self)
    qed
    with False big show ?thesis by (auto simp: acc_rep_def)
  qed
qed

lemma strtol_loop_digits:
  assumes "acc_rep i ov v" and "2 \<le> b" "b \<le> 36" and "\<forall>c \<in> set ds. is_digit b c"
    and "rest = [] \<or> \<not> is_digit b (hd rest)"
  shows "\<exists>i' ov'. strtol_loop b i ov (ds @ rest) = (i', ov', rest) \<and>
    acc_rep i' ov' (foldl (\<lambda>v c. v * b + the (digit_val c)) v ds)"
  using assms
proof (induction ds arbitrary: i ov v)
  case Nil
  then show ?case by (cases rest) (auto simp: is_digit_def split: option.splits)
next
  case (Cons c ds)
  obtain d where d: "digit_val c = Some d" "d < b"
    using Cons.prems(4) by (auto simp: is_digit_def split: option.splits)
  show ?case using acc_rep_step[OF Cons.prems(1,2,3) d(2)] Cons.IH Cons.prems(2-5) d by simp
qed

lemma sint_of_int64: "- (2 ^ 63) \<le> k \<Longrightarrow> k < 2 ^ 63 \<Longrightarrow> sint (word_of_int k :: u64) = k"
  unfolding sint_sbintrunc' by (intro signed_take_bit_int_eq_self) auto

lemma strtol_result_clamp:
  assumes "acc_rep i ov v" and v: "k = (if negative then - int v else int v)"
  shows "strtol_result negative i ov = (clamp k, if clamp k = k then None else Some ERANGE)"
proof (cases ov)
  case True
  then have "ULONG_MAX < v" using assms by (simp add: acc_rep_def)
  then show ?thesis using True v by (auto simp: strtol_result_def clamp_def LONG_MAX_def LONG_MIN_def ULONG_MAX_def)
next
  case False
  then have i: "unat i = v" using assms by (simp add: acc_rep_def)
  then have iw: "i = word_of_int (int v)" by auto
  have s: "sint (if negative then - i else i) = k" if "v \<le> (if negative then 2 ^ 63 else 2 ^ 63 - 1)"
    using that sint_of_int64[of "- int v"] sint_of_int64[of "int v"] by (auto simp: v iw)
  have le: "(0x8000000000000000 :: u64) < i \<longleftrightarrow> 2 ^ 63 < v" "(0x7fffffffffffffff :: u64) < i \<longleftrightarrow> 2 ^ 63 - 1 < v"
    by (simp_all add: word_less_nat_alt i)
  show ?thesis using False s v
    by (auto simp: strtol_result_def le clamp_def LONG_MAX_def LONG_MIN_def)
qed

section \<open>strtol reads numerals\<close>

text \<open>The prefixes of a literal with base 0: how it is written and which base it has.\<close>

definition literal_ok :: "nat \<Rightarrow> byte list \<Rightarrow> byte list \<Rightarrow> byte list \<Rightarrow> bool" where
  "literal_ok b pre ds rest \<longleftrightarrow>
     ds \<noteq> [] \<and> (\<forall>c \<in> set ds. is_digit b c) \<and> (rest = [] \<or> \<not> is_digit b (hd rest)) \<and>
     (b = 16 \<and> (pre = [0x30, 0x78] \<or> pre = [0x30, 0x58]) \<or>
      b = 10 \<and> pre = [] \<and> hd ds \<noteq> 0x30 \<or>
      b = 8 \<and> pre = [] \<and> hd ds = 0x30 \<and> \<not> (tl ds = [] \<and> rest \<noteq> [] \<and> c_toupper (hd rest) = 0x58))"

definition sign_ok :: "bool \<Rightarrow> byte list \<Rightarrow> bool" where
  "sign_ok negative sg \<longleftrightarrow> sg = [0x2d] \<and> negative \<or> (sg = [] \<or> sg = [0x2b]) \<and> \<not> negative"

lemma digit_chars:
  assumes "is_digit b c"
  shows "c \<noteq> 0" "\<not> c_isspace c" "c \<noteq> 0x2d" "c \<noteq> 0x2b"
  using assms by (auto simp: is_digit_def digit_val_def isalpha_def c_isspace_def)

lemma toupper_digit: "is_digit b c \<Longrightarrow> b \<le> 10 \<Longrightarrow> c_toupper c \<noteq> 0x58"
proof -
  assume "is_digit b c" "b \<le> 10"
  moreover have "10 \<le> unat (c_toupper c - 65 + 10)" if "isalpha c"
  proof -
    have "97 \<le> unat c \<and> unat c \<le> 122 \<or> 65 \<le> unat c \<and> unat c \<le> 90"
      using that by (auto simp: isalpha_def word_le_nat_alt)
    then have "unat (c_toupper c) \<ge> 65 \<and> unat (c_toupper c) \<le> 90"
      by (auto simp: c_toupper_def word_le_nat_alt unat_sub_if_size word_size)
    then show ?thesis by (simp add: unat_word_ariths unat_sub_if_size word_size) linarith
  qed
  ultimately have "48 \<le> c \<and> c \<le> 57" by (auto simp: is_digit_def digit_val_def split: if_splits)
  then have "unat c \<le> 57" by (simp add: word_le_nat_alt)
  then have "c \<noteq> 0x58" "\<not> 97 \<le> c" by (auto simp: word_le_nat_alt)
  then show ?thesis by (auto simp: c_toupper_def)
qed

lemma literal_base:
  assumes l: "literal_ok b pre ds rest"
  shows "strtol_base 0 (pre @ ds @ rest) = (b, ds @ rest)" "2 \<le> b" "b \<le> 36"
proof -
  show "2 \<le> b" "b \<le> 36" using l by (auto simp: literal_ok_def)
  obtain d ds' where d: "ds = d # ds'" using l by (cases ds) (auto simp: literal_ok_def)
  have "c_toupper 0x78 = 0x58" "c_toupper 0x58 = 0x58" by (simp_all add: c_toupper_def)
  moreover have "c_toupper (hd (ds' @ rest)) \<noteq> 0x58" if "b = 8" "ds' @ rest \<noteq> []"
  proof (cases ds')
    case Nil
    then show ?thesis using l that d by (simp add: literal_ok_def)
  next
    case (Cons a as)
    then show ?thesis using l that d toupper_digit[of 8 a] by (simp add: literal_ok_def)
  qed
  ultimately show "strtol_base 0 (pre @ ds @ rest) = (b, ds @ rest)"
    using l d by (auto simp: strtol_base_def literal_ok_def)
qed

lemma literal_start:
  assumes l: "literal_ok b pre ds rest" and sg: "sign_ok negative sg" and ws: "\<forall>c \<in> set ws. c_isspace c"
    and z: "0 \<notin> set rest"
  defines "s0 \<equiv> ws @ sg @ pre @ ds @ rest"
  shows "cstr s0 = s0" "dropWhile c_isspace s0 = sg @ pre @ ds @ rest"
    "strtol_sign (sg @ pre @ ds @ rest) = (negative, pre @ ds @ rest)"
proof -
  have "0 \<notin> set s0"
    using l sg ws z digit_chars(1) unfolding s0_def
    by (auto simp: literal_ok_def sign_ok_def c_isspace_def)
  then show "cstr s0 = s0" by (rule cstr_id)
  obtain d ds' where d: "ds = d # ds'" "is_digit b d" using l by (cases ds) (auto simp: literal_ok_def)
  have pre: "pre = [] \<or> pre = [0x30, 0x78] \<or> pre = [0x30, 0x58]" using l by (auto simp: literal_ok_def)
  have "\<not> c_isspace (hd (sg @ pre @ ds @ rest))"
    using sg pre digit_chars(2)[OF d(2)] d(1) by (auto simp: sign_ok_def c_isspace_def)
  then show "dropWhile c_isspace s0 = sg @ pre @ ds @ rest"
    using ws d(1) unfolding s0_def by (simp add: dropWhile_append2 dropWhile_eq_self_iff)
  show "strtol_sign (sg @ pre @ ds @ rest) = (negative, pre @ ds @ rest)"
    using sg pre digit_chars(3,4)[OF d(2)] d(1) by (auto simp: sign_ok_def strtol_sign_def)
qed

lemma strtol_literal:
  assumes l: "literal_ok b pre ds rest" and sg: "sign_ok negative sg" and ws: "\<forall>c \<in> set ws. c_isspace c"
    and z: "0 \<notin> set rest" and v: "v = (if negative then - int (numeral_val b ds) else int (numeral_val b ds))"
  shows "strtol (ws @ sg @ pre @ ds @ rest) 0 =
    Ok (clamp v, length (ws @ sg @ pre @ ds), if clamp v = v then None else Some ERANGE)"
proof -
  note st = literal_start[OF l sg ws z] and base = literal_base[OF l]
  obtain i ov where lp: "strtol_loop b 0 False (ds @ rest) = (i, ov, rest)" "acc_rep i ov (numeral_val b ds)"
    using strtol_loop_digits[of 0 False 0 b ds rest] base(2,3) l
    by (auto simp: acc_rep_def literal_ok_def numeral_val_def)
  have ne: "ds \<noteq> []" using l by (simp add: literal_ok_def)
  show ?thesis
    using st base(1) lp(1) ne strtol_result_clamp[OF lp(2) v] by (simp add: strtol_def Let_def del: dropWhile_eq_Nil_conv)
qed

section \<open>Reading what was printed\<close>

lemma less_36: "d < 36 \<Longrightarrow> d \<in> set [0..<36]" for d :: nat
  by simp

lemma digit_char_all:
  "\<forall>d \<in> set [0..<36]. digit_val (digit_char d) = Some d \<and> (0 < d \<longrightarrow> digit_char d \<noteq> 0x30)"
  by (simp add: upt_rec digit_char_def digit_val_def isalpha_def c_toupper_def)

lemma digit_val_char: "d < 36 \<Longrightarrow> digit_val (digit_char d) = Some d" "0 < d \<Longrightarrow> d < 36 \<Longrightarrow> digit_char d \<noteq> 0x30"
  using digit_char_all less_36 by blast+

lemma digits_props:
  assumes "2 \<le> b" "b \<le> 36"
  shows "numeral_val b (digits b n) = n \<and> (\<forall>c \<in> set (digits b n). is_digit b c) \<and> digits b n \<noteq> [] \<and>
    (0 < n \<longrightarrow> hd (digits b n) \<noteq> 0x30)"
  using assms
proof (induction b n rule: digits.induct)
  case (1 b n)
  show ?case
  proof (cases "n < b")
    case True
    then have "digits b n = [digit_char n]" by (simp add: digits.simps[of b n])
    with True 1(3) show ?thesis
      using digit_val_char[of n] by (simp add: numeral_val_def is_digit_def)
  next
    case False
    then have d: "digits b n = digits b (n div b) @ [digit_char (n mod b)]" "0 < n div b" "n mod b < b"
      using 1(2) by (simp_all add: digits.simps[of b n] div_greater_zero_iff)
    have nb: "\<not> (n < b \<or> b < 2)" using False 1(2) by simp
    have m: "n mod b < 36" using d(3) 1(3) by simp
    show ?thesis using 1(1)[OF nb 1(2,3)] d digit_val_char(1)[OF m]
      by (simp add: numeral_val_def is_digit_def)
  qed
qed

lemma read_back:
  assumes "LONG_MIN \<le> n" and "n \<le> LONG_MAX"
  shows "xstrtol (fmt_d n) 0 (Some []) = Ok (LONGINT_OK, Some n)"
proof -
  define ds where "ds = digits 10 (nat \<bar>n\<bar>)"
  define sg :: "byte list" where "sg = (if n < 0 then [0x2d] else [])"
  have f: "fmt_d n = sg @ ds" by (simp add: fmt_d_def sg_def ds_def)
  have z: "digits 10 0 = [0x30]" by (simp add: digits.simps digit_char_def)
  note dp = digits_props[of 10 "nat \<bar>n\<bar>", folded ds_def]
  have "\<exists>b. literal_ok b [] ds [] \<and> int (numeral_val b ds) = \<bar>n\<bar>"
  proof (cases "n = 0")
    case True
    then show ?thesis
      using z by (intro exI[of _ 8]) (simp add: ds_def literal_ok_def is_digit_def digit_val_def numeral_val_def)
  next
    case False
    then show ?thesis using dp by (intro exI[of _ 10]) (simp add: literal_ok_def)
  qed
  then obtain b where b: "literal_ok b [] ds []" "int (numeral_val b ds) = \<bar>n\<bar>" by blast
  have so: "sign_ok (n < 0) sg" by (simp add: sign_ok_def sg_def)
  have v: "n = (if n < 0 then - int (numeral_val b ds) else int (numeral_val b ds))" using b(2) by simp
  have c: "clamp n = n" using assms by (simp add: clamp_def)
  have st: "strtol (sg @ ds) 0 = Ok (n, length (sg @ ds), None)"
    using strtol_literal[OF b(1) so _ _ v, of "[]"] c by simp
  have "0 \<notin> set (sg @ ds)" using dp digit_chars(1) by (fastforce simp: sg_def)
  then have "cstr (sg @ ds) = sg @ ds" by (rule cstr_id)
  moreover have "cstr [] = []" by (simp add: cstr_def)
  ultimately show ?thesis using st dp by (simp add: xstrtol_def f)
qed

section \<open>Properties\<close>

text \<open>
  C34: \<^verbatim>\<open>strtol\<close> with base 0 reads a literal (white space, a sign, a decimal, octal or hexadecimal
  numeral) up to the first character that is no digit: it returns the value of the numeral, cut
  to the range of \<^verbatim>\<open>long\<close>, the end of the numeral, and \<open>ERANGE\<close> exactly when the value does not fit.
\<close>

theorem strtol_correct:
  assumes "literal_ok b pre ds rest" and "sign_ok negative sg" and "\<forall>c \<in> set ws. c_isspace c" and "0 \<notin> set rest"
    and "v = (if negative then - int (numeral_val b ds) else int (numeral_val b ds))"
  shows "strtol (ws @ sg @ pre @ ds @ rest) 0 =
    Ok (max LONG_MIN (min LONG_MAX v), length (ws @ sg @ pre @ ds),
      if LONG_MIN \<le> v \<and> v \<le> LONG_MAX then None else Some ERANGE)"
proof -
  have "clamp v = v \<longleftrightarrow> LONG_MIN \<le> v \<and> v \<le> LONG_MAX"
    by (auto simp: clamp_def LONG_MIN_def LONG_MAX_def)
  then show ?thesis using strtol_literal[OF assms] by (simp add: clamp_def)
qed

end
