(* ===== verification/Getopt.thy ===== *)
theory Getopt
  imports Prelude "HOL-Library.Multiset"
begin

text \<open>
  The parsing of the programs' options: \<^verbatim>\<open>getopt\<close> of \<^verbatim>\<open>gnulib/lib/getopt.c\<close>, without long options (\<^verbatim>\<open>getopt\<close>
  passes none) and without the messages. The vector of arguments is a list that \<^verbatim>\<open>exchange\<close> permutes; the
  static data are the record \<open>getopt_data\<close>; \<^verbatim>\<open>__nextchar\<close> is the rest of the current element, or \<open>None\<close> for
  \<^verbatim>\<open>NULL\<close>. Whether \<^verbatim>\<open>POSIXLY_CORRECT\<close> holds is the parameter \<open>posixly_correct\<close>: gnulib's \<^verbatim>\<open>getopt\<close> passes 1, that of
  the GNU C library 0, and the environment can set it.

  The reference is \<open>parse\<close>: one pass over the arguments that gives the options with their arguments
  and the operands. The theorem: the calls of \<^verbatim>\<open>getopt\<close> return these options one by one, and in the end
  \<^verbatim>\<open>optind\<close> is where the operands start, in their order. The interface between the scanner and the
  loops of the programs is the locale \<open>option_scanner\<close>.
\<close>

section \<open>Definitions\<close>

datatype ord = REQUIRE_ORDER | PERMUTE | RETURN_IN_ORDER

record getopt_data =
  optind :: nat
  optopt :: byte
  optarg :: "byte list option"
  initialized :: bool
  nextchar :: "byte list option"
  ordering :: ord
  first_nonopt :: nat
  last_nonopt :: nat

text \<open>
  What the first call of \<^verbatim>\<open>_getopt_internal\<close> hands on: the zero-initialised \<^verbatim>\<open>getopt_data\<close>, with \<^verbatim>\<open>optind\<close>
  copied from the global variable. (The \<^verbatim>\<open>'?'\<close> that the global \<^verbatim>\<open>optopt\<close> starts with is overwritten by that call.)
\<close>

definition getopt_start :: getopt_data where
  "getopt_start = \<lparr>optind = 1, optopt = 0, optarg = None, initialized = False, nextchar = None,
     ordering = REQUIRE_ORDER, first_nonopt = 0, last_nonopt = 0\<rparr>"

text \<open>The loop that swaps \<open>len\<close> elements from \<open>a\<close> on with those from \<open>b\<close> on.\<close>

fun swap_range :: "nat \<Rightarrow> nat \<Rightarrow> nat \<Rightarrow> 'a list \<Rightarrow> 'a list" where
  "swap_range a b 0 argv = argv"
| "swap_range a b (Suc len) argv = swap_range (Suc a) (Suc b) len (argv[a := argv ! b, b := argv ! a])"

function exchange_loop :: "nat \<Rightarrow> nat \<Rightarrow> nat \<Rightarrow> 'a list \<Rightarrow> 'a list" where
  "exchange_loop bottom middle upper argv =
     (if middle < upper \<and> bottom < middle then
        if middle - bottom < upper - middle then
          let len = middle - bottom in
          exchange_loop bottom middle (upper - len) (swap_range bottom (upper - len) len argv)
        else
          let len = upper - middle in
          exchange_loop (bottom + len) middle upper (swap_range bottom middle len argv)
      else argv)"
  by pat_completeness auto
termination by (relation "measure (\<lambda>(bottom, middle, upper, argv). upper - bottom)") auto

declare exchange_loop.simps [simp del]

definition exchange :: "byte list list \<Rightarrow> getopt_data \<Rightarrow> byte list list \<times> getopt_data" where
  "exchange argv d =
     (exchange_loop (first_nonopt d) (last_nonopt d) (optind d) argv,
      d\<lparr>first_nonopt := first_nonopt d + (optind d - last_nonopt d), last_nonopt := optind d\<rparr>)"

definition getopt_initialize :: "bool \<Rightarrow> byte list \<Rightarrow> getopt_data \<Rightarrow> byte list \<times> getopt_data" where
  "getopt_initialize posixly_correct optstring d =
     (let d = d\<lparr>first_nonopt := optind d, last_nonopt := optind d, nextchar := None\<rparr> in
      if optstring \<noteq> [] \<and> hd optstring = 0x2d then (tl optstring, d\<lparr>ordering := RETURN_IN_ORDER\<rparr>)
      else if optstring \<noteq> [] \<and> hd optstring = 0x2b then (tl optstring, d\<lparr>ordering := REQUIRE_ORDER\<rparr>)
      else if posixly_correct then (optstring, d\<lparr>ordering := REQUIRE_ORDER\<rparr>)
      else (optstring, d\<lparr>ordering := PERMUTE\<rparr>))"

definition NONOPTION_P :: "byte list \<Rightarrow> bool" where
  "NONOPTION_P a \<longleftrightarrow> a = [] \<or> hd a \<noteq> 0x2d \<or> tl a = []"

definition dashes :: "byte list" where
  "dashes = [0x2d, 0x2d]"

text \<open>The options come before the operands that were skipped, then further operands are skipped.\<close>

definition permute_operands :: "byte list list \<Rightarrow> getopt_data \<Rightarrow> byte list list \<times> getopt_data" where
  "permute_operands argv d =
     (let (argv, d) =
        (if first_nonopt d \<noteq> last_nonopt d \<and> last_nonopt d \<noteq> optind d then exchange argv d
         else if last_nonopt d \<noteq> optind d then (argv, d\<lparr>first_nonopt := optind d\<rparr>)
         else (argv, d));
      i = optind d + length (takeWhile NONOPTION_P (drop (optind d) argv)) in
      (argv, d\<lparr>optind := i, last_nonopt := i\<rparr>))"

definition end_of_options :: "byte list list \<Rightarrow> getopt_data \<Rightarrow> byte list list \<times> getopt_data" where
  "end_of_options argv d =
     (if optind d \<noteq> length argv \<and> argv ! optind d = dashes then
        let d = d\<lparr>optind := optind d + 1\<rparr>;
            (argv, d) =
              (if first_nonopt d \<noteq> last_nonopt d \<and> last_nonopt d \<noteq> optind d then exchange argv d
               else if first_nonopt d = last_nonopt d then (argv, d\<lparr>first_nonopt := optind d\<rparr>)
               else (argv, d)) in
        (argv, d\<lparr>last_nonopt := length argv, optind := length argv\<rparr>)
      else (argv, d))"

text \<open>The element at \<^verbatim>\<open>optind\<close>: a value when the call returns, otherwise \<^verbatim>\<open>__nextchar\<close> is set, to a string that is not empty.\<close>

definition take_element :: "byte list list \<Rightarrow> getopt_data \<Rightarrow> int option \<times> byte list list \<times> getopt_data" where
  "take_element argv d =
     (if optind d = length argv then
        (Some (- 1), argv, if first_nonopt d \<noteq> last_nonopt d then d\<lparr>optind := first_nonopt d\<rparr> else d)
      else if NONOPTION_P (argv ! optind d) then
        if ordering d = REQUIRE_ORDER then (Some (- 1), argv, d)
        else (Some 1, argv, d\<lparr>optarg := Some (argv ! optind d), optind := optind d + 1\<rparr>)
      else (None, argv, d\<lparr>nextchar := Some (tl (argv ! optind d))\<rparr>))"

definition next_element :: "byte list list \<Rightarrow> getopt_data \<Rightarrow> int option \<times> byte list list \<times> getopt_data" where
  "next_element argv d =
     (let d = (if optind d < last_nonopt d then d\<lparr>last_nonopt := optind d\<rparr> else d);
          d = (if optind d < first_nonopt d then d\<lparr>first_nonopt := optind d\<rparr> else d);
          (argv, d) = (if ordering d = PERMUTE then permute_operands argv d else (argv, d));
          (argv, d) = end_of_options argv d in
      take_element argv d)"

definition strchr :: "byte list \<Rightarrow> byte \<Rightarrow> byte list" where
  "strchr s c = dropWhile (\<lambda>x. x \<noteq> c) s"

text \<open>A \<^verbatim>\<open>char\<close> is signed when it is returned as an \<^verbatim>\<open>int\<close>.\<close>

definition code :: "byte \<Rightarrow> int" where
  "code c = sint c"

text \<open>The argument of the option \<^verbatim>\<open>c\<close>: \<open>temp\<close> is its entry in the option string, \<open>cs\<close> the rest of the current element.\<close>

definition option_argument ::
  "byte list \<Rightarrow> byte list \<Rightarrow> byte list list \<Rightarrow> byte \<Rightarrow> byte list \<Rightarrow> getopt_data \<Rightarrow> int \<times> getopt_data" where
  "option_argument temp optstring argv c cs d =
     (if take 1 (tl temp) = [0x3a] then
        if take 2 (tl temp) = [0x3a, 0x3a] then
          (code c, (if cs \<noteq> [] then d\<lparr>optarg := Some cs, optind := optind d + 1\<rparr> else d\<lparr>optarg := None\<rparr>)\<lparr>nextchar := None\<rparr>)
        else if cs \<noteq> [] then (code c, d\<lparr>optarg := Some cs, optind := optind d + 1, nextchar := None\<rparr>)
        else if optind d = length argv then
          (if take 1 optstring = [0x3a] then 0x3a else 0x3f, d\<lparr>optopt := c, nextchar := None\<rparr>)
        else (code c, d\<lparr>optarg := Some (argv ! optind d), optind := optind d + 1, nextchar := None\<rparr>)
      else (code c, d))"

text \<open>The next character of the current element, \<^verbatim>\<open>c\<close>, with \<open>cs\<close> after it.\<close>

definition short_option :: "byte list \<Rightarrow> byte list list \<Rightarrow> byte \<Rightarrow> byte list \<Rightarrow> getopt_data \<Rightarrow> int \<times> getopt_data" where
  "short_option optstring argv c cs d =
     (let temp = strchr optstring c;
          d = d\<lparr>nextchar := Some cs\<rparr>;
          d = (if cs = [] then d\<lparr>optind := optind d + 1\<rparr> else d) in
      if temp = [] \<or> c = 0x3a \<or> c = 0x3b then (0x3f, d\<lparr>optopt := c\<rparr>)
      else if take 2 temp = [0x57, 0x3b] then (0x57, d\<lparr>nextchar := None\<rparr>)
      else option_argument temp optstring argv c cs d)"

definition getopt_internal_r :: "bool \<Rightarrow> byte list \<Rightarrow> byte list list \<times> getopt_data \<Rightarrow> int \<times> byte list list \<times> getopt_data" where
  "getopt_internal_r posixly_correct optstring = (\<lambda>(argv, d).
     if length argv < 1 then (- 1, argv, d)
     else
       let d = d\<lparr>optarg := None\<rparr>;
           (optstring, d) =
             (if optind d = 0 \<or> \<not> initialized d then
                let d = (if optind d = 0 then d\<lparr>optind := 1\<rparr> else d);
                    (optstring, d) = getopt_initialize posixly_correct optstring d in
                (optstring, d\<lparr>initialized := True\<rparr>)
              else if optstring \<noteq> [] \<and> (hd optstring = 0x2d \<or> hd optstring = 0x2b) then (tl optstring, d)
              else (optstring, d));
           (r, argv, d) = (if nextchar d = None \<or> nextchar d = Some [] then next_element argv d else (None, argv, d)) in
       case r of
         Some c \<Rightarrow> (c, argv, d)
       | None \<Rightarrow>
           (case nextchar d of
              Some (c # cs) \<Rightarrow> (case short_option optstring argv c cs d of (c, d) \<Rightarrow> (c, argv, d))
            | _ \<Rightarrow> (- 1, argv, d)))"

text \<open>The loop of a program around \<^verbatim>\<open>getopt\<close>; \<open>handle\<close> is the body of its \<^verbatim>\<open>switch\<close>, \<open>None\<close> where it exits.\<close>

primrec option_loop ::
  "('s \<Rightarrow> int \<times> 's) \<Rightarrow> ('s \<Rightarrow> byte list option) \<Rightarrow> ('a \<Rightarrow> int \<Rightarrow> byte list option \<Rightarrow> 'a option) \<Rightarrow>
   nat \<Rightarrow> 'a \<Rightarrow> 's \<Rightarrow> ('a option \<times> 's) option" where
  "option_loop next arg handle 0 a s = None"
| "option_loop next arg handle (Suc n) a s =
     (case next s of (c, s) \<Rightarrow>
        if c = - 1 then Some (Some a, s)
        else case handle a c (arg s) of None \<Rightarrow> Some (None, s) | Some a \<Rightarrow> option_loop next arg handle n a s)"

definition getopt_loop ::
  "bool \<Rightarrow> byte list \<Rightarrow> ('a \<Rightarrow> int \<Rightarrow> byte list option \<Rightarrow> 'a option) \<Rightarrow> 'a \<Rightarrow> byte list list \<Rightarrow>
   ('a option \<times> byte list list \<times> getopt_data) option" where
  "getopt_loop posixly_correct optstring handle a argv =
     option_loop (getopt_internal_r posixly_correct optstring) (\<lambda>(argv, d). optarg d) handle
       (Suc (length (concat argv) + length argv)) a (argv, getopt_start)"

section \<open>The exchange of two segments\<close>

lemma swap_range_segments:
  "length A = length B \<Longrightarrow>
    swap_range (length p) (length p + length A + length M) (length A) (p @ A @ M @ B @ q) = p @ B @ M @ A @ q"
proof (induction A B arbitrary: p M rule: list_induct2)
  case (Cons x A y B)
  let ?a = "length p" and ?b = "length p + Suc (length A) + length M"
  have "(p @ (x # A) @ M @ (y # B) @ q)[?a := y, ?b := x] = (p @ [y]) @ A @ (M @ [x]) @ B @ q"
    by (simp add: list_update_append)
  moreover have "(p @ (x # A) @ M @ (y # B) @ q) ! ?b = y" "(p @ (x # A) @ M @ (y # B) @ q) ! ?a = x"
    by (simp_all add: nth_append)
  ultimately show ?case using Cons.IH[of "p @ [y]" "M @ [x]"] by simp
qed simp

text \<open>Each round puts the shorter segment in its place and leaves a smaller exchange of the same kind.\<close>

lemma exchange_loop_segments:
  "exchange_loop (length p) (length p + length A) (length p + length A + length B) (p @ A @ B @ q) = p @ B @ A @ q"
proof (induction "length A + length B" arbitrary: p A B q rule: less_induct)
  case less
  show ?case
  proof (cases "A = [] \<or> B = []")
    case True
    then show ?thesis by (subst exchange_loop.simps) auto
  next
    case False
    show ?thesis
    proof (cases "length A < length B")
      case True
      define B1 B2 where "B1 = take (length B - length A) B" and "B2 = drop (length B - length A) B"
      have B: "B = B1 @ B2" "length A = length B2" using True by (auto simp: B1_def B2_def)
      have "exchange_loop (length p) (length p + length B2) (length p + length B2 + length B1) (p @ B2 @ B1 @ A @ q) = p @ B1 @ B2 @ A @ q"
        using False B by (intro less) auto
      then show ?thesis using swap_range_segments[OF B(2), of p B1 q] False True B
        by (subst exchange_loop.simps) (auto simp: Let_def add_ac)
    next
      case le: False
      define A1 A2 where "A1 = take (length B) A" and "A2 = drop (length B) A"
      have A: "A = A1 @ A2" "length A1 = length B" using le by (auto simp: A1_def A2_def)
      have "exchange_loop (length (p @ B)) (length (p @ B) + length A2) (length (p @ B) + length A2 + length A1) ((p @ B) @ A2 @ A1 @ q) = (p @ B) @ A1 @ A2 @ q"
        using False A by (intro less) auto
      then show ?thesis using swap_range_segments[OF A(2), of p A2 q] False le A
        by (subst exchange_loop.simps) (simp add: Let_def add_ac)
    qed
  qed
qed

lemma exchange_drop:
  assumes "f \<le> l" "l \<le> i" "i \<le> length argv"
  shows "exchange_loop f l i argv = take f argv @ take (i - l) (drop l argv) @ take (l - f) (drop f argv) @ drop i argv"
proof -
  let ?p = "take f argv" and ?A = "take (l - f) (drop f argv)" and ?B = "take (i - l) (drop l argv)"
  have "argv = ?p @ ?A @ ?B @ drop i argv"
    using assms by (metis append_take_drop_id drop_drop le_add_diff_inverse2)
  then show ?thesis using exchange_loop_segments[of ?p ?A ?B "drop i argv"] assms by simp
qed

section \<open>The reference\<close>

text \<open>One element of options, its characters \<open>cs\<close>, followed by the arguments \<open>as\<close>.\<close>

fun cluster :: "byte list \<Rightarrow> byte list \<Rightarrow> byte list list \<Rightarrow> (int \<times> byte list option) list \<times> byte list list" where
  "cluster os [] as = ([], as)"
| "cluster os (c # cs) as =
     (let temp = strchr os c; go = (\<lambda>e. case cluster os cs as of (es, as') \<Rightarrow> (e # es, as')) in
      if temp = [] \<or> c = 0x3a \<or> c = 0x3b then go (0x3f, None)
      else if take 1 (tl temp) = [0x3a] then
        if cs \<noteq> [] then ([(code c, Some cs)], as)
        else if take 2 (tl temp) = [0x3a, 0x3a] then ([(code c, None)], as)
        else (case as of
                [] \<Rightarrow> ([(if take 1 os = [0x3a] then 0x3a else 0x3f, None)], [])
              | a # as \<Rightarrow> ([(code c, Some a)], as))
      else go (code c, None))"

lemma cluster_length: "length (snd (cluster os cs as)) \<le> length as"
  by (induction os cs as rule: cluster.induct) (auto simp: Let_def split: prod.splits list.splits)

function parse :: "ord \<Rightarrow> byte list \<Rightarrow> byte list list \<Rightarrow> (int \<times> byte list option) list \<times> byte list list" where
  "parse ord os [] = ([], [])"
| "parse ord os (a # as) =
     (if a = dashes then ([], as)
      else if NONOPTION_P a then
        (case ord of
           REQUIRE_ORDER \<Rightarrow> ([], a # as)
         | PERMUTE \<Rightarrow> (case parse ord os as of (es, r) \<Rightarrow> (es, a # r))
         | RETURN_IN_ORDER \<Rightarrow> (case parse ord os as of (es, r) \<Rightarrow> ((1, Some a) # es, r)))
      else
        case cluster os (tl a) as of (es, as') \<Rightarrow>
        case parse ord os as' of (es', r) \<Rightarrow> (es @ es', r))"
  by pat_completeness auto
termination
proof (relation "measure (\<lambda>(ord, os, as). length as)")
  fix os :: "byte list" and a :: "byte list" and as y :: "byte list list" and x :: "(int \<times> byte list option) list" and ord :: ord
  assume "(x, y) = cluster os (tl a) as"
  then show "((ord, os, y), ord, os, a # as) \<in> measure (\<lambda>(ord, os, as). length as)"
    using cluster_length[of os "tl a" as] by (simp flip: \<open>(x, y) = cluster os (tl a) as\<close>)
qed simp_all

lemma parse_skip:
  "\<forall>a \<in> set ns. NONOPTION_P a \<Longrightarrow> parse PERMUTE os (ns @ R) = (fst (parse PERMUTE os R), ns @ snd (parse PERMUTE os R))"
  by (induction ns) (auto simp: NONOPTION_P_def dashes_def split: prod.splits)

section \<open>States of the scan\<close>

text \<open>The operands that were passed over, and what is still to come from a state of the scan.\<close>

definition skipped :: "byte list list \<Rightarrow> getopt_data \<Rightarrow> byte list list" where
  "skipped argv d = take (last_nonopt d - first_nonopt d) (drop (first_nonopt d) argv)"

definition pending :: "byte list \<Rightarrow> byte list list \<times> getopt_data \<Rightarrow> (int \<times> byte list option) list \<times> byte list list" where
  "pending os = (\<lambda>(argv, d).
     case (case nextchar d of Some (c # cs) \<Rightarrow> cluster os (c # cs) (drop (optind d + 1) argv) | _ \<Rightarrow> ([], drop (optind d) argv)) of
       (es, as) \<Rightarrow> (case parse (ordering d) os as of (es', r) \<Rightarrow> (es @ es', skipped argv d @ r)))"

definition scan_ok :: "byte list list \<times> getopt_data \<Rightarrow> bool" where
  "scan_ok = (\<lambda>(argv, d).
     initialized d \<and> 0 < optind d \<and> first_nonopt d \<le> last_nonopt d \<and> last_nonopt d \<le> optind d \<and> optind d \<le> length argv \<and>
     (ordering d \<noteq> PERMUTE \<longrightarrow> first_nonopt d = last_nonopt d) \<and>
     (nextchar d \<noteq> None \<and> nextchar d \<noteq> Some [] \<longrightarrow> optind d < length argv))"

text \<open>Between two elements.\<close>

definition between :: "byte list list \<times> getopt_data \<Rightarrow> bool" where
  "between s \<longleftrightarrow> scan_ok s \<and> (nextchar (snd s) = None \<or> nextchar (snd s) = Some [])"

lemma pending_between:
  "between (argv, d) \<Longrightarrow> pending os (argv, d) =
    (fst (parse (ordering d) os (drop (optind d) argv)), skipped argv d @ snd (parse (ordering d) os (drop (optind d) argv)))"
  by (auto simp: between_def pending_def split: prod.splits)

lemma segments_mset: "f \<le> l \<Longrightarrow> l \<le> i \<Longrightarrow> i \<le> length argv \<Longrightarrow> mset (exchange_loop f l i argv) = mset argv"
proof -
  assume a: "f \<le> l" "l \<le> i" "i \<le> length argv"
  have "argv = take f argv @ take (l - f) (drop f argv) @ take (i - l) (drop l argv) @ drop i argv"
    using a by (metis append_take_drop_id drop_drop le_add_diff_inverse2)
  from arg_cong[OF this, of mset] show ?thesis unfolding exchange_drop[OF a] by (simp add: union_ac)
qed

lemma permute_spec:
  assumes b: "between (argv, d)" and P: "ordering d = PERMUTE"
  obtains argv' d' where "permute_operands argv d = (argv', d')" "between (argv', d')" "mset argv' = mset argv"
    "pending os (argv', d') = pending os (argv, d)" "last_nonopt d' = optind d'" "ordering d' = PERMUTE" "optarg d' = optarg d"
    "optind d' < length argv' \<Longrightarrow> \<not> NONOPTION_P (argv' ! optind d')"
proof -
  let ?f = "first_nonopt d" and ?l = "last_nonopt d" and ?i = "optind d"
  have o: "?f \<le> ?l" "?l \<le> ?i" "?i \<le> length argv" "initialized d" "0 < ?i" "nextchar d = None \<or> nextchar d = Some []"
    using b by (auto simp: between_def scan_ok_def)
  define argv' where "argv' = (if ?f \<noteq> ?l \<and> ?l \<noteq> ?i then exchange_loop ?f ?l ?i argv else argv)"
  define f where "f = (if ?f \<noteq> ?l \<and> ?l \<noteq> ?i then ?f + (?i - ?l) else if ?l \<noteq> ?i then ?i else ?f)"
  let ?ns = "takeWhile NONOPTION_P (drop ?i argv')"
  let ?d = "d\<lparr>first_nonopt := f, optind := ?i + length ?ns, last_nonopt := ?i + length ?ns\<rparr>"
  have run: "permute_operands argv d = (argv', ?d)"
    by (simp add: permute_operands_def exchange_def argv'_def f_def Let_def)
  have seg: "drop ?i argv' = drop ?i argv" "take (?i - f) (drop f argv') = skipped argv d" "length argv' = length argv" "f \<le> ?i"
    using o by (auto simp: argv'_def f_def skipped_def exchange_drop)
  have ms: "mset argv' = mset argv" using segments_mset[OF o(1-3)] by (simp add: argv'_def)
  have le: "?i + length ?ns \<le> length argv'" using length_takeWhile_le[of NONOPTION_P "drop ?i argv'"] o(3) seg(3) by simp
  have R: "drop (?i + length ?ns) argv' = dropWhile NONOPTION_P (drop ?i argv')"
    by (metis add.commute drop_drop dropWhile_eq_drop)
  have sk: "skipped argv' ?d = skipped argv d @ ?ns"
  proof -
    have "?i + length ?ns - f = (?i - f) + length ?ns" using seg(4) by simp
    moreover have "drop (?i - f) (drop f argv') = drop ?i argv'" using seg(4) by simp
    ultimately show ?thesis unfolding skipped_def[of argv' ?d]
      using seg(2) by (simp add: take_add takeWhile_eq_take[symmetric])
  qed
  have bt: "between (argv', ?d)" using o seg(4) le P by (auto simp: between_def scan_ok_def)
  have "parse PERMUTE os (drop ?i argv') = (fst (parse PERMUTE os (drop (?i + length ?ns) argv')), ?ns @ snd (parse PERMUTE os (drop (?i + length ?ns) argv')))"
    unfolding R using parse_skip[of ?ns os "dropWhile NONOPTION_P (drop ?i argv')"] by (auto dest: set_takeWhileD)
  then have pd: "pending os (argv', ?d) = pending os (argv, d)"
    unfolding pending_between[OF bt] pending_between[OF b] sk using P seg(1) by simp
  have "\<not> NONOPTION_P (argv' ! (?i + length ?ns))" if j: "?i + length ?ns < length argv'"
  proof -
    have "dropWhile NONOPTION_P (drop ?i argv') \<noteq> []" using j unfolding R[symmetric] by simp
    from hd_dropWhile[OF this] show ?thesis unfolding R[symmetric] hd_drop_conv_nth[OF j] .
  qed
  then show ?thesis using that[OF run bt ms pd] P by simp
qed

lemma end_spec:
  assumes b: "between (argv, d)" and P: "ordering d = PERMUTE \<Longrightarrow> last_nonopt d = optind d"
    and i: "optind d < length argv" "argv ! optind d = dashes"
  obtains argv' d' where "end_of_options argv d = (argv', d')" "mset argv' = mset argv" "optind d' = length argv'" "last_nonopt d' = length argv'"
    "drop (first_nonopt d') argv' = skipped argv d @ drop (optind d + 1) argv" "first_nonopt d' \<le> length argv'"
proof -
  let ?f = "first_nonopt d" and ?l = "last_nonopt d" and ?i = "optind d"
  have o: "?f \<le> ?l" "?l \<le> ?i" "ordering d \<noteq> PERMUTE \<longrightarrow> ?f = ?l" using b by (auto simp: between_def scan_ok_def)
  show ?thesis
  proof (cases "?f = ?l")
    case True
    then show ?thesis using i that[of argv "d\<lparr>optind := length argv, last_nonopt := length argv, first_nonopt := ?i + 1\<rparr>"]
      by (simp add: end_of_options_def Let_def skipped_def)
  next
    case False
    have l: "?l = ?i" using False P o(3) by blast
    let ?a = "exchange_loop ?f ?l (Suc ?i) argv"
    let ?d = "d\<lparr>optind := length argv, last_nonopt := length argv, first_nonopt := ?f + 1\<rparr>"
    have le: "?f \<le> ?l" "?l \<le> Suc ?i" "Suc ?i \<le> length argv" using o i(1) by auto
    have ms: "mset ?a = mset argv" by (rule segments_mset[OF le])
    have "end_of_options argv d = (?a, ?d)"
      using i False l mset_eq_length[OF ms] by (simp add: end_of_options_def exchange_def Let_def)
    moreover have "take (Suc ?i - ?l) (drop ?l argv) = [argv ! ?i]" using i(1) l by (simp add: take_Suc hd_drop_conv_nth)
    then have "drop (?f + 1) ?a = skipped argv d @ drop (?i + 1) argv"
      using i(1) l o(1) by (simp add: exchange_drop[OF le[unfolded l]] skipped_def)
    ultimately show ?thesis using that[of ?a ?d] ms mset_eq_length[OF ms] le l by simp
  qed
qed

text \<open>What advancing to the next element finds: the end, an operand to return, or an element of options.\<close>

definition found ::
  "byte list \<Rightarrow> byte list list \<Rightarrow> byte list option \<Rightarrow> (int \<times> byte list option) list \<Rightarrow> byte list list \<Rightarrow>
   int option \<times> byte list list \<times> getopt_data \<Rightarrow> bool" where
  "found os argv arg es r = (\<lambda>(v, a, e). mset a = mset argv \<and>
     (case v of
        Some c \<Rightarrow> (c = - 1 \<and> es = [] \<and> drop (optind e) a = r) \<or>
          (c = 1 \<and> es \<noteq> [] \<and> hd es = (1, optarg e) \<and> scan_ok (a, e) \<and> pending os (a, e) = (tl es, r))
      | None \<Rightarrow> scan_ok (a, e) \<and> pending os (a, e) = (es, r) \<and> optarg e = arg \<and> (\<exists>c cs. nextchar e = Some (c # cs))))"

lemma element_spec:
  assumes b: "between (argv, d)" and P: "ordering d = PERMUTE \<Longrightarrow> last_nonopt d = optind d"
    and pn: "ordering d = PERMUTE \<Longrightarrow> optind d < length argv \<Longrightarrow> \<not> NONOPTION_P (argv ! optind d)"
    and pd: "pending os (argv, d) = (es, r)" and eo: "end_of_options argv d = (argv', d')"
  shows "found os argv (optarg d) es r (take_element argv' d')"
proof -
  let ?i = "optind d"
  have o: "initialized d" "0 < ?i" "first_nonopt d \<le> last_nonopt d" "last_nonopt d \<le> ?i" "?i \<le> length argv"
    "ordering d \<noteq> PERMUTE \<longrightarrow> first_nonopt d = last_nonopt d" "nextchar d = None \<or> nextchar d = Some []"
    using b by (auto simp: between_def scan_ok_def)
  have es: "es = fst (parse (ordering d) os (drop ?i argv))" "r = skipped argv d @ snd (parse (ordering d) os (drop ?i argv))"
    using pd unfolding pending_between[OF b] by auto
  consider (dash) "?i < length argv" "argv ! ?i = dashes" | (stop) "?i = length argv"
    | (operand) "?i < length argv" "argv ! ?i \<noteq> dashes" "NONOPTION_P (argv ! ?i)"
    | (opts) "?i < length argv" "argv ! ?i \<noteq> dashes" "\<not> NONOPTION_P (argv ! ?i)" using o(5) by linarith
  then show ?thesis
  proof cases
    case dash
    obtain a e where e: "end_of_options argv d = (a, e)" "mset a = mset argv" "optind e = length a" "last_nonopt e = length a"
      "drop (first_nonopt e) a = skipped argv d @ drop (?i + 1) argv" "first_nonopt e \<le> length a" by (rule end_spec[OF b P dash])
    have "es = []" "r = skipped argv d @ drop (?i + 1) argv" using es dash by (simp_all add: Cons_nth_drop_Suc[symmetric])
    then show ?thesis using e eo by (auto simp: found_def take_element_def)
  next
    case stop
    then have "es = []" "r = skipped argv d" using es by simp_all
    moreover have "drop (first_nonopt d) argv = skipped argv d" if "first_nonopt d \<noteq> last_nonopt d"
      using that o(6) P stop by (auto simp: skipped_def)
    moreover have "skipped argv d = []" if "first_nonopt d = last_nonopt d" using that by (simp add: skipped_def)
    ultimately show ?thesis using stop eo by (auto simp: end_of_options_def found_def take_element_def)
  next
    case operand
    then have np: "ordering d \<noteq> PERMUTE" using pn by blast
    then have sk: "skipped argv d = []" using o(6) by (simp add: skipped_def)
    have R: "drop ?i argv = argv ! ?i # drop (?i + 1) argv" using operand(1) by (simp add: Cons_nth_drop_Suc)
    have eq: "argv' = argv" "d' = d" using eo operand(2) by (simp_all add: end_of_options_def)
    show ?thesis
    proof (cases "ordering d")
      case REQUIRE_ORDER
      then show ?thesis using operand es R sk eq by (simp add: found_def take_element_def)
    next
      case PERMUTE
      then show ?thesis using np by simp
    next
      case RETURN_IN_ORDER
      let ?e = "d\<lparr>optarg := Some (argv ! ?i), optind := ?i + 1\<rparr>"
      have bt: "between (argv, ?e)" using o operand(1) by (auto simp: between_def scan_ok_def)
      have "es = (1, Some (argv ! ?i)) # fst (parse (ordering d) os (drop (?i + 1) argv))" "r = snd (parse (ordering d) os (drop (?i + 1) argv))"
        using es operand RETURN_IN_ORDER unfolding R sk by (simp_all split: prod.splits)
      then show ?thesis using RETURN_IN_ORDER operand eq bt pending_between[OF bt, of os] o(6)
        by (simp add: between_def skipped_def found_def take_element_def)
    qed
  next
    case opts
    have R: "drop ?i argv = argv ! ?i # drop (?i + 1) argv" using opts(1) by (simp add: Cons_nth_drop_Suc)
    have eq: "argv' = argv" "d' = d" using eo opts(2) by (simp_all add: end_of_options_def)
    obtain c cs where c: "tl (argv ! ?i) = c # cs" using opts(3) by (auto simp: NONOPTION_P_def neq_Nil_conv)
    let ?e = "d\<lparr>nextchar := Some (tl (argv ! ?i))\<rparr>"
    have "scan_ok (argv, ?e)" using o opts(1) by (auto simp: scan_ok_def)
    moreover have "pending os (argv, ?e) = (es, r)"
      using es opts(2,3) c unfolding R by (simp add: pending_def skipped_def del: cluster.simps split: prod.splits)
    ultimately show ?thesis using eq opts c by (simp add: found_def take_element_def)
  qed
qed

lemma next_spec:
  assumes b: "between (argv, d)" and pd: "pending os (argv, d) = (es, r)"
  shows "found os argv (optarg d) es r (next_element argv d)"
proof -
  have le: "\<not> optind d < last_nonopt d" "\<not> optind d < first_nonopt d"
    using b by (auto simp: between_def scan_ok_def)
  define s where "s = (if ordering d = PERMUTE then permute_operands argv d else (argv, d))"
  obtain a e where s: "s = (a, e)" "between (a, e)" "mset a = mset argv" "pending os (a, e) = (es, r)" "optarg e = optarg d"
    and P: "ordering e = PERMUTE \<Longrightarrow> last_nonopt e = optind e" "ordering e = PERMUTE \<Longrightarrow> optind e < length a \<Longrightarrow> \<not> NONOPTION_P (a ! optind e)"
  proof (cases "ordering d = PERMUTE")
    case True
    show ?thesis by (rule permute_spec[OF b True, of os]) (use True pd that in \<open>simp add: s_def\<close>)
  next
    case False
    then show ?thesis using that[of argv d] b pd by (simp add: s_def)
  qed
  obtain a' e' where eo: "end_of_options a e = (a', e')" by fastforce
  have "next_element argv d = (case s of (a, e) \<Rightarrow> case end_of_options a e of (a, e) \<Rightarrow> take_element a e)"
    unfolding next_element_def s_def using le by (simp add: Let_def)
  then have "next_element argv d = take_element a' e'" by (simp add: s(1) eo)
  then show ?thesis using element_spec[OF s(2) P s(4) eo] s(3,5) by (simp add: found_def)
qed

text \<open>Option letters for which the return value tells what was found: no \<^verbatim>\<open>W;\<close>, and no \<^verbatim>\<open>-1\<close> among them.\<close>

definition plain :: "byte list \<Rightarrow> bool" where
  "plain os \<longleftrightarrow> 0x3b \<notin> set os \<and> 0xff \<notin> set os"

lemma strchr_in: "strchr os c \<noteq> [] \<Longrightarrow> c \<in> set os \<and> hd (strchr os c) = c \<and> set (strchr os c) \<subseteq> set os"
  unfolding strchr_def using hd_dropWhile[of "\<lambda>x. x \<noteq> c" os] by (auto dest: set_dropWhileD)

lemma code_end: "code c = - 1 \<longleftrightarrow> c = 0xff"
  using word_eq_iff_signed[where ?'a = int, of c "0xff"] by (auto simp: code_def)

text \<open>Within an element, and after it; \<open>e\<close> has the operands of \<open>d\<close>.\<close>

definition same_operands :: "getopt_data \<Rightarrow> getopt_data \<Rightarrow> bool" where
  "same_operands d e \<longleftrightarrow>
     ordering e = ordering d \<and> first_nonopt e = first_nonopt d \<and> last_nonopt e = last_nonopt d \<and> initialized e = initialized d"

lemma pending_within:
  assumes "same_operands d e" and "nextchar e = Some cs" "optind e = (if cs = [] then Suc (optind d) else optind d)"
  shows "pending os (argv, e) =
    (case cluster os cs (drop (Suc (optind d)) argv) of (es, as) \<Rightarrow>
     case parse (ordering d) os as of (es', r) \<Rightarrow> (es @ es', skipped argv d @ r))"
  using assms by (cases cs) (simp_all add: pending_def skipped_def same_operands_def del: cluster.simps(2))

lemma pending_after:
  assumes "same_operands d e" and "nextchar e = None"
  shows "pending os (argv, e) = (case parse (ordering d) os (drop (optind e) argv) of (es, r) \<Rightarrow> (es, skipped argv d @ r))"
  using assms by (simp add: pending_def skipped_def same_operands_def)

lemma scan_ok_step:
  assumes "scan_ok (argv, d)" and "same_operands d e" and "optind d \<le> optind e" "optind e \<le> length argv"
    and "nextchar e \<noteq> None \<and> nextchar e \<noteq> Some [] \<Longrightarrow> optind e < length argv"
  shows "scan_ok (argv, e)"
  using assms by (auto simp: scan_ok_def same_operands_def)

lemma short_spec:
  assumes ok: "scan_ok (argv, d)" and n: "nextchar d = Some (c # cs)" "optarg d = None" and pd: "pending os (argv, d) = (es, r)" and p: "plain os"
  shows "\<exists>v e. short_option os argv c cs d = (v, e) \<and> es \<noteq> [] \<and> hd es = (v, optarg e) \<and> v \<noteq> - 1 \<and> scan_ok (argv, e) \<and> pending os (argv, e) = (tl es, r)"
proof -
  let ?i = "optind d" and ?t = "strchr os c" and ?R = "drop (Suc (optind d)) argv"
  have i: "?i < length argv" using ok n(1) by (auto simp: scan_ok_def)
  have w: "take 2 ?t \<noteq> [0x57, 0x3b]"
  proof
    assume a: "take 2 ?t = [0x57, 0x3b]"
    then have "0x3b \<in> set ?t" "?t \<noteq> []" using set_take_subset[of 2 ?t] by auto
    then show False using p strchr_in[of os c] by (auto simp: plain_def)
  qed
  have v: "code c \<noteq> - 1" if "?t \<noteq> []" using strchr_in[OF that] p code_end by (auto simp: plain_def)
  have pend: "(case cluster os (c # cs) ?R of (es, as) \<Rightarrow> case parse (ordering d) os as of (es', r) \<Rightarrow> (es @ es', skipped argv d @ r)) = (es, r)"
    using pd n(1) by (simp add: pending_def del: cluster.simps)
  have keep: "scan_ok (argv, e) \<and> pending os (argv, e) = (tl es, r) \<and> es \<noteq> [] \<and> hd es = (x, None)"
    if "same_operands d e" "nextchar e = Some cs" "optind e = (if cs = [] then Suc ?i else ?i)"
      and x: "cluster os (c # cs) ?R = (case cluster os cs ?R of (es, as) \<Rightarrow> ((x, None) # es, as))" for e x
    using pend scan_ok_step[OF ok that(1)] that(2,3) i unfolding x pending_within[OF that(1-3)] by (auto split: prod.splits)
  have fin: "scan_ok (argv, e) \<and> pending os (argv, e) = (tl es, r) \<and> es \<noteq> [] \<and> hd es = (x, y)"
    if "same_operands d e" "nextchar e = None" and j: "?i < optind e" "optind e \<le> length argv"
      and x: "cluster os (c # cs) ?R = ([(x, y)], drop (optind e) argv)" for e x y
    using pend scan_ok_step[OF ok that(1)] that(2) j unfolding x pending_after[OF that(1,2)] by (auto split: prod.splits)
  let ?d = "d\<lparr>nextchar := Some cs, optind := if cs = [] then Suc ?i else ?i\<rparr>"
  have d: "(let d = d\<lparr>nextchar := Some cs\<rparr> in if cs = [] then d\<lparr>optind := optind d + 1\<rparr> else d) = ?d" by simp
  consider (bad) "?t = [] \<or> c = 0x3a \<or> c = 0x3b" | (plain) "\<not> (?t = [] \<or> c = 0x3a \<or> c = 0x3b)" "take 1 (tl ?t) \<noteq> [0x3a]"
    | (rest) "\<not> (?t = [] \<or> c = 0x3a \<or> c = 0x3b)" "take 1 (tl ?t) = [0x3a]" "cs \<noteq> []"
    | (optional) "\<not> (?t = [] \<or> c = 0x3a \<or> c = 0x3b)" "take 1 (tl ?t) = [0x3a]" "cs = []" "take 2 (tl ?t) = [0x3a, 0x3a]"
    | (missing) "\<not> (?t = [] \<or> c = 0x3a \<or> c = 0x3b)" "take 1 (tl ?t) = [0x3a]" "cs = []" "take 2 (tl ?t) \<noteq> [0x3a, 0x3a]" "Suc ?i = length argv"
    | (separate) "\<not> (?t = [] \<or> c = 0x3a \<or> c = 0x3b)" "take 1 (tl ?t) = [0x3a]" "cs = []" "take 2 (tl ?t) \<noteq> [0x3a, 0x3a]" "Suc ?i < length argv"
    using i by linarith
  then show ?thesis
  proof cases
    case bad
    let ?e = "?d\<lparr>optopt := c\<rparr>"
    have "short_option os argv c cs d = (0x3f, ?e)" using bad by (auto simp: short_option_def option_argument_def Let_def)
    moreover have "cluster os (c # cs) ?R = (case cluster os cs ?R of (es, as) \<Rightarrow> ((0x3f, None) # es, as))" using bad by (auto simp: Let_def)
    ultimately show ?thesis using keep[of ?e "0x3f"] n(2) by (simp add: same_operands_def)
  next
    case plain
    then have "short_option os argv c cs d = (code c, ?d)" using w by (auto simp: short_option_def option_argument_def Let_def)
    moreover have "cluster os (c # cs) ?R = (case cluster os cs ?R of (es, as) \<Rightarrow> ((code c, None) # es, as))" using plain by (auto simp: Let_def)
    ultimately show ?thesis using keep[of ?d "code c"] n(2) v plain(1) by (simp add: same_operands_def)
  next
    case rest
    let ?e = "?d\<lparr>optarg := Some cs, optind := Suc ?i, nextchar := None\<rparr>"
    have "short_option os argv c cs d = (code c, ?e)" using rest w by (auto simp: short_option_def option_argument_def Let_def)
    moreover have "cluster os (c # cs) ?R = ([(code c, Some cs)], ?R)" using rest by (auto simp: Let_def)
    ultimately show ?thesis using fin[of ?e "code c" "Some cs"] v rest(1) i by (simp add: same_operands_def)
  next
    case optional
    let ?e = "?d\<lparr>optarg := None, nextchar := None\<rparr>"
    have "short_option os argv c cs d = (code c, ?e)" using optional w by (auto simp: short_option_def option_argument_def Let_def)
    moreover have "cluster os (c # cs) ?R = ([(code c, None)], ?R)" using optional by (auto simp: Let_def)
    ultimately show ?thesis using fin[of ?e "code c" None] v optional(1,3) i by (simp add: same_operands_def)
  next
    case missing
    let ?e = "?d\<lparr>optopt := c, nextchar := None\<rparr>" and ?v = "if take 1 os = [0x3a] then 0x3a else 0x3f :: int"
    have "short_option os argv c cs d = (?v, ?e)" using missing w by (auto simp: short_option_def option_argument_def Let_def)
    moreover have "cluster os (c # cs) ?R = ([(?v, None)], ?R)" using missing by (auto simp: Let_def)
    ultimately show ?thesis using fin[of ?e ?v None] missing(3) n(2) i by (auto simp: same_operands_def)
  next
    case separate
    let ?e = "?d\<lparr>optarg := Some (argv ! Suc ?i), optind := Suc (Suc ?i), nextchar := None\<rparr>"
    have R: "?R = argv ! Suc ?i # drop (Suc (Suc ?i)) argv" using separate(5) by (simp add: Cons_nth_drop_Suc)
    have "short_option os argv c cs d = (code c, ?e)" using separate w by (auto simp: short_option_def option_argument_def Let_def)
    moreover have "cluster os (c # cs) ?R = ([(code c, Some (argv ! Suc ?i))], drop (Suc (Suc ?i)) argv)"
      unfolding R using separate(1-4) by (auto simp: Let_def)
    ultimately show ?thesis using fin[of ?e "code c" "Some (argv ! Suc ?i)"] v separate(1,5) by (simp add: same_operands_def)
  qed
qed

section \<open>The scanner and its clients\<close>

primrec handle_all :: "('a \<Rightarrow> int \<Rightarrow> byte list option \<Rightarrow> 'a option) \<Rightarrow> 'a \<Rightarrow> (int \<times> byte list option) list \<Rightarrow> 'a option" where
  "handle_all h a [] = Some a"
| "handle_all h a (e # es) = (case h a (fst e) (snd e) of None \<Rightarrow> None | Some a \<Rightarrow> handle_all h a es)"

text \<open>
  What a program relies on: from a good state, the calls give the options that are to come, one by
  one, and when there are none, \<^verbatim>\<open>-1\<close>.
\<close>

locale option_scanner =
  fixes scan :: "'s \<Rightarrow> int \<times> 's" and arg :: "'s \<Rightarrow> byte list option" and todo :: "'s \<Rightarrow> (int \<times> byte list option) list \<times> 'r"
    and rest :: "'s \<Rightarrow> 'r" and good :: "'s \<Rightarrow> bool"
  assumes stop_law: "good s \<Longrightarrow> todo s = ([], r) \<Longrightarrow> \<exists>s'. scan s = (- 1, s') \<and> rest s' = r"
    and step_law: "good s \<Longrightarrow> todo s = (e # es, r) \<Longrightarrow>
      \<exists>s'. scan s = (fst e, s') \<and> fst e \<noteq> - 1 \<and> arg s' = snd e \<and> good s' \<and> todo s' = (es, r)"
begin

lemma loop_all:
  assumes "good s" and "todo s = (es, r)" and "length es < n"
  shows "\<exists>s'. option_loop scan arg h n a s = Some (handle_all h a es, s') \<and> (handle_all h a es \<noteq> None \<longrightarrow> rest s' = r)"
  using assms
proof (induction es arbitrary: s n a)
  case Nil
  obtain m where n: "n = Suc m" using Nil.prems(3) by (cases n) auto
  show ?case using stop_law[OF Nil.prems(1,2)] unfolding n by auto
next
  case (Cons e es)
  obtain m where n: "n = Suc m" "length es < m" using Cons.prems(3) by (cases n) auto
  obtain s' where s': "scan s = (fst e, s')" "fst e \<noteq> - 1" "arg s' = snd e" "good s'" "todo s' = (es, r)"
    using step_law[OF Cons.prems(1,2)] by blast
  show ?case using s'(1-3) Cons.IH[OF s'(4,5) n(2)] unfolding n(1) by (auto split: option.split)
qed

end

definition letters :: "byte list \<Rightarrow> byte list" where
  "letters optstring = (if optstring \<noteq> [] \<and> (hd optstring = 0x2d \<or> hd optstring = 0x2b) then tl optstring else optstring)"

definition order_of :: "bool \<Rightarrow> byte list \<Rightarrow> ord" where
  "order_of posixly_correct optstring =
     (if optstring \<noteq> [] \<and> hd optstring = 0x2d then RETURN_IN_ORDER
      else if optstring \<noteq> [] \<and> hd optstring = 0x2b then REQUIRE_ORDER
      else if posixly_correct then REQUIRE_ORDER else PERMUTE)"

lemma pending_arg: "pending os (argv, d\<lparr>optarg := x\<rparr>) = pending os (argv, d)" "scan_ok (argv, d\<lparr>optarg := x\<rparr>) = scan_ok (argv, d)"
  by (simp_all add: pending_def skipped_def scan_ok_def split: option.split list.split)

lemma getopt_step:
  assumes ok: "scan_ok (argv, d)" and p: "plain (letters optstring)" and pd: "pending (letters optstring) (argv, d) = (es, r)"
  shows "\<exists>v a e. getopt_internal_r posixly_correct optstring (argv, d) = (v, a, e) \<and> mset a = mset argv \<and>
    (if es = [] then v = - 1 \<and> drop (optind e) a = r
     else v \<noteq> - 1 \<and> hd es = (v, optarg e) \<and> scan_ok (a, e) \<and> pending (letters optstring) (a, e) = (tl es, r))"
proof -
  let ?d = "d\<lparr>optarg := None\<rparr>" and ?os = "letters optstring"
  define n where "n = (if nextchar d = None \<or> nextchar d = Some [] then next_element argv ?d else (None, argv, ?d))"
  have ok': "scan_ok (argv, ?d)" "pending ?os (argv, ?d) = (es, r)" using ok pd by (simp_all add: pending_arg)
  have "found ?os argv None es r n"
  proof (cases "nextchar d = None \<or> nextchar d = Some []")
    case True
    then have "between (argv, ?d)" using ok' by (simp add: between_def)
    from next_spec[OF this ok'(2)] show ?thesis using True by (simp add: n_def)
  next
    case False
    then show ?thesis using ok' by (auto simp: n_def found_def neq_Nil_conv)
  qed
  moreover obtain v a e where n: "n = (v, a, e)" by (cases n)
  ultimately have f: "found ?os argv None es r (v, a, e)" by simp
  have run: "getopt_internal_r posixly_correct optstring (argv, d) =
      (case v of Some c \<Rightarrow> (c, a, e)
       | None \<Rightarrow> (case nextchar e of Some (c # cs) \<Rightarrow> (case short_option ?os a c cs e of (c, d) \<Rightarrow> (c, a, d)) | _ \<Rightarrow> (- 1, a, e)))"
  proof -
    have i: "argv \<noteq> []" "optind d \<noteq> 0" "initialized d" using ok by (auto simp: scan_ok_def)
    have os: "(if optstring \<noteq> [] \<and> (hd optstring = 0x2d \<or> hd optstring = 0x2b) then (tl optstring, ?d) else (optstring, ?d)) = (?os, ?d)"
      by (simp add: letters_def)
    show ?thesis using i n unfolding getopt_internal_r_def n_def by (simp add: Let_def os)
  qed
  show ?thesis
  proof (cases v)
    case (Some c)
    then show ?thesis using f run by (auto simp: found_def)
  next
    case None
    then obtain c cs where c: "nextchar e = Some (c # cs)" "optarg e = None" "scan_ok (a, e)" "pending ?os (a, e) = (es, r)" "mset a = mset argv"
      using f by (auto simp: found_def)
    obtain v' e' where "short_option ?os a c cs e = (v', e')" "es \<noteq> []" "hd es = (v', optarg e')" "v' \<noteq> - 1" "scan_ok (a, e')" "pending ?os (a, e') = (tl es, r)"
      using short_spec[OF c(3,1,2,4) p] by blast
    then show ?thesis using run None c by simp
  qed
qed

interpretation opts: option_scanner "getopt_internal_r posixly_correct optstring" "\<lambda>(argv, d). optarg d"
  "\<lambda>(argv, d). case pending (letters optstring) (argv, d) of (es, r) \<Rightarrow> (es, (r, mset argv))"
  "\<lambda>(argv, d). (drop (optind d) argv, mset argv)" "\<lambda>s. scan_ok s \<and> plain (letters optstring)" for posixly_correct optstring
proof (unfold_locales, goal_cases)
  case (1 s r)
  then show ?case using getopt_step[of "fst s" "snd s" optstring "[]" "fst r" posixly_correct] by (auto split: prod.splits)
next
  case (2 s e es r)
  obtain argv d where s: "s = (argv, d)" by (cases s)
  obtain x where r: "r = (x, mset argv)" "pending (letters optstring) (argv, d) = (e # es, x)" using 2(2) s by (auto split: prod.splits)
  have g: "scan_ok (argv, d)" "plain (letters optstring)" using 2(1) s by auto
  from getopt_step[OF this r(2), of posixly_correct]
  obtain v a d' where "getopt_internal_r posixly_correct optstring (argv, d) = (v, a, d')" "mset a = mset argv" "v \<noteq> - 1" "e = (v, optarg d')"
    "scan_ok (a, d')" "pending (letters optstring) (a, d') = (es, x)" by auto
  then show ?case using g(2) s r(1) by (intro exI[of _ "(a, d')"]) simp
qed

section \<open>The property\<close>

lemma cluster_count:
  "length (fst (cluster os cs as)) + length (concat (snd (cluster os cs as))) + length (snd (cluster os cs as)) \<le> length cs + length (concat as) + length as"
  by (induction os cs as rule: cluster.induct) (auto simp: Let_def split: prod.splits list.splits)

lemma parse_count: "length (fst (parse ord os as)) \<le> length (concat as) + length as"
proof (induction ord os as rule: parse.induct)
  case (2 ord os a as)
  obtain es as' where c: "cluster os (tl a) as = (es, as')" by fastforce
  have "length (fst (parse ord os as')) \<le> length (concat as') + length as'" if "a \<noteq> dashes" "\<not> NONOPTION_P a" using 2 that c by simp
  then show ?case using 2 c cluster_count[of os "tl a" as] by (auto split: prod.splits ord.splits)
qed simp

lemma getopt_parses:
  assumes "argv \<noteq> []" and "plain (letters optstring)"
    and "parse (order_of posixly_correct optstring) (letters optstring) (tl argv) = (es, r)"
  shows "\<exists>argv' d. getopt_loop posixly_correct optstring handle a argv = Some (handle_all handle a es, argv', d) \<and>
    (handle_all handle a es \<noteq> None \<longrightarrow> drop (optind d) argv' = r \<and> mset argv' = mset argv)"
proof -
  let ?d = "getopt_start\<lparr>first_nonopt := 1, last_nonopt := 1, ordering := order_of posixly_correct optstring, initialized := True\<rparr>"
  let ?s = "(argv, ?d)" and ?n = "length (concat argv) + length argv"
  have first: "getopt_internal_r posixly_correct optstring (argv, getopt_start) = getopt_internal_r posixly_correct optstring ?s"
    using assms(1) by (cases optstring) (simp_all add: getopt_internal_r_def getopt_initialize_def getopt_start_def order_of_def Let_def)
  have ok: "scan_ok ?s" using assms(1) by (cases argv) (simp_all add: scan_ok_def getopt_start_def)
  have pd: "pending (letters optstring) ?s = (es, r)"
    using assms(3) by (simp add: pending_def getopt_start_def skipped_def drop_Suc)
  have "length es < Suc ?n"
    using parse_count[of "order_of posixly_correct optstring" "letters optstring" "tl argv"] assms(1,3) by (cases argv) simp_all
  then show ?thesis
    using opts.loop_all[of ?s optstring es "(r, mset argv)" "Suc ?n" posixly_correct handle a] ok assms(2) pd first
    by (auto simp: getopt_loop_def)
qed

lemma operand_at: "drop i xs = [a] \<Longrightarrow> i + 1 = length xs \<and> xs ! i = a"
  by (metis Suc_eq_plus1 drop_eq_Nil2 hd_drop_conv_nth length_drop le_add_diff_inverse2 linorder_not_le list.distinct(1) list.sel(1) length_Cons list.size(3) add.commute nat_le_linear diff_is_0_eq' One_nat_def)

text \<open>
  C30: the calls of \<^verbatim>\<open>getopt\<close> agree with one pass over the arguments. For any option letters (no \<^verbatim>\<open>W;\<close> among
  them), any ordering and any arguments, the loop of a program ends and hands to its \<^verbatim>\<open>switch\<close> the
  options of \<open>parse\<close> with their arguments, in order, until the \<^verbatim>\<open>switch\<close> exits; when it does not, the
  arguments from \<^verbatim>\<open>optind\<close> on are the operands in their order, and the arguments were only permuted.
\<close>

theorem getopt_correct:
  assumes "argv \<noteq> []" and "plain (letters optstring)"
    and "parse (order_of posixly_correct optstring) (letters optstring) (tl argv) = (es, r)"
  shows "\<exists>argv' d. getopt_loop posixly_correct optstring handle a argv = Some (handle_all handle a es, argv', d) \<and>
    (handle_all handle a es \<noteq> None \<longrightarrow> drop (optind d) argv' = r \<and> mset argv' = mset argv)"
  using assms by (rule getopt_parses)

end
