(* ===== verification/Shell.thy ===== *)
theory Shell
  imports Fuel Numbers Getopt "HOL-Library.Multiset"
begin

text \<open>
  The hive shell of \<^verbatim>\<open>sh/hivexsh.c\<close>. Its global variables are the record \<open>shell\<close>, together with
  standard input, standard output and the file system. The shell is the one built without
  readline, which reads lines with \<^verbatim>\<open>fgets\<close>. A command returns \<^verbatim>\<open>0\<close> or \<^verbatim>\<open>-1\<close>; messages on
  standard error are not modelled. \<^verbatim>\<open>qsort\<close> is a stable sort, and the bytes that \<^verbatim>\<open>malloc\<close> leaves in
  a fresh buffer are the field \<open>garbage\<close>.

  \<^verbatim>\<open>print_node_path\<close> calls itself along the chain of parents, which has no end when the parents form a cycle;
  the program then dies of a stack overflow, the value \<open>Fault StackOverflow\<close>. The depth the model goes to is one
  more than the number of slots of the bitmap; a chain that is longer is shown to have no end (\<open>overflow_iff\<close>).

  The theorems: the path the shell prints for a node leads \<^verbatim>\<open>cd\<close> back to it; the bytes \<^verbatim>\<open>lsval\<close> prints in
  hexadecimal \<^verbatim>\<open>setval\<close> reads back, but not the prefix; \<^verbatim>\<open>ls\<close> prints the names of the children in order; and
  the shell ends on every input: one more round of the main loop than there are characters is enough.
\<close>

section \<open>Definitions\<close>

record shell =
  quit :: bool
  is_tty :: bool
  sh_h :: "hive option"
  prompt_string :: "byte list"
  loaded :: "byte list option"
  cwd :: hive_node_h
  open_flags :: u32
  stdin :: "byte list"
  stdout :: "byte list"
  files :: fs
  garbage :: "nat \<Rightarrow> nat \<Rightarrow> byte"

definition put :: "byte list \<Rightarrow> (shell, unit) op" where
  "put bs = supd (\<lambda>s. s\<lparr>stdout := stdout s @ bs\<rparr>)"

text \<open>A call of a reading function of the library on \<^verbatim>\<open>h\<close>: what follows success and failure.\<close>

definition lib :: "(hive \<Rightarrow> 'a result) \<Rightarrow> ('a \<Rightarrow> (shell, 'b) op) \<Rightarrow> (errno \<Rightarrow> (shell, 'b) op) \<Rightarrow> (shell, 'b) op" where
  "lib f ok err s =
     (case sh_h s of
        None \<Rightarrow> (Fault (OutOfBounds 0), s)
      | Some h \<Rightarrow>
          (case f h of Ok x \<Rightarrow> ok x s | Err e \<Rightarrow> err e s | Fault z \<Rightarrow> (Fault z, s)))"

text \<open>A call that changes the hive and, in \<^verbatim>\<open>hivex_commit\<close>, the file system.\<close>

definition lib_op :: "(hive \<times> fs, 'a) op \<Rightarrow> ('a \<Rightarrow> (shell, 'b) op) \<Rightarrow> (errno \<Rightarrow> (shell, 'b) op) \<Rightarrow> (shell, 'b) op" where
  "lib_op f ok err s =
     (case sh_h s of
        None \<Rightarrow> (Fault (OutOfBounds 0), s)
      | Some h \<Rightarrow>
          (case f (h, files s) of
             (r, (h', fs')) \<Rightarrow>
               let s' = s\<lparr>sh_h := Some h', files := fs'\<rparr> in
               (case r of Ok x \<Rightarrow> ok x s' | Err e \<Rightarrow> err e s' | Fault z \<Rightarrow> (Fault z, s'))))"

definition strcspn :: "byte list \<Rightarrow> byte list \<Rightarrow> nat" where
  "strcspn s reject = length (takeWhile (\<lambda>c. c \<notin> set reject) s)"

definition root_or_0 :: "hive \<Rightarrow> hive_node_h" where
  "root_or_0 h = (case hivex_root h of Ok r \<Rightarrow> r | _ \<Rightarrow> 0)"

subsection \<open>Paths and the prompt\<close>

primrec node_path :: "nat \<Rightarrow> hive \<Rightarrow> hive_node_h \<Rightarrow> byte list result" where
  "node_path 0 h node = Fault StackOverflow"
| "node_path (Suc fuel) h node =
     (let root = root_or_0 h in
      if node = root then Ok [0x5c]
      else
        (case hivex_node_parent h node of
           Err e \<Rightarrow> Ok []
         | Fault z \<Rightarrow> Fault z
         | Ok parent \<Rightarrow>
             rbind (node_path fuel h parent) (\<lambda>p.
             let p = p @ (if parent \<noteq> root then [0x5c] else []) in
             (case hivex_node_name h node of
                Ok name \<Rightarrow> Ok (p @ cstr name)
              | Err e \<Rightarrow> Ok p
              | Fault z \<Rightarrow> Fault z))))"

definition print_node_path :: "hive \<Rightarrow> hive_node_h \<Rightarrow> byte list result" where
  "print_node_path h node = node_path (Suc (bitmap_slots (bitmap h))) h node"

definition set_prompt_string :: "(shell, unit) op" where
  "set_prompt_string s =
     (case sh_h s of
        None \<Rightarrow> (Ok (), s\<lparr>prompt_string := ascii ''> ''\<rparr>)
      | Some h \<Rightarrow>
          (case loaded s of
             None \<Rightarrow> (Fault AssertFailed, s)
           | Some name \<Rightarrow>
               if cwd s = 0 then (Fault AssertFailed, s)
               else
                 (case print_node_path h (cwd s) of
                    Ok path \<Rightarrow> (Ok (), s\<lparr>prompt_string := name @ path @ ascii ''> ''\<rparr>)
                  | Err e \<Rightarrow> (Err e, s)
                  | Fault z \<Rightarrow> (Fault z, s))))"

text \<open>\<^verbatim>\<open>fgets\<close> into a buffer of \<open>n\<close> bytes; the line that \<^verbatim>\<open>rl_gets\<close> makes of it.\<close>

definition fgets :: "nat \<Rightarrow> byte list \<Rightarrow> byte list \<times> byte list" where
  "fgets n input =
     (let k = min (n - 1) (Suc (length (takeWhile (\<lambda>c. c \<noteq> 10) input))) in (take k input, drop k input))"

definition rl_gets :: "byte list \<Rightarrow> (shell, byte list option) op" where
  "rl_gets prompt =
     sbind (\<lambda>s. if is_tty s then put prompt s else (Ok (), s)) (\<lambda>_ s.
       if stdin s = [] then (Ok None, s)
       else
         let (line, rest) = fgets 8192 (stdin s);
             buf = cstr line;
             buf = (if buf \<noteq> [] \<and> last buf = 10 then butlast buf else buf)
         in (Ok (Some buf), s\<lparr>stdin := rest\<rparr>))"

subsection \<open>Loading, closing, committing\<close>

definition unload :: "(shell, unit) op" where
  "unload = supd (\<lambda>s. s\<lparr>sh_h := None, loaded := None, cwd := 0\<rparr>)"

definition basename :: "byte list \<Rightarrow> byte list" where
  "basename f = rev (takeWhile (\<lambda>c. c \<noteq> 0x2f) (rev f))"

definition cmd_load :: "byte list \<Rightarrow> (shell, int) op" where
  "cmd_load hivefile =
     (if hivefile = [] then sret (- 1)
      else
        sbind unload (\<lambda>_ s.
          case hivex_open (files s) hivefile (open_flags s) of
            Err e \<Rightarrow> (Ok (- 1), s)
          | Fault z \<Rightarrow> (Fault z, s)
          | Ok h \<Rightarrow>
              sbind set_prompt_string (\<lambda>_. sret 0)
                (s\<lparr>sh_h := Some h, loaded := Some (basename hivefile), cwd := root_or_0 h\<rparr>)))"

definition cmd_close :: "byte list \<Rightarrow> (shell, int) op" where
  "cmd_close args =
     (if args \<noteq> [] then sret (- 1)
      else sbind unload (\<lambda>_. sbind set_prompt_string (\<lambda>_. sret 0)))"

definition cmd_commit :: "byte list \<Rightarrow> (shell, int) op" where
  "cmd_commit path =
     lib_op (hivex_commit (if path = [] then None else Some path) 0) (\<lambda>_. sret 0) (\<lambda>_. sret (- 1))"

subsection \<open>Walking through the hive\<close>

text \<open>The loop over the elements of the path; \<open>None\<close> is an element that was not found.\<close>

function cd_walk :: "hive \<Rightarrow> hive_node_h \<Rightarrow> hive_node_h \<Rightarrow> byte list \<Rightarrow> hive_node_h option result" where
  "cd_walk h root new_cwd path =
     (if path = [] then Ok (Some new_cwd)
      else
        let len = strcspn path [0x5c] in
        if len = 0 then cd_walk h root new_cwd (tl path)
        else
          let elem = take len path; path' = drop (len + 1) path in
          if elem = ascii ''.'' then cd_walk h root new_cwd path'
          else if elem = ascii ''..'' then
            if new_cwd \<noteq> root then
              (case hivex_node_parent h new_cwd of
                 Ok p \<Rightarrow> cd_walk h root p path'
               | Err e \<Rightarrow> cd_walk h root 0 path'
               | Fault z \<Rightarrow> Fault z)
            else cd_walk h root new_cwd path'
          else
            (case hivex_node_get_child h new_cwd elem of
               Ok c \<Rightarrow> if c = 0 then Ok None else cd_walk h root c path'
             | Err e \<Rightarrow> Ok None
             | Fault z \<Rightarrow> Fault z))"
  by pat_completeness auto
termination
  by (relation "measure (\<lambda>(h, root, new_cwd, path). length path)") (auto simp: neq_Nil_conv)

declare cd_walk.simps [simp del]

definition cd_to :: "hive_node_h \<Rightarrow> (shell, int) op" where
  "cd_to new_cwd s =
     (if new_cwd \<noteq> cwd s
      then sbind set_prompt_string (\<lambda>_. sret 0) (s\<lparr>cwd := new_cwd\<rparr>)
      else (Ok 0, s))"

definition cmd_cd :: "byte list \<Rightarrow> (shell, int) op" where
  "cmd_cd path s =
     (if path = [] then
        lib (\<lambda>h. print_node_path h (cwd s)) (\<lambda>p. sbind (put (p @ [10])) (\<lambda>_. sret 0)) sfail s
      else if take 2 path = [0x5c, 0x5c] then (Ok (- 1), s)
      else
        lib (\<lambda>h.
          let root = root_or_0 h in
          if hd path = 0x5c then cd_walk h root root (tl path) else cd_walk h root (cwd s) path)
          (\<lambda>r. case r of None \<Rightarrow> sret (- 1) | Some new_cwd \<Rightarrow> cd_to new_cwd)
          sfail s)"

definition cmd_help :: "byte list \<Rightarrow> (shell, int) op" where
  "cmd_help args =
     sbind (put (ascii ''Navigate through the hive's keys using the 'cd' command, as if it'' @ [10] @
                 ascii ''contained a filesystem, and use 'ls' to list the subkeys of the'' @ [10] @
                 ascii ''current key.  Full documentation is in the hivexsh(1) manual page.'' @ [10])) (\<lambda>_.
     sret 0)"

subsection \<open>Listing\<close>

text \<open>The loop that collects the names; \<open>children\<close> ends with a zero.\<close>

fun child_names :: "hive \<Rightarrow> nat list \<Rightarrow> byte list list result" where
  "child_names h [] = Fault (OutOfBounds 0)"
| "child_names h (c # cs) =
     (if c = 0 then Ok []
      else rbind (hivex_node_name h c) (\<lambda>name. rbind (child_names h cs) (\<lambda>names. Ok (cstr name # names))))"

fun insort_name :: "byte list \<Rightarrow> byte list list \<Rightarrow> byte list list" where
  "insort_name x [] = [x]"
| "insort_name x (y # ys) = (if strcasecmp x y \<le> 0 then x # y # ys else y # insort_name x ys)"

definition sort_strings :: "byte list list \<Rightarrow> byte list list" where
  "sort_strings names = foldr insort_name names []"

definition cmd_ls :: "byte list \<Rightarrow> (shell, int) op" where
  "cmd_ls args s =
     (if args \<noteq> [] then (Ok (- 1), s)
      else
        lib (\<lambda>h. rbind (hivex_node_children h (cwd s)) (child_names h))
          (\<lambda>names. sbind (put (concat (map (\<lambda>n. n @ [10]) (sort_strings names)))) (\<lambda>_. sret 0))
          (\<lambda>_. sret (- 1)) s)"

text \<open>A quoted string of the listing: quotes and backslashes are escaped.\<close>

definition escape :: "byte list \<Rightarrow> byte list" where
  "escape str = concat (map (\<lambda>c. if c = 0x22 \<or> c = 0x5c then [0x5c, c] else [c]) (cstr str))"

definition quoted :: "byte list \<Rightarrow> byte list" where
  "quoted str = [0x22] @ escape str @ [0x22]"

fun hex_list :: "byte list \<Rightarrow> byte list" where
  "hex_list [] = []"
| "hex_list [b] = fmt_0x 2 (unat b)"
| "hex_list (b # c # bs) = fmt_0x 2 (unat b) @ [0x2c] @ hex_list (c # bs)"

text \<open>The number readers return \<^verbatim>\<open>-1\<close> on an error, and it is printed like any other number.\<close>

definition or_minus1 :: "'a::len word result \<Rightarrow> 'a word result" where
  "or_minus1 r = (case r of Err e \<Rightarrow> Ok (- 1) | _ \<Rightarrow> r)"

definition value_line :: "hive \<Rightarrow> hive_value_h \<Rightarrow> byte list result" where
  "value_line h value =
     rbind (hivex_value_type h value) (\<lambda>(t, len).
     if t = hive_t_string \<or> t = hive_t_expand_string \<or> t = hive_t_link then
       rbind (hivex_value_string h value) (\<lambda>str. Ok (cstr str @ [10]))
     else if t = hive_t_dword \<or> t = hive_t_dword_be then
       rbind (or_minus1 (hivex_value_dword h value)) (\<lambda>j. Ok (fmt_d (sint j) @ [10]))
     else if t = hive_t_qword then
       rbind (or_minus1 (hivex_value_qword h value)) (\<lambda>j. Ok (fmt_d (sint j) @ [10]))
     else if t = hive_t_multiple_strings then
       rbind (hivex_value_multiple_strings h value) (\<lambda>strs. Ok (concat (map (\<lambda>str. cstr str @ [10]) strs)))
     else rbind (hivex_value_value h value) (\<lambda>(t, len, data). Ok data))"

definition regedit_key :: "byte list \<Rightarrow> byte list" where
  "regedit_key key = (if cstr key \<noteq> [] then quoted key else ascii ''\"@\"'') @ ascii ''=''"

definition regedit_data :: "hive \<Rightarrow> hive_value_h \<Rightarrow> byte list result" where
  "regedit_data h value =
     rbind (hivex_value_type h value) (\<lambda>(t, len).
     if t = hive_t_string \<or> t = hive_t_expand_string \<or> t = hive_t_link then
       rbind (hivex_value_string h value) (\<lambda>str.
       Ok ((if t \<noteq> hive_t_string then ascii ''str('' @ fmt_d (sint t) @ ascii ''):'' else []) @ quoted str))
     else if t = hive_t_dword \<or> t = hive_t_dword_be then
       rbind (or_minus1 (hivex_value_dword h value)) (\<lambda>j. Ok (ascii ''dword:'' @ fmt_0x 8 (unat j)))
     else
       rbind (hivex_value_value h value) (\<lambda>(t, len, data).
       Ok (ascii ''hex('' @ fmt_d (sint t) @ ascii ''):'' @ hex_list data)))"

fun lsval_all :: "nat list \<Rightarrow> (shell, int) op" where
  "lsval_all [] = sfault (OutOfBounds 0)"
| "lsval_all (v # vs) =
     (if v = 0 then sret 0
      else
        lib (\<lambda>h. hivex_value_key h v) (\<lambda>key.
        sbind (put (regedit_key key)) (\<lambda>_.
        lib (\<lambda>h. regedit_data h v) (\<lambda>line.
        sbind (put (line @ [10])) (\<lambda>_.
        lsval_all vs))
        (\<lambda>_. sret (- 1))))
        (\<lambda>_. sret (- 1)))"

definition cmd_lsval :: "byte list \<Rightarrow> (shell, int) op" where
  "cmd_lsval key s =
     (if key \<noteq> [] then
        lib (\<lambda>h. rbind (hivex_node_get_value h (cwd s) (if key = ascii ''@'' then [] else key)) (\<lambda>value.
               if value = 0 then Ok None else rbind (value_line h value) (\<lambda>line. Ok (Some line))))
          (\<lambda>r. case r of None \<Rightarrow> sret (- 1) | Some line \<Rightarrow> sbind (put line) (\<lambda>_. sret 0))
          (\<lambda>_. sret (- 1)) s
      else lib (\<lambda>h. hivex_node_values h (cwd s)) lsval_all (\<lambda>_. sret (- 1)) s)"

subsection \<open>Setting values\<close>

definition SH_MAX_VALUES :: int where "SH_MAX_VALUES = 1000"

definition get_xdigit :: "byte \<Rightarrow> int" where
  "get_xdigit c =
     (if 0x30 \<le> c \<and> c \<le> 0x39 then uint c - 0x30
      else if 0x61 \<le> c \<and> c \<le> 0x66 then uint c - 0x61 + 10
      else if 0x41 \<le> c \<and> c \<le> 0x46 then uint c - 0x41 + 10
      else - 1)"

text \<open>The inner loop that reads up to two hexadecimal digits, and the loop around it.\<close>

fun hex_pair :: "nat \<Rightarrow> int \<Rightarrow> byte list \<Rightarrow> nat \<times> int \<times> byte list" where
  "hex_pair j c [] = (j, c, [])"
| "hex_pair j c (b # bs) =
     (if 2 \<le> j then (j, c, b # bs)
      else if c_isxdigit b then hex_pair (Suc j) (push_bit 4 c OR get_xdigit b) bs
      else hex_pair j c bs)"

lemma hex_pair_length: "hex_pair j c bs = (j', c', bs') \<Longrightarrow> length bs' \<le> length bs"
  by (induction j c bs rule: hex_pair.induct) (auto split: if_splits)

lemma hex_pair_shorter: "hex_pair 0 0 bs = (j, c, bs') \<Longrightarrow> bs \<noteq> [] \<Longrightarrow> length bs' < length bs"
  by (cases bs) (auto split: if_splits dest!: hex_pair_length)

function hex_data :: "byte list \<Rightarrow> byte list option" where
  "hex_data buf =
     (if buf = [] then Some []
      else
        let (j, c, buf') = hex_pair 0 0 buf in
        if j = 2 then map_option (\<lambda>ds. of_int c # ds) (hex_data buf')
        else if j = 1 then None
        else hex_data buf')"
  by pat_completeness auto
termination
  by (relation "measure length") (auto dest!: hex_pair_shorter[OF sym])

declare hex_data.simps [simp del]

text \<open>The bytes of a string: two for every character, then two zero bytes; 7-bit characters only.\<close>

definition utf16_ascii :: "byte list \<Rightarrow> byte list option" where
  "utf16_ascii buf =
     (if \<exists>c \<in> set buf. c AND 0x80 \<noteq> 0 then None
      else Some (concat (map (\<lambda>c. [c, 0]) (buf @ [0]))))"

definition read_int :: "byte list \<Rightarrow> int option" where
  "read_int buf =
     (case xstrtol buf 0 (Some []) of
        Ok (xerr, v) \<Rightarrow> if xerr \<noteq> LONGINT_OK then None else v
      | _ \<Rightarrow> None)"

definition STRPREFIX :: "byte list \<Rightarrow> byte list \<Rightarrow> bool" where
  "STRPREFIX a b \<longleftrightarrow> take (length b) a = b"

definition parse_hex :: "byte list \<Rightarrow> (u32 \<times> byte list) option" where
  "parse_hex buf =
     (let len = strcspn buf [0x3a] in
      (case read_int (take len buf) of
         None \<Rightarrow> None
       | Some t \<Rightarrow>
           if t < 0 \<or> 0xffffffff < t then None
           else map_option (Pair (of_int t)) (hex_data (drop (len + 1) buf))))"

text \<open>The type and the data of a value line; \<open>g\<close> is what \<^verbatim>\<open>malloc\<close> left in the buffer.\<close>

definition parse_value :: "(nat \<Rightarrow> byte) \<Rightarrow> byte list \<Rightarrow> (u32 \<times> byte list) option" where
  "parse_value g buf =
     (if buf = ascii ''none'' then Some (hive_t_none, [])
      else if STRPREFIX buf (ascii ''string:'') then map_option (Pair hive_t_string) (utf16_ascii (drop 7 buf))
      else if STRPREFIX buf (ascii ''expandstring:'') then
        map_option (Pair hive_t_expand_string) (utf16_ascii (drop 13 buf))
      else if STRPREFIX buf (ascii ''dword:'') then
        (case read_int (drop 6 buf) of
           None \<Rightarrow> None
         | Some n \<Rightarrow>
             if n < 0 \<or> 0xffffffff < n then None
             else Some (hive_t_dword, le_bytes 4 (of_int n :: u32)))
      else if STRPREFIX buf (ascii ''qword:'') then
        (case read_int (drop 6 buf) of
           None \<Rightarrow> None
         | Some n \<Rightarrow> Some (hive_t_qword, take 4 (le_bytes 8 (of_int n :: u64)) @ map g [4..<8]))
      else if STRPREFIX buf (ascii ''hex:'') then parse_hex (drop 4 buf)
      else None)"

primrec read_pairs :: "nat \<Rightarrow> nat \<Rightarrow> hive_set_value list \<Rightarrow> (shell, hive_set_value list option) op" where
  "read_pairs 0 i acc = sret (Some acc)"
| "read_pairs (Suc n) i acc =
     sbind (rl_gets (ascii ''  key> '')) (\<lambda>key.
     case key of
       None \<Rightarrow> sbind (supd (\<lambda>s. s\<lparr>quit := True\<rparr>)) (\<lambda>_. sret None)
     | Some key \<Rightarrow>
         sbind (rl_gets (ascii ''value> '')) (\<lambda>buf.
         case buf of
           None \<Rightarrow> sbind (supd (\<lambda>s. s\<lparr>quit := True\<rparr>)) (\<lambda>_. sret None)
         | Some buf \<Rightarrow> (\<lambda>s.
             case parse_value (garbage s i) buf of
               None \<Rightarrow> (Ok None, s)
             | Some (t, data) \<Rightarrow>
                 read_pairs n (Suc i)
                   (acc @ [\<lparr>sv_key = if key = ascii ''@'' then [] else key, sv_t = t, sv_value = data\<rparr>]) s)))"

definition cmd_setval :: "byte list \<Rightarrow> (shell, int) op" where
  "cmd_setval nrvals_str =
     (case read_int nrvals_str of
        None \<Rightarrow> sret (- 1)
      | Some nrvals \<Rightarrow>
          if nrvals < 0 \<or> SH_MAX_VALUES < nrvals then sret (- 1)
          else
            sbind (read_pairs (nat nrvals) 0 []) (\<lambda>r.
            case r of
              None \<Rightarrow> sret (- 1)
            | Some values \<Rightarrow> (\<lambda>s.
                lib_op (on_hive (hivex_node_set_values (cwd s) values)) (\<lambda>_. sret 0) (\<lambda>_. sret (- 1)) s)))"

subsection \<open>Deleting and adding nodes\<close>

definition cmd_del :: "byte list \<Rightarrow> (shell, int) op" where
  "cmd_del args s =
     (if args \<noteq> [] then (Ok (- 1), s)
      else
        lib (\<lambda>h. if cwd s = root_or_0 h then Ok None
                 else case hivex_node_parent h (cwd s) of Err e \<Rightarrow> Ok (Some 0) | r \<Rightarrow> rbind r (\<lambda>p. Ok (Some p)))
          (\<lambda>r. case r of
             None \<Rightarrow> sret (- 1)
           | Some new_cwd \<Rightarrow>
               lib_op (on_hive (hivex_node_delete_child (cwd s)))
                 (\<lambda>_. sbind (supd (\<lambda>s. s\<lparr>cwd := new_cwd\<rparr>)) (\<lambda>_. sbind set_prompt_string (\<lambda>_. sret 0)))
                 (\<lambda>_. sret (- 1)))
          sfail s)"

definition cmd_add :: "byte list \<Rightarrow> (shell, int) op" where
  "cmd_add name s = lib_op (on_hive (hivex_node_add_child (cwd s) name)) (\<lambda>_. sret 0) (\<lambda>_. sret (- 1)) s"

subsection \<open>The main loop\<close>

definition dispatch :: "byte list \<Rightarrow> byte list \<Rightarrow> (shell, int) op" where
  "dispatch cmd args s =
     (if STRCASEEQ cmd (ascii ''help'') then cmd_help args s
      else if STRCASEEQ cmd (ascii ''load'') then cmd_load args s
      else if STRCASEEQ cmd (ascii ''exit'') \<or> STRCASEEQ cmd (ascii ''q'') \<or> STRCASEEQ cmd (ascii ''quit'')
      then (Ok 0, s\<lparr>quit := True\<rparr>)
      else if sh_h s = None then (Ok (- 1), s)
      else if STRCASEEQ cmd (ascii ''add'') then cmd_add args s
      else if STRCASEEQ cmd (ascii ''cd'') then cmd_cd args s
      else if STRCASEEQ cmd (ascii ''close'') \<or> STRCASEEQ cmd (ascii ''unload'') then cmd_close args s
      else if STRCASEEQ cmd (ascii ''commit'') then cmd_commit args s
      else if STRCASEEQ cmd (ascii ''del'') then cmd_del args s
      else if STRCASEEQ cmd (ascii ''ls'') then cmd_ls args s
      else if STRCASEEQ cmd (ascii ''lsval'') then cmd_lsval args s
      else if STRCASEEQ cmd (ascii ''setval'') then cmd_setval args s
      else (Ok (- 1), s))"

text \<open>One line: \<open>None\<close> is a blank line or a comment, otherwise the command and its arguments.\<close>

definition split_line :: "byte list \<Rightarrow> (byte list \<times> byte list) option" where
  "split_line line =
     (let buf = dropWhile c_isspace line in
      if buf = [] then None
      else if hd buf = 0x23 then None
      else
        let len = strcspn buf [0x20, 0x09] in
        if len = 0 then None
        else
          let args = dropWhile (\<lambda>c. c = 0x20 \<or> c = 0x09) (drop (len + 1) buf) in
          Some (take len buf, rev (dropWhile c_isspace (rev args))))"

text \<open>The value is the status the process exits with.\<close>

primrec main_loop :: "nat \<Rightarrow> (shell, int) op" where
  "main_loop 0 s = (Fault OutOfFuel, s)"
| "main_loop (Suc fuel) s =
     (if quit s then (Ok 0, s)
      else
        sbind (rl_gets (prompt_string s)) (\<lambda>buf.
        case buf of
          None \<Rightarrow> (\<lambda>s.
            sbind (if is_tty s then put [10] else sret ()) (\<lambda>_. sret 0) (s\<lparr>quit := True\<rparr>))
        | Some line \<Rightarrow>
            (case split_line line of
               None \<Rightarrow> main_loop fuel
             | Some (cmd, args) \<Rightarrow>
                 sbind (dispatch cmd args) (\<lambda>r s.
                 if \<not> is_tty s \<and> r = - 1 then (Ok 1, s) else main_loop fuel s))) s)"

definition welcome_text :: "byte list" where
  "welcome_text =
     [10] @ ascii ''Welcome to hivexsh, the hivex interactive shell for examining'' @ [10] @
     ascii ''Windows Registry binary hive files.'' @ [10] @ [10] @
     ascii ''Type: 'help' for help summary'' @ [10] @
     ascii ''      'quit' to quit the shell'' @ [10] @ [10]"

text \<open>The options of the shell: the flags for opening, and the file of \<^verbatim>\<open>-f\<close>.\<close>

definition sh_option :: "u32 \<times> byte list option \<Rightarrow> int \<Rightarrow> byte list option \<Rightarrow> (u32 \<times> byte list option) option" where
  "sh_option = (\<lambda>(flags, script) c arg.
     if c = 0x64 then Some (flags OR HIVEX_OPEN_DEBUG, script)
     else if c = 0x66 then Some (flags, arg)
     else if c = 0x77 then Some (flags OR HIVEX_OPEN_WRITE, script)
     else None)"

text \<open>
  The file of \<^verbatim>\<open>-f\<close> becomes standard input; \<open>terminal\<close> says whether standard input was a terminal, which
  a file is not.
\<close>

definition open_script :: "bool \<Rightarrow> byte list option \<Rightarrow> (shell, bool) op" where
  "open_script terminal script s =
     (case script of
        None \<Rightarrow> (Ok True, s\<lparr>is_tty := terminal\<rparr>)
      | Some f \<Rightarrow>
          (case files s f of
             None \<Rightarrow> (Ok False, s\<lparr>stdin := []\<rparr>)
           | Some (n, m) \<Rightarrow> (Ok True, s\<lparr>stdin := get_bytes m 0 n, is_tty := False\<rparr>)))"

definition run_shell :: "(shell, int) op" where
  "run_shell =
     sbind (\<lambda>s. if is_tty s then put welcome_text s else (Ok (), s)) (\<lambda>_ s.
     main_loop (Suc (length (stdin s))) s)"

definition main :: "bool \<Rightarrow> bool \<Rightarrow> byte list list \<Rightarrow> (shell, int) op" where
  "main posixly_correct terminal argv =
     sbind set_prompt_string (\<lambda>_ s.
     case getopt_loop posixly_correct (ascii ''df:w'') sh_option (open_flags s, None) argv of
       None \<Rightarrow> (Fault OutOfFuel, s)
     | Some (None, argv, d) \<Rightarrow> (Ok 1, s)
     | Some (Some (flags, script), argv, d) \<Rightarrow>
         (if optind d < length argv \<and> optind d + 1 \<noteq> length argv then sret 1
          else
            sbind (if optind d < length argv then cmd_load (argv ! optind d) else sret 0) (\<lambda>r.
            if r = - 1 then sret 1
            else
              sbind (open_script terminal script) (\<lambda>ok.
              if ok then run_shell else sret 1))) (s\<lparr>open_flags := flags\<rparr>))"

section \<open>Paths\<close>

text \<open>\<open>at_path h ss n\<close>: from the root, the names \<open>ss\<close> lead to the node \<open>n\<close>.\<close>

definition elem_ok :: "byte list \<Rightarrow> bool" where
  "elem_ok s \<longleftrightarrow> s \<noteq> [] \<and> 0x5c \<notin> set s \<and> s \<noteq> ascii ''.'' \<and> s \<noteq> ascii ''..''"

inductive at_path :: "hive \<Rightarrow> byte list list \<Rightarrow> hive_node_h \<Rightarrow> bool" for h where
  at_root: "hivex_root h = Ok r \<Longrightarrow> at_path h [] r"
| at_child: "at_path h ss p \<Longrightarrow> hivex_node_parent h n = Ok p \<Longrightarrow> hivex_node_name h n = Ok name \<Longrightarrow>
    hivex_node_get_child h p (cstr name) = Ok n \<Longrightarrow> elem_ok (cstr name) \<Longrightarrow> hivex_root h \<noteq> Ok n \<Longrightarrow>
    at_path h (ss @ [cstr name]) n"

inductive_cases at_path_NilE [elim]: "at_path h [] n"

definition path_string :: "byte list list \<Rightarrow> byte list" where
  "path_string ss = (if ss = [] then [0x5c] else concat (map (\<lambda>s. 0x5c # s) ss))"

lemma at_path_valid: "at_path h ss n \<Longrightarrow> IS_VALID_BLOCK h n"
  by (induction rule: at_path.induct)
    (auto simp: hivex_root_def hivex_node_parent_def check_block_def guard_def split: if_splits)

lemma at_path_root: "at_path h ss n \<Longrightarrow> \<exists>r. hivex_root h = Ok r"
  by (induction rule: at_path.induct) auto

lemma root_or_0_eq: "hivex_root h = Ok r \<Longrightarrow> root_or_0 h = r"
  by (simp add: root_or_0_def)

lemma at_path_root_iff: "at_path h ss n \<Longrightarrow> hivex_root h = Ok n \<longleftrightarrow> ss = []"
  by (auto elim: at_path.cases)

text \<open>The names on the way to a node are determined by the node, so the nodes of a path differ.\<close>

lemma at_path_unique: "at_path h ss n \<Longrightarrow> at_path h ss' n \<Longrightarrow> ss = ss'"
proof (induction arbitrary: ss' rule: at_path.induct)
  case (at_root r)
  then show ?case using at_path_root_iff[of h ss' r] by auto
next
  case (at_child ss p n name)
  from at_child.prems show ?case
  proof (cases rule: at_path.cases)
    case at_root
    then show ?thesis using at_child.hyps by simp
  next
    case (at_child ss2 p2 name2)
    then show ?thesis using \<open>hivex_node_parent h n = Ok p\<close> \<open>hivex_node_name h n = Ok name\<close> at_child.IH by auto
  qed
qed

lemma at_path_nodes:
  "at_path h ss n \<Longrightarrow>
    \<exists>ns. length ns = Suc (length ss) \<and> distinct ns \<and> (\<forall>x \<in> set ns. \<exists>ss'. length ss' \<le> length ss \<and> at_path h ss' x)"
proof (induction rule: at_path.induct)
  case (at_root r)
  then show ?case by (intro exI[of _ "[r]"]) (auto intro: at_path.at_root)
next
  case (at_child ss p n name)
  then obtain ns where ns: "length ns = Suc (length ss)" "distinct ns"
    "\<forall>x \<in> set ns. \<exists>ss'. length ss' \<le> length ss \<and> at_path h ss' x" by blast
  have n: "at_path h (ss @ [cstr name]) n" using at_child.hyps by (rule at_path.at_child)
  then have "n \<notin> set ns" using ns(3) at_path_unique by fastforce
  with ns n show ?case
    by (intro exI[of _ "n # ns"]) (auto intro: exI[of _ "ss @ [cstr name]"] le_SucI)
qed

lemma node_path_at:
  "at_path h ss n \<Longrightarrow> length ss < fuel \<Longrightarrow> node_path fuel h n = Ok (path_string ss)"
proof (induction arbitrary: fuel rule: at_path.induct)
  case (at_root r)
  then show ?case by (cases fuel) (simp_all add: root_or_0_eq path_string_def)
next
  case (at_child ss p n name)
  obtain k where k: "fuel = Suc k" "length ss < k" using at_child.prems by (cases fuel) auto
  obtain r where r: "hivex_root h = Ok r" using at_path_root[OF at_child.hyps(1)] by blast
  have pr: "p = r \<longleftrightarrow> ss = []" using at_path_root_iff[OF at_child.hyps(1)] r by auto
  show ?case using at_child.IH[OF k(2)] at_child.hyps r pr
    by (auto simp: k(1) root_or_0_eq path_string_def)
qed

lemma print_node_path_at:
  assumes h: "hive_ok h" and p: "at_path h ss n"
  shows "print_node_path h n = Ok (path_string ss)"
proof -
  obtain ns where ns: "length ns = Suc (length ss)" "distinct ns" "\<forall>x \<in> set ns. \<exists>ss'. at_path h ss' x"
    using at_path_nodes[OF p] by blast
  have "length ns \<le> bitmap_slots (bitmap h)"
    using ns(3) at_path_valid by (intro valid_count[OF h ns(2)]) auto
  then show ?thesis using node_path_at[OF p] ns(1) by (simp add: print_node_path_def del: node_path.simps)
qed

lemma cd_walk_skip: "cd_walk h r n (0x5c # path) = cd_walk h r n path"
  by (subst cd_walk.simps) (simp add: strcspn_def)

lemma cd_walk_elem:
  assumes e: "elem_ok s" and c: "hivex_node_get_child h p s = Ok n" "n \<noteq> 0" and rest: "rest = [] \<or> hd rest = 0x5c"
  shows "cd_walk h r p (s @ rest) = cd_walk h r n rest"
proof -
  have "takeWhile (\<lambda>c. c \<noteq> 0x5c) (s @ rest) = s"
    using e rest by (cases rest) (auto simp: elem_ok_def takeWhile_append takeWhile_eq_all_conv)
  then have "strcspn (s @ rest) [0x5c] = length s" by (simp add: strcspn_def)
  then have "cd_walk h r p (s @ rest) = cd_walk h r n (tl rest)"
    using e c by (subst cd_walk.simps) (auto simp: elem_ok_def Let_def drop_Suc)
  also have "\<dots> = cd_walk h r n rest" using rest cd_walk_skip[of h r n "tl rest"] by (cases rest) auto
  finally show ?thesis .
qed

lemma cd_walk_path:
  assumes "at_path h ss n" and "hivex_root h = Ok r" and "rest = [] \<or> hd rest = 0x5c"
  shows "cd_walk h r r (concat (map (\<lambda>s. 0x5c # s) ss) @ rest) = cd_walk h r n rest"
  using assms
proof (induction arbitrary: rest rule: at_path.induct)
  case (at_child ss p n name)
  have "n \<noteq> 0" using at_path_valid[OF at_path.at_child[OF at_child.hyps]] by (auto simp: IS_VALID_BLOCK_def)
  then show ?case
    using at_child.IH[of "0x5c # cstr name @ rest"] at_child.prems at_child.hyps cd_walk_elem
    by (simp add: cd_walk_skip)
qed simp

lemma cmd_cd_at:
  assumes h: "hive_ok h" "sh_h s = Some h" "loaded s = Some f" and p: "at_path h ss n"
  shows "cmd_cd (path_string ss) s =
    (Ok 0, if cwd s = n then s else s\<lparr>cwd := n, prompt_string := f @ path_string ss @ ascii ''> ''\<rparr>)"
proof -
  obtain r where r: "hivex_root h = Ok r" using at_path_root[OF p] by blast
  have n0: "n \<noteq> 0" using at_path_valid[OF p] by (auto simp: IS_VALID_BLOCK_def)
  have e: "\<forall>x \<in> set ss. elem_ok x" using p by (induction rule: at_path.induct) auto
  have hd: "path_string ss \<noteq> []" "hd (path_string ss) = 0x5c" "take 2 (path_string ss) \<noteq> [0x5c, 0x5c]"
    using e by (cases ss; cases "hd ss"; auto simp: path_string_def elem_ok_def numeral_2_eq_2)+
  have "cd_walk h r r (tl (path_string ss)) = cd_walk h r r (path_string ss)"
    using hd cd_walk_skip[of h r r "tl (path_string ss)"] by (cases "path_string ss") auto
  also have "\<dots> = cd_walk h r n []"
  proof (cases "ss = []")
    case True
    then show ?thesis using p r by (auto simp: path_string_def cd_walk_skip)
  next
    case False
    then show ?thesis using cd_walk_path[OF p r, of "[]"] by (simp add: path_string_def)
  qed
  also have "\<dots> = Ok (Some n)" by (simp add: cd_walk.simps)
  finally have w: "cd_walk h r r (tl (path_string ss)) = Ok (Some n)" .
  have pr: "set_prompt_string (s\<lparr>cwd := n\<rparr>) =
      (Ok (), s\<lparr>cwd := n, prompt_string := f @ path_string ss @ ascii ''> ''\<rparr>)"
    using h n0 print_node_path_at[OF h(1) p] by (simp add: set_prompt_string_def)
  show ?thesis
    using hd w h(2) pr by (simp add: cmd_cd_def lib_def root_or_0_eq[OF r] cd_to_def sbind_def Let_def)
qed

section \<open>Hexadecimal data\<close>

lemma xdigit_char_all:
  "\<forall>d \<in> set [0..<16]. c_isxdigit (digit_char d) \<and> get_xdigit (digit_char d) = int d"
  by (simp add: upt_rec digit_char_def c_isxdigit_def get_xdigit_def)

lemma xdigit_char:
  assumes "d < 16"
  shows "c_isxdigit (digit_char d)" "get_xdigit (digit_char d) = int d"
proof -
  have "d \<in> set [0..<16]" using assms by simp
  with xdigit_char_all show "c_isxdigit (digit_char d)" "get_xdigit (digit_char d) = int d" by blast+
qed

lemma or_nibble: "0 \<le> d \<Longrightarrow> d < 16 \<Longrightarrow> push_bit 4 c OR d = 16 * c + d" for c d :: int
  using concat_bit_eq[of 4 d c] concat_bit_def[of 4 d c]
  by (simp add: take_bit_int_eq_self push_bit_eq_mult or.commute)

lemma fmt_02x: "n < 256 \<Longrightarrow> fmt_0x 2 n = [digit_char (n div 16), digit_char (n mod 16)]"
proof -
  assume n: "n < 256"
  show ?thesis
  proof (cases "n < 16")
    case True
    then have "digits 16 n = [digit_char n]" by (simp add: digits.simps[of 16 n])
    then show ?thesis using True by (simp add: fmt_0x_def pad0_def digit_char_def)
  next
    case False
    then have "digits 16 n = digits 16 (n div 16) @ [digit_char (n mod 16)]"
      by (simp add: digits.simps[of 16 n])
    moreover have "n div 16 < 16" using n by simp
    then have "digits 16 (n div 16) = [digit_char (n div 16)]" by (subst digits.simps) simp
    ultimately show ?thesis by (simp add: fmt_0x_def pad0_def)
  qed
qed

lemma hex_pair_byte: "hex_pair 0 0 (fmt_0x 2 (unat b) @ rest) = (2, uint b, rest)" for b :: byte
proof -
  have n: "unat b < 256" using unat_byte[of b] by simp
  then have d: "unat b div 16 < 16" "unat b mod 16 < 16" by auto
  have "16 * int (unat b div 16) + int (unat b mod 16) = uint b"
    by (simp add: zdiv_int zmod_int)
  then show ?thesis
    using xdigit_char[OF d(1)] xdigit_char[OF d(2)] or_nibble[of "int (unat b mod 16)" "int (unat b div 16)"] d
    by (cases rest) (simp_all add: fmt_02x[OF n])
qed

lemma hex_data_byte: "hex_data (fmt_0x 2 (unat b) @ rest) = map_option (\<lambda>ds. b # ds) (hex_data rest)" for b :: byte
proof -
  have "fmt_0x 2 (unat b) \<noteq> []" using fmt_02x[of "unat b"] unat_byte[of b] by simp
  then show ?thesis
    by (subst hex_data.simps) (simp add: hex_pair_byte)
qed

lemma hex_data_comma: "bs \<noteq> [] \<Longrightarrow> hex_data (0x2c # bs) = hex_data bs"
  by (subst (1 2) hex_data.simps) (simp add: c_isxdigit_def)

lemma hex_data_list: "hex_data (hex_list data) = Some data"
proof (induction data rule: hex_list.induct)
  case 1
  show ?case by (simp add: hex_data.simps)
next
  case (2 b)
  have "hex_data [] = Some []" by (simp add: hex_data.simps)
  then show ?case using hex_data_byte[of b "[]"] by simp
next
  case (3 b c bs)
  have "hex_list (c # bs) \<noteq> []"
    using fmt_02x[of "unat c"] unat_byte[of c] by (cases bs) auto
  then show ?case using 3 hex_data_byte[of b] by (simp add: hex_data_comma)
qed

lemma read_int_fmt: "LONG_MIN \<le> n \<Longrightarrow> n \<le> LONG_MAX \<Longrightarrow> read_int (fmt_d n) = Some n"
  using read_back[of n] by (simp add: read_int_def)

lemma fmt_d_chars: "0x3a \<notin> set (fmt_d n)"
proof -
  have "\<forall>c \<in> set (fmt_d n). is_digit 10 c \<or> c = 0x2d"
    using digits_props[of 10 "nat n"] digits_props[of 10 "nat (- n)"] by (auto simp: fmt_d_def)
  moreover have "\<not> is_digit 10 0x3a" by (simp add: is_digit_def digit_val_def isalpha_def)
  ultimately show ?thesis by force
qed

lemma parse_hex_line:
  assumes "LONG_MIN \<le> n" "n \<le> 0xffffffff"
  shows "parse_hex (fmt_d n @ [0x3a] @ hex_list data) = (if n < 0 then None else Some (of_int n, data))"
proof -
  have "takeWhile (\<lambda>c. c \<noteq> 0x3a) (fmt_d n @ [0x3a] @ hex_list data) = fmt_d n"
    using fmt_d_chars[of n] by (simp add: takeWhile_append takeWhile_eq_all_conv)
  then have "strcspn (fmt_d n @ [0x3a] @ hex_list data) [0x3a] = length (fmt_d n)" by (simp add: strcspn_def)
  then show ?thesis
    using assms read_int_fmt[of n] hex_data_list[of data] by (simp add: parse_hex_def LONG_MAX_def)
qed

lemma parse_value_hex: "parse_value g (ascii ''hex:'' @ line) = parse_hex line"
  by (simp add: parse_value_def STRPREFIX_def ascii_def)

section \<open>The main loop ends\<close>

text \<open>No command puts anything back into the input.\<close>

definition consumes :: "(shell, 'a) op \<Rightarrow> bool" where
  "consumes f \<longleftrightarrow> (\<forall>s. length (stdin (snd (f s))) \<le> length (stdin s))"

named_theorems consumes_intros

lemma consumes_basic [consumes_intros]:
  "consumes (sret x)" "consumes (sfail e)" "consumes (sfault z)" "consumes (put bs)" "consumes unload"
  "consumes set_prompt_string" "consumes (rl_gets prompt)" "consumes (supd (\<lambda>s. s\<lparr>quit := b\<rparr>))"
  "consumes (supd (\<lambda>s. s\<lparr>cwd := n\<rparr>))"
proof -
  show "consumes (sret x)" "consumes (sfail e)" "consumes (sfault z)" "consumes unload"
    "consumes (supd (\<lambda>s. s\<lparr>quit := b\<rparr>))" "consumes (supd (\<lambda>s. s\<lparr>cwd := n\<rparr>))"
    by (simp_all add: consumes_def unload_def)
  show p: "consumes (put bs)" for bs by (simp add: consumes_def put_def)
  show "consumes set_prompt_string"
    by (simp add: consumes_def set_prompt_string_def split: option.split result.split)
  show "consumes (rl_gets prompt)"
    by (auto simp: consumes_def rl_gets_def sbind_def put_def fgets_def Let_def split: prod.split)
qed

lemma consumes_sbind [consumes_intros]: "consumes m \<Longrightarrow> (\<And>x. consumes (f x)) \<Longrightarrow> consumes (sbind m f)"
  unfolding consumes_def sbind_def by (auto split: prod.split result.split) (metis order_trans snd_conv)+

lemma consumes_lib [consumes_intros]:
  "(\<And>x. consumes (ok x)) \<Longrightarrow> (\<And>e. consumes (err e)) \<Longrightarrow> consumes (lib f ok err)"
  "(\<And>x. consumes (ok x)) \<Longrightarrow> (\<And>e. consumes (err e)) \<Longrightarrow> consumes (lib_op g ok err)"
  unfolding consumes_def lib_def lib_op_def
  by (auto simp: Let_def split: option.split prod.split result.split)
    (metis select_convs(8) surjective update_convs(3,10))+

lemma consumes_at: "(\<And>s. consumes (f s)) \<Longrightarrow> consumes (\<lambda>s. f s s)"
  by (simp add: consumes_def)

lemma consumes_split [consumes_intros]:
  "consumes f \<Longrightarrow> consumes g \<Longrightarrow> consumes (if b then f else g)"
  "consumes f \<Longrightarrow> (\<And>x. consumes (k x)) \<Longrightarrow> consumes (case r of None \<Rightarrow> f | Some x \<Rightarrow> k x)"
  by (auto split: option.split)

lemma consumesD: "consumes f \<Longrightarrow> length (stdin (snd (f s))) \<le> length (stdin s)"
  by (simp add: consumes_def)

lemma consumes_app:
  "consumes f \<Longrightarrow> consumes g \<Longrightarrow> consumes (\<lambda>s. if b s then f s else g s)"
  "consumes (\<lambda>s. (r, s))" "consumes (\<lambda>s. (r, s\<lparr>quit := q\<rparr>))"
  "(\<And>s x. consumes (ok s x)) \<Longrightarrow> (\<And>s e. consumes (err s e)) \<Longrightarrow> consumes (\<lambda>s. lib (k s) (ok s) (err s) s)"
  "(\<And>s x. consumes (ok s x)) \<Longrightarrow> (\<And>s e. consumes (err s e)) \<Longrightarrow> consumes (\<lambda>s. lib_op (k' s) (ok s) (err s) s)"
proof -
  show "(\<And>s x. consumes (ok s x)) \<Longrightarrow> (\<And>s e. consumes (err s e)) \<Longrightarrow> consumes (\<lambda>s. lib (k s) (ok s) (err s) s)"
    by (rule consumes_at) (rule consumes_lib)
  show "(\<And>s x. consumes (ok s x)) \<Longrightarrow> (\<And>s e. consumes (err s e)) \<Longrightarrow> consumes (\<lambda>s. lib_op (k' s) (ok s) (err s) s)"
    by (rule consumes_at) (rule consumes_lib)
qed (simp_all add: consumes_def)

lemma consumes_read_pairs [consumes_intros]: "consumes (read_pairs n i acc)"
proof (induction n arbitrary: i acc)
  case (Suc n)
  have "consumes (\<lambda>s. case parse_value (garbage s i) buf of
      None \<Rightarrow> (Ok None, s)
    | Some (t, data) \<Rightarrow> read_pairs n (Suc i) (acc @ [\<lparr>sv_key = k, sv_t = t, sv_value = data\<rparr>]) s)" for buf k
    using Suc by (auto simp: consumes_def split: option.split)
  then show ?case by (auto intro!: consumes_intros)
qed (auto intro: consumes_intros)

lemma consumes_lsval_all [consumes_intros]: "consumes (lsval_all vs)"
  by (induction vs) (unfold lsval_all.simps, (intro consumes_intros | assumption)+)

lemma consumes_commands [consumes_intros]:
  "consumes (cmd_help args)" "consumes (cmd_load args)" "consumes (cmd_add args)" "consumes (cmd_cd args)"
  "consumes (cmd_close args)" "consumes (cmd_commit args)" "consumes (cmd_del args)" "consumes (cmd_ls args)"
  "consumes (cmd_lsval args)" "consumes (cmd_setval args)"
proof -
  show "consumes (cmd_help args)" "consumes (cmd_close args)" "consumes (cmd_commit args)"
    unfolding cmd_help_def cmd_close_def cmd_commit_def by (auto intro!: consumes_intros)
  have "consumes (\<lambda>s. case hivex_open (files s) args (open_flags s) of
      Err e \<Rightarrow> (Ok (- 1), s)
    | Fault z \<Rightarrow> (Fault z, s)
    | Ok h \<Rightarrow>
        sbind set_prompt_string (\<lambda>_. sret (0::int))
          (s\<lparr>sh_h := Some h, loaded := Some (basename args), cwd := root_or_0 h\<rparr>))"
    (is "consumes ?f")
  proof (unfold consumes_def, rule allI)
    fix s
    have "length (stdin (snd (sbind set_prompt_string (\<lambda>_. sret (0::int)) s'))) \<le> length (stdin s')" for s'
      by (intro consumesD consumes_intros)
    from this[of "s\<lparr>sh_h := Some h, loaded := Some (basename args), cwd := root_or_0 h\<rparr>" for h]
    show "length (stdin (snd (?f s))) \<le> length (stdin s)" by (auto split: result.split)
  qed
  then show "consumes (cmd_load args)"
    unfolding cmd_load_def by (intro consumes_split(1) consumes_sbind consumes_basic)
  have to: "consumes (cd_to n)" for n
  proof (unfold consumes_def, rule allI)
    fix s
    have "length (stdin (snd (sbind set_prompt_string (\<lambda>_. sret (0::int)) (s\<lparr>cwd := n\<rparr>)))) \<le> length (stdin (s\<lparr>cwd := n\<rparr>))"
      by (intro consumesD consumes_intros)
    then show "length (stdin (snd (cd_to n s))) \<le> length (stdin s)" by (simp add: cd_to_def)
  qed
  show "consumes (cmd_cd args)" "consumes (cmd_add args)" "consumes (cmd_del args)" "consumes (cmd_ls args)"
    "consumes (cmd_lsval args)"
    unfolding cmd_cd_def cmd_add_def cmd_del_def cmd_ls_def cmd_lsval_def
    by (intro consumes_app consumes_intros to)+
  show "consumes (cmd_setval args)"
    unfolding cmd_setval_def
    by (intro consumes_split consumes_sbind consumes_basic consumes_read_pairs consumes_app)
qed

lemma consumes_dispatch: "consumes (dispatch cmd args)"
  unfolding dispatch_def by (intro consumes_app consumes_commands)

lemma rl_gets_Some:
  assumes "rl_gets prompt s = (Ok (Some line), s')"
  shows "length (stdin s') < length (stdin s)"
proof -
  have "stdin s \<noteq> [] \<and> stdin s' = snd (fgets 8192 (stdin s))"
    using assms by (auto simp: rl_gets_def sbind_def put_def Let_def split: if_splits prod.splits)
  then show ?thesis by (simp add: fgets_def Let_def)
qed

lemma main_loop_fuel:
  "length (stdin s) < fuel \<Longrightarrow> main_loop (fuel + k) s = main_loop fuel s"
proof (induction fuel arbitrary: s)
  case (Suc fuel)
  have "main_loop (fuel + k) s' = main_loop fuel s'" if "rl_gets (prompt_string s) s = (Ok (Some line), s')" for line s'
    using rl_gets_Some[OF that] Suc.prems by (intro Suc.IH) simp
  moreover have "main_loop (fuel + k) s'' = main_loop fuel s''"
    if "rl_gets (prompt_string s) s = (Ok (Some line), s')" "dispatch cmd args s' = (Ok r, s'')" for line s' s'' cmd args r
    using rl_gets_Some[OF that(1)] consumesD[OF consumes_dispatch, of cmd args s'] that(2) Suc.prems
    by (intro Suc.IH) simp
  ultimately show ?case
    by (auto intro!: sbind_cong split: option.split)
qed simp

section \<open>The fuel is enough\<close>

lemma fuel_or_minus1: "has_fuel r \<Longrightarrow> has_fuel (or_minus1 r)"
  by (cases r) (simp_all add: or_minus1_def)

lemma fuel_shell_readers [simp]:
  "has_fuel (child_names h cs)" "has_fuel (print_node_path h n)" "has_fuel (cd_walk h root n path)"
  "has_fuel (value_line h v)" "has_fuel (regedit_data h v)"
proof -
  show "has_fuel (child_names h cs)" by (induction cs) (auto intro!: has_fuel_rbind)
  have "has_fuel (node_path k h n)" for k
  proof (induction k arbitrary: n)
    case (Suc k)
    have "has_fuel (case hivex_node_name h n of Ok name \<Rightarrow> Ok (p @ cstr name) | Err e \<Rightarrow> Ok p | Fault z \<Rightarrow> Fault z)" for p
      using has_fuel_readers(1)[of h n] by (auto simp: has_fuel_def split: result.split)
    then show ?case using fuel_lookups(3)[of h n] Suc
      by (cases "hivex_node_parent h n") (auto simp: Let_def intro!: has_fuel_rbind)
  qed simp
  then show "has_fuel (print_node_path h n)" by (simp add: print_node_path_def del: node_path.simps)
  show "has_fuel (cd_walk h root n path)"
  proof (induction path arbitrary: n rule: length_induct)
    case (1 path)
    have I: "has_fuel (cd_walk h root n (tl path))" "has_fuel (cd_walk h root n (drop (Suc k) path))" if "path \<noteq> []" for n k
      using 1 that by simp_all
    show ?case by (subst cd_walk.simps) (auto simp: Let_def intro!: fuel_case I)
  qed
  show "has_fuel (value_line h v)" "has_fuel (regedit_data h v)"
    by (auto simp: value_line_def regedit_data_def intro!: has_fuel_rbind fuel_or_minus1)
qed

lemma fueled_lib [fueled]:
  "(\<And>h. has_fuel (f h)) \<Longrightarrow> (\<And>x. op_has_fuel (ok x)) \<Longrightarrow> (\<And>e. op_has_fuel (err e)) \<Longrightarrow> op_has_fuel (lib f ok err)"
  "op_has_fuel g \<Longrightarrow> (\<And>x. op_has_fuel (ok x)) \<Longrightarrow> (\<And>e. op_has_fuel (err e)) \<Longrightarrow> op_has_fuel (lib_op g ok err)"
  unfolding op_has_fuel_def lib_def lib_op_def has_fuel_def
  by (auto simp: Let_def split: option.split prod.split result.split) (metis fst_conv)+

lemma fueled_at: "(\<And>c. op_has_fuel (m c)) \<Longrightarrow> op_has_fuel (\<lambda>s. m s s)"
  by (simp add: op_has_fuel_def)

lemma fueled_shell [fueled]: "op_has_fuel (put bs)" "op_has_fuel unload" "op_has_fuel set_prompt_string" "op_has_fuel (rl_gets prompt)"
proof -
  show p: "op_has_fuel (put bs)" for bs unfolding put_def by (intro fueled)
  show "op_has_fuel unload" unfolding unload_def by (intro fueled)
  have "has_fuel (fst (set_prompt_string s))" for s
  proof -
    have "print_node_path h n \<noteq> Fault OutOfFuel" for h n using fuel_shell_readers(2)[of h n] by (simp add: has_fuel_def)
    then show ?thesis by (auto simp: set_prompt_string_def split: option.split result.split)
  qed
  then show "op_has_fuel set_prompt_string" by (simp add: op_has_fuel_def)
  show "op_has_fuel (rl_gets prompt)"
    by (auto simp: op_has_fuel_def rl_gets_def sbind_def put_def fgets_def Let_def split: prod.split)
qed

lemma fueled_read_pairs [fueled]: "op_has_fuel (read_pairs n i acc)"
proof (induction n arbitrary: i acc)
  case (Suc n)
  have "op_has_fuel (\<lambda>s. case parse_value (garbage s i) buf of
      None \<Rightarrow> (Ok None, s)
    | Some (t, data) \<Rightarrow> read_pairs n (Suc i) (acc @ [\<lparr>sv_key = k, sv_t = t, sv_value = data\<rparr>]) s)" for buf k
    using Suc by (auto simp: op_has_fuel_def split: option.split)
  then show ?case by (auto intro!: fueled)
qed (simp add: fueled)

lemma fueled_lsval_all [fueled]: "op_has_fuel (lsval_all vs)"
  by (induction vs) (unfold lsval_all.simps, (intro fueled | assumption | simp)+)

lemma fueled_app:
  "op_has_fuel f \<Longrightarrow> op_has_fuel g \<Longrightarrow> op_has_fuel (\<lambda>s. if b s then f s else g s)"
  "op_has_fuel (\<lambda>s. (Ok r, s))" "op_has_fuel (\<lambda>s. (Ok r, s\<lparr>quit := q\<rparr>))"
  "(\<And>s h. has_fuel (k s h)) \<Longrightarrow> (\<And>s x. op_has_fuel (ok s x)) \<Longrightarrow> (\<And>s e. op_has_fuel (err s e)) \<Longrightarrow>
    op_has_fuel (\<lambda>s. lib (k s) (ok s) (err s) s)"
  "(\<And>s. op_has_fuel (k' s)) \<Longrightarrow> (\<And>s x. op_has_fuel (ok s x)) \<Longrightarrow> (\<And>s e. op_has_fuel (err s e)) \<Longrightarrow>
    op_has_fuel (\<lambda>s. lib_op (k' s) (ok s) (err s) s)"
proof -
  show "(\<And>s h. has_fuel (k s h)) \<Longrightarrow> (\<And>s x. op_has_fuel (ok s x)) \<Longrightarrow> (\<And>s e. op_has_fuel (err s e)) \<Longrightarrow>
      op_has_fuel (\<lambda>s. lib (k s) (ok s) (err s) s)"
    by (rule fueled_at) (rule fueled_lib)
  show "(\<And>s. op_has_fuel (k' s)) \<Longrightarrow> (\<And>s x. op_has_fuel (ok s x)) \<Longrightarrow> (\<And>s e. op_has_fuel (err s e)) \<Longrightarrow>
      op_has_fuel (\<lambda>s. lib_op (k' s) (ok s) (err s) s)"
    by (rule fueled_at) (rule fueled_lib)
qed (simp_all add: op_has_fuel_def)

lemma fueled_commands [fueled]:
  "op_has_fuel (cmd_help args)" "op_has_fuel (cmd_load args)" "op_has_fuel (cmd_add args)" "op_has_fuel (cmd_cd args)"
  "op_has_fuel (cmd_close args)" "op_has_fuel (cmd_commit args)" "op_has_fuel (cmd_del args)" "op_has_fuel (cmd_ls args)"
  "op_has_fuel (cmd_lsval args)" "op_has_fuel (cmd_setval args)"
proof -
  show "op_has_fuel (cmd_help args)" "op_has_fuel (cmd_close args)" "op_has_fuel (cmd_commit args)"
    unfolding cmd_help_def cmd_close_def cmd_commit_def by (auto intro!: fueled fueled_commit)
  have pr: "has_fuel (fst (sbind set_prompt_string (\<lambda>_. sret (0 :: int)) s))" for s
    by (intro op_has_fuelD fueled)
  have "op_has_fuel (\<lambda>s. case hivex_open (files s) args (open_flags s) of
      Err e \<Rightarrow> (Ok (- 1), s)
    | Fault z \<Rightarrow> (Fault z, s)
    | Ok h \<Rightarrow>
        sbind set_prompt_string (\<lambda>_. sret (0 :: int))
          (s\<lparr>sh_h := Some h, loaded := Some (basename args), cwd := root_or_0 h\<rparr>))"
    using fuel_open[of _ args] pr by (auto simp: op_has_fuel_def has_fuel_def split: result.split)
  then show "op_has_fuel (cmd_load args)" unfolding cmd_load_def by (intro fueled)
  have to: "op_has_fuel (cd_to n)" for n using pr by (simp add: op_has_fuel_def cd_to_def)
  have par: "has_fuel (case hivex_node_parent h n of Err e \<Rightarrow> Ok (Some 0) | r \<Rightarrow> rbind r (\<lambda>p. Ok (Some p)))" for h n
    using fuel_lookups(3)[of h n] by (cases "hivex_node_parent h n") (simp_all add: has_fuel_def)
  show "op_has_fuel (cmd_add args)" unfolding cmd_add_def by (intro fueled_app fueled fueled_on_hive)
  show "op_has_fuel (cmd_ls args)" unfolding cmd_ls_def by (intro fueled_app fueled has_fuel_rbind) simp_all
  show "op_has_fuel (cmd_cd args)" unfolding cmd_cd_def Let_def by (intro fueled_app fueled to) simp_all
  show "op_has_fuel (cmd_del args)"
    unfolding cmd_del_def by (intro fueled_app fueled fueled_on_hive) (use par in simp_all)
  show "op_has_fuel (cmd_lsval args)"
    unfolding cmd_lsval_def by (intro fueled_app fueled) (auto intro!: has_fuel_rbind)
  show "op_has_fuel (cmd_setval args)"
    unfolding cmd_setval_def by (intro fueled fueled_app fueled_on_hive)
qed

lemma fueled_dispatch: "op_has_fuel (dispatch cmd args)"
  unfolding dispatch_def by (intro fueled_app fueled)

lemma sbind_fuel_at:
  "has_fuel (fst (m s)) \<Longrightarrow> (\<And>x s'. m s = (Ok x, s') \<Longrightarrow> has_fuel (fst (f x s'))) \<Longrightarrow> has_fuel (fst (sbind m f s))"
  by (auto simp: sbind_def has_fuel_def split: prod.split result.split)

lemma main_loop_enough: "length (stdin s) < fuel \<Longrightarrow> has_fuel (fst (main_loop fuel s))"
proof (induction fuel arbitrary: s)
  case (Suc fuel)
  have line: "has_fuel (fst (main_loop fuel s'))" if "rl_gets (prompt_string s) s = (Ok (Some line), s')" for line s'
    using rl_gets_Some[OF that] Suc.prems by (intro Suc.IH) simp
  have cmd: "has_fuel (fst (sbind (dispatch cmd args) (\<lambda>r s. if \<not> is_tty s \<and> r = - 1 then (Ok 1, s) else main_loop fuel s) s'))"
    if "rl_gets (prompt_string s) s = (Ok (Some line), s')" for line s' cmd args
  proof (rule sbind_fuel_at)
    show "has_fuel (fst (dispatch cmd args s'))" by (intro op_has_fuelD fueled_dispatch)
    show "has_fuel (fst (if \<not> is_tty s'' \<and> r = - 1 then (Ok 1, s'') else main_loop fuel s''))"
      if "dispatch cmd args s' = (Ok r, s'')" for r s''
      using rl_gets_Some[OF \<open>rl_gets (prompt_string s) s = (Ok (Some line), s')\<close>]
        consumesD[OF consumes_dispatch, of cmd args s'] that Suc.prems Suc.IH[of s''] by simp
  qed
  have stop: "has_fuel (fst (sbind (put [10]) (\<lambda>_. sret (0 :: int)) s''))" for s''
    by (intro op_has_fuelD fueled)
  show ?case unfolding main_loop.simps
  proof (cases "quit s")
    case False
    have "has_fuel (fst (sbind (rl_gets (prompt_string s)) (\<lambda>buf.
        case buf of
          None \<Rightarrow> (\<lambda>s. sbind (if is_tty s then put [10] else sret ()) (\<lambda>_. sret 0) (s\<lparr>quit := True\<rparr>))
        | Some line \<Rightarrow>
            (case split_line line of
               None \<Rightarrow> main_loop fuel
             | Some (cmd, args) \<Rightarrow>
                 sbind (dispatch cmd args) (\<lambda>r s.
                 if \<not> is_tty s \<and> r = - 1 then (Ok 1, s) else main_loop fuel s))) s))"
      by (rule sbind_fuel_at)
        (use op_has_fuelD[OF fueled_shell(4)] line cmd stop in \<open>auto split: option.split\<close>)
    then show "has_fuel (fst (if quit s then (Ok 0, s) else sbind (rl_gets (prompt_string s)) (\<lambda>buf.
        case buf of
          None \<Rightarrow> (\<lambda>s. sbind (if is_tty s then put [10] else sret ()) (\<lambda>_. sret 0) (s\<lparr>quit := True\<rparr>))
        | Some line \<Rightarrow>
            (case split_line line of
               None \<Rightarrow> main_loop fuel
             | Some (cmd, args) \<Rightarrow>
                 sbind (dispatch cmd args) (\<lambda>r s.
                 if \<not> is_tty s \<and> r = - 1 then (Ok 1, s) else main_loop fuel s))) s))" using False by simp
  qed simp
qed simp

lemma main_fuel: "has_fuel (fst (Shell.main posixly_correct terminal (prog # args) s))"
proof -
  have run: "op_has_fuel run_shell"
  proof -
    have "op_has_fuel (\<lambda>s. main_loop (Suc (length (stdin s))) s)" using main_loop_enough by (simp add: op_has_fuel_def del: main_loop.simps)
    moreover have "op_has_fuel (\<lambda>s. if is_tty s then put welcome_text s else (Ok (), s))" by (simp add: op_has_fuel_def put_def)
    ultimately show ?thesis unfolding run_shell_def by (rule op_has_fuel_sbind[rotated])
  qed
  have scr: "op_has_fuel (open_script terminal script)" for script
    by (simp add: op_has_fuel_def open_script_def split: option.split)
  have rest: "op_has_fuel (if b then sret 1 else sbind (if c then cmd_load f else sret 0) (\<lambda>r.
      if r = - 1 then sret 1 else sbind (open_script terminal script) (\<lambda>ok. if ok then run_shell else sret 1)))" for b c f script
    by (intro fueled run scr)
  have pl: "plain (letters (ascii ''df:w''))" by (simp add: plain_def letters_def ascii_def)
  have g: "\<exists>r argv d. getopt_loop posixly_correct (ascii ''df:w'') sh_option a (prog # args) = Some (r, argv, d)" for a
    using getopt_parses[OF list.distinct(2)[of prog args] pl surjective_pairing, of posixly_correct sh_option a] by blast
  show ?thesis unfolding main_def
  proof (rule sbind_fuel_at)
    show "has_fuel (fst (set_prompt_string s))" by (intro op_has_fuelD fueled)
    show "has_fuel (fst (case getopt_loop posixly_correct (ascii ''df:w'') sh_option (open_flags s', None) (prog # args) of
       None \<Rightarrow> (Fault OutOfFuel, s')
     | Some (None, argv, d) \<Rightarrow> (Ok 1, s')
     | Some (Some (flags, script), argv, d) \<Rightarrow>
         (if optind d < length argv \<and> optind d + 1 \<noteq> length argv then sret 1
          else
            sbind (if optind d < length argv then cmd_load (argv ! optind d) else sret 0) (\<lambda>r.
            if r = - 1 then sret 1
            else
              sbind (open_script terminal script) (\<lambda>ok.
              if ok then run_shell else sret 1))) (s'\<lparr>open_flags := flags\<rparr>)))" for s'
    proof -
      obtain r argv d where "getopt_loop posixly_correct (ascii ''df:w'') sh_option (open_flags s', None) (prog # args) = Some (r, argv, d)"
        using g by blast
      then show ?thesis using op_has_fuelD[OF rest] by (simp split: option.split prod.split)
    qed
  qed
qed

text \<open>The chain of parents.\<close>

primrec climbs :: "hive \<Rightarrow> nat \<Rightarrow> hive_node_h \<Rightarrow> bool" where
  "climbs h 0 n \<longleftrightarrow> True"
| "climbs h (Suc k) n \<longleftrightarrow>
     n \<noteq> root_or_0 h \<and> (case hivex_node_parent h n of Ok p \<Rightarrow> climbs h k p | _ \<Rightarrow> False)"

text \<open>From \<open>n\<close> on every node has a parent and none is the root.\<close>

definition endless :: "hive \<Rightarrow> hive_node_h \<Rightarrow> bool" where
  "endless h n \<longleftrightarrow> (\<forall>k. climbs h k n)"

lemma node_path_overflow: "node_path k h n = Fault StackOverflow \<longleftrightarrow> climbs h k n"
proof (induction k arbitrary: n)
  case (Suc k)
  have "hivex_node_parent h n \<noteq> Fault StackOverflow" "hivex_node_name h n \<noteq> Fault StackOverflow"
    by (auto simp: hivex_node_parent_def hivex_node_name_def check_block_def BLOCK_ID_EQ_def block_len_def guard_def Let_def
        rd16_def rd32_def rd_bytes_def rbind_Fault split: if_splits)
  then show ?case using Suc
    by (cases "hivex_node_parent h n"; cases "hivex_node_name h n") (auto simp: Let_def rbind_Fault)
qed simp

definition up :: "hive \<Rightarrow> hive_node_h \<Rightarrow> hive_node_h" where
  "up h n = (case hivex_node_parent h n of Ok p \<Rightarrow> p | _ \<Rightarrow> 0)"

lemma climbs_iff: "climbs h k n \<longleftrightarrow> (\<forall>i < k. (up h ^^ i) n \<noteq> root_or_0 h \<and> (\<exists>p. hivex_node_parent h ((up h ^^ i) n) = Ok p))"
proof (induction k arbitrary: n)
  case (Suc k)
  have "climbs h (Suc k) n \<longleftrightarrow> n \<noteq> root_or_0 h \<and> (\<exists>p. hivex_node_parent h n = Ok p) \<and> climbs h k (up h n)"
    by (simp add: up_def split: result.split)
  then show ?case using Suc[of "up h n"] by (auto simp: less_Suc_eq_0_disj funpow_swap1)
qed simp

lemma overflow_iff:
  assumes h: "hive_ok h"
  shows "print_node_path h n = Fault StackOverflow \<longleftrightarrow> endless h n"
proof
  let ?m = "bitmap_slots (bitmap h)" and ?f = "\<lambda>i. (up h ^^ i) n"
  assume "print_node_path h n = Fault StackOverflow"
  then have c: "climbs h (Suc ?m) n" by (simp add: print_node_path_def node_path_overflow del: node_path.simps climbs.simps)
  have v: "IS_VALID_BLOCK h (?f i)" if "i < Suc ?m" for i
    using c that unfolding climbs_iff by (fastforce simp: hivex_node_parent_def)
  have "\<not> distinct (map ?f [0..<Suc ?m])"
    using valid_count[OF h, of "map ?f [0..<Suc ?m]"] v by force
  then obtain i j where ij: "i < j" "j < Suc ?m" "?f i = ?f j"
    unfolding distinct_conv_nth by (auto simp del: upt_Suc) (metis linorder_neqE_nat)
  have "?f (i + (j - i)) = ?f i" using ij by simp
  then have p: "(up h ^^ (j - i)) (?f i) = ?f i" by (simp add: funpow_add add.commute[of i])
  have "\<exists>x < Suc ?m. ?f k = ?f x" for k
  proof (cases "k < i")
    case True
    then show ?thesis using ij by (intro exI[of _ k]) simp
  next
    case False
    have "?f k = (up h ^^ (k - i)) (?f i)" using False by (simp add: funpow_add[symmetric, unfolded comp_def, THEN fun_cong])
    also have "\<dots> = (up h ^^ ((k - i) mod (j - i))) (?f i)" using funpow_mod_eq[OF p] by simp
    also have "\<dots> = ?f ((k - i) mod (j - i) + i)" by (simp add: funpow_add)
    finally have e: "?f k = ?f ((k - i) mod (j - i) + i)" .
    have "(k - i) mod (j - i) < j - i" using ij(1) by simp
    then have "(k - i) mod (j - i) + i < Suc ?m" using ij(1,2) by linarith
    with e show ?thesis by blast
  qed
  then have again: "\<exists>x < Suc ?m. ?f k = ?f x" for k .
  show "endless h n"
    unfolding endless_def climbs_iff
  proof (intro allI impI)
    fix k
    obtain x where "x < Suc ?m" "?f k = ?f x" using again by blast
    then show "?f k \<noteq> root_or_0 h \<and> (\<exists>p. hivex_node_parent h (?f k) = Ok p)" using c[unfolded climbs_iff] by simp
  qed
qed (simp add: endless_def print_node_path_def node_path_overflow del: node_path.simps climbs.simps)

lemma u32_range: "0 \<le> sint t \<longleftrightarrow> unat t < 2 ^ 31" "sint t \<le> 0xffffffff"
  "- (2 ^ 31) \<le> sint t"  for t :: u32
proof -
  show "sint t \<le> 0xffffffff" "- (2 ^ 31) \<le> sint t"
    using sint_greater_eq[of t] sint_less[of t] by simp_all
  have u: "0 \<le> uint t" "uint t < 2 ^ 32" using uint_bounded[of t] by simp_all
  have "bit t 31 \<longleftrightarrow> odd (uint t div 2 ^ 31)" using bit_uint_iff[of t 31] by (simp add: bit_iff_odd)
  also have "\<dots> \<longleftrightarrow> 2 ^ 31 \<le> uint t"
  proof (cases "2 ^ 31 \<le> uint t")
    case True
    have "uint t div 2 ^ 31 = 1" by (rule int_div_pos_eq[of _ _ _ "uint t - 2 ^ 31"]) (use u True in simp_all)
    then show ?thesis using True by simp
  qed (use u in simp)
  finally have b: "bit t 31 \<longleftrightarrow> 2 ^ 31 \<le> uint t" .
  have "0 \<le> sint t \<longleftrightarrow> \<not> bit t 31" by (simp add: sint_uint bit_uint_iff)
  then show "0 \<le> sint t \<longleftrightarrow> unat t < 2 ^ 31" using b by (simp add: nat_less_iff not_le flip: nat_uint_eq)
qed

lemma value_type_of_value:
  "hivex_value_value h v = Ok (t, len, data) \<Longrightarrow> \<exists>n. hivex_value_type h v = Ok (t, n)"
  by (auto simp: hivex_value_value_def hivex_value_type_def Let_def split: if_splits)

text \<open>\<^verbatim>\<open>ls\<close>: sorting.\<close>

lemma mset_insort_name: "mset (insort_name x xs) = add_mset x (mset xs)"
  by (induction xs) auto

lemma strcasecmp_trans_le: "strcasecmp a b \<le> 0 \<Longrightarrow> strcasecmp b c \<le> 0 \<Longrightarrow> strcasecmp a c \<le> 0"
  using strcasecmp_trans[of b c a] strcasecmp_antisym[of c a] strcasecmp_antisym[of b a] by linarith

lemma insort_name_sorted:
  "sorted_wrt (\<lambda>a b. strcasecmp a b \<le> 0) xs \<Longrightarrow> sorted_wrt (\<lambda>a b. strcasecmp a b \<le> 0) (insort_name x xs)"
proof (induction xs)
  case (Cons y ys)
  have s: "set (insort_name x ys) = insert x (set ys)"
    using mset_insort_name[of x ys] by (metis set_mset_add_mset_insert set_mset_mset)
  show ?case
  proof (cases "strcasecmp x y \<le> 0")
    case True
    then show ?thesis using Cons.prems strcasecmp_trans_le by auto
  next
    case False
    then have "strcasecmp y x \<le> 0" using strcasecmp_antisym[of x y] by simp
    then show ?thesis using False Cons s by simp
  qed
qed simp

lemma sort_strings_sorts:
  "mset (sort_strings names) = mset names \<and> sorted_wrt (\<lambda>a b. strcasecmp a b \<le> 0) (sort_strings names)"
  unfolding sort_strings_def
  by (induction names) (auto simp: mset_insort_name insort_name_sorted)

section \<open>Properties\<close>

text \<open>
  C32: the path that \<^verbatim>\<open>cd\<close> prints for a node leads back to it, on a well-formed handle, if every node on the
  way down from the root (\<open>ss\<close> are their names) is the one its parent finds under its name, and no name is
  empty, \<^verbatim>\<open>.\<close> or \<^verbatim>\<open>..\<close> or has a backslash in it: the printed path is those names with backslashes, and \<^verbatim>\<open>cd\<close>
  with that path succeeds from every node and makes it the current one, with the prompt to match.
\<close>

theorem cd_path_returns:
  assumes "hive_ok h" and "sh_h s = Some h" and "loaded s = Some f" and "at_path h ss n"
  shows "print_node_path h n = Ok (path_string ss) \<and>
    cmd_cd (path_string ss) s =
      (Ok 0, if cwd s = n then s else s\<lparr>cwd := n, prompt_string := f @ path_string ss @ ascii ''> ''\<rparr>)"
  using print_node_path_at[OF assms(1,4)] cmd_cd_at[OF assms] by simp

text \<open>
  C33: what \<^verbatim>\<open>lsval\<close> prints after the key for a value whose type is not a string or a double word is
  \<^verbatim>\<open>hex(T):\<close> and the bytes in hexadecimal. \<^verbatim>\<open>setval\<close> refuses it as it stands; with the prefix it expects,
  \<^verbatim>\<open>hex:T:\<close>, in its place, the line is read back as the same type and the same bytes if the type is below
  \<open>2\<^sup>3\<^sup>1\<close>, and refused otherwise, since such a type is printed as a negative number.
\<close>

theorem hex_round_trip:
  assumes "hivex_value_value h v = Ok (t, len, data)"
    and "t \<notin> {hive_t_string, hive_t_expand_string, hive_t_link, hive_t_dword, hive_t_dword_be}"
  shows "\<exists>line. regedit_data h v = Ok (ascii ''hex('' @ fmt_d (sint t) @ ascii ''):'' @ line) \<and>
    parse_value g (ascii ''hex('' @ fmt_d (sint t) @ ascii ''):'' @ line) = None \<and>
    parse_value g (ascii ''hex:'' @ fmt_d (sint t) @ ascii '':'' @ line) = (if unat t < 2 ^ 31 then Some (t, data) else None)"
proof -
  have "regedit_data h v = Ok (ascii ''hex('' @ fmt_d (sint t) @ ascii ''):'' @ hex_list data)"
    using value_type_of_value[OF assms(1)] assms(1,2) by (auto simp: regedit_data_def)
  moreover have "parse_value g (ascii ''hex('' @ x) = None" for x
    by (simp add: parse_value_def STRPREFIX_def ascii_def)
  moreover have "parse_hex (fmt_d (sint t) @ [0x3a] @ hex_list data) = (if unat t < 2 ^ 31 then Some (t, data) else None)"
    using parse_hex_line[of "sint t" data] u32_range[of t] by (simp add: LONG_MIN_def not_less flip: not_le)
  moreover have "ascii '':'' = [0x3a]" by (simp add: ascii_def)
  ultimately show ?thesis unfolding parse_value_hex by simp
qed

text \<open>
  C38: the shell ends on every input. No round of the main loop puts back any of the line it took, so
  the rounds the model allows (one more than there are characters) are never used up and more would change
  nothing; nor is the fuel of any operation of the library a command calls, on any image. So from its arguments
  on the program runs to an exit status, an error, or a fault that ends it. The one recursion that need
  not end is \<^verbatim>\<open>print_node_path\<close>: on a well-formed handle it overflows the stack exactly for the nodes from
  which the parents never lead to the root or to an error.
\<close>

theorem main_loop_ends:
  assumes "hive_ok h"
  shows "fst (Shell.main posixly_correct terminal (prog # args) s) \<noteq> Fault OutOfFuel \<and>
    fst (main_loop (Suc (length (stdin s))) s) \<noteq> Fault OutOfFuel \<and>
    main_loop (Suc (length (stdin s)) + k) s = main_loop (Suc (length (stdin s))) s \<and>
    (print_node_path h n = Fault StackOverflow \<longleftrightarrow> endless h n)"
  using main_fuel main_loop_enough[of s] main_loop_fuel[of s "Suc (length (stdin s))" k] overflow_iff[OF assms]
  by (simp add: has_fuel_def del: main_loop.simps)

text \<open>
  C37: \<^verbatim>\<open>ls\<close> prints the names of the children, each on a line of its own, in an order that is sorted
  without regard to case, and fails when they cannot be read.
\<close>

theorem ls_sorted:
  assumes "sh_h s = Some h"
  shows "case rbind (hivex_node_children h (cwd s)) (child_names h) of
      Ok names \<Rightarrow> \<exists>sorted. mset sorted = mset names \<and> sorted_wrt (\<lambda>a b. strcasecmp a b \<le> 0) sorted \<and>
        cmd_ls [] s = (Ok 0, s\<lparr>stdout := stdout s @ concat (map (\<lambda>n. n @ [10]) sorted)\<rparr>)
    | Err e \<Rightarrow> cmd_ls [] s = (Ok (- 1), s)
    | Fault z \<Rightarrow> cmd_ls [] s = (Fault z, s)"
proof (cases "rbind (hivex_node_children h (cwd s)) (child_names h)")
  case (Ok names)
  have "cmd_ls [] s = (Ok 0, s\<lparr>stdout := stdout s @ concat (map (\<lambda>n. n @ [10]) (sort_strings names))\<rparr>)"
    using Ok assms by (simp add: cmd_ls_def lib_def put_def del: rbind_Ok)
  then show ?thesis using sort_strings_sorts[of names] Ok by auto
qed (use assms in \<open>simp_all add: cmd_ls_def lib_def\<close>)

end
