(* ===== verification/Xml.thy ===== *)
theory Xml
  imports Visit Open Numbers Getopt
begin

text \<open>
  The converter of \<^verbatim>\<open>xml/hivexml.c\<close>. The text writer of libxml2 is a parameter: a function that says,
  from the calls made so far, whether the next one is accepted (returns something else than \<^verbatim>\<open>-1\<close>).
  What the program does is the sequence of its calls. \<^verbatim>\<open>XML_CHECK\<close> ends the process when a call is
  refused. \<^verbatim>\<open>gmtime\<close> and \<^verbatim>\<open>strftime\<close> are those of the C library, the former by the usual division of
  the Gregorian calendar into cycles of 400, 100, 4 and 1 years.

  The theorems: time stamps are converted to the right calendar date and always fit the buffer,
  and a run that ends normally has made a well-formed sequence of calls to the writer.
\<close>

section \<open>Time stamps\<close>

record tm =
  tm_year :: int
  tm_mon :: nat
  tm_mday :: nat
  tm_hour :: nat
  tm_min :: nat
  tm_sec :: nat

definition month_lengths :: "bool \<Rightarrow> nat list" where
  "month_lengths leap = [31, if leap then 29 else 28, 31, 30, 31, 30, 31, 31, 30, 31, 30, 31]"

text \<open>The month and the day, both from 0, of a day of the year.\<close>

fun month_of :: "nat list \<Rightarrow> nat \<Rightarrow> nat \<times> nat" where
  "month_of [] d = (0, d)"
| "month_of (l # ls) d = (if d < l then (0, d) else let (m, d') = month_of ls (d - l) in (Suc m, d'))"

text \<open>The year and the day of the year of a number of days since 1601-01-01.\<close>

definition year_of :: "int \<Rightarrow> int \<times> bool \<times> nat" where
  "year_of n =
     (let q = n div 146097; r = n mod 146097;
          c = min 3 (r div 36524); r = r - 36524 * c;
          f = r div 1461; r = r mod 1461;
          g = min 3 (r div 365); d = r - 365 * g
      in (1601 + 400 * q + 100 * c + 4 * f + g, g = 3 \<and> (f \<noteq> 24 \<or> c = 3), nat d))"

definition gmtime :: "int \<Rightarrow> tm option" where
  "gmtime t =
     (let n = t div 86400 + 134774; s = nat (t mod 86400);
          (y, leap, d) = year_of n; (m, d) = month_of (month_lengths leap) d
      in if y - 1900 < - (2 ^ 31) \<or> 2 ^ 31 \<le> y - 1900 then None
         else Some \<lparr>tm_year = y, tm_mon = m + 1, tm_mday = d + 1, tm_hour = s div 3600,
                    tm_min = s mod 3600 div 60, tm_sec = s mod 60\<rparr>)"

definition fmt_02d :: "nat \<Rightarrow> byte list" where
  "fmt_02d n = pad0 2 (digits 10 n)"

text \<open>\<^verbatim>\<open>%FT%TZ\<close>\<close>

definition strftime_8601 :: "tm \<Rightarrow> byte list" where
  "strftime_8601 tm =
     fmt_d (tm_year tm) @ ascii ''-'' @ fmt_02d (tm_mon tm) @ ascii ''-'' @ fmt_02d (tm_mday tm) @ ascii ''T'' @
     fmt_02d (tm_hour tm) @ ascii '':'' @ fmt_02d (tm_min tm) @ ascii '':'' @ fmt_02d (tm_sec tm) @ ascii ''Z''"

definition WINDOWS_TICK :: int where "WINDOWS_TICK = 10000000"
definition SEC_TO_UNIX_EPOCH :: int where "SEC_TO_UNIX_EPOCH = 11644473600"
definition TIMESTAMP_BUF_LEN :: nat where "TIMESTAMP_BUF_LEN = 32"

text \<open>Division of \<^verbatim>\<open>int64_t\<close> rounds towards zero.\<close>

definition c_div :: "int \<Rightarrow> int \<Rightarrow> int" where
  "c_div a b = (if 0 \<le> a then a div b else - (- a div b))"

definition filetime_to_8601 :: "int \<Rightarrow> byte list option result" where
  "filetime_to_8601 windows_ticks =
     (if windows_ticks = 0 then Ok None
      else
        (case gmtime (c_div windows_ticks WINDOWS_TICK - SEC_TO_UNIX_EPOCH) of
           None \<Rightarrow> Ok None
         | Some tm \<Rightarrow>
             if TIMESTAMP_BUF_LEN \<le> length (strftime_8601 tm) then Fault ExitFailure
             else Ok (Some (strftime_8601 tm))))"

section \<open>The callbacks\<close>

datatype xml_call =
    StartDocument "byte list"
  | EndDocument
  | StartElement "byte list"
  | EndElement
  | WriteAttribute "byte list" "byte list"
  | StartAttribute "byte list"
  | EndAttribute
  | WriteString "byte list"
  | WriteBase64 "byte list option"

type_synonym writer = "xml_call list \<Rightarrow> xml_call \<Rightarrow> bool"
type_synonym xml_op = "(xml_call list vstate, unit) op"

definition hive_t_resource_list :: u32 where "hive_t_resource_list = 8"
definition hive_t_full_resource_description :: u32 where "hive_t_full_resource_description = 9"
definition hive_t_resource_requirements_list :: u32 where "hive_t_resource_requirements_list = 10"

definition XML_CHECK :: "writer \<Rightarrow> xml_call \<Rightarrow> xml_op" where
  "XML_CHECK w c = (\<lambda>(h, calls). (if w calls c then Ok () else Fault ExitFailure, (h, calls @ [c])))"

definition xml_calls :: "writer \<Rightarrow> xml_call list \<Rightarrow> xml_op" where
  "xml_calls w cs = sfor (XML_CHECK w) cs"

text \<open>The element \<^verbatim>\<open>mtime\<close>, when there is a time stamp.\<close>

definition write_mtime :: "writer \<Rightarrow> int result \<Rightarrow> xml_op" where
  "write_mtime w mtime =
     (case mtime of
        Err e \<Rightarrow> sret ()
      | Fault z \<Rightarrow> sfault z
      | Ok t \<Rightarrow>
          sbind (sget (\<lambda>_. filetime_to_8601 t)) (\<lambda>timebuf.
          case timebuf of
            None \<Rightarrow> sret ()
          | Some timebuf \<Rightarrow> xml_calls w [StartElement (ascii ''mtime''), WriteString timebuf, EndElement]))"

definition xml_node_start :: "writer \<Rightarrow> hive_node_h \<Rightarrow> byte list \<Rightarrow> xml_op" where
  "xml_node_start w node name =
     sbind (xml_calls w [StartElement (ascii ''node''), WriteAttribute (ascii ''name'') (cstr name)]) (\<lambda>_ (h, calls).
     sbind (if hivex_root h = Ok node then XML_CHECK w (WriteAttribute (ascii ''root'') (ascii ''1'')) else sret ()) (\<lambda>_.
     write_mtime w (hivex_node_timestamp h node)) (h, calls))"

definition xml_node_end :: "writer \<Rightarrow> hive_node_h \<Rightarrow> byte list \<Rightarrow> xml_op" where
  "xml_node_end w node name = XML_CHECK w EndElement"

definition start_value :: "byte list \<Rightarrow> byte list \<Rightarrow> byte list option \<Rightarrow> xml_call list" where
  "start_value key type encoding =
     [StartElement (ascii ''value''), WriteAttribute (ascii ''type'') type] @
     (case encoding of None \<Rightarrow> [] | Some e \<Rightarrow> [WriteAttribute (ascii ''encoding'') e]) @
     (if cstr key \<noteq> [] then [WriteAttribute (ascii ''key'') (cstr key)]
      else [WriteAttribute (ascii ''default'') (ascii ''1'')])"

definition end_value :: "xml_call list" where
  "end_value = [EndElement]"

definition value_attr :: "xml_call \<Rightarrow> xml_call list" where
  "value_attr c = [StartAttribute (ascii ''value''), c, EndAttribute]"

definition xml_value_string ::
  "writer \<Rightarrow> hive_node_h \<Rightarrow> hive_value_h \<Rightarrow> u32 \<Rightarrow> nat \<Rightarrow> byte list \<Rightarrow> byte list \<Rightarrow> xml_op" where
  "xml_value_string w node value t len key str =
     (let go = (\<lambda>type. xml_calls w
          (start_value key type None @ value_attr (WriteString (cstr str)) @ end_value)) in
      if t = hive_t_string then go (ascii ''string'')
      else if t = hive_t_expand_string then go (ascii ''expand'')
      else if t = hive_t_link then go (ascii ''link'')
      else if t \<in> {hive_t_none, hive_t_binary, hive_t_dword, hive_t_dword_be, hive_t_multiple_strings,
        hive_t_resource_list, hive_t_full_resource_description, hive_t_resource_requirements_list, hive_t_qword}
      then sfault AssertFailed
      else go (ascii ''unknown''))"

definition xml_value_multiple_strings ::
  "writer \<Rightarrow> hive_node_h \<Rightarrow> hive_value_h \<Rightarrow> u32 \<Rightarrow> nat \<Rightarrow> byte list \<Rightarrow> byte list list \<Rightarrow> xml_op" where
  "xml_value_multiple_strings w node value t len key argv =
     xml_calls w
       (start_value key (ascii ''string-list'') None @
        concat (map (\<lambda>str. [StartElement (ascii ''string''), WriteString (cstr str), EndElement]) argv) @
        end_value)"

text \<open>The data a callback passes on: \<^verbatim>\<open>len\<close> bytes of the buffer it was given, or \<^verbatim>\<open>NULL\<close>.\<close>

definition base64_attr :: "writer \<Rightarrow> byte list option \<Rightarrow> nat \<Rightarrow> xml_op" where
  "base64_attr w data len =
     sbind (XML_CHECK w (StartAttribute (ascii ''value''))) (\<lambda>_.
     sbind (case data of
              None \<Rightarrow> XML_CHECK w (WriteBase64 None)
            | Some v \<Rightarrow>
                if length v < len then sfault (OutOfBounds len) else XML_CHECK w (WriteBase64 (Some (take len v)))) (\<lambda>_.
     XML_CHECK w EndAttribute))"

definition base64_value :: "writer \<Rightarrow> byte list \<Rightarrow> byte list \<Rightarrow> byte list option \<Rightarrow> nat \<Rightarrow> bool \<Rightarrow> xml_op" where
  "base64_value w key type data len write =
     sbind (xml_calls w (start_value key type (Some (ascii ''base64'')))) (\<lambda>_.
     sbind (if write then base64_attr w data len else sret ()) (\<lambda>_.
     xml_calls w end_value))"

definition xml_value_string_invalid_utf16 ::
  "writer \<Rightarrow> hive_node_h \<Rightarrow> hive_value_h \<Rightarrow> u32 \<Rightarrow> nat \<Rightarrow> byte list \<Rightarrow> byte list option \<Rightarrow> xml_op" where
  "xml_value_string_invalid_utf16 w node value t len key str =
     (let go = (\<lambda>type. base64_value w key type str len True) in
      if t = hive_t_string then go (ascii ''bad-string'')
      else if t = hive_t_expand_string then go (ascii ''bad-expand'')
      else if t = hive_t_link then go (ascii ''bad-link'')
      else if t = hive_t_multiple_strings then go (ascii ''bad-string-list'')
      else if t \<in> {hive_t_none, hive_t_binary, hive_t_dword, hive_t_dword_be,
        hive_t_resource_list, hive_t_full_resource_description, hive_t_resource_requirements_list, hive_t_qword}
      then sfault AssertFailed
      else go (ascii ''unknown''))"

definition xml_value_dword ::
  "writer \<Rightarrow> hive_node_h \<Rightarrow> hive_value_h \<Rightarrow> u32 \<Rightarrow> nat \<Rightarrow> byte list \<Rightarrow> u32 \<Rightarrow> xml_op" where
  "xml_value_dword w node value t len key v =
     xml_calls w
       (start_value key (ascii ''int32'') None @ [WriteAttribute (ascii ''value'') (fmt_d (sint v))] @ end_value)"

definition xml_value_qword ::
  "writer \<Rightarrow> hive_node_h \<Rightarrow> hive_value_h \<Rightarrow> u32 \<Rightarrow> nat \<Rightarrow> byte list \<Rightarrow> u64 \<Rightarrow> xml_op" where
  "xml_value_qword w node value t len key v =
     xml_calls w
       (start_value key (ascii ''int64'') None @ [WriteAttribute (ascii ''value'') (fmt_d (sint v))] @ end_value)"

definition xml_value_binary ::
  "writer \<Rightarrow> hive_node_h \<Rightarrow> hive_value_h \<Rightarrow> u32 \<Rightarrow> nat \<Rightarrow> byte list \<Rightarrow> byte list \<Rightarrow> xml_op" where
  "xml_value_binary w node value t len key v = base64_value w key (ascii ''binary'') (Some v) len True"

definition xml_value_none ::
  "writer \<Rightarrow> hive_node_h \<Rightarrow> hive_value_h \<Rightarrow> u32 \<Rightarrow> nat \<Rightarrow> byte list \<Rightarrow> byte list \<Rightarrow> xml_op" where
  "xml_value_none w node value t len key v = base64_value w key (ascii ''none'') (Some v) len (0 < len)"

definition xml_value_other ::
  "writer \<Rightarrow> hive_node_h \<Rightarrow> hive_value_h \<Rightarrow> u32 \<Rightarrow> nat \<Rightarrow> byte list \<Rightarrow> byte list \<Rightarrow> xml_op" where
  "xml_value_other w node value t len key v =
     (let go = (\<lambda>type. base64_value w key type (Some v) len (0 < len)) in
      if t \<in> {hive_t_none, hive_t_binary, hive_t_dword, hive_t_dword_be, hive_t_qword, hive_t_string,
        hive_t_expand_string, hive_t_link, hive_t_multiple_strings}
      then sfault AssertFailed
      else if t = hive_t_resource_list then go (ascii ''resource-list'')
      else if t = hive_t_full_resource_description then go (ascii ''resource-description'')
      else if t = hive_t_resource_requirements_list then go (ascii ''resource-requirements'')
      else go (ascii ''unknown''))"

definition xml_visitor :: "writer \<Rightarrow> xml_call list hivex_visitor" where
  "xml_visitor w =
     \<lparr>node_start = Some (xml_node_start w), node_end = Some (xml_node_end w),
      value_string = Some (xml_value_string w), value_multiple_strings = Some (xml_value_multiple_strings w),
      value_string_invalid_utf16 = Some (xml_value_string_invalid_utf16 w),
      value_dword = Some (xml_value_dword w), value_qword = Some (xml_value_qword w),
      value_binary = Some (xml_value_binary w), value_none = Some (xml_value_none w),
      value_other = Some (xml_value_other w), value_any = None\<rparr>"

text \<open>\<^verbatim>\<open>main\<close> after the options were read: the calls it makes, in order.\<close>

definition hivexml :: "writer \<Rightarrow> fs \<Rightarrow> byte list \<Rightarrow> u32 \<Rightarrow> u32 \<Rightarrow> unit result \<times> xml_call list" where
  "hivexml w fs fname open_flags visit_flags =
     (case hivex_open fs fname open_flags of
        Err e \<Rightarrow> (Fault ExitFailure, [])
      | Fault z \<Rightarrow> (Fault z, [])
      | Ok h \<Rightarrow>
          (case sbind (xml_calls w [StartDocument (ascii ''utf-8''), StartElement (ascii ''hive'')]) (\<lambda>_ (h, calls).
                sbind (write_mtime w (hivex_last_modified h)) (\<lambda>_ st.
                case hivex_visit (xml_visitor w) visit_flags st of
                  (Ok u, st) \<Rightarrow> xml_calls w [EndElement, EndDocument] st
                | (Err e, st) \<Rightarrow> (Fault ExitFailure, st)
                | (Fault z, st) \<Rightarrow> (Fault z, st)) (h, calls)) (h, []) of
             (r, (h, calls)) \<Rightarrow> (r, calls)))"

definition xml_option :: "u32 \<times> u32 \<Rightarrow> int \<Rightarrow> byte list option \<Rightarrow> (u32 \<times> u32) option" where
  "xml_option = (\<lambda>(open_flags, visit_flags) c arg.
     if c = 0x64 then Some (open_flags OR HIVEX_OPEN_DEBUG, visit_flags)
     else if c = 0x6b then Some (open_flags, visit_flags OR HIVEX_VISIT_SKIP_BAD)
     else None)"

definition hivexml_main :: "bool \<Rightarrow> writer \<Rightarrow> fs \<Rightarrow> byte list list \<Rightarrow> unit result \<times> xml_call list" where
  "hivexml_main posixly_correct w fs argv =
     (case getopt_loop posixly_correct (ascii ''dk'') xml_option (0, 0) argv of
        None \<Rightarrow> (Fault OutOfFuel, [])
      | Some (None, argv, d) \<Rightarrow> (Fault ExitFailure, [])
      | Some (Some (open_flags, visit_flags), argv, d) \<Rightarrow>
          if optind d + 1 \<noteq> length argv then (Fault ExitFailure, [])
          else hivexml w fs (argv ! optind d) open_flags visit_flags)"

section \<open>The calendar\<close>

definition leap_year :: "int \<Rightarrow> bool" where
  "leap_year y \<longleftrightarrow> y mod 4 = 0 \<and> (y mod 100 \<noteq> 0 \<or> y mod 400 = 0)"

text \<open>The days from 1601-01-01 to the first day of a year.\<close>

definition days_to_year :: "int \<Rightarrow> int" where
  "days_to_year y = 365 * (y - 1601) + (y - 1601) div 4 - (y - 1601) div 100 + (y - 1601) div 400"

definition tm_valid :: "tm \<Rightarrow> bool" where
  "tm_valid tm \<longleftrightarrow>
     1 \<le> tm_mon tm \<and> tm_mon tm \<le> 12 \<and> 1 \<le> tm_mday tm \<and>
     tm_mday tm \<le> month_lengths (leap_year (tm_year tm)) ! (tm_mon tm - 1) \<and>
     tm_hour tm < 24 \<and> tm_min tm < 60 \<and> tm_sec tm < 60"

definition days_of :: "tm \<Rightarrow> int" where
  "days_of tm =
     days_to_year (tm_year tm) + int (sum_list (take (tm_mon tm - 1) (month_lengths (leap_year (tm_year tm))))) +
     int (tm_mday tm - 1)"

text \<open>Seconds since the Unix epoch, 134774 days after 1601-01-01.\<close>

definition seconds_of :: "tm \<Rightarrow> int" where
  "seconds_of tm =
     86400 * (days_of tm - 134774) + 3600 * int (tm_hour tm) + 60 * int (tm_min tm) + int (tm_sec tm)"

lemma year_parts:
  fixes q c f g :: int
  assumes b: "0 \<le> c" "c \<le> 3" "0 \<le> f" "f \<le> 24" "0 \<le> g" "g \<le> 3"
    and y: "y = 1601 + 400 * q + 100 * c + 4 * f + g"
  shows "days_to_year y = 146097 * q + 36524 * c + 1461 * f + 365 * g"
    "leap_year y \<longleftrightarrow> g = 3 \<and> (f \<noteq> 24 \<or> c = 3)"
proof -
  have d: "(y - 1601) div 4 = 100 * q + 25 * c + f" "(y - 1601) div 100 = 4 * q + c" "(y - 1601) div 400 = q"
    using b y int_div_pos_eq[of "y - 1601" 4 "100 * q + 25 * c + f" g]
      int_div_pos_eq[of "y - 1601" 100 "4 * q + c" "4 * f + g"] int_div_pos_eq[of "y - 1601" 400 q "100 * c + 4 * f + g"]
    by simp_all
  show "days_to_year y = 146097 * q + 36524 * c + 1461 * f + 365 * g"
    unfolding days_to_year_def d by (simp add: y)
  have m4: "y mod 4 = (if g = 3 then 0 else g + 1)"
    using b y int_mod_pos_eq[of y 4 "400 + 100 * q + 25 * c + f" "g + 1"]
      int_mod_pos_eq[of y 4 "401 + 100 * q + 25 * c + f" 0] by (auto simp: algebra_simps)
  have m100: "y mod 100 = (if f = 24 \<and> g = 3 then 0 else 4 * f + g + 1)"
    using b y int_mod_pos_eq[of y 100 "16 + 4 * q + c" "4 * f + g + 1"]
      int_mod_pos_eq[of y 100 "17 + 4 * q + c" 0] by (auto simp: algebra_simps)
  have m400: "y mod 400 = (if c = 3 \<and> f = 24 \<and> g = 3 then 0 else 100 * c + 4 * f + g + 1)"
    using b y int_mod_pos_eq[of y 400 "4 + q" "100 * c + 4 * f + g + 1"]
      int_mod_pos_eq[of y 400 "5 + q" 0] by (auto simp: algebra_simps)
  show "leap_year y \<longleftrightarrow> g = 3 \<and> (f \<noteq> 24 \<or> c = 3)"
    unfolding leap_year_def m4 m100 m400 using b by (auto split: if_splits)
qed

lemma cut_at_3:
  fixes r k :: int
  assumes "0 \<le> r" "r \<le> 4 * k" "0 < k" and c: "c = min 3 (r div k)"
  shows "0 \<le> c" "c \<le> 3" "0 \<le> r - k * c" "r - k * c \<le> k" "c \<noteq> 3 \<Longrightarrow> r - k * c < k"
proof -
  have q: "k * (r div k) \<le> r" "r < k * (r div k) + k" "0 \<le> r div k"
    using assms(1,3) mult_div_mod_eq[of k r] pos_mod_bound[OF assms(3), of r] pos_mod_sign[OF assms(3), of r]
    by (linarith, linarith, simp add: pos_imp_zdiv_nonneg_iff)
  show "0 \<le> c" "c \<le> 3" using q(3) c by auto
  show "0 \<le> r - k * c" "r - k * c \<le> k" "c \<noteq> 3 \<Longrightarrow> r - k * c < k"
  proof (atomize (full), cases "3 \<le> r div k")
    case True
    then have "k * 3 \<le> k * (r div k)" using assms(3) by (intro mult_left_mono) auto
    moreover have "c = 3" using True c by simp
    ultimately show "0 \<le> r - k * c \<and> r - k * c \<le> k \<and> (c \<noteq> 3 \<longrightarrow> r - k * c < k)"
      using q(1) assms(2) by simp
  next
    case False
    then have "c = r div k" using c by simp
    then show "0 \<le> r - k * c \<and> r - k * c \<le> k \<and> (c \<noteq> 3 \<longrightarrow> r - k * c < k)" using q by simp
  qed
qed

lemma year_of_correct:
  assumes "year_of n = (y, leap, d)"
  shows "days_to_year y + int d = n" "leap = leap_year y" "d < (if leap then 366 else 365)" "0 \<le> n \<Longrightarrow> 1601 \<le> y"
proof -
  define q r where "q = n div 146097" and "r = n mod 146097"
  define c where "c = min 3 (r div 36524)"
  define r1 where "r1 = r - 36524 * c"
  define f r2 where "f = r1 div 1461" and "r2 = r1 mod 1461"
  define g where "g = min 3 (r2 div 365)"
  have n: "n = 146097 * q + r" "0 \<le> r" "r < 146097" unfolding q_def r_def by simp_all
  have "r \<le> 4 * 36524" using n(3) by simp
  from cut_at_3[OF n(2) this _ c_def]
  have c: "0 \<le> c" "c \<le> 3" "0 \<le> r1" "r1 \<le> 36524" "c \<noteq> 3 \<Longrightarrow> r1 < 36524"
    unfolding r1_def by simp_all
  have f: "r1 = 1461 * f + r2" "0 \<le> r2" "r2 < 1461" "0 \<le> f" "f \<le> 24"
    using c(3,4) unfolding f_def r2_def by simp_all
  have "r2 \<le> 4 * 365" using f(3) by simp
  from cut_at_3[OF f(2) this _ g_def]
  have g: "0 \<le> g" "g \<le> 3" "0 \<le> r2 - 365 * g" "r2 - 365 * g \<le> 365" "g \<noteq> 3 \<Longrightarrow> r2 - 365 * g < 365"
    by simp_all
  have eq: "year_of n = (1601 + 400 * q + 100 * c + 4 * f + g, g = 3 \<and> (f \<noteq> 24 \<or> c = 3), nat (r2 - 365 * g))"
    unfolding year_of_def Let_def q_def r_def c_def r1_def f_def r2_def g_def by (rule refl)
  have yr: "y = 1601 + 400 * q + 100 * c + 4 * f + g" "leap = (g = 3 \<and> (f \<noteq> 24 \<or> c = 3))" "d = nat (r2 - 365 * g)"
    using assms eq by simp_all
  note yp = year_parts[OF c(1,2) f(4,5) g(1,2) yr(1)]
  show "days_to_year y + int d = n"
    using yp(1) n(1) f(1) g(3) yr(3) unfolding r1_def by simp
  show "leap = leap_year y" using yp(2) yr(2) by simp
  show "1601 \<le> y" if "0 \<le> n"
  proof -
    have "0 \<le> q" using that by (simp add: q_def pos_imp_zdiv_nonneg_iff)
    then show ?thesis using c(1) f(4) g(1) yr(1) by simp
  qed
  have "r2 - 365 * g < 365" if "\<not> leap"
  proof (cases "g = 3")
    case True
    then have "f = 24" "c \<noteq> 3" using that yr(2) by auto
    then show ?thesis using c(5) f(1) True by simp
  qed (rule g(5))
  then show "d < (if leap then 366 else 365)" using g(3,4) yr(3) by auto
qed

lemma month_of_correct:
  "month_of ls d = (m, d') \<Longrightarrow> d < sum_list ls \<Longrightarrow> m < length ls \<and> sum_list (take m ls) + d' = d \<and> d' < ls ! m"
proof (induction ls arbitrary: d m d')
  case (Cons l ls)
  show ?case
  proof (cases "d < l")
    case False
    then obtain m2 where m: "month_of ls (d - l) = (m2, d')" "m = Suc m2"
      using Cons.prems(1) by (auto split: prod.splits)
    have "d - l < sum_list ls" using Cons.prems(2) False by simp
    note ih = Cons.IH[OF m(1) this]
    then have "l + sum_list (take m2 ls) + d' = d" using False by linarith
    with ih m(2) show ?thesis by simp
  qed (use Cons.prems in auto)
qed simp

lemma gmtime_correct:
  assumes "gmtime t = Some tm"
  shows "tm_valid tm" "seconds_of tm = t" "fst (year_of (t div 86400 + 134774)) = tm_year tm"
proof -
  define s where "s = nat (t mod 86400)"
  obtain y leap d where y: "year_of (t div 86400 + 134774) = (y, leap, d)" by (cases "year_of (t div 86400 + 134774)")
  obtain m d' where m: "month_of (month_lengths leap) d = (m, d')" by fastforce
  have tm: "tm = \<lparr>tm_year = y, tm_mon = m + 1, tm_mday = d' + 1, tm_hour = s div 3600,
      tm_min = s mod 3600 div 60, tm_sec = s mod 60\<rparr>"
    using assms y m by (auto simp: gmtime_def s_def Let_def split: if_splits)
  note yc = year_of_correct[OF y]
  have "sum_list (month_lengths leap) = (if leap then 366 else 365)" by (simp add: month_lengths_def)
  then have mc: "m < 12" "sum_list (take m (month_lengths leap)) + d' = d" "d' < month_lengths leap ! m"
    using month_of_correct[OF m] yc(3) by (auto simp: month_lengths_def)
  have s: "s < 86400" "int s = t mod 86400" by (auto simp: s_def)
  have p: "3600 * (s div 3600) + 60 * (s mod 3600 div 60) + s mod 60 = s"
  proof -
    have "s mod 60 = s mod 3600 mod 60" by (simp add: mod_mod_cancel)
    then have "60 * (s mod 3600 div 60) + s mod 60 = s mod 3600" by simp
    then show ?thesis using mult_div_mod_eq[of 3600 s] by linarith
  qed
  have "s mod 3600 < 60 * 60" by simp
  then have "s mod 3600 div 60 < 60" by (simp only: less_mult_imp_div_less)
  moreover have "s < 24 * 3600" using s(1) by simp
  then have "s div 3600 < 24" by (simp only: less_mult_imp_div_less)
  ultimately show "tm_valid tm" using mc yc(2) by (simp add: tm_valid_def tm)
  have "days_of tm = t div 86400 + 134774" using yc(1,2) mc(2) by (simp add: days_of_def tm)
  moreover have "int (3600 * (s div 3600) + 60 * (s mod 3600 div 60) + s mod 60) = t mod 86400"
    by (simp only: p s(2))
  then have "3600 * int (s div 3600) + 60 * int (s mod 3600 div 60) + int (s mod 60) = t mod 86400"
    by (simp only: of_nat_add of_nat_mult of_nat_numeral)
  moreover have "86400 * (D - 134774) + a + b + c = 86400 * q + m" if "D = q + 134774" "a + b + c = m" for D a b c q m :: int
    using that by simp
  moreover have hs: "tm_hour tm = s div 3600" "tm_min tm = s mod 3600 div 60" "tm_sec tm = s mod 60" by (simp_all add: tm)
  ultimately have "seconds_of tm = 86400 * (t div 86400) + t mod 86400"
    unfolding seconds_of_def hs by blast
  then show "seconds_of tm = t" by simp
  show "fst (year_of (t div 86400 + 134774)) = tm_year tm" by (simp add: y tm)
qed

lemma length_digits: "n < 10 ^ k \<Longrightarrow> 0 < k \<Longrightarrow> length (digits 10 n) \<le> k"
proof (induction k arbitrary: n)
  case (Suc k)
  show ?case
  proof (cases "n < 10")
    case False
    then have "n div 10 < 10 ^ k" using Suc.prems by simp
    moreover have "0 < k" using False Suc.prems by (cases k) auto
    ultimately show ?thesis using Suc.IH False by (subst digits.simps) simp
  qed (simp add: digits.simps[of 10 n])
qed simp

lemma length_fmt_02d: "n < 100 \<Longrightarrow> length (fmt_02d n) = 2"
  using length_digits[of n 2] by (simp add: fmt_02d_def pad0_def)

lemma year_bound:
  assumes "0 \<le> n" "n < 365 * k" "0 \<le> k" and "year_of n = (y, leap, d)"
  shows "1601 \<le> y" "y < 1601 + k"
proof -
  have dy: "days_to_year y + int d = n" using year_of_correct(1)[OF assms(4)] .
  define j where "j = y - 1601"
  show y: "1601 \<le> y" using year_of_correct(4)[OF assms(4,1)] .
  then have "0 \<le> j" by (simp add: j_def)
  then have "j div 100 \<le> j div 4" "0 \<le> j div 400"
    by (auto intro: zdiv_mono2 simp: pos_imp_zdiv_nonneg_iff)
  then have "365 * j \<le> days_to_year y" unfolding days_to_year_def j_def[symmetric] by simp
  then show "y < 1601 + k" using dy assms(2) unfolding j_def by simp
qed

lemma gmtime_filetime:
  assumes "0 \<le> ticks" "ticks < 2 ^ 63"
  obtains tm where "gmtime (ticks div 10000000 - 11644473600) = Some tm" "0 \<le> tm_year tm" "tm_year tm < 100000"
proof -
  let ?t = "ticks div 10000000 - 11644473600"
  let ?n = "?t div 86400 + 134774"
  obtain y leap d where y: "year_of ?n = (y, leap, d)" by (cases "year_of ?n")
  have "ticks \<le> 2 ^ 63 - 1" using assms(2) by simp
  from zdiv_mono1[OF assms(1), of 10000000] zdiv_mono1[OF this, of 10000000]
  have t: "- 11644473600 \<le> ?t" "?t \<le> 910692730085" by simp_all
  have "- 134774 \<le> ?t div 86400" "?t div 86400 \<le> 10540425"
    using zdiv_mono1[OF t(1), of 86400] zdiv_mono1[OF t(2), of 86400] by simp_all
  then have n: "0 \<le> ?n" "?n < 365 * 30000" by (simp_all del: div_diff)
  note yb = year_bound[OF n(1,2) _ y]
  obtain m d' where m: "month_of (month_lengths leap) d = (m, d')" by fastforce
  obtain tm where tm: "gmtime ?t = Some tm" using yb y m by (simp add: gmtime_def Let_def)
  have "tm_year tm = y" using gmtime_correct(3)[OF tm] y by simp
  then show ?thesis using tm yb by (intro that) auto
qed

section \<open>The document\<close>

text \<open>
  The protocol of the writer: elements nest, attributes follow the start of their element, text
  stands in an element or in an attribute. The state is the number of open elements and where
  the writer is in the innermost one.
\<close>

datatype phase = Content | Tag | Attr

fun write_step :: "nat \<times> phase \<Rightarrow> xml_call \<Rightarrow> (nat \<times> phase) option" where
  "write_step (d, ph) (StartDocument enc) = (if d = 0 \<and> ph = Content then Some (d, ph) else None)"
| "write_step (d, ph) EndDocument = (if d = 0 \<and> ph = Content then Some (d, ph) else None)"
| "write_step (d, ph) (StartElement name) = (if ph \<noteq> Attr then Some (Suc d, Tag) else None)"
| "write_step (d, ph) EndElement = (if ph \<noteq> Attr \<and> 0 < d then Some (d - 1, Content) else None)"
| "write_step (d, ph) (WriteAttribute name v) = (if ph = Tag then Some (d, Tag) else None)"
| "write_step (d, ph) (StartAttribute name) = (if ph = Tag then Some (d, Attr) else None)"
| "write_step (d, ph) EndAttribute = (if ph = Attr then Some (d, Tag) else None)"
| "write_step (d, ph) (WriteString str) =
     (if ph = Attr then Some (d, Attr) else if 0 < d then Some (d, Content) else None)"
| "write_step (d, ph) (WriteBase64 data) =
     (if ph = Attr then Some (d, Attr) else if 0 < d then Some (d, Content) else None)"

fun write_all :: "nat \<times> phase \<Rightarrow> xml_call list \<Rightarrow> (nat \<times> phase) option" where
  "write_all st [] = Some st"
| "write_all st (c # cs) = (case write_step st c of None \<Rightarrow> None | Some st' \<Rightarrow> write_all st' cs)"

text \<open>Calls that can be made inside any element and leave it open, and calls that open one more.\<close>

definition shifts :: "(nat \<Rightarrow> nat) \<Rightarrow> xml_call list \<Rightarrow> bool" where
  "shifts k cs \<longleftrightarrow>
     (\<forall>d ph. ph \<noteq> Attr \<longrightarrow> (\<exists>ph'. ph' \<noteq> Attr \<and> write_all (d, ph) cs = Some (k d, ph') \<and>
        (ph = Content \<and> k d \<le> d \<longrightarrow> ph' = Content)))"

lemma write_all_append:
  "write_all st (cs @ cs') = (case write_all st cs of None \<Rightarrow> None | Some st' \<Rightarrow> write_all st' cs')"
  by (induction cs arbitrary: st) (auto split: option.split)

text \<open>What an operation adds to the sequence of calls when it returns normally.\<close>

definition yields :: "('a \<Rightarrow> bool) \<Rightarrow> (xml_call list \<Rightarrow> bool) \<Rightarrow> (xml_call list vstate, 'a) op \<Rightarrow> bool" where
  "yields R Q f \<longleftrightarrow>
     (\<forall>h c r h' c'. f (h, c) = (Ok r, (h', c')) \<longrightarrow> R r \<and> h' = h \<and> (\<exists>cs. c' = c @ cs \<and> Q cs))"

lemma yieldsD: "yields R Q f \<Longrightarrow> f (h, c) = (Ok r, (h', c')) \<Longrightarrow> R r \<and> h' = h \<and> (\<exists>cs. c' = c @ cs \<and> Q cs)"
  by (auto simp: yields_def)

lemma yields_basic:
  "R x \<Longrightarrow> Q [] \<Longrightarrow> yields R Q (sret x)" "yields R Q (sfail e)" "yields R Q (sfault z)" "yields R' Q (bad False e)"
  "yields R Q f \<Longrightarrow> yields R Q g \<Longrightarrow> yields R Q (if b then f else g)"
  by (simp_all add: yields_def bad_def)

lemma yields_sbind:
  assumes m: "yields (\<lambda>_. True) Q1 m" and f: "\<And>x. yields R Q2 (f x)"
    and Q: "\<And>cs1 cs2. Q1 cs1 \<Longrightarrow> Q2 cs2 \<Longrightarrow> Q (cs1 @ cs2)"
  shows "yields R Q (sbind m f)"
proof (unfold yields_def, intro allI impI)
  fix h c r h' c'
  assume "sbind m f (h, c) = (Ok r, (h', c'))"
  then obtain x h1 c1 where a: "m (h, c) = (Ok x, (h1, c1))" "f x (h1, c1) = (Ok r, (h', c'))"
    by (auto simp: sbind_Ok_iff)
  from yieldsD[OF m a(1)] yieldsD[OF f a(2)] Q show "R r \<and> h' = h \<and> (\<exists>cs. c' = c @ cs \<and> Q cs)"
    by (metis append.assoc)
qed

lemma yields_weaken: "yields R Q f \<Longrightarrow> (\<And>x. R x \<Longrightarrow> R' x) \<Longrightarrow> (\<And>cs. Q cs \<Longrightarrow> Q' cs) \<Longrightarrow> yields R' Q' f"
  unfolding yields_def by blast

lemma yields_or_bad: "(\<And>x. yields R Q (k x)) \<Longrightarrow> yields R Q (or_bad False f k)"
  by (auto simp: yields_def or_bad_def bad_def split: result.splits)

lemma yields_num: "(\<And>x. yields R Q (k x)) \<Longrightarrow> yields R Q (num_or_minus1 f k)"
  by (auto simp: yields_def num_or_minus1_def split: result.splits)

lemma yields_XML_CHECK: "yields (\<lambda>_. True) (\<lambda>cs. cs = [c]) (XML_CHECK w c)"
  by (auto simp: yields_def XML_CHECK_def)

lemma yields_xml_calls: "yields (\<lambda>_. True) (\<lambda>cs'. cs' = cs) (xml_calls w cs)"
  unfolding xml_calls_def
proof (induction cs)
  case Nil
  show ?case unfolding sfor.simps by (rule yields_basic(1)) simp_all
next
  case (Cons c cs)
  show ?case unfolding sfor.simps by (rule yields_sbind[OF yields_XML_CHECK Cons]) simp
qed

lemma shifts_Nil: "shifts (\<lambda>d. d) []"
  by (simp add: shifts_def)

lemma neutral_append: "shifts (\<lambda>d. d) a \<Longrightarrow> shifts (\<lambda>d. d) b \<Longrightarrow> shifts (\<lambda>d. d) (a @ b)"
  unfolding shifts_def write_all_append by (metis order_refl option.simps(5))

lemma open_append: "shifts Suc a \<Longrightarrow> shifts (\<lambda>d. d) b \<Longrightarrow> shifts Suc (a @ b)"
  unfolding shifts_def write_all_append by (metis Suc_n_not_le_n option.simps(5))

lemma open_close: "shifts Suc a \<Longrightarrow> shifts (\<lambda>d. d) (a @ [EndElement])"
  unfolding shifts_def write_all_append by (fastforce split: option.split)

lemma start_value_tag: "ph \<noteq> Attr \<Longrightarrow> write_all (d, ph) (start_value key type enc) = Some (Suc d, Tag)"
  by (simp add: start_value_def split: option.split)

lemma value_neutral:
  assumes "\<And>d. \<exists>ph. ph \<noteq> Attr \<and> write_all (d, Tag) cs = Some (d, ph)"
  shows "shifts (\<lambda>d. d) (start_value key type enc @ cs @ end_value)"
  unfolding shifts_def end_value_def write_all_append
proof (intro allI impI)
  fix d ph
  assume "ph \<noteq> Attr"
  then have s: "write_all (d, ph) (start_value key type enc) = Some (Suc d, Tag)" by (rule start_value_tag)
  obtain ph' where "ph' \<noteq> Attr" "write_all (Suc d, Tag) cs = Some (Suc d, ph')" using assms[of "Suc d"] by blast
  with s show "\<exists>ph'. ph' \<noteq> Attr \<and>
      (case write_all (d, ph) (start_value key type enc) of
         None \<Rightarrow> None
       | Some st' \<Rightarrow> (case write_all st' cs of None \<Rightarrow> None | Some st' \<Rightarrow> write_all st' [EndElement])) = Some (d, ph') \<and>
      (ph = Content \<and> d \<le> d \<longrightarrow> ph' = Content)" by simp
qed

lemma strings_neutral:
  "\<exists>ph'. ph' \<noteq> Attr \<and> write_all (d, Tag)
     (concat (map (\<lambda>str. [StartElement n, WriteString (g str), EndElement]) argv)) = Some (d, ph')"
proof -
  have "\<exists>ph'. ph' \<noteq> Attr \<and> write_all (d, ph)
     (concat (map (\<lambda>str. [StartElement n, WriteString (g str), EndElement]) argv)) = Some (d, ph')" if "ph \<noteq> Attr" for ph
    using that by (induction argv arbitrary: ph) auto
  then show ?thesis by simp
qed

lemma value_attr_neutral:
  "\<exists>ph. ph \<noteq> Attr \<and> write_all (d, Tag) (value_attr (WriteString str)) = Some (d, ph)"
  "\<exists>ph. ph \<noteq> Attr \<and> write_all (d, Tag) (value_attr (WriteBase64 data)) = Some (d, ph)"
  by (simp_all add: value_attr_def)

lemma yields_calls_neutral:
  assumes "shifts (\<lambda>d. d) cs"
  shows "yields (\<lambda>_. True) (shifts (\<lambda>d. d)) (xml_calls w cs)"
  using yields_xml_calls by (rule yields_weaken) (use assms in auto)

lemma yields_base64_attr:
  "yields (\<lambda>_. True) (\<lambda>cs. \<exists>x. cs = value_attr (WriteBase64 x)) (base64_attr w data len)"
  unfolding base64_attr_def
proof (rule yields_sbind[OF yields_XML_CHECK yields_sbind[OF _ yields_XML_CHECK]])
  show "yields (\<lambda>_. True) (\<lambda>cs. \<exists>x. cs = [WriteBase64 x]) (case data of
      None \<Rightarrow> XML_CHECK w (WriteBase64 None)
    | Some v \<Rightarrow> if length v < len then sfault (OutOfBounds len) else XML_CHECK w (WriteBase64 (Some (take len v))))"
    by (auto intro!: yields_basic yields_weaken[OF yields_XML_CHECK] split: option.split)
qed (auto simp: value_attr_def)

lemma yields_base64_value: "yields (\<lambda>_. True) (shifts (\<lambda>d. d)) (base64_value w key type data len write)"
  unfolding base64_value_def
proof (rule yields_sbind[OF yields_xml_calls yields_sbind[OF _ yields_xml_calls]])
  show "yields (\<lambda>_. True) (\<lambda>cs. \<forall>d. \<exists>ph. ph \<noteq> Attr \<and> write_all (d, Tag) cs = Some (d, ph))
      (if write then base64_attr w data len else sret ())"
    using value_attr_neutral(2)
    by (intro yields_basic(1,5) yields_weaken[OF yields_base64_attr]) auto
qed (auto intro: value_neutral)

lemma yields_values:
  "yields (\<lambda>_. True) (shifts (\<lambda>d. d)) (xml_value_string w n v t len key str)"
  "yields (\<lambda>_. True) (shifts (\<lambda>d. d)) (xml_value_multiple_strings w n v t len key argv)"
  "yields (\<lambda>_. True) (shifts (\<lambda>d. d)) (xml_value_string_invalid_utf16 w n v t len key data)"
  "yields (\<lambda>_. True) (shifts (\<lambda>d. d)) (xml_value_dword w n v t len key i)"
  "yields (\<lambda>_. True) (shifts (\<lambda>d. d)) (xml_value_qword w n v t len key j)"
  "yields (\<lambda>_. True) (shifts (\<lambda>d. d)) (xml_value_binary w n v t len key str)"
  "yields (\<lambda>_. True) (shifts (\<lambda>d. d)) (xml_value_none w n v t len key str)"
  "yields (\<lambda>_. True) (shifts (\<lambda>d. d)) (xml_value_other w n v t len key str)"
  unfolding xml_value_string_def xml_value_multiple_strings_def xml_value_string_invalid_utf16_def
    xml_value_dword_def xml_value_qword_def xml_value_binary_def xml_value_none_def xml_value_other_def Let_def
  by (intro yields_basic(3,5) yields_calls_neutral yields_base64_value value_neutral value_attr_neutral strings_neutral;
      simp)+

lemma yields_at: "(\<And>h. yields R Q (g h)) \<Longrightarrow> yields R Q (\<lambda>(h, c). g h (h, c))"
  by (simp add: yields_def)

lemma yields_mtime:
  "yields (\<lambda>_. True) (\<lambda>cs. \<exists>t. cs = [] \<or> cs = [StartElement (ascii ''mtime''), WriteString t, EndElement]) (write_mtime w m)"
proof -
  have "yields (\<lambda>_. True) (\<lambda>cs. \<exists>t. cs = [] \<or> cs = [StartElement (ascii ''mtime''), WriteString t, EndElement])
    (case timebuf of None \<Rightarrow> sret ()
     | Some timebuf \<Rightarrow> xml_calls w [StartElement (ascii ''mtime''), WriteString timebuf, EndElement])" for timebuf
    by (auto intro!: yields_basic yields_weaken[OF yields_xml_calls] split: option.split)
  then show ?thesis
    unfolding write_mtime_def
    by (auto simp: yields_def sbind_sget split: result.splits)
qed

definition node_extras :: "xml_call list \<Rightarrow> bool" where
  "node_extras cs \<longleftrightarrow>
     (\<exists>a b t. cs = a @ b \<and> (a = [] \<or> a = [WriteAttribute (ascii ''root'') (ascii ''1'')]) \<and>
        (b = [] \<or> b = [StartElement (ascii ''mtime''), WriteString t, EndElement]))"

lemma yields_node_start: "yields (\<lambda>_. True) (shifts Suc) (xml_node_start w node name)"
proof -
  have r: "yields (\<lambda>_. True) (\<lambda>cs. cs = [] \<or> cs = [WriteAttribute (ascii ''root'') (ascii ''1'')])
      (if hivex_root h = Ok node then XML_CHECK w (WriteAttribute (ascii ''root'') (ascii ''1'')) else sret ())" for h
    by (intro yields_basic(1,5) yields_weaken[OF yields_XML_CHECK]) auto
  have "yields (\<lambda>_. True) node_extras (\<lambda>(h, calls).
     sbind (if hivex_root h = Ok node then XML_CHECK w (WriteAttribute (ascii ''root'') (ascii ''1'')) else sret ()) (\<lambda>_.
     write_mtime w (hivex_node_timestamp h node)) (h, calls))"
    by (rule yields_at, rule yields_sbind[OF r yields_mtime]) (auto simp: node_extras_def)
  then show ?thesis
    unfolding xml_node_start_def
    by (rule yields_sbind[OF yields_xml_calls]) (auto simp: node_extras_def shifts_def)
qed

section \<open>The traversal\<close>

lemma xml_visitor_simps [simp]:
  "node_start (xml_visitor w) = Some (xml_node_start w)" "node_end (xml_visitor w) = Some (xml_node_end w)"
  "value_string (xml_visitor w) = Some (xml_value_string w)"
  "value_multiple_strings (xml_visitor w) = Some (xml_value_multiple_strings w)"
  "value_string_invalid_utf16 (xml_visitor w) = Some (xml_value_string_invalid_utf16 w)"
  "value_dword (xml_visitor w) = Some (xml_value_dword w)" "value_qword (xml_visitor w) = Some (xml_value_qword w)"
  "value_binary (xml_visitor w) = Some (xml_value_binary w)" "value_none (xml_visitor w) = Some (xml_value_none w)"
  "value_other (xml_visitor w) = Some (xml_value_other w)" "value_any (xml_visitor w) = None"
  by (simp_all add: xml_visitor_def)

lemma yields_call: "yields (\<lambda>_. True) Q (k f) \<Longrightarrow> yields (\<lambda>go. go) Q (call (Some f) k)"
  unfolding call_def option.simps(5) 
  by (erule yields_sbind[where ?Q2.0 = "\<lambda>cs. cs = []"]) (simp_all add: yields_def)

lemma yields_case_result:
  "(\<And>x. f h = Ok x \<Longrightarrow> yields R Q (ok x)) \<Longrightarrow> (\<And>e. yields R Q (err e)) \<Longrightarrow>
     yields R Q (\<lambda>st. case f h of Ok x \<Rightarrow> ok x st | Err e \<Rightarrow> err e st | Fault z \<Rightarrow> (Fault z, st))"
  by (auto simp: yields_def split: result.splits)

lemma yields_strings:
  "yields (\<lambda>go. go) (shifts (\<lambda>d. d)) (visit_string_value (xml_visitor w) False n v t len key)"
  "yields (\<lambda>go. go) (shifts (\<lambda>d. d)) (visit_multiple_value (xml_visitor w) False n v t len key)"
proof -
  have inv: "yields (\<lambda>go. go) (shifts (\<lambda>d. d)) (visit_invalid_utf16 (xml_visitor w) n v t len key)"
  proof (unfold yields_def, intro allI impI)
    fix h c r h' c'
    assume "visit_invalid_utf16 (xml_visitor w) n v t len key (h, c) = (Ok r, h', c')"
    then obtain t2 len2 data where
      "sbind (xml_value_string_invalid_utf16 w n v t2 len2 key data) (\<lambda>_. sret True) (h, c) = (Ok r, h', c')"
      by (auto simp: visit_invalid_utf16_def split: result.splits)
    moreover have "yields (\<lambda>go. go) (shifts (\<lambda>d. d))
        (sbind (xml_value_string_invalid_utf16 w n v t2 len2 key data) (\<lambda>_. sret True))"
      using yields_call[of _ "\<lambda>f. f n v t2 len2 key data" "xml_value_string_invalid_utf16 w", OF yields_values(3)]
      by (simp add: call_def)
    ultimately show "r \<and> h' = h \<and> (\<exists>cs. c' = c @ cs \<and> shifts (\<lambda>d. d) cs)" by (rule yieldsD[rotated])
  qed
  have str: "yields (\<lambda>go. go) (shifts (\<lambda>d. d)) (call (Some (xml_value_string w)) (\<lambda>f. f n v t len key x))"
    "yields (\<lambda>go. go) (shifts (\<lambda>d. d)) (call (Some (xml_value_multiple_strings w)) (\<lambda>f. f n v t len key y))" for x y
    by (rule yields_call, rule yields_values)+
  show "yields (\<lambda>go. go) (shifts (\<lambda>d. d)) (visit_string_value (xml_visitor w) False n v t len key)"
    "yields (\<lambda>go. go) (shifts (\<lambda>d. d)) (visit_multiple_value (xml_visitor w) False n v t len key)"
    unfolding visit_string_value_def visit_multiple_value_def yields_def
    by (auto simp: bad_def dest!: yieldsD[OF str(1)] yieldsD[OF str(2)] yieldsD[OF inv] split: result.splits if_splits)
qed

lemma yields_typed_value:
  "yields (\<lambda>go. go) (shifts (\<lambda>d. d)) (visit_typed_value (xml_visitor w) False n v t len key)"
proof -
  have p: "yields R Q (case x of (t', l, str) \<Rightarrow> if P t' then bad False e else k t' l str)"
    if "\<And>t' l str. yields R Q (k t' l str)" for x :: "u32 \<times> nat \<times> byte list" and R Q P e k
    using that by (auto split: prod.split intro: yields_basic(4))
  have p': "yields R Q (case x of (t', l, str) \<Rightarrow> k t' l str)"
    if "\<And>t' l str. yields R Q (k t' l str)" for x :: "u32 \<times> nat \<times> byte list" and R Q k
    using that by (auto split: prod.split)
  show ?thesis
    unfolding visit_typed_value_def xml_visitor_simps
    by (intro yields_basic(5) yields_or_bad yields_num yields_strings p p' yields_call yields_values)
qed

lemma yields_visit_values: "yields (\<lambda>go. go) (shifts (\<lambda>d. d)) (visit_values (xml_visitor w) False n vs)"
proof (induction vs)
  case Nil
  show ?case unfolding visit_values.simps by (rule yields_basic(3))
next
  case (Cons v vs)
  have v: "yields (\<lambda>go. go) (shifts (\<lambda>d. d)) (visit_value (xml_visitor w) False n v)"
    unfolding visit_value_def xml_visitor_simps option.simps(4)
    by (intro yields_or_bad) (auto split: prod.split intro!: yields_or_bad yields_typed_value)
  show ?case
    unfolding visit_values.simps
  proof (intro yields_basic(5))
    show "yields (\<lambda>go. go) (shifts (\<lambda>d. d)) (sret True)" by (rule yields_basic(1)) (simp_all add: shifts_Nil)
    show "yields (\<lambda>go. go) (shifts (\<lambda>d. d)) (sbind (visit_value (xml_visitor w) False n v)
        (\<lambda>go. if go then visit_values (xml_visitor w) False n vs else sret False))"
    proof (unfold yields_def, intro allI impI)
      fix h c r h' c'
      assume "sbind (visit_value (xml_visitor w) False n v)
        (\<lambda>go. if go then visit_values (xml_visitor w) False n vs else sret False) (h, c) = (Ok r, h', c')"
      then obtain go h1 c1 where a: "visit_value (xml_visitor w) False n v (h, c) = (Ok go, h1, c1)"
        "(if go then visit_values (xml_visitor w) False n vs else sret False) (h1, c1) = (Ok r, h', c')"
        by (auto simp: sbind_Ok_iff)
      note b = yieldsD[OF v a(1)]
      with a(2) have "visit_values (xml_visitor w) False n vs (h1, c1) = (Ok r, h', c')" by simp
      from yieldsD[OF Cons this] b neutral_append show "r \<and> h' = h \<and> (\<exists>cs. c' = c @ cs \<and> shifts (\<lambda>d. d) cs)"
        by (metis append.assoc)
    qed
  qed
qed

lemma yields_visit_start: "yields (\<lambda>go. go) (shifts Suc) (visit_start (xml_visitor w) False n name)"
  unfolding visit_start_def xml_visitor_simps
proof (rule yields_sbind[OF _ yields_or_bad[OF yields_visit_values]])
  show "yields (\<lambda>_. True) (shifts Suc) (call (Some (xml_node_start w)) (\<lambda>f. f n name))"
    by (rule yields_weaken[of "\<lambda>go. go"], rule yields_call, rule yields_node_start) auto
qed (rule open_append)

text \<open>The same for the traversal, which also threads the bitmap of unvisited blocks.\<close>

definition traverses :: "(xml_call list vstate \<times> bitmap, unit) op \<Rightarrow> bool" where
  "traverses f \<longleftrightarrow>
     (\<forall>h c u h' c' u'. f ((h, c), u) = (Ok (), ((h', c'), u')) \<longrightarrow>
        h' = h \<and> (\<exists>cs. c' = c @ cs \<and> shifts (\<lambda>d. d) cs))"

lemma traversesD:
  "traverses f \<Longrightarrow> f ((h, c), u) = (Ok (), ((h', c'), u')) \<Longrightarrow> h' = h \<and> (\<exists>cs. c' = c @ cs \<and> shifts (\<lambda>d. d) cs)"
  unfolding traverses_def by blast

lemma with_hive_Ok: "with_hive f (s, u) = (Ok x, (s', u')) \<longleftrightarrow> f s = (Ok x, s') \<and> u' = u"
  by (auto simp: with_hive_def split: prod.split)

lemma traverses_sfor_z:
  assumes "\<And>n. traverses (rec n)"
  shows "traverses (sfor_z rec ns)"
proof (induction ns)
  case (Cons n ns)
  show ?case
  proof (cases "n = 0")
    case False
    show ?thesis
    proof (unfold traverses_def, intro allI impI)
      fix h c u h' c' u'
      assume "sfor_z rec (n # ns) ((h, c), u) = (Ok (), ((h', c'), u'))"
      with False obtain h1 c1 u1 where a: "rec n ((h, c), u) = (Ok (), ((h1, c1), u1))"
        "sfor_z rec ns ((h1, c1), u1) = (Ok (), ((h', c'), u'))" by (auto simp: sbind_Ok_iff)
      from traversesD[OF assms a(1)] traversesD[OF Cons a(2)] neutral_append
      show "h' = h \<and> (\<exists>cs. c' = c @ cs \<and> shifts (\<lambda>d. d) cs)" by (metis append.assoc)
    qed
  qed (simp add: traverses_def shifts_Nil)
qed (simp add: traverses_def)

lemma visit_node_traverses: "traverses (hivex__visit_node fuel (xml_visitor w) False n)"
proof (induction fuel arbitrary: n)
  case (Suc fuel)
  let ?rec = "hivex__visit_node fuel (xml_visitor w) False"
  show ?case
  proof (unfold traverses_def, intro allI impI)
    fix h c u h' c' u'
    assume "hivex__visit_node (Suc fuel) (xml_visitor w) False n ((h, c), u) = (Ok (), ((h', c'), u'))"
    then obtain name go h1 c1 where nm: "visit_start (xml_visitor w) False n name (h, c) = (Ok go, (h1, c1))"
      "(if go then visit_children_of (xml_visitor w) False ?rec n name else sret ()) ((h1, c1), BITMAP_CLR u n) =
        (Ok (), ((h', c'), u'))"
      by (auto simp: visit_body_def Let_def sbind_Ok_iff with_hive_Ok split: if_splits result.splits)
    note vs = yieldsD[OF yields_visit_start nm(1)]
    obtain ns h2 c2 u2 where ch: "sfor_z ?rec ns ((h1, c1), BITMAP_CLR u n) = (Ok (), ((h2, c2), u2))"
      "XML_CHECK w EndElement (h2, c2) = (Ok (), (h', c'))"
      using nm(2) vs by (auto simp: visit_children_of_def sbind_Ok_iff with_hive_Ok call_def xml_node_end_def
          split: result.splits)
    note kids = traversesD[OF traverses_sfor_z[OF Suc] ch(1)]
    from vs obtain a where a: "c1 = c @ a" "shifts Suc a" "h1 = h" by blast
    from kids obtain b where b: "c2 = c1 @ b" "shifts (\<lambda>d. d) b" "h2 = h1" by blast
    have "h' = h2" "c' = c2 @ [EndElement]" using ch(2) by (auto simp: XML_CHECK_def split: if_splits)
    moreover have "shifts (\<lambda>d. d) ((a @ b) @ [EndElement])" by (rule open_close[OF open_append[OF a(2) b(2)]])
    ultimately show "h' = h \<and> (\<exists>cs. c' = c @ cs \<and> shifts (\<lambda>d. d) cs)" using a b by auto
  qed
qed (simp add: traverses_def)

lemma xml_visit_neutral:
  assumes "hivex_visit (xml_visitor w) 0 (h, c) = (Ok (), (h', c'))"
  shows "\<exists>cs. c' = c @ cs \<and> shifts (\<lambda>d. d) cs"
proof -
  have n: "\<exists>cs. c' = c @ cs \<and> shifts (\<lambda>d. d) cs"
    if "hivex_visit_node n (xml_visitor w) 0 (h, c) = (Ok (), (h', c'))" for n
    using that traversesD[OF visit_node_traverses]
    by (fastforce simp: hivex_visit_node_def Let_def simp del: hivex__visit_node.simps split: prod.splits)
  show ?thesis using assms n by (auto simp: hivex_visit_def split: result.splits)
qed

lemma after_visit:
  "(case x of (Ok u, st) \<Rightarrow> f st | (Err e, st) \<Rightarrow> (Fault ExitFailure, st) | (Fault z, st) \<Rightarrow> (Fault z, st)) = (Ok v, st')
    \<longleftrightarrow> (\<exists>st. x = (Ok (), st) \<and> f st = (Ok v, st'))" for x :: "unit result \<times> 's"
  by (cases x; cases "fst x") auto

section \<open>Properties\<close>

text \<open>
  C36: \<^verbatim>\<open>filetime_to_8601\<close> is right for every positive time stamp: it never fails (the buffer is large
  enough), and it prints a valid calendar date and time of day that is the given number of ticks,
  in full seconds, after the start of 1601.
\<close>

theorem filetime_correct:
  assumes "0 < ticks" and "ticks < 2 ^ 63"
  shows "\<exists>tm. filetime_to_8601 ticks = Ok (Some (strftime_8601 tm)) \<and> tm_valid tm \<and>
    seconds_of tm = ticks div 10000000 - 11644473600"
proof -
  have "0 \<le> ticks" using assms(1) by simp
  then obtain tm where tm: "gmtime (ticks div 10000000 - 11644473600) = Some tm" "0 \<le> tm_year tm" "tm_year tm < 100000"
    using gmtime_filetime assms(2) by blast
  note g = gmtime_correct[OF tm(1)]
  have "nat (tm_year tm) < 10 ^ 5" using tm(2,3) by simp
  then have "length (fmt_d (tm_year tm)) \<le> 5" using length_digits[of "nat (tm_year tm)" 5] tm(2) by (simp add: fmt_d_def)
  moreover have "tm_mon tm < 100" "tm_hour tm < 100" "tm_min tm < 100" "tm_sec tm < 100" using g(1) by (auto simp: tm_valid_def)
  moreover have "tm_mday tm < 100"
  proof -
    have "tm_mon tm - 1 \<in> set [0..<12]" using g(1) by (auto simp: tm_valid_def)
    then have "month_lengths (leap_year (tm_year tm)) ! (tm_mon tm - 1) \<le> 31"
      by (auto simp: month_lengths_def upt_rec)
    then show ?thesis using g(1) by (simp add: tm_valid_def)
  qed
  ultimately have "length (strftime_8601 tm) < 32"
    by (simp add: strftime_8601_def length_fmt_02d ascii_def)
  then show ?thesis
    using tm(1) g(1,2) assms(1)
    by (auto simp: filetime_to_8601_def c_div_def WINDOWS_TICK_def SEC_TO_UNIX_EPOCH_def TIMESTAMP_BUF_LEN_def)
qed

lemma hivexml_calls:
  assumes "hivexml w fs fname open_flags 0 = (Ok (), calls)"
  shows "write_all (0, Content) calls = Some (0, Content)"
proof -
  let ?start = "[StartDocument (ascii ''utf-8''), StartElement (ascii ''hive'')]"
  obtain h h0 c0 h1 c1 h2 c2 h3 where run: "xml_calls w ?start (h, []) = (Ok (), (h0, c0))"
    "write_mtime w (hivex_last_modified h0) (h0, c0) = (Ok (), (h1, c1))"
    "hivex_visit (xml_visitor w) 0 (h1, c1) = (Ok (), (h2, c2))"
    "xml_calls w [EndElement, EndDocument] (h2, c2) = (Ok (), (h3, calls))"
    using assms by (auto simp: hivexml_def sbind_Ok_iff after_visit split: result.splits prod.splits)
  have c0: "c0 = ?start" using yieldsD[OF yields_xml_calls run(1)] by simp
  obtain a where a: "c1 = c0 @ a" "shifts (\<lambda>d. d) a"
    using yieldsD[OF yields_mtime run(2)] by (auto simp: shifts_def)
  obtain b where b: "c2 = c1 @ b" "shifts (\<lambda>d. d) b" using xml_visit_neutral[OF run(3)] by blast
  have c: "calls = ?start @ (a @ b) @ [EndElement, EndDocument]"
    using yieldsD[OF yields_xml_calls run(4)] a b c0 by simp
  obtain ph where "ph \<noteq> Attr" "write_all (1, Tag) (a @ b) = Some (1, ph)"
    using neutral_append[OF a(2) b(2)] unfolding shifts_def by (metis phase.distinct(5))
  then show ?thesis unfolding c write_all_append by simp
qed

text \<open>Without \<^verbatim>\<open>-k\<close> no flag for the visitor is set.\<close>

lemma xml_options_visit:
  "0x6b \<notin> fst ` set es \<Longrightarrow> handle_all xml_option (f, v) es = Some (f', v') \<Longrightarrow> v' = v"
  by (induction es arbitrary: f) (auto simp: xml_option_def split: if_splits)

lemma dk_plain: "letters (ascii ''dk'') = ascii ''dk''" "plain (ascii ''dk'')" "order_of p (ascii ''dk'') = (if p then REQUIRE_ORDER else PERMUTE)"
  by (simp_all add: letters_def plain_def order_of_def ascii_def of_char_def)

text \<open>
  C31: when \<^verbatim>\<open>hivexml\<close> is called without the option \<^verbatim>\<open>-k\<close> and ends normally, whatever the file holds, the
  calls it has made follow the protocol of the writer: every element is closed exactly once,
  attributes come right after the start of their element, and all elements are closed at the end.
\<close>

theorem hivexml_well_formed:
  assumes "hivexml_main posixly_correct w fs (prog # args) = (Ok (), calls)"
    and "0x6b \<notin> fst ` set (fst (parse (if posixly_correct then REQUIRE_ORDER else PERMUTE) (ascii ''dk'') args))"
  shows "write_all (0, Content) calls = Some (0, Content)"
proof -
  let ?es = "fst (parse (if posixly_correct then REQUIRE_ORDER else PERMUTE) (ascii ''dk'') args)"
  obtain argv d where l: "getopt_loop posixly_correct (ascii ''dk'') xml_option (0, 0) (prog # args) = Some (handle_all xml_option (0, 0) ?es, argv, d)"
    using getopt_parses[of "prog # args" "ascii ''dk''" posixly_correct ?es _ xml_option "(0, 0)"]
    unfolding dk_plain(1,3) using dk_plain(2) by (metis list.discI list.sel(3) prod.collapse)
  show ?thesis
  proof (cases "handle_all xml_option (0, 0) ?es")
    case None
    then show ?thesis using assms(1) by (simp add: hivexml_main_def l)
  next
    case (Some x)
    obtain f v where x: "x = (f, v)" by (cases x)
    have "v = 0" using xml_options_visit[OF assms(2)] Some x by blast
    then have "hivexml w fs (argv ! optind d) f 0 = (Ok (), calls)"
      using assms(1) Some x by (simp add: hivexml_main_def l split: if_splits)
    then show ?thesis by (rule hivexml_calls)
  qed
qed

end
