(* ===== verification/Registry_Spec.thy ===== *)
theory Registry_Spec
  imports Write_Nodes "HOL-Library.Multiset"
begin

text \<open>
  What a registry is, without its file: a tree of keys. A key has the handle the library gives
  out for it, a name, a security record, a list of values and its subkeys. The four operations
  that change a registry (\<^verbatim>\<open>hivex_node_set_values\<close>, \<^verbatim>\<open>hivex_node_set_value\<close>,
  \<^verbatim>\<open>hivex_node_add_child\<close>, \<^verbatim>\<open>hivex_node_delete_child\<close>) are requests; \<open>allowed\<close> says when a request can
  be granted, \<open>answer\<close> is the tree afterwards, and \<open>spec_run\<close> is a sequence of granted requests.
  The theory \<open>Registry\<close> shows that the code implements this specification.
\<close>

section \<open>Keys and requests\<close>

datatype key =
  Key (handle: nat) (kname: "byte list") (ksk: nat) (kvals: "hive_set_value list") (kids: "key list")

primrec handles :: "key \<Rightarrow> nat list" where
  "handles (Key n nm s vs ts) = concat (map handles ts) @ [n]"

primrec subkeys :: "key \<Rightarrow> key list" where
  "subkeys (Key n nm s vs ts) = Key n nm s vs ts # concat (map subkeys ts)"

primrec set_vals :: "nat \<Rightarrow> (hive_set_value list \<Rightarrow> hive_set_value list) \<Rightarrow> key \<Rightarrow> key" where
  "set_vals n f (Key m nm s vs ts) = Key m nm s (if m = n then f vs else vs) (map (set_vals n f) ts)"

text \<open>A new key goes in front of the first one with a greater name.\<close>

definition insert_key :: "key \<Rightarrow> key list \<Rightarrow> key list" where
  "insert_key k ts =
     takeWhile (\<lambda>t. strcasecmp (kname t) (kname k) \<le> 0) ts @ k # dropWhile (\<lambda>t. strcasecmp (kname t) (kname k) \<le> 0) ts"

primrec new_key :: "nat \<Rightarrow> nat \<Rightarrow> byte list \<Rightarrow> key \<Rightarrow> key" where
  "new_key p c name (Key m nm s vs ts) =
     (let ts' = map (new_key p c name) ts in
      Key m nm s vs (if m = p then insert_key (Key c (cstr name) s [] []) ts' else ts'))"

primrec drop_key :: "nat \<Rightarrow> key \<Rightarrow> key" where
  "drop_key c (Key m nm s vs ts) = Key m nm s vs (filter (\<lambda>t. handle t \<noteq> c) (map (drop_key c) ts))"

datatype request =
    SetValues nat "hive_set_value list"
  | SetValue nat hive_set_value
  | AddChild nat "byte list"
  | DeleteChild nat

fun allowed :: "key \<Rightarrow> request \<Rightarrow> bool" where
  "allowed t (SetValues n svs) \<longleftrightarrow>
     n \<in> set (handles t) \<and> length svs \<le> HIVEX_MAX_VALUES \<and> (\<forall>sv \<in> set svs. sv_ok sv)"
| "allowed t (SetValue n sv) \<longleftrightarrow>
     (\<exists>k \<in> set (subkeys t). handle k = n \<and> length (kvals k) < HIVEX_MAX_VALUES) \<and> sv_ok sv"
| "allowed t (AddChild p name) \<longleftrightarrow>
     0 < strlen name \<and> strlen name < 2 ^ 16 \<and>
     (\<exists>k \<in> set (subkeys t). handle k = p \<and> length (kids k) < HIVEX_MAX_SUBKEYS \<and>
        (\<forall>c \<in> set (kids k). \<not> STRCASEEQ (kname c) name))"
| "allowed t (DeleteChild c) \<longleftrightarrow> c \<in> set (handles t) \<and> c \<noteq> handle t"

text \<open>The answer to a request: for a new key, the handle \<open>r\<close> it gets.\<close>

fun answer :: "key \<Rightarrow> request \<Rightarrow> nat \<Rightarrow> key" where
  "answer t (SetValues n svs) r = set_vals n (\<lambda>_. svs) t"
| "answer t (SetValue n sv) r = set_vals n (put_value sv) t"
| "answer t (AddChild p name) r = new_key p r name t"
| "answer t (DeleteChild c) r = drop_key c t"

fun is_add :: "request \<Rightarrow> bool" where
  "is_add (AddChild p name) \<longleftrightarrow> True"
| "is_add q \<longleftrightarrow> False"

inductive spec_step :: "key \<Rightarrow> request \<times> nat \<Rightarrow> key \<Rightarrow> bool" where
  grant: "allowed t q \<Longrightarrow> (if is_add q then r \<notin> set (handles t) else r = 0) \<Longrightarrow> spec_step t (q, r) (answer t q r)"

inductive spec_run :: "key \<Rightarrow> (request \<times> nat) list \<Rightarrow> key \<Rightarrow> bool" where
  stop: "spec_run t [] t"
| more: "spec_step t e t1 \<Longrightarrow> spec_run t1 es t2 \<Longrightarrow> spec_run t (e # es) t2"

inductive_cases spec_stepE: "spec_step t e t'"

inductive_simps spec_run_simps [simp]:
  "spec_run t [] t'" "spec_run t (e # es) t'"

section \<open>The shape of the tree\<close>

lemma handle_in [simp]: "handle t \<in> set (handles t)"
  by (cases t) simp

lemma self_in [simp]: "t \<in> set (subkeys t)"
  by (cases t) simp

lemma map_handle_subkeys: "handle ` set (subkeys t) = set (handles t)"
  by (induction t) (auto simp: image_UN)

lemma handles_ex: "n \<in> set (handles t) \<longleftrightarrow> (\<exists>k \<in> set (subkeys t). handle k = n)"
  unfolding map_handle_subkeys[symmetric] by auto

lemma change_keeps [simp]:
  "handle (set_vals n f t) = handle t" "kname (set_vals n f t) = kname t"
  "handle (new_key p c name t) = handle t" "kname (new_key p c name t) = kname t"
  "handle (drop_key c t) = handle t" "kname (drop_key c t) = kname t"
  by (cases t; simp add: Let_def)+

lemma handles_set_vals [simp]: "handles (set_vals n f t) = handles t"
  by (induction t) (simp add: comp_def cong: map_cong)

lemma set_insert_key [simp]: "set (insert_key k ts) = insert k (set ts)"
proof -
  have "set ts = set (takeWhile P ts) \<union> set (dropWhile P ts)" for P
    by (metis set_append takeWhile_dropWhile_id)
  then show ?thesis by (simp add: insert_key_def)
qed

lemma subkeys_trans: "k \<in> set (subkeys t) \<Longrightarrow> x \<in> set (subkeys k) \<Longrightarrow> x \<in> set (subkeys t)"
  by (induction t) auto

lemma subkeys_handles: "k \<in> set (subkeys t) \<Longrightarrow> set (handles k) \<subseteq> set (handles t)"
  unfolding map_handle_subkeys[symmetric] using subkeys_trans by blast

lemma distinct_subkeys: "k \<in> set (subkeys t) \<Longrightarrow> distinct (handles t) \<Longrightarrow> distinct (handles k)"
  by (induction t) (auto simp: distinct_concat_iff)

lemma distinct_parts:
  assumes "distinct (concat (map f ts))" and "t \<in> set ts" "u \<in> set ts" and "x \<in> set (f t)" "x \<in> set (f u)"
  shows "t = u"
  using assms
proof (induction ts)
  case (Cons a ts)
  then show ?case by auto
qed simp

text \<open>With distinct handles, a handle stands for one key.\<close>

lemma handle_unique:
  "distinct (handles t) \<Longrightarrow> k \<in> set (subkeys t) \<Longrightarrow> k' \<in> set (subkeys t) \<Longrightarrow> handle k = handle k' \<Longrightarrow> k = k'"
proof (induction t)
  case (Key n nm s vs ts)
  have d: "distinct (concat (map handles ts))" "n \<notin> set (concat (map handles ts))" using Key.prems(1) by auto
  have out: "handle x \<in> set (concat (map handles ts))" if "x \<in> set (concat (map subkeys ts))" for x
    using that by (auto simp: handles_ex)
  show ?case
  proof (cases "k \<in> set (concat (map subkeys ts)) \<and> k' \<in> set (concat (map subkeys ts))")
    case True
    then obtain a b where ab: "a \<in> set ts" "k \<in> set (subkeys a)" "b \<in> set ts" "k' \<in> set (subkeys b)" by auto
    then have "handle k \<in> set (handles a)" "handle k \<in> set (handles b)"
      using Key.prems(4) by (metis handles_ex)+
    then have "a = b" by (rule distinct_parts[OF d(1) ab(1,3)])
    moreover have "distinct (handles a)" using d(1) ab(1) by (auto simp: distinct_concat_iff)
    ultimately show ?thesis using Key.IH[OF ab(1)] ab Key.prems(4) by blast
  next
    case False
    then show ?thesis using Key.prems out d(2) by (metis (no_types, lifting) key.sel(1) set_ConsD subkeys.simps)
  qed
qed

lemma nonempty_handles [simp]: "handles t \<noteq> []"
  by (cases t) simp

lemma handles_new_absent: "p \<notin> set (handles t) \<Longrightarrow> new_key p c name t = t"
  by (induction t) (auto simp: Let_def intro!: map_idI)

lemma set_handles_new:
  "set (handles (new_key p c name t)) = set (handles t) \<union> (if p \<in> set (handles t) then {c} else {})"
  by (induction t) (auto simp: Let_def split: if_splits)

lemma distinct_concat_insert:
  "distinct (concat (map f (insert_key k ts))) \<longleftrightarrow> distinct (concat (map f (k # ts)))"
proof -
  have "mset (insert_key k ts) = mset (k # ts)"
    unfolding insert_key_def using arg_cong[OF takeWhile_dropWhile_id, of mset] by (metis mset_append add_mset_add_single mset.simps(2) union_mset_add_mset_right)
  then have "mset (concat (map f (insert_key k ts))) = mset (concat (map f (k # ts)))"
    by (simp only: mset_concat mset_map flip: sum_mset_sum_list)
  then show ?thesis by (rule mset_eq_imp_distinct_iff)
qed

lemma distinct_new_key:
  "distinct (handles t) \<Longrightarrow> c \<notin> set (handles t) \<Longrightarrow> distinct (handles (new_key p c name t))"
proof (induction t)
  case (Key n nm s vs ts)
  have d: "distinct (concat (map handles ts))" "n \<notin> set (concat (map handles ts))" and c: "c \<noteq> n" "c \<notin> set (concat (map handles ts))"
    using Key.prems by auto
  show ?case
  proof (cases "n = p")
    case True
    then have "map (new_key p c name) ts = ts" using d(2) by (intro map_idI handles_new_absent) auto
    then show ?thesis using True d c by (simp add: Let_def distinct_concat_insert)
  next
    case False
    have "distinct (concat (map handles (map (new_key p c name) ts)))"
      using d(1) c(2) Key.IH
    proof (induction ts)
      case (Cons a ts)
      have "set (handles (new_key p c name a)) \<inter> set (handles (new_key p c name b)) = {}" if "b \<in> set ts" for b
        using Cons.prems(1,2) that by (auto simp: set_handles_new)
      then show ?case using Cons by auto
    qed simp
    then show ?thesis using False d c by (auto simp: Let_def set_handles_new)
  qed
qed

lemma set_handles_drop: "set (handles (drop_key c t)) \<subseteq> set (handles t)"
  by (induction t) fastforce

lemma distinct_filter_concat: "distinct (concat (map f ts)) \<Longrightarrow> distinct (concat (map f (filter P ts)))"
  by (induction ts) auto

lemma distinct_drop_key: "distinct (handles t) \<Longrightarrow> distinct (handles (drop_key c t))"
proof (induction t)
  case (Key n nm s vs ts)
  have d: "distinct (concat (map handles ts))" "n \<notin> set (concat (map handles ts))" using Key.prems by auto
  have "distinct (concat (map handles (map (drop_key c) ts)))"
    using d(1) Key.IH
  proof (induction ts)
    case (Cons a ts)
    have "set (handles (drop_key c a)) \<inter> set (handles (drop_key c b)) = {}" if "b \<in> set ts" for b
      using Cons.prems(1) that set_handles_drop[of c a] set_handles_drop[of c b] by fastforce
    then show ?case using Cons by auto
  qed simp
  then show ?case using d(2) set_handles_drop[of c] distinct_filter_concat[of handles "map (drop_key c) ts"] by fastforce
qed

lemma drop_absent: "c \<notin> set (handles t) \<Longrightarrow> drop_key c t = t"
proof (induction t)
  case (Key n nm s vs ts)
  have "map (drop_key c) ts = ts" using Key by (intro map_idI) auto
  moreover have "handle x \<noteq> c" if "x \<in> set ts" for x using Key.prems that handle_in[of x] by auto
  ultimately show ?case by simp
qed

text \<open>Dropping a key below the root drops its handles and no others.\<close>

lemma handles_drop_key:
  "distinct (handles t) \<Longrightarrow> k \<in> set (subkeys t) \<Longrightarrow> k \<noteq> t \<Longrightarrow>
    set (handles (drop_key (handle k) t)) = set (handles t) - set (handles k)"
proof (induction t)
  case (Key n nm s vs ts)
  let ?c = "handle k"
  have d: "distinct (concat (map handles ts))" "n \<notin> set (concat (map handles ts))" using Key.prems(1) by auto
  obtain a where a: "a \<in> set ts" "k \<in> set (subkeys a)" using Key.prems(2,3) by auto
  have sub: "set (handles k) \<subseteq> set (handles a)" by (rule subkeys_handles[OF a(2)])
  have ca: "?c \<in> set (handles a)" using sub handle_in[of k] by blast
  have da: "distinct (handles a)" using d(1) a(1) by (auto simp: distinct_concat_iff)
  have other: "drop_key ?c b = b \<and> handle b \<noteq> ?c \<and> set (handles b) \<inter> set (handles k) = {}" if b: "b \<in> set ts" "b \<noteq> a" for b
  proof -
    have i: "set (handles b) \<inter> set (handles a) = {}" using distinct_parts[OF d(1) b(1) a(1)] b(2) by blast
    then have "?c \<notin> set (handles b)" using ca by blast
    moreover from this have "handle b \<noteq> ?c" using handle_in[of b] by metis
    ultimately show ?thesis using i sub drop_absent[of ?c b] by simp blast
  qed
  have nk: "n \<notin> set (handles k)" using d(2) sub a(1) by auto
  have "(\<Union>b \<in> {b \<in> set ts. handle b \<noteq> ?c}. set (handles (drop_key ?c b))) = (\<Union>b \<in> set ts. set (handles b)) - set (handles k)"
  proof (cases "k = a")
    case True
    have e: "{b \<in> set ts. handle b \<noteq> ?c} = set ts - {a}"
    proof (rule set_eqI)
      show "b \<in> {b \<in> set ts. handle b \<noteq> ?c} \<longleftrightarrow> b \<in> set ts - {a}" for b using True other[of b] by (cases "b = a") auto
    qed
    have "(\<Union>b \<in> set ts - {a}. set (handles (drop_key ?c b))) = (\<Union>b \<in> set ts - {a}. set (handles b) - set (handles k))"
    proof (rule SUP_cong[OF refl])
      show "set (handles (drop_key ?c b)) = set (handles b) - set (handles k)" if "b \<in> set ts - {a}" for b
        using other[of b] that by auto
    qed
    also have "\<dots> = (\<Union>b \<in> set ts. set (handles b)) - set (handles k)" using True by blast
    finally show ?thesis unfolding e .
  next
    case False
    have "handle a \<noteq> ?c" using handle_unique[OF da self_in a(2)] False by auto
    then have "handle b \<noteq> ?c" if "b \<in> set ts" for b using other[OF that] by (cases "b = a") auto
    then have e: "{b \<in> set ts. handle b \<noteq> ?c} = set ts" by auto
    have ih: "set (handles (drop_key ?c a)) = set (handles a) - set (handles k)" using Key.IH[OF a(1) da a(2) False] .
    have "set (handles (drop_key ?c b)) = set (handles b) - set (handles k)" if "b \<in> set ts" for b
      using ih other[OF that] by (cases "b = a") auto
    then show ?thesis unfolding e by auto
  qed
  moreover have "set (handles (drop_key ?c (Key n nm s vs ts))) =
      insert n (\<Union>b \<in> {b \<in> set ts. handle b \<noteq> ?c}. set (handles (drop_key ?c b)))"
    by (simp add: filter_map comp_def)
  ultimately show ?case using nk by (simp add: insert_Diff_if)
qed

end
