(* ===== verification/Security.thy ===== *)
theory Security
  imports Delete_Nodes
begin

text \<open>
  What the deletion of nodes does to the image, and to the security records in particular.
  \<open>drops h h' F A\<close> says that the blocks \<open>F\<close> were freed and that in the others only the bytes at
  addresses in \<open>A\<close> may have changed; it composes, and every operation of the deletion is described
  by it.

  The security records of a handle are doubly linked in rings. \<^verbatim>\<open>delete_sk\<close> gives back one reference to
  a record; with the last one it takes the record out of its ring and frees its block
  (\<open>delete_sk_post\<close>). \<open>sks_dropped\<close> describes that for any number of references, and composes.
\<close>

section \<open>Freeing and writing\<close>

definition drops :: "hive \<Rightarrow> hive \<Rightarrow> nat set \<Rightarrow> nat set \<Rightarrow> bool" where
  "drops h h' F A \<longleftrightarrow>
     hive_ok h' \<and> same_handle h h' \<and> (\<forall>x. IS_VALID_BLOCK h' x \<longleftrightarrow> IS_VALID_BLOCK h x \<and> x \<notin> F) \<and>
     (\<forall>c. IS_VALID_BLOCK h' c \<longrightarrow> blen h' c = blen h c \<and>
        (\<forall>i. c \<le> i \<longrightarrow> i < c + blen h c \<longrightarrow> i \<notin> A \<longrightarrow> addr h' i = addr h i))"

lemma dropsD:
  assumes "drops h h' F A"
  shows "hive_ok h'" "same_handle h h'" "IS_VALID_BLOCK h' x \<longleftrightarrow> IS_VALID_BLOCK h x \<and> x \<notin> F"
    "writable h' = writable h" "rootoffs h' = rootoffs h"
  using assms by (auto simp: drops_def same_handle_def)

lemma drops_block:
  assumes "drops h h' F A" and "IS_VALID_BLOCK h c" "c \<notin> F"
  shows "blen h' c = blen h c" "c \<le> i \<Longrightarrow> i < c + blen h c \<Longrightarrow> i \<notin> A \<Longrightarrow> addr h' i = addr h i"
  using assms by (auto simp: drops_def)

lemma drops_refl: "hive_ok h \<Longrightarrow> drops h h {} {}"
  by (simp add: drops_def same_handle_refl)

lemma drops_trans:
  assumes "drops h h1 F A" and "drops h1 h2 G B"
  shows "drops h h2 (F \<union> G) (A \<union> B)"
  using assms unfolding drops_def by (auto intro: same_handle_trans)

lemma drops_free:
  assumes h: "hive_ok h" and v: "IS_VALID_BLOCK h b" and f: "free_post h b h'"
  shows "drops h h' {b} {}"
proof -
  have "kept h h' c \<and> blen h' c = blen h c" if "IS_VALID_BLOCK h' c" for c
  proof -
    have c: "IS_VALID_BLOCK h c" "c \<noteq> b" using that f by (auto simp: free_post_def)
    have "kept h h' c" using keepsD(2)[OF free_keeps(1)[OF h v f] c(1)] c(2) by simp
    then show ?thesis using kept_blen[of h h' c] hive_ok_valid(4)[OF h c(1)] by simp
  qed
  then show ?thesis using f by (auto simp: drops_def free_post_def kept_def)
qed

lemma drops_free_all:
  assumes h: "hive_ok h" "writable h" and d: "distinct bs" "\<forall>b \<in> set bs. IS_VALID_BLOCK h b"
  obtains h' where "sfor mark_block_unused bs h = (Ok (), h')" "drops h h' (set bs) {}"
proof -
  have "heap_inv h" using h by (simp add: heap_inv_def)
  from hp.free_all_law[OF this d] obtain h' where h': "sfor mark_block_unused bs h = (Ok (), h')" "heap_inv h'"
    "\<forall>x. IS_VALID_BLOCK h' x \<longleftrightarrow> x \<notin> set bs \<and> IS_VALID_BLOCK h x" "\<forall>x. IS_VALID_BLOCK h' x \<longrightarrow> kept h h' x" "same_handle h h'"
    by blast
  have "drops h h' (set bs) {}"
    unfolding drops_def
  proof (intro conjI allI impI)
    show "blen h' c = blen h c" if "IS_VALID_BLOCK h' c" for c
      using that h'(3,4) kept_blen[of h h' c] hive_ok_valid(4)[OF h(1), of c] by simp
  qed (use h' in \<open>auto simp: heap_inv_def kept_def\<close>)
  with h'(1) that show ?thesis by blast
qed

lemma drops_wr32:
  assumes h: "hive_ok h" and b: "IS_VALID_BLOCK h b" and a: "b + 4 \<le> a" "a + 4 \<le> b + blen h b"
  shows "wr32 a w h = (Ok (), h\<lparr>addr := put32 (addr h) a w\<rparr>)" "drops h (h\<lparr>addr := put32 (addr h) a w\<rparr>) {} {a..<a + 4}"
proof -
  have w: "wr32 a w h = (Ok (), h\<lparr>addr := put32 (addr h) a w\<rparr>) \<and> upd h (h\<lparr>addr := put32 (addr h) a w\<rparr>) {a..<a + 4}"
    by (rule wr_upd(1)[OF h b a])
  then show "wr32 a w h = (Ok (), h\<lparr>addr := put32 (addr h) a w\<rparr>)" by simp
  have "IS_VALID_BLOCK (h\<lparr>addr := m\<rparr>) x \<longleftrightarrow> IS_VALID_BLOCK h x" for m x by (simp add: IS_VALID_BLOCK_def)
  then show "drops h (h\<lparr>addr := put32 (addr h) a w\<rparr>) {} {a..<a + 4}" using w by (auto simp: drops_def upd_def)
qed

text \<open>Changes inside a block that is freed do not count.\<close>

lemma drops_restrict:
  assumes h: "hive_ok h" and d: "drops h h' F A"
    and A: "\<And>i. i \<in> A \<Longrightarrow> i \<notin> C \<Longrightarrow> \<exists>b \<in> F. IS_VALID_BLOCK h b \<and> b \<le> i \<and> i < b + blen h b"
  shows "drops h h' F C"
proof -
  have "addr h' i = addr h i" if c: "IS_VALID_BLOCK h' c" "c \<le> i" "i < c + blen h c" "i \<notin> C" for c i
  proof -
    have v: "IS_VALID_BLOCK h c" "c \<notin> F" using c(1) dropsD(3)[OF d] by auto
    have "i \<notin> A"
    proof
      assume "i \<in> A"
      from A[OF this c(4)] obtain b where "b \<in> F" "IS_VALID_BLOCK h b" "b \<le> i" "i < b + blen h b" by blast
      with blocks_apart[OF h v(1) _ _ c(2,3), of b] v(2) show False by blast
    qed
    then show ?thesis using drops_block(2)[OF d v c(2,3)] by simp
  qed
  then show ?thesis using d by (auto simp: drops_def)
qed

lemma drops_mono: "drops h h' F A \<Longrightarrow> A \<subseteq> B \<Longrightarrow> drops h h' F B"
  by (auto simp: drops_def)

lemma drops_kept:
  assumes "drops h h' F A" and "IS_VALID_BLOCK h c" "c \<notin> F" and "\<And>i. c \<le> i \<Longrightarrow> i < c + blen h c \<Longrightarrow> i \<notin> A"
  shows "IS_VALID_BLOCK h' c" "kept h h' c"
  using assms dropsD(3)[OF assms(1)] drops_block(2)[OF assms(1-3)] by (auto simp: kept_def)

lemma drops_get32:
  assumes "drops h h' F A" and "IS_VALID_BLOCK h c" "c \<notin> F" and "c \<le> a" "a + 4 \<le> c + blen h c"
    and "\<And>i. a \<le> i \<Longrightarrow> i < a + 4 \<Longrightarrow> i \<notin> A"
  shows "get32 (addr h') a = get32 (addr h) a"
  using drops_block(2)[OF assms(1-3)] assms(4-6) by (intro st32.load_cong) auto

section \<open>Rings\<close>

text \<open>\<open>rings nx pv S\<close>: the two links stay within \<open>S\<close> and undo one another.\<close>

definition rings :: "('a \<Rightarrow> 'a) \<Rightarrow> ('a \<Rightarrow> 'a) \<Rightarrow> 'a set \<Rightarrow> bool" where
  "rings nx pv S \<longleftrightarrow> (\<forall>x \<in> S. nx x \<in> S \<and> pv x \<in> S \<and> pv (nx x) = x \<and> nx (pv x) = x)"

lemma ringsD:
  assumes "rings nx pv S" and "x \<in> S"
  shows "nx x \<in> S" "pv x \<in> S" "pv (nx x) = x" "nx (pv x) = x"
  using assms by (auto simp: rings_def)

lemma rings_cong: "(\<And>x. x \<in> S \<Longrightarrow> nx' x = nx x \<and> pv' x = pv x) \<Longrightarrow> rings nx' pv' S \<longleftrightarrow> rings nx pv S"
  by (auto simp: rings_def)

text \<open>Taking an element out: its neighbours become neighbours.\<close>

lemma rings_unlink:
  assumes r: "rings nx pv S" and s: "s \<in> S"
    and nx: "\<And>x. x \<in> S - {s} \<Longrightarrow> nx' x = (if x = pv s then nx s else nx x)"
    and pv: "\<And>x. x \<in> S - {s} \<Longrightarrow> pv' x = (if x = nx s then pv s else pv x)"
  shows "rings nx' pv' (S - {s})"
  unfolding rings_def
proof
  fix x assume x: "x \<in> S - {s}"
  note d = ringsD[OF r] 
  have "nx x \<noteq> s \<or> x = pv s" "pv x \<noteq> s \<or> x = nx s" "x = pv s \<longrightarrow> nx s \<noteq> s" "x = nx s \<longrightarrow> pv s \<noteq> s"
    using d(3,4)[of x] d(3,4)[OF s] x by auto
  then have "nx' x \<in> S - {s}" "pv' x \<in> S - {s}" using x d(1,2)[OF s] d(1,2)[of x] by (auto simp: nx pv)
  moreover have "nx x = nx s \<longrightarrow> x = s" "pv x = pv s \<longrightarrow> x = s" using d(3,4)[of x] d(3,4)[OF s] x by auto
  then have "pv' (nx' x) = x" "nx' (pv' x) = x"
    using calculation x d(3,4)[of x] by (auto simp: nx pv split: if_splits)
  ultimately show "nx' x \<in> S - {s} \<and> pv' x \<in> S - {s} \<and> pv' (nx' x) = x \<and> nx' (pv' x) = x" by blast
qed

section \<open>Security records\<close>

definition sk_next_of :: "hive \<Rightarrow> nat \<Rightarrow> nat" where
  "sk_next_of h s = unat (get32 (addr h) (s + 8)) + 0x1000"

definition sk_prev_of :: "hive \<Rightarrow> nat \<Rightarrow> nat" where
  "sk_prev_of h s = unat (get32 (addr h) (s + 12)) + 0x1000"

definition sk_ring :: "hive \<Rightarrow> nat set \<Rightarrow> bool" where
  "sk_ring h S \<longleftrightarrow> (\<forall>s \<in> S. sk_ok h s) \<and> rings (sk_next_of h) (sk_prev_of h) S"

text \<open>The links and the count of a record are the twelve bytes from offset 8.\<close>

definition sk_area :: "nat set \<Rightarrow> nat set" where
  "sk_area S = (\<Union>s \<in> S. {s + 8..<s + 20})"

lemma sk_ringD: "sk_ring h S \<Longrightarrow> s \<in> S \<Longrightarrow> sk_ok h s"
  by (simp add: sk_ring_def)

lemma sk_area_mono: "S \<subseteq> T \<Longrightarrow> sk_area S \<subseteq> sk_area T"
  by (auto simp: sk_area_def)

lemma sk_area_apart:
  assumes h: "hive_ok h" and S: "\<forall>s \<in> S. sk_ok h s" and c: "IS_VALID_BLOCK h c" "c \<notin> S" and i: "c \<le> i" "i < c + blen h c"
  shows "i \<notin> sk_area S"
proof
  assume "i \<in> sk_area S"
  then obtain s where s: "s \<in> S" "s + 8 \<le> i" "i < s + 20" by (auto simp: sk_area_def)
  then have "IS_VALID_BLOCK h s" "20 \<le> blen h s" "c \<noteq> s" using S c(2) by (auto simp: sk_ok_def)
  then show False using blocks_apart[OF h c(1) _ _ i, of s] s by simp
qed

lemma ring_same:
  assumes S: "sk_ring h S"
    and k: "\<And>s. s \<in> S \<Longrightarrow> sk_ok h' s \<and> get32 (addr h') (s + 8) = get32 (addr h) (s + 8) \<and> get32 (addr h') (s + 12) = get32 (addr h) (s + 12)"
  shows "sk_ring h' S"
proof -
  have "sk_next_of h' s = sk_next_of h s \<and> sk_prev_of h' s = sk_prev_of h s" if "s \<in> S" for s
    using k[OF that] by (simp add: sk_next_of_def sk_prev_of_def)
  then show ?thesis using S k rings_cong[of S "sk_next_of h'" "sk_next_of h" "sk_prev_of h'" "sk_prev_of h"] by (auto simp: sk_ring_def)
qed

text \<open>Records that are not touched.\<close>

lemma ring_kept:
  assumes S: "sk_ring h S" and k: "\<And>s. s \<in> S \<Longrightarrow> IS_VALID_BLOCK h' s \<and> kept h h' s"
  shows "sk_ring h' S" "s \<in> S \<Longrightarrow> refcount h' s = refcount h s"
proof -
  have s: "sk_ok h' s \<and> refcount h' s = refcount h s" if "s \<in> S" for s
    using k[OF that] sk_ringD[OF S that] kept_sk[of h h' s] by blast
  then show "s \<in> S \<Longrightarrow> refcount h' s = refcount h s" by blast
  have "20 \<le> blen h s" if "s \<in> S" for s using sk_ringD[OF S that] by (simp add: sk_ok_def)
  then show "sk_ring h' S" using k s kept_load(2)[of h h'] by (intro ring_same[OF S]) fastforce
qed

text \<open>Writing one of the three words of a record.\<close>

lemma sk_write:
  fixes w :: u32
  assumes h: "hive_ok h" and y: "sk_ok h y" and k: "k \<in> {8, 12, 16}"
  defines "h' \<equiv> h\<lparr>addr := put32 (addr h) (y + k) w\<rparr>"
  shows "wr32 (y + k) w h = (Ok (), h')" "drops h h' {} {y + 8..<y + 20}" "sk_ok h x \<Longrightarrow> sk_ok h' x"
    "sk_ok h x \<Longrightarrow> j \<in> {8, 12, 16} \<Longrightarrow> get32 (addr h') (x + j) = (if x = y \<and> j = k then w else get32 (addr h) (x + j))"
proof -
  have v: "IS_VALID_BLOCK h y" "20 \<le> blen h y" using y by (auto simp: sk_ok_def)
  have "y + 4 \<le> y + k" "y + k + 4 \<le> y + blen h y" using k v(2) by auto
  note w = drops_wr32[OF h v(1) this, of w, folded h'_def]
  show "wr32 (y + k) w h = (Ok (), h')" by (rule w(1))
  show d: "drops h h' {} {y + 8..<y + 20}" by (rule drops_mono[OF w(2)]) (use k in auto)
  have ap: "x = y \<or> x + 20 \<le> y \<or> y + 20 \<le> x" if "sk_ok h x" for x
    using hive_ok_disjoint[OF h _ v(1), of x] that v(2) by (auto simp: sk_ok_def)
  show "sk_ok h' x" if x: "sk_ok h x"
  proof -
    have b: "IS_VALID_BLOCK h x" "20 \<le> blen h x" "id_of h x = id_sk" using x by (auto simp: sk_ok_def)
    have "get_bytes (addr h') (x + 4) 2 = get_bytes (addr h) (x + 4) 2" using ap[OF x] k by (auto simp: h'_def mem_frame)
    then show ?thesis using b dropsD(3)[OF d] drops_block(1)[OF d b(1)] by (simp add: sk_ok_def id_of_def)
  qed
  show "get32 (addr h') (x + j) = (if x = y \<and> j = k then w else get32 (addr h) (x + j))" if "sk_ok h x" "j \<in> {8, 12, 16}"
    using ap[OF that(1)] that(2) k by (auto simp: h'_def mem_frame)
qed

section \<open>Giving back references\<close>

text \<open>Dropping the references \<open>L\<close> to records of \<open>S\<close>: a record goes when its last reference does.\<close>

definition sks_left :: "hive \<Rightarrow> nat set \<Rightarrow> nat list \<Rightarrow> nat set" where
  "sks_left h S L = {s \<in> S. \<not> (s \<in> set L \<and> unat (refcount h s) = count_list L s)}"

definition sks_dropped :: "hive \<Rightarrow> nat set \<Rightarrow> nat list \<Rightarrow> hive \<Rightarrow> bool" where
  "sks_dropped h S L h' \<longleftrightarrow>
     sk_ring h' (sks_left h S L) \<and>
     (\<forall>s \<in> sks_left h S L. refcount h' s = refcount h s - of_nat (count_list L s))"

lemma sks_left_Nil [simp]: "sks_left h S [] = S"
  by (simp add: sks_left_def)

lemma sks_left_sub: "sks_left h S L \<subseteq> S"
  by (auto simp: sks_left_def)

lemma sks_dropped_Nil [simp]: "sks_dropped h S [] h \<longleftrightarrow> sk_ring h S"
  by (simp add: sks_dropped_def)

lemma sks_dropped_kept:
  assumes "sks_dropped h S L h1" and "\<And>s. s \<in> sks_left h S L \<Longrightarrow> IS_VALID_BLOCK h2 s \<and> kept h1 h2 s"
  shows "sks_dropped h S L h2"
proof -
  have r: "sk_ring h1 (sks_left h S L)" using assms(1) by (simp add: sks_dropped_def)
  note k = ring_kept[OF r assms(2)]
  show ?thesis using k assms(1) by (simp add: sks_dropped_def)
qed

lemma sks_left_cong: "(\<And>s. s \<in> S \<Longrightarrow> refcount h1 s = refcount h s) \<Longrightarrow> sks_left h1 S L = sks_left h S L"
  by (auto simp: sks_left_def)

lemma sks_dropped_cong:
  assumes "sks_dropped h1 S L h'" and r: "\<And>s. s \<in> S \<Longrightarrow> refcount h1 s = refcount h s"
  shows "sks_dropped h S L h'"
proof -
  have l: "sks_left h1 S L = sks_left h S L" by (rule sks_left_cong[OF r])
  have "refcount h1 s = refcount h s" if "s \<in> sks_left h S L" for s using r that sks_left_sub[of h S L] by blast
  then show ?thesis using assms(1) by (simp add: sks_dropped_def l)
qed

text \<open>The count stays exact, since no more references are given back than there are.\<close>

lemma count_sub:
  assumes "n \<le> unat (r :: u32)"
  shows "unat (r - of_nat n) = unat r - n"
proof -
  have "n < 2 ^ 32" using assms unsigned_less[of r, where 'a = nat] by simp
  then have "unat (of_nat n :: u32) = n" by (simp add: unat_of_nat)
  then show ?thesis using assms by (subst unat_sub) (auto simp: word_le_nat_alt)
qed

lemma sks_left_append:
  assumes d: "sks_dropped h S L h1" and c: "\<And>s. s \<in> set (L @ M) \<Longrightarrow> count_list (L @ M) s \<le> unat (refcount h s)"
  shows "sks_left h1 (sks_left h S L) M = sks_left h S (L @ M)"
proof (rule set_eqI)
  fix s
  have "count_list L s = 0 \<longleftrightarrow> s \<notin> set L" "count_list M s = 0 \<longleftrightarrow> s \<notin> set M" by (simp_all add: count_list_0_iff)
  moreover have "unat (refcount h1 s) = unat (refcount h s) - count_list L s" if "s \<in> sks_left h S L" "s \<in> set M"
    using d count_sub[of "count_list L s" "refcount h s"] c[of s] that by (simp add: sks_dropped_def)
  ultimately show "s \<in> sks_left h1 (sks_left h S L) M \<longleftrightarrow> s \<in> sks_left h S (L @ M)"
    using c[of s] by (auto simp: sks_left_def)
qed

lemma sks_dropped_append:
  assumes d: "sks_dropped h S L h1" "sks_dropped h1 (sks_left h S L) M h2"
    and c: "\<And>s. s \<in> set (L @ M) \<Longrightarrow> count_list (L @ M) s \<le> unat (refcount h s)"
  shows "sks_dropped h S (L @ M) h2"
proof -
  have l: "sks_left h1 (sks_left h S L) M = sks_left h S (L @ M)" using d(1) c by (rule sks_left_append)
  have "refcount h2 s = refcount h s - of_nat (count_list (L @ M) s)" if s: "s \<in> sks_left h S (L @ M)" for s
  proof -
    have "s \<in> sks_left h S L" using s sks_left_sub[of h1 "sks_left h S L" M] l by blast
    moreover have "refcount h2 s = refcount h1 s - of_nat (count_list M s)" using d(2) s by (simp add: sks_dropped_def l)
    ultimately show ?thesis using d(1) by (simp add: sks_dropped_def)
  qed
  then show ?thesis using d(2) by (simp add: sks_dropped_def l)
qed

text \<open>The neighbours of a record are linked to one another, unless it is alone in its ring.\<close>

lemma ring_unlink_post:
  assumes h: "hive_ok h" and S: "sk_ring h S" "s \<in> S"
  defines "p \<equiv> sk_prev_of h s" and "n \<equiv> sk_next_of h s"
  obtains h' where
    "(if p \<noteq> s \<and> n \<noteq> s then sbind (wr32 (p + 8) (of_nat n - 0x1000)) (\<lambda>_. wr32 (n + 12) (of_nat p - 0x1000)) else sret ()) h = (Ok (), h')"
    "drops h h' {} (sk_area S)" "sk_ring h' (S - {s})" "\<forall>x \<in> S. sk_ok h' x \<and> refcount h' x = refcount h x"
proof (cases "p \<noteq> s \<and> n \<noteq> s")
  case False
  have r: "rings (sk_next_of h) (sk_prev_of h) S" using S(1) by (simp add: sk_ring_def)
  then have "p = s" "n = s" using False ringsD[OF r S(2)] by (auto simp: p_def n_def)
  then have "rings (sk_next_of h) (sk_prev_of h) (S - {s})"
    by (intro rings_unlink[OF r S(2)]) (auto simp: p_def n_def)
  then show ?thesis using that[of h] False S drops_mono[OF drops_refl[OF h]] by (auto simp: sk_ring_def)
next
  case True
  have r: "rings (sk_next_of h) (sk_prev_of h) S" using S(1) by (simp add: sk_ring_def)
  have pn: "p \<in> S" "n \<in> S" using ringsD[OF r S(2)] by (auto simp: p_def n_def)
  let ?a = "of_nat n - 0x1000 :: u32" and ?b = "of_nat p - 0x1000 :: u32"
  let ?h1 = "h\<lparr>addr := put32 (addr h) (p + 8) ?a\<rparr>"
  let ?h2 = "?h1\<lparr>addr := put32 (addr ?h1) (n + 12) ?b\<rparr>"
  note w1 = sk_write[OF h sk_ringD[OF S(1) pn(1)], where k = 8 and w = ?a]
  have ok1: "hive_ok ?h1" using dropsD(1)[OF w1(2)] by simp
  have "sk_ok ?h1 n" using w1(3) sk_ringD[OF S(1) pn(2)] by simp
  note w2 = sk_write[OF ok1 this, where k = 12 and w = ?b]
  have dr: "drops h ?h2 {} (sk_area S)"
    using drops_mono[OF drops_trans[OF w1(2) w2(2)], of "sk_area S"] pn by (auto simp: sk_area_def)
  have g: "sk_ok ?h2 x" "get32 (addr ?h2) (x + 8) = (if x = p then ?a else get32 (addr h) (x + 8))"
    "get32 (addr ?h2) (x + 12) = (if x = n then ?b else get32 (addr h) (x + 12))"
    "get32 (addr ?h2) (x + 16) = get32 (addr h) (x + 16)" if "x \<in> S" for x
    using sk_ringD[OF S(1) that] w1(3,4)[of x] w2(3,4)[of x] by simp_all
  have "unat ?a + 0x1000 = n" "unat ?b + 0x1000 = p" by (simp_all add: n_def p_def sk_next_of_def sk_prev_of_def)
  then have "rings (sk_next_of ?h2) (sk_prev_of ?h2) (S - {s})"
    using g by (intro rings_unlink[OF r S(2)]) (auto simp: p_def n_def sk_next_of_def sk_prev_of_def)
  then have "sk_ring ?h2 (S - {s})" using g(1) by (auto simp: sk_ring_def)
  moreover have "sk_ok ?h2 x \<and> refcount ?h2 x = refcount h x" if "x \<in> S" for x using g(1,4)[OF that] by (simp add: refcount_def)
  moreover have "sbind (wr32 (p + 8) ?a) (\<lambda>_. wr32 (n + 12) ?b) h = (Ok (), ?h2)"
    using w1(1) w2(1) by (simp add: sbind_def)
  ultimately show ?thesis using that[of ?h2] dr True by simp
qed

lemma sks_left_one:
  "sks_left h S [s] = (if unat (refcount h s) = 1 then S - {s} else S)"
  by (auto simp: sks_left_def)

lemma delete_sk_post:
  assumes h: "hive_ok h" "writable h" and S: "sk_ring h S" "s \<in> S" and r: "0 < unat (refcount h s)"
  obtains h' where "delete_sk s h = (Ok (), h')" "drops h h' (S - sks_left h S [s]) (sk_area S)" "sks_dropped h S [s] h'"
proof -
  have ok: "sk_ok h s" by (rule sk_ringD[OF S])
  then have v: "IS_VALID_BLOCK h s" "20 \<le> blen h s" "id_of h s = id_sk" by (auto simp: sk_ok_def)
  note b = hive_ok_valid(3)[OF h(1) v(1)]
  let ?w = "refcount h s - 1"
  let ?h1 = "h\<lparr>addr := put32 (addr h) (s + 16) ?w\<rparr>"
  note w = sk_write[OF h(1) ok, where k = 16 and w = ?w]
  have d1: "drops h ?h1 {} (sk_area S)" by (rule drops_mono[OF w(2)]) (use S(2) in \<open>auto simp: sk_area_def\<close>)
  have S1: "sk_ring ?h1 S" by (rule ring_same[OF S(1)]) (use w(3,4) sk_ringD[OF S(1)] in auto)
  have rc: "refcount ?h1 x = (if x = s then ?w else refcount h x)" if "x \<in> S" for x
    using w(4)[of x 16] sk_ringD[OF S(1) that] by (simp add: refcount_def)
  have ck: "check_block h s id_sk EFAULT = Ok ()" "rd32 h (s + 16) = Ok (refcount h s)" "refcount h s \<noteq> 0"
    "wr32 (s + 16) ?w h = (Ok (), ?h1)"
    using v b r w(1) by (auto simp: refcount_def)
  show ?thesis
  proof (cases "unat (refcount h s) = 1")
    case False
    then have nz: "refcount h s \<noteq> 1" by auto
    have l: "sks_left h S [s] = S" using False by (simp add: sks_left_one)
    have "delete_sk s h = (Ok (), ?h1)" using ck nz by (simp add: delete_sk_def sbind_def del: rd_Ok check_block_bid)
    moreover have "sks_dropped h S [s] ?h1" using S1 rc by (auto simp: sks_dropped_def l)
    ultimately show ?thesis using that d1 l by simp
  next
    case True
    then have one: "refcount h s = 1" by (simp add: word_eq_iff_unsigned [where ?'a = nat])
    have l: "sks_left h S [s] = S - {s}" using True by (simp add: sks_left_one)
    note h1 = dropsD(1)[OF d1]
    have rd: "rd32 ?h1 (s + 12) = Ok (get32 (addr ?h1) (s + 12))" "rd32 ?h1 (s + 8) = Ok (get32 (addr ?h1) (s + 8))"
      using v b by simp_all
    let ?link = "if sk_prev_of ?h1 s \<noteq> s \<and> sk_next_of ?h1 s \<noteq> s
      then sbind (wr32 (sk_prev_of ?h1 s + 8) (of_nat (sk_next_of ?h1 s) - 0x1000)) (\<lambda>_. wr32 (sk_next_of ?h1 s + 12) (of_nat (sk_prev_of ?h1 s) - 0x1000))
      else sret ()"
    obtain h2 where h2: "?link ?h1 = (Ok (), h2)"
      and d2: "drops ?h1 h2 {} (sk_area S)" and S2: "sk_ring h2 (S - {s})"
      and r2: "\<forall>x \<in> S. sk_ok h2 x \<and> refcount h2 x = refcount ?h1 x"
      by (rule ring_unlink_post[OF h1 S1 S(2)])
    note d12 = drops_trans[OF d1 d2]
    have ok2: "hive_ok h2" "writable h2" "IS_VALID_BLOCK h2 s" using dropsD[OF d12] h(2) v(1) by auto
    obtain h3 where h3: "mark_block_unused s h2 = (Ok (), h3)" "free_post h2 s h3" using mark_block_unused_post[OF ok2] by blast
    note f = drops_free[OF ok2(1,3) h3(2)]
    have k: "IS_VALID_BLOCK h3 x \<and> kept h2 h3 x" if "x \<in> S - {s}" for x
      using drops_kept[OF f, of x] sk_ringD[OF S2 that] that by (simp add: sk_ok_def)
    have run: "delete_sk s h = sbind ?link (\<lambda>_. mark_block_unused s) ?h1"
      using ck one rd by (simp add: delete_sk_def sbind_def Let_def sk_next_of_def sk_prev_of_def del: rd_Ok check_block_bid)
    have "delete_sk s h = (Ok (), h3)" unfolding run sbind_Ok[of ?link, OF h2] by (rule h3(1))
    moreover have "drops h h3 (S - sks_left h S [s]) (sk_area S)" using drops_trans[OF d12 f] l S(2) by (simp add: double_diff)
    moreover have "sks_dropped h S [s] h3"
      using ring_kept[OF S2 k] r2 rc by (auto simp: sks_dropped_def l)
    ultimately show ?thesis by (rule that)
  qed
qed

end
