(* ===== verification/Delete_Tree.thy ===== *)
theory Delete_Tree
  imports Security
begin

text \<open>
  What \<^verbatim>\<open>delete_node\<close> does to a node. \<open>node_whole\<close> says that a node owns its index records, values, data
  and class name, and \<open>delete_node_post\<close> that \<^verbatim>\<open>delete_node\<close> then frees exactly these and gives back one
  reference to its security record, which goes with the last one. The visitor reads the values of a
  node on its way and passes over them (\<open>visit_start_passes\<close>).
\<close>

section \<open>The records of a node\<close>

definition class_blocks :: "hive \<Rightarrow> nat \<Rightarrow> nat list" where
  "class_blocks h n =
     (let w = get32 (addr h) (n + 52) in if w = 0xffffffff then [] else [unat w + 0x1000])"

definition sk_list :: "hive \<Rightarrow> nat \<Rightarrow> nat list" where
  "sk_list h n = (if get32 (addr h) (n + 48) = 0xffffffff then [] else [node_sk h n])"

definition own_blocks :: "hive \<Rightarrow> nat \<Rightarrow> nat list" where
  "own_blocks h n = child_blocks h n @ owned h n @ class_blocks h n @ [n]"

text \<open>A value that can be read: short data is short, and no data is longer than the limit.\<close>

definition value_fine :: "hive \<Rightarrow> nat \<Rightarrow> bool" where
  "value_fine h v \<longleftrightarrow>
     (let w = get32 (addr h) (v + 8); len = unat (w AND 0x7fffffff) in
      (w AND 0x80000000 \<noteq> 0 \<longrightarrow> len \<le> 4) \<and> len \<le> HIVEX_MAX_VALUE_LEN)"

definition node_whole :: "hive \<Rightarrow> nat \<Rightarrow> bool" where
  "node_whole h n \<longleftrightarrow>
     index_ok h n \<and> values_own h n \<and> (\<forall>v \<in> set (value_offsets h n). value_fine h v) \<and>
     distinct (own_blocks h n) \<and> (\<forall>b \<in> set (own_blocks h n). IS_VALID_BLOCK h b)"

lemma values_same:
  assumes o: "values_own h n" and nk': "is_nk h' n" and nr: "nr_values h' n = nr_values h n" and vl: "value_list h' n = value_list h n"
    and k: "\<And>b. b \<in> set (owned h n) \<Longrightarrow> IS_VALID_BLOCK h' b \<and> kept h h' b"
  shows "values_own h' n" "owned h' n = owned h n" "value_offsets h' n = value_offsets h n"
proof -
  have vo: "vallist_ok h n" and vk: "\<forall>v \<in> set (value_offsets h n). is_vk h v" using o by (auto simp: values_own_def)
  have vb: "value_blocks h' n = value_blocks h n" by (simp add: value_blocks_def nr vl)
  have ks: "vl_key h' (value_list h n) i = vl_key h (value_list h n) i" and kl: "4 + 4 * nr_values h n \<le> blen h' (value_list h n)"
    if "i < nr_values h n" for i
  proof -
    have b: "4 + 4 * nr_values h n \<le> blen h (value_list h n)" using vo that by (simp add: vallist_ok_def)
    have kb: "kept h h' (value_list h n)" using k that by (simp add: owned_def value_blocks_def)
    show "vl_key h' (value_list h n) i = vl_key h (value_list h n) i"
      using kept_load(2)[OF kb, of "value_list h n + 4 + 4 * i"] that b by (simp add: vl_key_def)
    show "4 + 4 * nr_values h n \<le> blen h' (value_list h n)" using kept_blen[OF kb] b by simp
  qed
  show vs: "value_offsets h' n = value_offsets h n" using ks by (simp add: value_offsets_def nr vl)
  have v: "is_vk h' v \<and> owned_by h' v = owned_by h v" if "v \<in> set (value_offsets h n)" for v
  proof -
    have kv: "kept h h' v" "IS_VALID_BLOCK h' v" using k owned_values[OF that] by auto
    have i: "is_vk h v" using vk that by simp
    then have b: "24 + unat (get16 (addr h) (v + 6)) \<le> blen h v" by (simp add: is_vk_def)
    have "get16 (addr h') (v + 6) = get16 (addr h) (v + 6)" "id_of h' v = id_of h v"
      using kept_load(1)[OF kv(1), of "v + 6"] kept_load(4)[OF kv(1), of "v + 4" 2] b by (simp_all add: id_of_def)
    then show ?thesis using kept_vk[OF kv(1)] b i kv(2) by (simp add: is_vk_def)
  qed
  have "map (owned_by h') (value_offsets h n) = map (owned_by h) (value_offsets h n)" using v by simp
  then show ow: "owned h' n = owned h n" by (simp only: owned_def vb vs)
  have "vallist_ok h' n"
    using vo nk' kl k v by (auto simp: vallist_ok_def nr vl vs owned_def value_blocks_def is_vk_def)
  then show "values_own h' n" using o k v unfolding values_own_def ow vs by auto
qed

lemma values_kept:
  assumes o: "values_own h n" and k: "\<And>b. b \<in> set (n # owned h n) \<Longrightarrow> IS_VALID_BLOCK h' b \<and> kept h h' b"
  shows "values_own h' n" "owned h' n = owned h n" "value_offsets h' n = value_offsets h n"
proof -
  have nk: "is_nk h n" using o by (simp add: values_own_def vallist_ok_def)
  have kn: "kept h h' n" "IS_VALID_BLOCK h' n" using k by auto
  have "80 \<le> blen h n" using nk by (simp add: is_nk_def)
  then have vl: "value_list h' n = value_list h n"
    using kept_load(2)[OF kn(1), of "n + 44"] by (simp add: value_list_def)
  note s = values_same[OF o kept_nk(1,5)[OF kn nk] vl k]
  show "values_own h' n" "owned h' n = owned h n" "value_offsets h' n = value_offsets h n" using s by simp_all
qed

lemma node_kept:
  assumes w: "node_whole h n" and k: "\<And>b. b \<in> set (own_blocks h n) \<Longrightarrow> IS_VALID_BLOCK h' b \<and> kept h h' b"
  shows "node_whole h' n" "own_blocks h' n = own_blocks h n" "child_offsets h' n = child_offsets h n"
    "sk_list h' n = sk_list h n"
proof -
  have ix: "index_ok h n" and o: "values_own h n" using w by (auto simp: node_whole_def)
  have kn: "kept h h' n" "IS_VALID_BLOCK h' n" using k by (auto simp: own_blocks_def)
  have "80 \<le> blen h n" using ix by (simp add: index_ok_def is_nk_def)
  then have ld: "get32 (addr h') (n + 52) = get32 (addr h) (n + 52)" "get32 (addr h') (n + 48) = get32 (addr h) (n + 48)"
    using kept_load(2)[OF kn(1), of "n + 52"] kept_load(2)[OF kn(1), of "n + 48"] by simp_all
  have "IS_VALID_BLOCK h' b \<and> kept h h' b" if "b \<in> set (n # child_blocks h n)" for b
    using k that by (auto simp: own_blocks_def)
  note ik = index_kept[OF ix this]
  have "IS_VALID_BLOCK h' b \<and> kept h h' b" if "b \<in> set (n # owned h n)" for b
    using k that by (auto simp: own_blocks_def)
  note vk = values_kept[OF o this]
  have "value_fine h' v" if "v \<in> set (value_offsets h n)" for v
  proof -
    have "kept h h' v" using k owned_values[OF that] by (simp add: own_blocks_def)
    moreover have "24 \<le> blen h v" using o that by (auto simp: values_own_def is_vk_def)
    ultimately have "get32 (addr h') (v + 8) = get32 (addr h) (v + 8)" using kept_load(2)[of h h' v "v + 8"] by simp
    then show ?thesis using w that by (simp add: value_fine_def node_whole_def)
  qed
  moreover show ob: "own_blocks h' n = own_blocks h n"
    by (simp only: own_blocks_def ik(3) vk(2) class_blocks_def ld)
  ultimately show "node_whole h' n" using w k ik(1) vk by (simp add: node_whole_def)
  show "child_offsets h' n = child_offsets h n" by (rule ik(2))
  show "sk_list h' n = sk_list h n" by (simp add: sk_list_def ld node_sk_def)
qed

section \<open>Deleting one node\<close>

lemma drops_delete_values:
  assumes h: "hive_ok h" "writable h" and o: "values_own h n"
  obtains h' where "delete_values n h = (Ok (), h')" "drops h h' (set (owned h n)) {n + 40..<n + 48}"
proof -
  obtain h' where r: "delete_values n h = (Ok (), h')" and p: "delete_post h n h'"
    using delete_values_post[OF h o] by blast
  have nk: "is_nk h n" using o by (simp add: values_own_def vallist_ok_def)
  then have b: "80 \<le> blen h n" by (simp add: is_nk_def)
  have v: "\<forall>x. IS_VALID_BLOCK h' x \<longleftrightarrow> x \<notin> set (owned h n) \<and> IS_VALID_BLOCK h x" using p by (simp add: delete_post_def)
  have nb: "addr h' i = addr h i" if "n \<le> i" "i < n + blen h n" "i \<notin> {n + 40..<n + 48}" for i
    using p that by (auto simp: delete_post_def)
  have c: "blen h' c = blen h c \<and> (\<forall>i. c \<le> i \<longrightarrow> i < c + blen h c \<longrightarrow> i \<notin> {n + 40..<n + 48} \<longrightarrow> addr h' i = addr h i)"
    if "IS_VALID_BLOCK h' c" for c
  proof (cases "c = n")
    case True
    have "get32 (addr h') n = get32 (addr h) n" by (rule st32.load_cong) (use nb b in auto)
    then show ?thesis using True nb by (simp add: blen_def)
  next
    case False
    then have k: "kept h h' c" using p that by (simp add: delete_post_def)
    have "4 \<le> blen h c" using v that hive_ok_valid(4)[OF h(1), of c] by simp
    then show ?thesis using k kept_blen[OF k] by (auto simp: kept_def)
  qed
  have "drops h h' (set (owned h n)) {n + 40..<n + 48}" using p v c by (auto simp: drops_def delete_post_def)
  with r that show ?thesis by blast
qed

text \<open>Blocks other than \<open>n\<close> and the freed ones do not notice a change of \<open>n\<close>.\<close>

lemma drops_others:
  assumes h: "hive_ok h" and d: "drops h h' F {a..<b}" and n: "IS_VALID_BLOCK h n" "n \<le> a" "b \<le> n + blen h n"
    and s: "IS_VALID_BLOCK h s" "s \<noteq> n" "s \<notin> F"
  shows "IS_VALID_BLOCK h' s \<and> kept h h' s"
  using drops_kept[OF d s(1,3)] blocks_apart[OF h s(1) n(1) s(2)] n(2,3) by fastforce

lemma delete_node_sk_post:
  assumes h: "hive_ok h" "writable h" and n: "IS_VALID_BLOCK h n" "80 \<le> blen h n"
    and S: "sk_ring h S" "n \<notin> S" and sk: "\<And>s. s \<in> set (sk_list h n) \<Longrightarrow> s \<in> S \<and> 0 < unat (refcount h s)"
  obtains h' where "delete_node_sk n h = (Ok (), h')"
    "drops h h' (S - sks_left h S (sk_list h n)) (sk_area S \<union> {n + 48..<n + 52})" "sks_dropped h S (sk_list h n) h'"
proof (cases "get32 (addr h) (n + 48) = 0xffffffff")
  case True
  have "rd32 h (n + 48) = Ok 0xffffffff" using True n hive_ok_valid(3)[OF h(1) n(1)] by simp
  then show ?thesis using True that[of h] drops_mono[OF drops_refl[OF h(1)]] S(1)
    by (simp add: delete_node_sk_def sbind_def sk_list_def del: rd_Ok)
next
  case False
  let ?w = "get32 (addr h) (n + 48)" and ?s = "node_sk h n"
  have rd: "rd32 h (n + 48) = Ok ?w" using n hive_ok_valid(3)[OF h(1) n(1)] by simp
  have l: "sk_list h n = [?s]" using False by (simp add: sk_list_def)
  then have s: "?s \<in> S" "0 < unat (refcount h ?s)" using sk by auto
  let ?F = "S - sks_left h S [?s]"
  obtain h1 where h1: "delete_sk ?s h = (Ok (), h1)" "drops h h1 ?F (sk_area S)" "sks_dropped h S [?s] h1"
    by (rule delete_sk_post[OF h S(1) s])
  have "n \<notin> ?F" using S(2) by simp
  then have n1: "IS_VALID_BLOCK h1 n" "n + 48 + 4 \<le> n + blen h1 n"
    using dropsD(3)[OF h1(2)] drops_block(1)[OF h1(2) n(1)] n by auto
  note ok1 = dropsD(1)[OF h1(2)]
  note w = drops_wr32[OF ok1 n1(1) _ n1(2), of "0xffffffff", simplified]
  let ?h = "h1\<lparr>addr := put32 (addr h1) (n + 48) 0xffffffff\<rparr>"
  have "delete_node_sk n h = (Ok (), ?h)"
    using rd False h1(1) w(1) by (simp add: delete_node_sk_def sbind_def node_sk_def del: rd_Ok)
  moreover have "drops h ?h ?F (sk_area S \<union> {n + 48..<n + 52})"
    using drops_trans[OF h1(2) w(2)] by (simp add: add.commute)
  moreover have "sks_dropped h S [?s] ?h"
  proof (rule sks_dropped_kept[OF h1(3)])
    fix x assume x: "x \<in> sks_left h S [?s]"
    have "IS_VALID_BLOCK h1 x" using x h1(3) by (auto simp: sks_dropped_def sk_ring_def sk_ok_def)
    moreover have "x \<noteq> n" using x S(2) sks_left_sub[of h S "[?s]"] by blast
    ultimately show "IS_VALID_BLOCK ?h x \<and> kept h1 ?h x"
      using drops_others[OF ok1 w(2) n1(1), of x] n1(2) by simp
  qed
  ultimately show ?thesis using l that by simp
qed

lemma delete_node_classname_post:
  assumes h: "hive_ok h" "writable h" and n: "IS_VALID_BLOCK h n" "80 \<le> blen h n"
    and c: "\<And>b. b \<in> set (class_blocks h n) \<Longrightarrow> IS_VALID_BLOCK h b \<and> b \<noteq> n"
  obtains h' where "delete_node_classname n h = (Ok (), h')" "drops h h' (set (class_blocks h n)) {n + 52..<n + 56}"
proof (cases "get32 (addr h) (n + 52) = 0xffffffff")
  case True
  have "rd32 h (n + 52) = Ok 0xffffffff" using True n hive_ok_valid(3)[OF h(1) n(1)] by simp
  then show ?thesis using True that[of h] drops_mono[OF drops_refl[OF h(1)]]
    by (simp add: delete_node_classname_def sbind_def class_blocks_def del: rd_Ok)
next
  case False
  let ?w = "get32 (addr h) (n + 52)" and ?b = "unat (get32 (addr h) (n + 52)) + 0x1000"
  have rd: "rd32 h (n + 52) = Ok ?w" using n hive_ok_valid(3)[OF h(1) n(1)] by simp
  have l: "class_blocks h n = [?b]" using False by (simp add: class_blocks_def)
  then have b: "IS_VALID_BLOCK h ?b" "?b \<noteq> n" using c[of ?b] by simp_all
  obtain h1 where h1: "mark_block_unused ?b h = (Ok (), h1)" "free_post h ?b h1"
    using mark_block_unused_post[OF h b(1)] by blast
  note d = drops_free[OF h(1) b(1) h1(2)]
  have "n \<notin> {?b}" using b(2) by simp
  then have n1: "IS_VALID_BLOCK h1 n" "n + 52 + 4 \<le> n + blen h1 n"
    using dropsD(3)[OF d] drops_block(1)[OF d n(1)] n by auto
  note w = drops_wr32[OF dropsD(1)[OF d] n1(1) _ n1(2), of "0xffffffff"]
  have "delete_node_classname n h = (Ok (), h1\<lparr>addr := put32 (addr h1) (n + 52) 0xffffffff\<rparr>)"
    using rd False h1(1) w(1) by (simp add: delete_node_classname_def sbind_def del: rd_Ok)
  then show ?thesis using drops_trans[OF d w(2)] l that by (simp add: add.commute)
qed

text \<open>The first half: the index records and the values are gone, the rest of the node is as it was.\<close>

lemma delete_contents_post:
  assumes h: "hive_ok h" "writable h" and w: "node_whole h n"
  obtains h1 h2 where "get_children h n GET_CHILDREN_NO_CHECK_NK = Ok (child_offsets h n @ [0], child_blocks h n @ [0])"
    "sfor_z mark_block_unused (child_blocks h n @ [0]) h = (Ok (), h1)" "delete_values n h1 = (Ok (), h2)"
    "drops h h2 (set (child_blocks h n) \<union> set (owned h n)) {n + 40..<n + 48}"
    "IS_VALID_BLOCK h2 n" "80 \<le> blen h2 n" "sk_list h2 n = sk_list h n" "class_blocks h2 n = class_blocks h n"
proof -
  let ?cb = "child_blocks h n" and ?ow = "owned h n"
  have ix: "index_ok h n" and o: "values_own h n" and d: "distinct (?cb @ ?ow)" "n \<notin> set ?cb \<union> set ?ow"
    and v: "\<And>b. b \<in> set ?cb \<union> set ?ow \<Longrightarrow> IS_VALID_BLOCK h b" using w by (auto simp: node_whole_def own_blocks_def)
  have vn: "IS_VALID_BLOCK h n" and bn: "80 \<le> blen h n" using ix by (auto simp: index_ok_def is_nk_def)
  have gc: "get_children h n GET_CHILDREN_NO_CHECK_NK = Ok (child_offsets h n @ [0], ?cb @ [0])"
    by (rule get_children_eq[OF h(1) ix]) simp
  have "distinct ?cb" "\<forall>b \<in> set ?cb. IS_VALID_BLOCK h b" using d v by auto
  then obtain h1 where h1: "sfor mark_block_unused ?cb h = (Ok (), h1)" "drops h h1 (set ?cb) {}"
    using drops_free_all[OF h] by blast
  have kb: "IS_VALID_BLOCK h1 b \<and> kept h h1 b" if b: "b \<in> set (n # ?ow)" for b
  proof -
    have "IS_VALID_BLOCK h b" "b \<notin> set ?cb" using b d v vn by auto
    from drops_kept[OF h1(2) this] show ?thesis by simp
  qed
  have vk: "values_own h1 n" "owned h1 n = ?ow" using values_kept(1,2)[OF o, of h1] kb by blast+
  have w1: "hive_ok h1" "writable h1" using dropsD[OF h1(2)] h(2) by auto
  obtain h2 where h2: "delete_values n h1 = (Ok (), h2)" "drops h1 h2 (set ?ow) {n + 40..<n + 48}"
    by (rule drops_delete_values[OF w1 vk(1), unfolded vk(2)])
  have d2: "drops h h2 (set ?cb \<union> set ?ow) {n + 40..<n + 48}" using drops_trans[OF h1(2) h2(2)] by simp
  have n2: "IS_VALID_BLOCK h2 n" "80 \<le> blen h2 n"
    using dropsD(3)[OF d2] drops_block(1)[OF d2 vn d(2)] vn bn d(2) by auto
  have "get32 (addr h2) (n + k) = get32 (addr h) (n + k)" if "48 \<le> k" "k + 4 \<le> 80" for k
    by (rule drops_get32[OF d2 vn d(2)]) (use bn that in auto)
  then have "sk_list h2 n = sk_list h n" "class_blocks h2 n = class_blocks h n"
    by (simp_all add: sk_list_def node_sk_def class_blocks_def)
  moreover have "0 \<notin> set ?cb" using v hive_ok_valid(1)[OF h(1), of 0] by auto
  then have "sfor_z mark_block_unused (?cb @ [0]) h = (Ok (), h1)" using h1(1) by (simp add: sfor_z_terminated)
  ultimately show ?thesis using that gc h2(1) d2 n2 by blast
qed

lemma delete_node_post:
  assumes h: "hive_ok h" "writable h" and w: "node_whole h n"
    and S: "sk_ring h S" "S \<inter> set (own_blocks h n) = {}"
    and sk: "\<And>s. s \<in> set (sk_list h n) \<Longrightarrow> s \<in> S \<and> 0 < unat (refcount h s)"
  obtains h' where "delete_node n name h = (Ok (), h')"
    "drops h h' (set (own_blocks h n) \<union> (S - sks_left h S (sk_list h n))) (sk_area S)" "sks_dropped h S (sk_list h n) h'"
proof -
  let ?F = "set (child_blocks h n) \<union> set (owned h n)" and ?cl = "class_blocks h n" and ?sk = "sk_list h n"
  let ?G = "S - sks_left h S ?sk"
  have vn: "IS_VALID_BLOCK h n" and bn: "80 \<le> blen h n" using w by (auto simp: node_whole_def index_ok_def is_nk_def)
  have cl: "\<And>b. b \<in> set ?cl \<Longrightarrow> IS_VALID_BLOCK h b \<and> b \<noteq> n \<and> b \<notin> ?F" and nF: "n \<notin> ?F"
    using w by (auto simp: node_whole_def own_blocks_def)
  have s: "IS_VALID_BLOCK h x" "x \<notin> ?F" "x \<noteq> n" "x \<notin> set ?cl" if "x \<in> S" for x
    using sk_ringD[OF S(1) that] S(2) that by (auto simp: own_blocks_def sk_ok_def)
  have nS: "n \<notin> S" using s(3) by blast
  obtain h1 h2 where c: "get_children h n GET_CHILDREN_NO_CHECK_NK = Ok (child_offsets h n @ [0], child_blocks h n @ [0])"
    "sfor_z mark_block_unused (child_blocks h n @ [0]) h = (Ok (), h1)" "delete_values n h1 = (Ok (), h2)"
    and d2: "drops h h2 ?F {n + 40..<n + 48}" and n2: "IS_VALID_BLOCK h2 n" "80 \<le> blen h2 n"
    and l2: "sk_list h2 n = ?sk" "class_blocks h2 n = ?cl" by (rule delete_contents_post[OF h w])
  have w2: "hive_ok h2" "writable h2" using dropsD[OF d2] h(2) by auto
  have "IS_VALID_BLOCK h2 x \<and> kept h h2 x" if "x \<in> S" for x
    by (rule drops_others[OF h(1) d2 vn]) (use bn s[OF that] in auto)
  note S2 = ring_kept[OF S(1) this]
  obtain h3 where h3: "delete_node_sk n h2 = (Ok (), h3)" "drops h2 h3 (S - sks_left h2 S ?sk) (sk_area S \<union> {n + 48..<n + 52})"
    "sks_dropped h2 S ?sk h3"
    using delete_node_sk_post[OF w2 n2 S2(1) nS] sk S2(2) unfolding l2 by auto
  have l: "sks_left h2 S ?sk = sks_left h S ?sk" by (rule sks_left_cong[OF S2(2)])
  have s3: "sks_dropped h S ?sk h3" by (rule sks_dropped_cong[OF h3(3) S2(2)])
  note d23 = h3(2)[unfolded l] and d3 = drops_trans[OF d2 h3(2)[unfolded l]]
  have w3: "hive_ok h3" "writable h3" using dropsD[OF d3] h(2) by auto
  have "n \<notin> ?G" using nS by simp
  then have n3: "IS_VALID_BLOCK h3 n" "80 \<le> blen h3 n" using dropsD(3)[OF d23] drops_block(1)[OF d23 n2(1)] n2 by auto
  have "i \<notin> sk_area S" if "n \<le> i" "i < n + blen h2 n" for i
    by (rule sk_area_apart[OF w2(1) _ n2(1) nS that]) (use sk_ringD[OF S2(1)] in blast)
  then have "get32 (addr h3) (n + 52) = get32 (addr h2) (n + 52)"
    using n2(2) nS by (intro drops_get32[OF d23 n2(1)]) auto
  then have l3: "class_blocks h3 n = ?cl" using l2(2) by (simp add: class_blocks_def)
  have "IS_VALID_BLOCK h3 b \<and> b \<noteq> n" if "b \<in> set ?cl" for b using cl[OF that] s(4)[of b] that dropsD(3)[OF d3, of b] by auto
  then obtain h4 where h4: "delete_node_classname n h3 = (Ok (), h4)" "drops h3 h4 (set ?cl) {n + 52..<n + 56}"
    using delete_node_classname_post[OF w3 n3] unfolding l3 by blast
  have w4: "hive_ok h4" "writable h4" using dropsD[OF h4(2)] w3(2) by auto
  have n4: "IS_VALID_BLOCK h4 n" using dropsD(3)[OF h4(2)] n3(1) cl by auto
  obtain h5 where h5: "mark_block_unused n h4 = (Ok (), h5)" "free_post h4 n h5" using mark_block_unused_post[OF w4 n4] by blast
  have d35: "drops h3 h5 (set ?cl \<union> {n}) {n + 52..<n + 56}" using drops_trans[OF h4(2) drops_free[OF w4(1) n4 h5(2)]] by simp
  have F: "?F \<union> ?G \<union> (set ?cl \<union> {n}) = set (own_blocks h n) \<union> ?G" by (auto simp: own_blocks_def)
  have "drops h h5 (set (own_blocks h n) \<union> ?G) (sk_area S)"
    by (rule drops_restrict[OF h(1) drops_trans[OF d3 d35, unfolded F]])
      (use vn bn in \<open>auto simp: own_blocks_def intro!: bexI[of _ n]\<close>)
  moreover have "sks_dropped h S ?sk h5"
  proof (rule sks_dropped_kept[OF s3])
    fix x assume x: "x \<in> sks_left h S ?sk"
    then have "x \<in> S" "IS_VALID_BLOCK h3 x" using s3 sks_left_sub[of h S ?sk] by (auto simp: sks_dropped_def sk_ring_def sk_ok_def)
    then show "IS_VALID_BLOCK h5 x \<and> kept h3 h5 x"
      using drops_others[OF w3(1) d35 n3(1), of x] s[of x] n3(2) by simp
  qed
  moreover have "delete_node n name h = (Ok (), h5)"
    using c h3(1) h4(1) h5(1) by (simp add: delete_node_def sbind_def)
  ultimately show ?thesis using that by blast
qed

section \<open>Visiting a node\<close>

definition conv_errs :: "'a result \<Rightarrow> bool" where
  "conv_errs r \<longleftrightarrow> (\<forall>e. r = Err e \<longrightarrow> e \<in> {EILSEQ, EINVAL, E2BIG})"

lemma utf16_decode_err: "conv_errs (utf16_decode bo xs n)"
proof (induction xs arbitrary: n rule: length_induct)
  case (1 xs)
  then have IH: "conv_errs (utf16_decode bo ys k)" if "length ys < length xs" for ys k using that by blast
  have em: "conv_errs (emit bs n (utf16_decode bo ys))" if "length ys < length xs" for bs ys
    using IH[OF that] by (auto simp: conv_errs_def emit_def rbind_Err)
  have b: "conv_errs (Ok [])" "conv_errs (Err EINVAL)" "conv_errs (Err EILSEQ)" by (simp_all add: conv_errs_def)
  show ?case
    by (cases "(bo, xs, n)" rule: utf16_decode.cases) (auto simp: em b Let_def split: list.split)
qed

lemma convert_err:
  assumes "length xs < 2 ^ 63" and "windows_utf16_to_utf8 xs = Err e"
  shows "e = EILSEQ \<or> e = EINVAL"
proof -
  have "conv_errs (fst (iconv ic xs n))" for ic n
    by (auto simp: iconv_def utf16_decode_err simp del: utf16_decode.simps split: byte_order.split list.split)
  then have ic: "e \<in> {EILSEQ, EINVAL, E2BIG}" if "fst (iconv ic xs n) = Err e" for ic n
    using that unfolding conv_errs_def by blast
  have c: "windows_utf16_to_utf8 xs = convert_loop (Suc (Suc 63)) Initial xs (length xs)"
    by (simp add: windows_utf16_to_utf8_def del: convert_loop.simps)
  obtain ic n where f: "fst (iconv ic xs n) = Err e" and "n = 2 * length xs \<or> e \<noteq> E2BIG"
    using assms(2) unfolding c convert_loop_two[OF assms(1)] by (auto simp: rbind_Err split: if_splits)
  then have "e \<noteq> E2BIG" using iconv_fits[of xs "2 * length xs" ic] by auto
  then show ?thesis using ic[OF f] by simp
qed

lemma multiple_err:
  "length p < 2 ^ 63 \<Longrightarrow> multiple_loop p = Err e \<Longrightarrow> e = EILSEQ \<or> e = EINVAL"
proof (induction p rule: multiple_loop.induct)
  case (1 p)
  have cv: "windows_utf16_to_utf8 (take n p) = Err e \<Longrightarrow> e = EILSEQ \<or> e = EINVAL" for n
    using convert_err[of "take n p"] "1.prems"(1) by simp
  have "length (drop n p) < 2 ^ 63" for n using "1.prems"(1) by simp
  with "1.IH" "1.prems"(2) cv show ?case
    by (subst (asm) multiple_loop.simps) (auto simp: Let_def rbind_Err split: if_splits)
qed

lemma value_readable:
  assumes h: "hive_ok h" and vk: "is_vk h v" and f: "value_fine h v" and d: "\<forall>b \<in> set (value_data h v). IS_VALID_BLOCK h b"
  obtains t l k m data where "hivex_value_type h v = Ok (t, l)" "hivex_value_key h v = Ok k"
    "hivex_value_value h v = Ok (t, m, data)" "length data < 2 ^ 63"
proof -
  note vb = is_vk_bounds[OF h vk]
  let ?t = "get32 (addr h) (v + 16)" and ?w = "get32 (addr h) (v + 8)" and ?d = "unat (get32 (addr h) (v + 12)) + 0x1000"
  have rd: "check_block h v id_vk EINVAL = Ok ()" "rd32 h (v + 8) = Ok ?w"
    "rd32 h (v + 12) = Ok (get32 (addr h) (v + 12))" "rd32 h (v + 16) = Ok ?t"
    using vk vb by (auto simp: is_vk_def)
  have t: "hivex_value_type h v = Ok (?t, unat (?w AND 0x7fffffff))"
    using rd by (simp add: hivex_value_type_def del: rd_Ok check_block_bid)
  have "\<exists>m data. hivex_value_value h v = Ok (?t, m, data)"
  proof (cases "?w AND 0x80000000 = 0")
    case True
    then have dv: "IS_VALID_BLOCK h ?d" using d by (simp add: value_data_def)
    note db = hive_ok_valid(3,4,7)[OF h dv]
    have "data_room (blen h ?d) = blen h ?d - 4" using db(2) hive_ok_blen_bound[OF h dv] by (intro data_room) simp_all
    then show ?thesis using True f dv db rd
      by (auto simp: hivex_value_value_def value_fine_def Let_def hive_simps simp del: rd_Ok check_block_bid)
  next
    case False
    then show ?thesis using f rd vb(2)
      by (auto simp: hivex_value_value_def value_fine_def Let_def rd_in simp del: rd_Ok check_block_bid)
  qed
  then obtain m data where v: "hivex_value_value h v = Ok (?t, m, data)" by blast
  from t hivex_value_key_eq[OF h vk] v value_value_length(2)[OF v] show ?thesis by (rule that)
qed

lemma delete_visitor_simps [simp]:
  "node_start delete_visitor = None" "node_end delete_visitor = Some (\<lambda>n name. on_handle (delete_node n name))"
  "value_string delete_visitor = None" "value_multiple_strings delete_visitor = None"
  "value_string_invalid_utf16 delete_visitor = None" "value_dword delete_visitor = None"
  "value_qword delete_visitor = None" "value_binary delete_visitor = None" "value_none delete_visitor = None"
  "value_other delete_visitor = None" "value_any delete_visitor = None"
  by (simp_all add: delete_visitor_def empty_visitor_def)

lemma visit_value_passes:
  assumes h: "hive_ok h" and vk: "is_vk h v" and f: "value_fine h v" and d: "\<forall>b \<in> set (value_data h v). IS_VALID_BLOCK h b"
  shows "visit_value delete_visitor False n v (h, ()) = (Ok True, (h, ()))"
proof -
  obtain t l k m data where r: "hivex_value_type h v = Ok (t, l)" "hivex_value_key h v = Ok k"
    "hivex_value_value h v = Ok (t, m, data)" "length data < 2 ^ 63" by (rule value_readable[OF h vk f d])
  have inv: "visit_invalid_utf16 delete_visitor n v t l k (h, ()) = (Ok True, (h, ()))"
    by (simp add: visit_invalid_utf16_def)
  have "no_fault (hivex_value_string h v)" "hivex_value_string h v = Err e \<Longrightarrow> e = EILSEQ \<or> e = EINVAL" for e
    using r(3,4) convert_no_fault[of "take j data" for j] convert_err[of "take j data" e for j]
    by (auto simp: hivex_value_string_def Let_def split: if_splits)
  then have s: "visit_string_value delete_visitor False n v t l k (h, ()) = (Ok True, (h, ()))"
    using inv by (cases "hivex_value_string h v") (auto simp: visit_string_value_def call_def)
  have "no_fault (hivex_value_multiple_strings h v)"
    "hivex_value_multiple_strings h v = Err e \<Longrightarrow> e = EILSEQ \<or> e = EINVAL" for e
    using r(3,4) multiple_loop_no_fault[of "take m data"] multiple_err[of "take m data" e]
    by (auto simp: hivex_value_multiple_strings_def split: if_splits)
  then have ms: "visit_multiple_value delete_visitor False n v t l k (h, ()) = (Ok True, (h, ()))"
    using inv by (cases "hivex_value_multiple_strings h v") (auto simp: visit_multiple_value_def call_def)
  have num: "num_or_minus1 (\<lambda>h. hivex_value_dword h v) (\<lambda>i. sret True) (h, ()) = (Ok True, (h, ()))"
    "num_or_minus1 (\<lambda>h. hivex_value_qword h v) (\<lambda>i. sret True) (h, ()) = (Ok True, (h, ()))"
    using r(3) by (auto simp: num_or_minus1_def hivex_value_dword_def hivex_value_qword_def Let_def)
  show ?thesis
    using r(1-3) s ms num by (auto simp: visit_value_def visit_typed_value_def or_bad_def call_def)
qed

lemma visit_values_pass:
  assumes "hive_ok h" and "\<forall>v \<in> set vs. is_vk h v \<and> value_fine h v \<and> (\<forall>b \<in> set (value_data h v). IS_VALID_BLOCK h b)"
    and "0 \<notin> set vs"
  shows "visit_values delete_visitor False n (vs @ [0]) (h, ()) = (Ok True, (h, ()))"
  using assms by (induction vs) (simp_all add: sbind_def visit_value_passes)

lemma visit_start_passes:
  assumes h: "hive_ok h" and w: "node_whole h n"
  shows "visit_start delete_visitor False n name (h, ()) = (Ok True, (h, ()))"
proof -
  have o: "values_own h n" and f: "\<forall>v \<in> set (value_offsets h n). value_fine h v" using w by (auto simp: node_whole_def)
  then have vo: "vallist_ok h n" by (simp add: values_own_def)
  have gv: "hivex_node_values h n = Ok (value_offsets h n @ [0])"
    using get_values_eq[OF h vo] by (simp add: hivex_node_values_def)
  have "value_data h v \<noteq> [] \<longrightarrow> set (value_data h v) \<subseteq> set (owned h n)" if "v \<in> set (value_offsets h n)" for v
    using that by (auto simp: owned_def owned_by_def)
  then have "\<forall>v \<in> set (value_offsets h n). is_vk h v \<and> value_fine h v \<and> (\<forall>b \<in> set (value_data h v). IS_VALID_BLOCK h b)"
    using o f by (fastforce simp: values_own_def)
  moreover have "0 \<notin> set (value_offsets h n)" using value_offsets_nonzero[of 0 h n] by auto
  ultimately show ?thesis
    using visit_values_pass[OF h] gv by (simp add: visit_start_def call_def or_bad_def)
qed

end
