(* ===== verification/Unlink.thy ===== *)
theory Unlink
  imports Delete_Nodes
begin

text \<open>
  The second half of \<^verbatim>\<open>hivex_node_delete_child\<close>: the link from the parent to the node is searched in
  the lf/lh-records of the parent's index and removed by moving the keys after it down by one.
  The list of children of the parent loses the node, and nothing else changes.
\<close>

section \<open>Moving keys down\<close>

lemma shift_keys_post:
  assumes h: "hive_ok h" and v: "IS_VALID_BLOCK h lf" and n: "a \<le> b" "16 + 8 * b \<le> blen h lf"
  shows "\<exists>m. sfor (copy_key lf lf) (map (\<lambda>i. (i, i + 1)) [a..<b]) h = (Ok (), h\<lparr>addr := m\<rparr>) \<and>
    (\<forall>i. i < lf + 8 + 8 * a \<or> lf + 8 + 8 * b \<le> i \<longrightarrow> m i = addr h i) \<and>
    (\<forall>i k. a \<le> i \<longrightarrow> i < b \<longrightarrow> k < 8 \<longrightarrow> m (lf + 8 + 8 * i + k) = addr h (lf + 16 + 8 * i + k))"
  using n
proof (induction b rule: dec_induct)
  case base
  then show ?case by (intro exI[of _ "addr h"]) simp
next
  case (step b)
  then obtain m where m: "sfor (copy_key lf lf) (map (\<lambda>i. (i, i + 1)) [a..<b]) h = (Ok (), h\<lparr>addr := m\<rparr>)"
    "\<And>i. i < lf + 8 + 8 * a \<or> lf + 8 + 8 * b \<le> i \<Longrightarrow> m i = addr h i"
    "\<And>i k. a \<le> i \<Longrightarrow> i < b \<Longrightarrow> k < 8 \<Longrightarrow> m (lf + 8 + 8 * i + k) = addr h (lf + 16 + 8 * i + k)"
    by auto
  let ?bs = "get_bytes m (lf + 16 + 8 * b) 8" and ?a = "lf + 8 + 8 * b"
  let ?m = "put_bytes m ?a ?bs"
  have "lf + 24 + 8 * b \<le> hsize h" using hive_ok_valid(3)[OF h v] step.prems by simp
  then have "rd_bytes (h\<lparr>addr := m\<rparr>) (lf + 16 + 8 * b) 8 = Ok ?bs" "wr_bytes ?a ?bs (h\<lparr>addr := m\<rparr>) = (Ok (), h\<lparr>addr := ?m\<rparr>)"
    by (simp_all add: wr_in)
  moreover have "lf + lf_keys + 8 * (b + 1) = lf + 16 + 8 * b" by simp
  ultimately have "copy_key lf lf (b, b + 1) (h\<lparr>addr := m\<rparr>) = (Ok (), h\<lparr>addr := ?m\<rparr>)"
    unfolding copy_key_def by (simp only: prod.case sbind_sget result.case) simp
  then have "sfor (copy_key lf lf) (map (\<lambda>i. (i, i + 1)) [a..<Suc b]) h = (Ok (), h\<lparr>addr := ?m\<rparr>)"
    using m(1) step.hyps by (simp add: sfor_append sbind_def)
  moreover have "?m i = addr h i" if "i < lf + 8 + 8 * a \<or> lf + 8 + 8 * Suc b \<le> i" for i
    using that m(2)[of i] step.hyps by (auto simp: put_bytes_outside)
  moreover have "?m (lf + 8 + 8 * i + k) = addr h (lf + 16 + 8 * i + k)" if "a \<le> i" "i < Suc b" "k < 8" for i k
  proof (cases "i = b")
    case True
    then show ?thesis using that m(2)[of "lf + 16 + 8 * b + k"] by (simp add: put_bytes_def)
  next
    case False
    then have "lf + 8 + 8 * i + k < ?a" using that by simp
    then show ?thesis using False that m(3)[of i k] by (simp add: put_bytes_outside)
  qed
  ultimately show ?case by (intro exI[of _ ?m] conjI allI impI) blast+
qed

section \<open>One record\<close>

lemma unlink_key_miss:
  assumes "\<And>j. j \<in> set js \<Longrightarrow> lf_key h lf j \<noteq> node \<and> lf_key h lf j < 2 ^ 32 \<and> lf + 16 + 8 * j \<le> hsize h"
  shows "unlink_key node lf nr (js @ ks) h = unlink_key node lf nr ks h"
  using assms
proof (induction js)
  case (Cons j js)
  let ?w = "get32 (addr h) (lf + 8 + 8 * j)"
  have j: "lf_key h lf j \<noteq> node" "lf_key h lf j < 2 ^ 32" "lf + 16 + 8 * j \<le> hsize h" using Cons.prems by auto
  have "rd32 h (lf + 8 + 8 * j) = Ok ?w" using j(3) by simp
  moreover have "unat (?w + 0x1000) \<noteq> node" using j(1,2) off_wrap[of ?w] by (simp add: lf_key_def)
  ultimately show ?case using Cons by (simp add: sbind_def del: rd_Ok)
qed simp

text \<open>A record that lists the node: the first entry with it is taken out.\<close>

lemma unlink_key_hit:
  assumes h: "hive_ok h" and ok: "lf_ok h lf" and node: "node \<in> set (lf_offsets h lf)"
    and b32: "\<And>c. c \<in> set (lf_offsets h lf) \<Longrightarrow> c < 2 ^ 32"
  obtains h' where "unlink_key node lf (lf_count h lf) [0..<lf_count h lf] h = (Ok True, h')" "wrote h h' lf"
    "lf_ok h' lf" "id_of h' lf = id_of h lf" "lf_offsets h' lf = remove1 node (lf_offsets h lf)"
proof -
  let ?n = "lf_count h lf" and ?k = "lf_key h lf"
  have v: "IS_VALID_BLOCK h lf" and bl: "8 + 8 * ?n \<le> blen h lf" using ok by (auto simp: lf_ok_def is_lf_def)
  note bh = hive_ok_valid(3)[OF h v]
  have "\<exists>j. j < ?n \<and> ?k j = node" using node by (auto simp: lf_offsets_def)
  then obtain j where j: "j < ?n" "?k j = node" and "\<forall>i < j. \<not> (i < ?n \<and> ?k i = node)"
    using exists_least_iff[of "\<lambda>j. j < ?n \<and> ?k j = node"] by blast
  then have first: "?k i \<noteq> node" if "i < j" for i using that by simp
  have lt: "?k i < 2 ^ 32" "lf + 16 + 8 * i \<le> hsize h" if "i < ?n" for i
    using that b32[of "?k i"] bl bh by (auto simp: lf_offsets_def)
  have js: "[0..<?n] = [0..<j] @ j # [Suc j..<?n]" using j(1) upt_add_eq_append[of 0 j "?n - j"] by (simp add: upt_conv_Cons)
  have "unlink_key node lf ?n [0..<?n] h = unlink_key node lf ?n (j # [Suc j..<?n]) h"
    unfolding js by (rule unlink_key_miss) (use first j(1) lt in auto)
  moreover have "j \<le> ?n - 1" "16 + 8 * (?n - 1) \<le> blen h lf" using bl j(1) by simp_all
  from shift_keys_post[OF h v this]
  obtain m where m: "sfor (copy_key lf lf) (map (\<lambda>i. (i, i + 1)) [j..<?n - 1]) h = (Ok (), h\<lparr>addr := m\<rparr>)"
    "\<And>i. i < lf + 8 + 8 * j \<or> lf + 8 + 8 * (?n - 1) \<le> i \<Longrightarrow> m i = addr h i"
    "\<And>i k. j \<le> i \<Longrightarrow> i < ?n - 1 \<Longrightarrow> k < 8 \<Longrightarrow> m (lf + 8 + 8 * i + k) = addr h (lf + 16 + 8 * i + k)"
    by blast
  let ?m = "put16 m (lf + 6) (of_nat (?n - 1))"
  let ?h = "h\<lparr>addr := ?m\<rparr>"
  have w: "get32 (addr h) (lf + 8 + 8 * j) + 0x1000 = of_nat node" "unat (get32 (addr h) (lf + 8 + 8 * j) + 0x1000) = node"
    using off_wrap[of "get32 (addr h) (lf + 8 + 8 * j)"] j lt(1)[OF j(1)] by (auto simp: lf_key_def)
  have "rd32 h (lf + 8 + 8 * j) = Ok (get32 (addr h) (lf + 8 + 8 * j))" using lt(2)[OF j(1)] by simp
  moreover have "wr16 (lf + 6) (of_nat (?n - 1)) (h\<lparr>addr := m\<rparr>) = (Ok (), ?h)" using bl bh by (simp add: wr_in)
  ultimately have r: "unlink_key node lf ?n [0..<?n] h = (Ok True, ?h)"
    using w(2) m(1) by (simp add: sbind_def del: rd_Ok)
  have wr: "wrote h ?h lf" by (rule wrote_body[OF h v]) (use m(2) j(1) bl in \<open>auto simp: put_frames\<close>)
  have "?n < 2 ^ 16" unfolding lf_count_def using unsigned_less[of "get16 (addr h) (lf + 6)", where 'a = nat] by simp
  then have c: "lf_count ?h lf = ?n - 1" by (simp add: lf_count_def unat_of_nat)
  have key: "lf_key ?h lf i = ?k (if i < j then i else Suc i)" if "i < ?n - 1" for i
  proof (cases "i < j")
    case True
    have "get32 ?m (lf + 8 + 8 * i) = get32 (addr h) (lf + 8 + 8 * i)"
      by (rule st32.load_cong) (use m(2) True in \<open>auto simp: put_frames\<close>)
    then show ?thesis using True by (simp add: lf_key_def)
  next
    case False
    have "get32 ?m (lf + 8 + 8 * i) = get32 (addr h) (lf + 16 + 8 * i)"
      by (rule get32_shift) (use m(3)[of i] False that in \<open>auto simp: put_frames\<close>)
    then show ?thesis using False by (simp add: lf_key_def add.commute add.left_commute)
  qed
  have id: "id_of ?h lf = id_of h lf"
    unfolding id_of_def by (rule get_bytes_cong) (use m(2) in \<open>auto simp: put_frames\<close>)
  have "lf_ok ?h lf"
    using ok wr wrote_blen[OF wr] id c bl by (auto simp: lf_ok_def is_lf_def wrote_def)
  moreover have "lf_offsets ?h lf = remove1 node (lf_offsets h lf)"
  proof -
    have n: "lf_offsets h lf ! j = node" "j < length (lf_offsets h lf)" using j by (simp_all add: lf_offsets_def)
    have "node \<notin> set (take j (lf_offsets h lf))" using j(1) first by (auto simp: lf_offsets_def take_map) metis
    then have "remove1 node (lf_offsets h lf) = take j (lf_offsets h lf) @ drop (Suc j) (lf_offsets h lf)"
      using id_take_nth_drop[OF n(2)] n(1) by (metis remove1_append remove1.simps(2))
    also have "\<dots> = lf_offsets ?h lf"
      by (rule nth_equalityI) (use j(1) c key in \<open>auto simp: lf_offsets_def nth_append\<close>)
    finally show ?thesis ..
  qed
  ultimately show ?thesis using that r wr id by blast
qed

section \<open>The index\<close>

lemma unlink_blocks_lf:
  assumes h: "hive_ok h" and ok: "lf_ok h b"
  shows "unlink_blocks node (b # bs) h =
    sbind (unlink_key node b (lf_count h b) [0..<lf_count h b]) (\<lambda>found. if found then sret () else unlink_blocks node bs) h"
proof -
  have v: "IS_VALID_BLOCK h b" and l: "id_of h b = id_lf \<or> id_of h b = id_lh" "8 \<le> blen h b"
    using ok by (auto simp: lf_ok_def is_lf_def)
  have "b \<noteq> 0" using hive_ok_valid(1)[OF h v] by auto
  moreover have "rd16 h (b + 6) = Ok (get16 (addr h) (b + 6))" using hive_ok_valid(3)[OF h v] l(2) by simp
  ultimately show ?thesis
    using is_lf_block_eq[OF h v] l(1) by (simp add: sbind_sget lf_count_def del: rd_Ok)
qed

lemma unlink_leaves:
  assumes h: "hive_ok h" and ok: "\<forall>b \<in> set ls. lf_ok h b" and node: "node \<in> set (concat (map (lf_offsets h) ls))"
    and b32: "\<And>c. c \<in> set (concat (map (lf_offsets h) ls)) \<Longrightarrow> c < 2 ^ 32"
  obtains pre b post h' where "ls = pre @ b # post" "unlink_blocks node (ls @ [0]) h = (Ok (), h')" "wrote h h' b"
    "lf_ok h' b" "id_of h' b = id_of h b" "lf_offsets h' b = remove1 node (lf_offsets h b)"
    "node \<notin> set (concat (map (lf_offsets h) pre))" "node \<in> set (lf_offsets h b)"
proof -
  have "\<exists>pre b post h'. ls = pre @ b # post \<and> unlink_blocks node (ls @ [0]) h = (Ok (), h') \<and> wrote h h' b \<and>
    lf_ok h' b \<and> id_of h' b = id_of h b \<and> lf_offsets h' b = remove1 node (lf_offsets h b) \<and>
    node \<notin> set (concat (map (lf_offsets h) pre)) \<and> node \<in> set (lf_offsets h b)"
    using ok node b32
  proof (induction ls)
    case (Cons b ls)
    have okb: "lf_ok h b" using Cons.prems by simp
    note eq = unlink_blocks_lf[OF h okb, of node "ls @ [0]"]
    show ?case
    proof (cases "node \<in> set (lf_offsets h b)")
      case True
      obtain h' where "unlink_key node b (lf_count h b) [0..<lf_count h b] h = (Ok True, h')" "wrote h h' b"
        "lf_ok h' b" "id_of h' b = id_of h b" "lf_offsets h' b = remove1 node (lf_offsets h b)"
        by (rule unlink_key_hit[OF h okb True]) (use Cons.prems(3) in auto)
      with eq True show ?thesis
        by (intro exI[of _ "[]"] exI[of _ b] exI[of _ ls] exI[of _ h']) (simp add: sbind_def del: unlink_blocks.simps)
    next
      case False
      have v: "IS_VALID_BLOCK h b" "8 + 8 * lf_count h b \<le> blen h b" using okb by (auto simp: lf_ok_def is_lf_def)
      have "lf_key h b j \<noteq> node \<and> lf_key h b j < 2 ^ 32 \<and> b + 16 + 8 * j \<le> hsize h" if "j \<in> set [0..<lf_count h b]" for j
      proof -
        have k: "lf_key h b j \<in> set (lf_offsets h b)" using that by (auto simp: lf_offsets_def)
        then have "lf_key h b j < 2 ^ 32" using Cons.prems(3)[of "lf_key h b j"] by simp
        then show ?thesis using k False that v(2) hive_ok_valid(3)[OF h v(1)] by auto
      qed
      from unlink_key_miss[of "[0..<lf_count h b]" h b node "lf_count h b" "[]", OF this]
      have "unlink_blocks node (b # ls @ [0]) h = unlink_blocks node (ls @ [0]) h"
        unfolding eq by (simp add: sbind_def del: unlink_blocks.simps)
      moreover obtain pre b' post h' where "ls = pre @ b' # post" "unlink_blocks node (ls @ [0]) h = (Ok (), h')" "wrote h h' b'"
        "lf_ok h' b'" "id_of h' b' = id_of h b'" "lf_offsets h' b' = remove1 node (lf_offsets h b')"
        "node \<notin> set (concat (map (lf_offsets h) pre))" "node \<in> set (lf_offsets h b')"
        using Cons False by auto
      ultimately show ?thesis using False
        by (intro exI[of _ "b # pre"] exI[of _ b'] exI[of _ post] exI[of _ h']) (simp del: unlink_blocks.simps)
    qed
  qed simp
  then show ?thesis using that by blast
qed

lemma unlink_skips_ri:
  assumes h: "hive_ok h" and ix: "index_ok h p" "nr_subkeys h p \<noteq> 0"
  shows "unlink_blocks node (child_blocks h p @ [0]) h = unlink_blocks node (leaf_blocks h p @ [0]) h"
proof -
  note f = index_okD[OF ix]
  have "index_block h p \<noteq> 0" using hive_ok_valid(1)[OF h f(5)] by auto
  then show ?thesis using is_lf_block_eq[OF h f(5)] by (simp add: f(4) sbind_sget)
qed

section \<open>The parent\<close>

lemma wrote_valid: "wrote h h' b \<Longrightarrow> IS_VALID_BLOCK h' x \<longleftrightarrow> IS_VALID_BLOCK h x" "wrote h h' b \<Longrightarrow> hive_ok h'"
  by (auto simp: wrote_def)

text \<open>The records of an index after one entry of a leaf was removed.\<close>

lemma unlink_form:
  assumes h: "hive_ok h" and ix: "index_ok h p" "nr_subkeys h p \<noteq> 0" and d: "distinct (child_blocks h p)" "p \<notin> set (child_blocks h p)"
    and w: "wrote h h1 b" and ls: "leaf_blocks h p = pre @ b # post"
    and b: "lf_ok h1 b" "id_of h1 b = id_of h b" "lf_offsets h1 b = remove1 node (lf_offsets h b)"
    and node: "node \<notin> set (concat (map (lf_offsets h) pre))" "node \<in> set (lf_offsets h b)"
  shows "index_form h1 p (leaf_blocks h p)" "\<forall>x \<in> set (leaf_blocks h p). lf_ok h1 x"
    "concat (map (lf_offsets h1) (leaf_blocks h p)) = remove1 node (child_offsets h p)"
    "is_nk h1 p" "nr_subkeys h1 p = nr_subkeys h p" "kept h h1 p" "IS_VALID_BLOCK h1 p"
proof -
  note f = index_okD[OF ix]
  let ?ix = "index_block h p"
  have nk: "is_nk h p" and vp: "IS_VALID_BLOCK h p" using ix(1) by (auto simp: index_ok_def is_nk_def)
  have vb: "IS_VALID_BLOCK h b" using f(3) ls by (auto simp: lf_ok_def is_lf_def)
  have bc: "b \<in> set (child_blocks h p)" using f(4) ls by simp
  have k: "kept h h1 c \<and> IS_VALID_BLOCK h1 c" if "IS_VALID_BLOCK h c" "c \<noteq> b" for c
    using wrote_kept[OF h w vb that] wrote_valid[OF w] that by simp
  have pb: "p \<noteq> b" using d(2) bc by auto
  then show kp: "kept h h1 p" "IS_VALID_BLOCK h1 p" using k[OF vp] by auto
  note pk = kept_nk[OF kp nk]
  show "is_nk h1 p" "nr_subkeys h1 p = nr_subkeys h p" using pk by auto
  have db: "distinct (leaf_blocks h p)" and ri: "id_of h ?ix = id_ri \<Longrightarrow> ?ix \<notin> set (leaf_blocks h p)"
    using d(1) unfolding f(4) by auto
  have o: "lf_ok h1 x \<and> lf_offsets h1 x = lf_offsets h x" if "x \<in> set (pre @ post)" for x
  proof -
    have "x \<noteq> b" "lf_ok h x" using that db f(3) unfolding ls by auto
    then have "kept h h1 x" "IS_VALID_BLOCK h1 x" "lf_ok h x" using k[of x] by (auto simp: lf_ok_def is_lf_def)
    then show ?thesis using kept_lf(1,2) by blast
  qed
  show "\<forall>x \<in> set (leaf_blocks h p). lf_ok h1 x" using o b(1) by (auto simp: ls)
  have mp: "map (lf_offsets h1) pre = map (lf_offsets h) pre" "map (lf_offsets h1) post = map (lf_offsets h) post"
    using o by auto
  show "concat (map (lf_offsets h1) (leaf_blocks h p)) = remove1 node (child_offsets h p)"
    unfolding ls child_offsets_def map_append list.map concat_append concat.simps mp b(3)
    using node by (simp add: remove1_append del: set_concat)
  show "index_form h1 p (leaf_blocks h p)"
  proof (cases "id_of h ?ix = id_ri")
    case True
    then have r: "leaf_blocks h p = ri_offsets h ?ix" "8 + 4 * length (ri_offsets h ?ix) \<le> blen h ?ix"
      using f(1) by (auto simp: index_form_def)
    have "?ix \<noteq> b" using ri[OF True] ls by auto
    note kx = k[OF f(5) this]
    show ?thesis using True r kept_ri[OF conjunct1[OF kx] r(2)] kx by (simp add: index_form_def pk(4))
  next
    case False
    then have "[?ix] = pre @ b # post" using f(1) ls by (simp add: index_form_def)
    then have "?ix = b" by (cases pre) auto
    then show ?thesis using False f(1) b(2) by (simp add: index_form_def pk(4))
  qed
qed

text \<open>The count in the parent goes down by one; its index stays as it was.\<close>

lemma recount_parent:
  assumes h: "hive_ok h" and nk: "is_nk h p" and nr: "nr_subkeys h p \<noteq> 0"
    and f: "index_form h p ls" "\<forall>x \<in> set ls. lf_ok h x" and v: "IS_VALID_BLOCK h (index_block h p)"
    and p: "p \<notin> set (index_block h p # ls)" and h': "h' = h\<lparr>addr := put32 (addr h) (p + 24) (get32 (addr h) (p + 24) - 1)\<rparr>"
  shows "wrote h h' p" "is_nk h' p" "nr_subkeys h' p = nr_subkeys h p - 1" "index_form h' p ls" "\<forall>x \<in> set ls. lf_ok h' x"
    "map (lf_offsets h') ls = map (lf_offsets h) ls" "index_block h' p = index_block h p"
    "id_of h' (index_block h p) = id_of h (index_block h p)"
proof -
  let ?ix = "index_block h p" and ?w = "get32 (addr h) (p + 24)"
  have vp: "IS_VALID_BLOCK h p" "80 \<le> blen h p" using nk by (auto simp: is_nk_def)
  show w: "wrote h h' p" unfolding h' by (rule wrote_body[OF h vp(1)]) (use vp(2) in \<open>auto simp: put_frames\<close>)
  have k: "kept h h' c \<and> IS_VALID_BLOCK h' c" if "IS_VALID_BLOCK h c" "c \<noteq> p" for c
    using wrote_kept[OF h w vp(1) that] wrote_valid(1)[OF w] that by simp
  show "is_nk h' p"
    using nk wrote_valid(1)[OF w] wrote_blen[OF w] by (simp add: is_nk_def id_of_def mem_frame h')
  show ib: "index_block h' p = ?ix" by (simp add: index_block_def mem_frame h')
  have "?w \<noteq> 0" using nr by (auto simp: nr_subkeys_def)
  then show "nr_subkeys h' p = nr_subkeys h p - 1" using unat_minus_one[of ?w] by (simp add: nr_subkeys_def h')
  have ne: "?ix \<noteq> p" using p by auto
  note kx = k[OF v ne]
  show id: "id_of h' ?ix = id_of h ?ix" by (rule wrote_id_of[OF h w vp(1) v ne])
  show "index_form h' p ls"
    using f(1) kept_ri[OF conjunct1[OF kx]] kx id by (auto simp: index_form_def ib split: if_splits)
  have "\<forall>x \<in> set ls. lf_ok h x \<and> IS_VALID_BLOCK h' x \<and> kept h h' x"
  proof
    fix x assume x: "x \<in> set ls"
    then have "x \<noteq> p" "lf_ok h x" using p f(2) by auto
    then show "lf_ok h x \<and> IS_VALID_BLOCK h' x \<and> kept h h' x" using k[of x] by (auto simp: lf_ok_def is_lf_def)
  qed
  from kept_lfs[OF this] show "\<forall>x \<in> set ls. lf_ok h' x" "map (lf_offsets h') ls = map (lf_offsets h) ls" .
qed

definition unlinked :: "hive \<Rightarrow> nat \<Rightarrow> nat \<Rightarrow> hive \<Rightarrow> bool" where
  "unlinked h p node h' \<longleftrightarrow>
     hive_ok h' \<and> same_handle h h' \<and> (\<forall>x. IS_VALID_BLOCK h' x \<longleftrightarrow> IS_VALID_BLOCK h x) \<and>
     (\<forall>c. IS_VALID_BLOCK h c \<longrightarrow> c \<noteq> p \<longrightarrow> c \<notin> set (child_blocks h p) \<longrightarrow> kept h h' c) \<and>
     same_but h h' p {p + 24..<p + 28} \<and> index_ok h' p \<and> set (child_blocks h' p) \<subseteq> set (child_blocks h p) \<and>
     distinct (child_blocks h' p) \<and> child_offsets h' p = remove1 node (child_offsets h p)"

text \<open>An index whose records list one child less, and whose parent counts one less.\<close>

lemma shrunk_index:
  assumes ix: "index_ok h p" and d: "distinct (child_blocks h p)" and node: "node \<in> set (child_offsets h p)"
    and nk: "is_nk h' p" and nr: "nr_subkeys h' p = nr_subkeys h p - 1" and f: "index_form h' p (leaf_blocks h p)"
    and l: "\<forall>x \<in> set (leaf_blocks h p). lf_ok h' x" and ib: "index_block h' p = index_block h p"
    and id: "id_of h' (index_block h p) = id_of h (index_block h p)"
    and co: "concat (map (lf_offsets h') (leaf_blocks h p)) = remove1 node (child_offsets h p)"
  shows "index_ok h' p" "child_offsets h' p = remove1 node (child_offsets h p)"
    "set (child_blocks h' p) \<subseteq> set (child_blocks h p)" "distinct (child_blocks h' p)"
proof -
  have n: "nr_subkeys h p = length (child_offsets h p)" and ne: "nr_subkeys h p \<noteq> 0" using ix node by (auto simp: index_ok_def)
  have ln: "length (remove1 node (child_offsets h p)) = nr_subkeys h' p" using nr n node by (simp add: length_remove1)
  have mx: "nr_subkeys h' p \<le> HIVEX_MAX_SUBKEYS" using nr ix by (auto simp: index_ok_def)
  have "index_ok h' p \<and> child_offsets h' p = remove1 node (child_offsets h p) \<and>
      set (child_blocks h' p) \<subseteq> set (child_blocks h p) \<and> distinct (child_blocks h' p)"
  proof (cases "nr_subkeys h' p = 0")
    case True
    have "remove1 node (child_offsets h p) = []" using ln True by (metis length_0_conv)
    moreover have "leaf_blocks h' p = []" "child_blocks h' p = []" using True by (simp_all add: leaf_blocks_def child_blocks_def)
    moreover from this have "child_offsets h' p = []" by (simp add: child_offsets_def)
    ultimately show ?thesis using nk True by (simp add: index_ok_def)
  next
    case False
    note g = index_formD[OF f nk _ False mx l, unfolded co ln, OF refl]
    have "child_blocks h' p = child_blocks h p"
      unfolding index_okD(4)[OF ix ne] index_okD(4)[OF g(1) False] g(2) ib id by simp
    then show ?thesis using g d by simp
  qed
  then show "index_ok h' p" "child_offsets h' p = remove1 node (child_offsets h p)"
    "set (child_blocks h' p) \<subseteq> set (child_blocks h p)" "distinct (child_blocks h' p)" by auto
qed

lemma unlink_parent:
  assumes h: "hive_ok h" and ix: "index_ok h p" and d: "distinct (child_blocks h p)" "p \<notin> set (child_blocks h p)"
    and node: "node \<in> set (child_offsets h p)" and b32: "\<And>c. c \<in> set (child_offsets h p) \<Longrightarrow> c < 2 ^ 32"
  obtains h1 w h2 where "unlink_blocks node (child_blocks h p @ [0]) h = (Ok (), h1)" "rd32 h1 (p + 24) = Ok w"
    "wr32 (p + 24) (w - 1) h1 = (Ok (), h2)" "unlinked h p node h2"
proof -
  have ne: "nr_subkeys h p \<noteq> 0" using ix node by (auto simp: index_ok_def)
  note f = index_okD[OF ix ne]
  obtain pre b post h1 where ls: "leaf_blocks h p = pre @ b # post" and r: "unlink_blocks node (leaf_blocks h p @ [0]) h = (Ok (), h1)"
    and w: "wrote h h1 b" and b: "lf_ok h1 b" "id_of h1 b = id_of h b" "lf_offsets h1 b = remove1 node (lf_offsets h b)"
      "node \<notin> set (concat (map (lf_offsets h) pre))" "node \<in> set (lf_offsets h b)"
    by (rule unlink_leaves[OF h f(3)]) (use node b32 in \<open>auto simp: child_offsets_def\<close>)
  note u = unlink_form[OF h ix ne d w ls b]
  have vb: "IS_VALID_BLOCK h b" "b \<in> set (child_blocks h p)" using f(3,4) ls by (auto simp: lf_ok_def is_lf_def)
  note h1 = wrote_valid(2)[OF w]
  let ?w = "get32 (addr h1) (p + 24)"
  let ?h = "h1\<lparr>addr := put32 (addr h1) (p + 24) (?w - 1)\<rparr>"
  have ib: "index_block h1 p = index_block h p" using kept_nk(4)[OF u(6,7)] ix by (simp add: index_ok_def)
  have id1: "id_of h1 (index_block h p) = id_of h (index_block h p)"
    using b(2) wrote_id_of[OF h w vb(1) f(5)] by (cases "index_block h p = b") simp_all
  have "index_block h p \<in> set (child_blocks h p)" using ne by (simp add: child_blocks_def)
  then have "IS_VALID_BLOCK h1 (index_block h1 p)" "p \<notin> set (index_block h1 p # leaf_blocks h p)" "nr_subkeys h1 p \<noteq> 0"
    using f(4,5) wrote_valid(1)[OF w] d(2) ne u(5) unfolding ib by auto
  note q = recount_parent[OF h1 u(4) this(3) u(1,2) this(1,2) refl]
  have co: "concat (map (lf_offsets ?h) (leaf_blocks h p)) = remove1 node (child_offsets h p)" unfolding q(6) by (rule u(3))
  note g = shrunk_index[OF ix d(1) node q(2) _ q(4,5) _ _ co, unfolded q(3,7,8)[unfolded ib] u(5) id1 ib, OF refl refl]
  have "kept h ?h c" if c: "IS_VALID_BLOCK h c" "c \<noteq> p" "c \<notin> set (child_blocks h p)" for c
  proof -
    have "c \<noteq> b" using c vb(2) by auto
    then have "kept h h1 c" "IS_VALID_BLOCK h1 c" using wrote_kept[OF h w vb(1) c(1)] wrote_valid(1)[OF w] c(1) by auto
    moreover have "kept h1 ?h c" by (rule wrote_kept[OF h1 q(1) u(7) calculation(2) c(2)])
    ultimately show ?thesis using hive_ok_valid(4)[OF h c(1)] kept_blen[of h h1 c] by (auto simp: kept_def)
  qed
  moreover have "blen h1 p = blen h p" "p + 28 \<le> hsize h1"
    using kept_blen[OF u(6)] hive_ok_valid(3)[OF h1 u(7)] ix u(4) by (auto simp: index_ok_def is_nk_def)
  moreover from this have "same_but h ?h p {p + 24..<p + 28}"
    using u(6,7) wrote_valid(1)[OF q(1)] wrote_blen[OF q(1)] by (auto simp: same_but_def kept_def put_frames)
  moreover have "same_handle h ?h" using w q(1) by (auto simp: wrote_def intro: same_handle_trans)
  ultimately have "unlinked h p node ?h"
    using wrote_valid[OF w] wrote_valid[OF q(1)] g by (simp add: unlinked_def)
  moreover have "rd32 h1 (p + 24) = Ok ?w" "wr32 (p + 24) (?w - 1) h1 = (Ok (), ?h)"
    using \<open>p + 28 \<le> hsize h1\<close> by (simp_all add: wr_in)
  ultimately show ?thesis using that r unlink_skips_ri[OF h ix ne] by metis
qed

end
