(* ===== verification/Delete_Child.thy ===== *)
theory Delete_Child
  imports Delete_Tree Unlink
begin

text \<open>
  The theorem about \<^verbatim>\<open>hivex_node_delete_child\<close>, from its two halves: the visitor that deletes a tree of
  nodes from the leaves up (\<open>Delete_Tree\<close>), and the removal of the link from the parent (\<open>Unlink\<close>).

  \<open>deletable h S ns\<close> says that the nodes \<open>ns\<close> own their records and share none, and that the security
  records they refer to are among those of the rings \<open>S\<close>; \<open>deleted h h' S ns\<close> is what deleting them
  does: their blocks go, and with them the security records that nothing refers to any more.
  A tree of nodes is the datatype \<open>ktree\<close>, with the order of its nodes the one they are deleted in;
  the traversal is followed by induction on its fuel, of which the number of nodes is enough.
\<close>

section \<open>Sets of nodes that can be deleted\<close>

definition node_blocks :: "hive \<Rightarrow> nat list \<Rightarrow> nat list" where
  "node_blocks h ns = concat (map (own_blocks h) ns)"

definition sks_of :: "hive \<Rightarrow> nat list \<Rightarrow> nat list" where
  "sks_of h ns = concat (map (sk_list h) ns)"

text \<open>
  The nodes \<open>ns\<close> are whole, share no blocks, and the security records they refer to are in \<open>S\<close>, not
  among their blocks, and count at least these references.
\<close>

definition deletable :: "hive \<Rightarrow> nat set \<Rightarrow> nat list \<Rightarrow> bool" where
  "deletable h S ns \<longleftrightarrow>
     (\<forall>n \<in> set ns. node_whole h n) \<and> distinct (node_blocks h ns) \<and> sk_ring h S \<and> S \<inter> set (node_blocks h ns) = {} \<and>
     (\<forall>s \<in> set (sks_of h ns). s \<in> S \<and> count_list (sks_of h ns) s \<le> unat (refcount h s))"

text \<open>What goes: the blocks of the nodes, and the security records of \<open>S\<close> with no reference left.\<close>

definition gone :: "hive \<Rightarrow> nat set \<Rightarrow> nat list \<Rightarrow> nat set" where
  "gone h S ns = set (node_blocks h ns) \<union> (S - sks_left h S (sks_of h ns))"

definition deleted :: "hive \<Rightarrow> hive \<Rightarrow> nat set \<Rightarrow> nat list \<Rightarrow> bool" where
  "deleted h h' S ns \<longleftrightarrow> drops h h' (gone h S ns) (sk_area S) \<and> sks_dropped h S (sks_of h ns) h'"

lemma node_blocks_simps [simp]:
  "node_blocks h [] = []" "node_blocks h (ns @ ms) = node_blocks h ns @ node_blocks h ms" "node_blocks h [n] = own_blocks h n"
  "sks_of h [] = []" "sks_of h (ns @ ms) = sks_of h ns @ sks_of h ms" "sks_of h [n] = sk_list h n"
  by (simp_all add: node_blocks_def sks_of_def)

lemma own_self: "n \<in> set (own_blocks h n)"
  by (simp add: own_blocks_def)

lemma nodes_in_blocks: "n \<in> set ns \<Longrightarrow> n \<in> set (node_blocks h ns)"
  using own_self[of n h] by (auto simp: node_blocks_def)

lemma distinct_nodes: "distinct (node_blocks h ns) \<Longrightarrow> distinct ns"
proof (induction ns)
  case (Cons n ns)
  then show ?case using own_self[of n h] nodes_in_blocks[of n ns h] by (auto simp: node_blocks_def)
qed simp

lemma deletableD:
  assumes "deletable h S ns"
  shows "n \<in> set ns \<Longrightarrow> node_whole h n" "b \<in> set (node_blocks h ns) \<Longrightarrow> IS_VALID_BLOCK h b"
    "n \<in> set ns \<Longrightarrow> IS_VALID_BLOCK h n" "sk_ring h S" "S \<inter> set (node_blocks h ns) = {}" "distinct ns"
    "s \<in> S \<Longrightarrow> sk_ok h s"
  using assms nodes_in_blocks[of n ns h] distinct_nodes[of h ns]
  by (auto simp: deletable_def sk_ring_def node_blocks_def node_whole_def)

lemma deletable_append:
  assumes "deletable h S (ns @ ms)"
  shows "deletable h S ns" "deletable h S ms"
proof -
  have "s \<in> S \<and> count_list (sks_of h ns) s + count_list (sks_of h ms) s \<le> unat (refcount h s)"
    if "s \<in> set (sks_of h ns) \<union> set (sks_of h ms)" for s
    using assms that by (auto simp: deletable_def)
  then have "s \<in> S" "count_list (sks_of h ns) s \<le> unat (refcount h s)" "count_list (sks_of h ms) s \<le> unat (refcount h s)"
    if "s \<in> set (sks_of h ns) \<union> set (sks_of h ms)" for s
    using that add_leD1 add_leD2 by blast+
  then show "deletable h S ns" "deletable h S ms" using assms by (auto simp: deletable_def)
qed

lemma deleted_refl: "hive_ok h \<Longrightarrow> sk_ring h S \<Longrightarrow> deleted h h S []"
  using drops_mono[OF drops_refl] by (simp add: deleted_def gone_def)

lemma deletedD:
  assumes "deleted h h' S ns"
  shows "drops h h' (gone h S ns) (sk_area S)" "hive_ok h'" "writable h' = writable h" "sks_dropped h S (sks_of h ns) h'"
  using assms dropsD[of h h'] by (auto simp: deleted_def)

text \<open>Blocks that are neither freed nor security records keep their bytes.\<close>

lemma deleted_kept:
  assumes h: "hive_ok h" and d: "deletable h S ns" and e: "deleted h h' S ns"
    and b: "IS_VALID_BLOCK h b" "b \<notin> set (node_blocks h ns)" "b \<notin> S"
  shows "IS_VALID_BLOCK h' b \<and> kept h h' b"
proof -
  have "i \<notin> sk_area S" if "b \<le> i" "i < b + blen h b" for i
    by (rule sk_area_apart[OF h _ b(1,3) that]) (use deletableD(7)[OF d] in blast)
  moreover have "b \<notin> gone h S ns" using b by (simp add: gone_def)
  ultimately show ?thesis using drops_kept[OF deletedD(1)[OF e] b(1)] by blast
qed

text \<open>A record that is still needed is still there, and counts what is left.\<close>

lemma needed_sk:
  assumes d: "deletable h S (ns @ ms)" and e: "deleted h h' S ns" and s: "s \<in> set (sks_of h ms)"
  shows "s \<in> sks_left h S (sks_of h ns)" "count_list (sks_of h ms) s \<le> unat (refcount h' s)"
proof -
  let ?a = "count_list (sks_of h ns) s"
  have c: "s \<in> S" "?a + count_list (sks_of h ms) s \<le> unat (refcount h s)" using d s by (auto simp: deletable_def)
  have "count_list (sks_of h ms) s \<noteq> 0" using s by (simp add: count_list_0_iff)
  then show l: "s \<in> sks_left h S (sks_of h ns)" using c by (auto simp: sks_left_def)
  then have "refcount h' s = refcount h s - of_nat ?a" using deletedD(4)[OF e] by (simp add: sks_dropped_def)
  then show "count_list (sks_of h ms) s \<le> unat (refcount h' s)" using count_sub[of ?a "refcount h s"] c(2) by simp
qed

lemma deleted_rest:
  assumes h: "hive_ok h" and d: "deletable h S (ns @ ms)" and e: "deleted h h' S ns"
  shows "m \<in> set ms \<Longrightarrow> node_whole h' m \<and> own_blocks h' m = own_blocks h m \<and> child_offsets h' m = child_offsets h m \<and> sk_list h' m = sk_list h m"
    "node_blocks h' ms = node_blocks h ms" "sks_of h' ms = sks_of h ms" "deletable h' (sks_left h S (sks_of h ns)) ms"
proof -
  have m: "node_whole h' m \<and> own_blocks h' m = own_blocks h m \<and> child_offsets h' m = child_offsets h m \<and> sk_list h' m = sk_list h m"
    if m: "m \<in> set ms" for m
  proof -
    have "IS_VALID_BLOCK h' b \<and> kept h h' b" if b: "b \<in> set (own_blocks h m)" for b
    proof (rule deleted_kept[OF h deletable_append(1)[OF d] e])
      have "b \<in> set (node_blocks h ms)" using b m by (auto simp: node_blocks_def)
      then show "IS_VALID_BLOCK h b" "b \<notin> set (node_blocks h ns)" "b \<notin> S"
        using deletableD(2)[OF d, of b] d by (auto simp: deletable_def)
    qed
    from node_kept[OF deletableD(1)[OF d, of m] this] m show ?thesis by simp
  qed
  then show "m \<in> set ms \<Longrightarrow> node_whole h' m \<and> own_blocks h' m = own_blocks h m \<and> child_offsets h' m = child_offsets h m \<and> sk_list h' m = sk_list h m" .
  show bs: "node_blocks h' ms = node_blocks h ms" "sks_of h' ms = sks_of h ms"
    unfolding node_blocks_def sks_of_def using m by (auto intro!: arg_cong[where f = concat] map_cong)
  have "sks_left h S (sks_of h ns) \<inter> set (node_blocks h ms) = {}" using deletableD(5)[OF d] sks_left_sub[of h S] by auto
  moreover have "sk_ring h' (sks_left h S (sks_of h ns))" using deletedD(4)[OF e] by (simp add: sks_dropped_def)
  ultimately show "deletable h' (sks_left h S (sks_of h ns)) ms"
    using m d needed_sk[OF d e] unfolding deletable_def bs by auto
qed

lemma deleted_trans:
  assumes h: "hive_ok h" and d: "deletable h S (ns @ ms)" and e: "deleted h h1 S ns" "deleted h1 h2 (sks_left h S (sks_of h ns)) ms"
  shows "deleted h h2 S (ns @ ms)"
proof -
  let ?T = "sks_left h S (sks_of h ns)"
  note r = deleted_rest(2,3)[OF h d e(1)]
  have c: "count_list (sks_of h ns @ sks_of h ms) s \<le> unat (refcount h s)" if "s \<in> set (sks_of h ns @ sks_of h ms)" for s
    using d that by (auto simp: deletable_def)
  have l: "sks_left h1 ?T (sks_of h ms) = sks_left h S (sks_of h ns @ sks_of h ms)"
    using deletedD(4)[OF e(1)] c by (rule sks_left_append)
  have "gone h S ns \<union> gone h1 ?T ms = gone h S (ns @ ms)"
    using sks_left_sub[of h S "sks_of h ns"] sks_left_sub[of h1 ?T "sks_of h ms"] by (auto simp: gone_def r l)
  moreover have "sk_area S \<union> sk_area ?T = sk_area S" using sk_area_mono[OF sks_left_sub] by blast
  ultimately have "drops h h2 (gone h S (ns @ ms)) (sk_area S)"
    using drops_trans[OF deletedD(1)[OF e(1)] deletedD(1)[OF e(2)]] by simp
  moreover have "sks_dropped h S (sks_of h (ns @ ms)) h2"
    using sks_dropped_append[OF deletedD(4)[OF e(1)] deletedD(4)[OF e(2)[unfolded r]]] c by (simp add: r)
  ultimately show ?thesis by (simp add: deleted_def)
qed

lemma deleted_one:
  assumes h: "hive_ok h" "writable h" and d: "deletable h S [n]"
  obtains h' where "delete_node n name h = (Ok (), h')" "deleted h h' S [n]"
proof -
  have "0 < unat (refcount h s) \<and> s \<in> S" if "s \<in> set (sk_list h n)" for s
    using d that count_list_0_iff[of "sk_list h n" s] by (fastforce simp: deletable_def)
  then obtain h' where "delete_node n name h = (Ok (), h')"
    "drops h h' (set (own_blocks h n) \<union> (S - sks_left h S (sk_list h n))) (sk_area S)" "sks_dropped h S (sk_list h n) h'"
    using delete_node_post[OF h, of n S name] deletableD(1,4,5)[OF d] by auto
  then show ?thesis using that by (simp add: deleted_def gone_def)
qed

section \<open>Deleting a tree\<close>

datatype ktree = KNode (node_of: nat) (subtrees: "ktree list")

text \<open>The nodes of a tree in the order they are deleted in: a node after its children.\<close>

primrec nodes :: "ktree \<Rightarrow> nat list" where
  "nodes (KNode n ts) = concat (map nodes ts) @ [n]"

fun tree_at :: "hive \<Rightarrow> ktree \<Rightarrow> bool" where
  "tree_at h (KNode n ts) \<longleftrightarrow> child_offsets h n = map node_of ts \<and> (\<forall>t \<in> set ts. tree_at h t)"

lemma tree_at_cong:
  "(\<And>n. n \<in> set (nodes t) \<Longrightarrow> child_offsets h' n = child_offsets h n) \<Longrightarrow> tree_at h' t = tree_at h t"
  by (induction h t rule: tree_at.induct) auto

definition marked :: "bitmap \<Rightarrow> nat list \<Rightarrow> bool" where
  "marked u ns \<longleftrightarrow> (\<forall>n \<in> set ns. n div 4 < bitmap_slots u \<and> BITMAP_TST u n)"

definition unmarks :: "bitmap \<Rightarrow> bitmap \<Rightarrow> nat list \<Rightarrow> bool" where
  "unmarks u u' ns \<longleftrightarrow>
     bitmap_slots u' = bitmap_slots u \<and> (\<forall>x. x mod 4 = 0 \<longrightarrow> x \<notin> set ns \<longrightarrow> BITMAP_TST u' x = BITMAP_TST u x)"

lemma unmarks_marked:
  "unmarks u u' ns \<Longrightarrow> marked u ms \<Longrightarrow> set ns \<inter> set ms = {} \<Longrightarrow> \<forall>m \<in> set ms. m mod 4 = 0 \<Longrightarrow> marked u' ms"
  unfolding unmarks_def marked_def by (metis IntI empty_iff)

definition forest_gone :: "(nat \<Rightarrow> (unit vstate \<times> bitmap, unit) op) \<Rightarrow> ktree list \<Rightarrow> bool" where
  "forest_gone visit ts \<longleftrightarrow>
     (\<forall>h S u. hive_ok h \<longrightarrow> writable h \<longrightarrow> (\<forall>t \<in> set ts. tree_at h t) \<longrightarrow> deletable h S (concat (map nodes ts)) \<longrightarrow>
        marked u (concat (map nodes ts)) \<longrightarrow>
        (\<exists>h' u'. sfor visit (map node_of ts) ((h, ()), u) = (Ok (), ((h', ()), u')) \<and>
           deleted h h' S (concat (map nodes ts)) \<and> unmarks u u' (concat (map nodes ts))))"

lemma aligned_nodes: "hive_ok h \<Longrightarrow> deletable h S ns \<Longrightarrow> n \<in> set ns \<Longrightarrow> n mod 4 = 0"
  using deletableD(3)[of h S ns n] by (simp add: IS_VALID_BLOCK_def)

lemma forest_gone_Cons:
  assumes t: "forest_gone visit [t]" and ts: "forest_gone visit ts"
  shows "forest_gone visit (t # ts)"
  unfolding forest_gone_def
proof (intro allI impI)
  fix h S u
  let ?a = "nodes t" and ?b = "concat (map nodes ts)"
  assume h: "hive_ok h" "writable h" and at: "\<forall>t \<in> set (t # ts). tree_at h t"
    and d': "deletable h S (concat (map nodes (t # ts)))" and m: "marked u (concat (map nodes (t # ts)))"
  have d: "deletable h S (?a @ ?b)" using d' by simp
  have "deletable h S (concat (map nodes [t]))" "marked u (concat (map nodes [t]))" "\<forall>x \<in> set [t]. tree_at h x"
    using deletable_append(1)[OF d] m at by (auto simp: marked_def)
  from t[unfolded forest_gone_def, rule_format, OF h _ this(1,2)] this(3)
  obtain h1 u1 where r1: "sfor visit (map node_of [t]) ((h, ()), u) = (Ok (), ((h1, ()), u1))"
    and e1: "deleted h h1 S ?a" and u1: "unmarks u u1 ?a" by auto
  note rest = deleted_rest[OF h(1) d e1]
  have w1: "hive_ok h1" "writable h1" using deletedD[OF e1] h(2) by auto
  have "\<forall>x \<in> set ts. tree_at h1 x"
  proof
    fix x assume x: "x \<in> set ts"
    have "child_offsets h1 n = child_offsets h n" if "n \<in> set (nodes x)" for n
      using rest(1)[of n] that x by auto
    then have "tree_at h1 x = tree_at h x" by (rule tree_at_cong)
    then show "tree_at h1 x" using at x by simp
  qed
  moreover have "marked u1 ?b"
  proof (rule unmarks_marked[OF u1])
    show "marked u ?b" using m by (simp add: marked_def)
    show "set ?a \<inter> set ?b = {}" using deletableD(6)[OF d] by auto
    show "\<forall>m \<in> set ?b. m mod 4 = 0" using aligned_nodes[OF h(1) deletable_append(2)[OF d]] by blast
  qed
  ultimately obtain h2 u2 where r2: "sfor visit (map node_of ts) ((h1, ()), u1) = (Ok (), ((h2, ()), u2))"
    and e2: "deleted h1 h2 (sks_left h S (sks_of h ?a)) ?b" and u2: "unmarks u1 u2 ?b"
    using ts[unfolded forest_gone_def, rule_format, OF w1 _ rest(4)] by blast
  have "sfor visit (map node_of (t # ts)) ((h, ()), u) = (Ok (), ((h2, ()), u2))"
    using r1 r2 by (auto simp: sbind_def split: prod.splits result.splits)
  moreover have "deleted h h2 S (?a @ ?b)" by (rule deleted_trans[OF h(1) d e1 e2])
  moreover have "unmarks u u2 (?a @ ?b)" using u1 u2 by (auto simp: unmarks_def)
  ultimately show "\<exists>h' u'. sfor visit (map node_of (t # ts)) ((h, ()), u) = (Ok (), ((h', ()), u')) \<and>
      deleted h h' S (concat (map nodes (t # ts))) \<and> unmarks u u' (concat (map nodes (t # ts)))" by auto
qed

lemma forest_gone_all: "(\<And>t. t \<in> set ts \<Longrightarrow> forest_gone visit [t]) \<Longrightarrow> forest_gone visit ts"
proof (induction ts)
  case Nil
  then show ?case using deleted_refl by (fastforce simp: forest_gone_def unmarks_def deletable_def)
next
  case (Cons t ts)
  then show ?case using forest_gone_Cons[of visit t ts] by simp
qed

lemma visit_node_gone:
  assumes ts: "forest_gone (hivex__visit_node k delete_visitor False) ts" and h: "hive_ok h" "writable h"
    and at: "tree_at h (KNode n ts)" and d: "deletable h S (nodes (KNode n ts))" and m: "marked u (nodes (KNode n ts))"
  obtains h' u' where "hivex__visit_node (Suc k) delete_visitor False n ((h, ()), u) = (Ok (), ((h', ()), u'))"
    "deleted h h' S (nodes (KNode n ts))" "unmarks u u' (nodes (KNode n ts))"
proof -
  let ?b = "concat (map nodes ts)" and ?u = "BITMAP_CLR u n"
  have d: "deletable h S (?b @ [n])" using d by simp
  have w: "node_whole h n" and v: "\<And>x. x \<in> set (?b @ [n]) \<Longrightarrow> IS_VALID_BLOCK h x" using deletableD(1,3)[OF d] by auto
  have al: "x mod 4 = 0" if "x \<in> set (?b @ [n])" for x using aligned_nodes[OF h(1) d that] .
  have ix: "index_ok h n" and nk: "is_nk h n" using w by (auto simp: node_whole_def index_ok_def)
  have mn: "n div 4 < bitmap_slots u" "BITMAP_TST u n" using m by (auto simp: marked_def)
  then have len: "n div 32 < length u" by (simp add: bitmap_slots_def)
  have um: "unmarks u ?u [n]" using bm.member_remove_aligned[OF mn(1)] al[of n] by (auto simp: unmarks_def)
  have mb: "marked ?u ?b"
    by (rule unmarks_marked[OF um]) (use m al deletableD(6)[OF d] in \<open>auto simp: marked_def\<close>)
  have ch: "child_offsets h n = map node_of ts" and at': "\<forall>t \<in> set ts. tree_at h t" using at by auto
  have root: "node_of t \<in> set (nodes t)" for t by (cases t) simp
  have "c \<in> set ?b" if "c \<in> set (child_offsets h n)" for c using that root by (force simp: ch)
  then have cv: "IS_VALID_BLOCK h c" if "c \<in> set (child_offsets h n)" for c using v that by auto
  have gc: "hivex_node_children h n = Ok (map node_of ts @ [0])"
    using get_children_eq[OF h(1) ix, of 0] cv by (simp add: hivex_node_children_def ch)
  have nz: "0 \<notin> set (map node_of ts)" using cv hive_ok_valid(1)[OF h(1), of 0] unfolding ch[symmetric] by fastforce
  obtain h1 u1 where r1: "sfor (hivex__visit_node k delete_visitor False) (map node_of ts) ((h, ()), ?u) = (Ok (), ((h1, ()), u1))"
    and e1: "deleted h h1 S ?b" and u1: "unmarks ?u u1 ?b"
    using ts[unfolded forest_gone_def, rule_format, OF h _ deletable_append(1)[OF d] mb] at' by blast
  have w1: "hive_ok h1" "writable h1" using deletedD[OF e1] h(2) by auto
  obtain name where nm: "hivex_node_name h n = Ok name" using hivex_node_name_eq[OF h(1) nk] by blast
  obtain h2 where r2: "delete_node n name h1 = (Ok (), h2)" and e2: "deleted h1 h2 (sks_left h S (sks_of h ?b)) [n]"
    by (rule deleted_one[OF w1 deleted_rest(4)[OF h(1) d e1]])
  have "visit_children_of delete_visitor False (hivex__visit_node k delete_visitor False) n name ((h, ()), ?u) = (Ok (), ((h2, ()), u1))"
    using gc r1 r2 nz by (simp add: visit_children_of_def sbind_def with_hive_def call_def on_handle_def sfor_z_terminated)
  then have "hivex__visit_node (Suc k) delete_visitor False n ((h, ()), u) = (Ok (), ((h2, ()), u1))"
    using len mn(2) nm visit_start_passes[OF h(1) w] by (simp add: visit_body_def sbind_def with_hive_def)
  moreover have "deleted h h2 S (?b @ [n])" by (rule deleted_trans[OF h(1) d e1 e2])
  moreover have "unmarks u u1 (?b @ [n])" using um u1 by (auto simp: unmarks_def)
  ultimately show ?thesis using that by simp
qed

lemma tree_gone: "length (nodes t) \<le> k \<Longrightarrow> forest_gone (hivex__visit_node k delete_visitor False) [t]"
proof (induction k arbitrary: t)
  case 0
  then show ?case by (cases t) simp
next
  case (Suc k)
  obtain n ts where t: "t = KNode n ts" by (cases t)
  have "length (nodes x) \<le> length (concat (map nodes ts))" if "x \<in> set ts" for x
    using member_le_sum_list[of "length (nodes x)" "map (length \<circ> nodes) ts"] that by (simp add: length_concat comp_def)
  moreover have "length (concat (map nodes ts)) \<le> k" using Suc.prems by (simp add: t)
  ultimately have "length (nodes x) \<le> k" if "x \<in> set ts" for x using that le_trans by blast
  then have "forest_gone (hivex__visit_node k delete_visitor False) ts" by (rule forest_gone_all[OF Suc.IH])
  note step = visit_node_gone[OF this]
  show ?case
    unfolding forest_gone_def
  proof (intro allI impI)
    fix h S u
    assume "hive_ok h" "writable h" "\<forall>t \<in> set [t]. tree_at h t" "deletable h S (concat (map nodes [t]))"
      "marked u (concat (map nodes [t]))"
    then obtain h' u' where "hivex__visit_node (Suc k) delete_visitor False n ((h, ()), u) = (Ok (), ((h', ()), u'))"
      "deleted h h' S (nodes t)" "unmarks u u' (nodes t)"
      using step[of h n S u] t by auto
    then show "\<exists>h' u'. sfor (hivex__visit_node (Suc k) delete_visitor False) (map node_of [t]) ((h, ()), u) = (Ok (), ((h', ()), u')) \<and>
        deleted h h' S (concat (map nodes [t])) \<and> unmarks u u' (concat (map nodes [t]))"
      using t by (simp add: sbind_def del: hivex__visit_node.simps)
  qed
qed

lemma visit_and_delete_post:
  assumes h: "hive_ok h" "writable h" and at: "tree_at h t" and d: "deletable h S (nodes t)"
  obtains h' where "visit_and_delete (node_of t) h = (Ok (), h')" "deleted h h' S (nodes t)"
proof -
  have v: "IS_VALID_BLOCK h n" if "n \<in> set (nodes t)" for n using deletableD(3)[OF d that] .
  have bl: "take (1 + hsize h div 32) (bitmap h) = bitmap h" using hive_ok_bitmap[OF h(1)] by simp
  have "length (nodes t) \<le> bitmap_slots (bitmap h)" by (rule valid_count[OF h(1) deletableD(6)[OF d] v])
  then have g: "forest_gone (hivex__visit_node (Suc (bitmap_slots (bitmap h))) delete_visitor False) [t]"
    by (intro tree_gone) simp
  have "marked (bitmap h) (nodes t)"
    using v in_bitmap[OF hive_ok_bitmap[OF h(1)]] by (auto simp: marked_def IS_VALID_BLOCK_def)
  then obtain h' u' where "hivex__visit_node (Suc (bitmap_slots (bitmap h))) delete_visitor False (node_of t) ((h, ()), bitmap h) =
      (Ok (), ((h', ()), u'))" "deleted h h' S (nodes t)"
    using g[unfolded forest_gone_def, rule_format, OF h, of S "bitmap h"] at d
    by (auto simp: sbind_def split: prod.splits result.splits simp del: hivex__visit_node.simps)
  then show ?thesis
    using that bl by (simp add: visit_and_delete_def hivex_visit_node_def Let_def del: hivex__visit_node.simps)
qed

section \<open>Deleting a child\<close>

text \<open>
  The subtree \<open>t\<close> hangs below \<open>p\<close>: it can be deleted, with security records in \<open>S\<close>, its root is a child of \<open>p\<close>, and it shares no
  blocks with \<open>p\<close>, the index of \<open>p\<close> and the other children.
\<close>

definition hangs_below :: "hive \<Rightarrow> nat set \<Rightarrow> nat \<Rightarrow> ktree \<Rightarrow> bool" where
  "hangs_below h S p t \<longleftrightarrow>
     tree_at h t \<and> deletable h S (nodes t) \<and> index_own h p \<and> node_of t \<in> set (child_offsets h p) \<and>
     hivex_node_parent h (node_of t) = Ok p \<and>
     set (p # child_blocks h p @ remove1 (node_of t) (child_offsets h p)) \<inter> set (node_blocks h (nodes t)) = {}"

definition child_gone :: "hive \<Rightarrow> nat set \<Rightarrow> nat \<Rightarrow> ktree \<Rightarrow> hive \<Rightarrow> bool" where
  "child_gone h S p t h' \<longleftrightarrow>
     hive_ok h' \<and> same_handle h h' \<and> index_own h' p \<and> set (child_blocks h' p) \<subseteq> set (child_blocks h p) \<and>
     child_offsets h' p = remove1 (node_of t) (child_offsets h p) \<and>
     hivex_node_children h' p = Ok (remove1 (node_of t) (child_offsets h p) @ [0]) \<and>
     (\<forall>x. IS_VALID_BLOCK h' x \<longleftrightarrow> IS_VALID_BLOCK h x \<and> x \<notin> gone h S (nodes t)) \<and>
     (\<forall>c. IS_VALID_BLOCK h' c \<longrightarrow> c \<noteq> p \<longrightarrow> c \<notin> set (child_blocks h p) \<longrightarrow> c \<notin> S \<longrightarrow> kept h h' c) \<and>
     same_but h h' p {p + 24..<p + 28} \<and> sks_dropped h S (sks_of h (nodes t)) h'"

text \<open>The parent and the siblings do not notice the deletion of the subtree.\<close>

lemma hangs_kept:
  assumes h: "hive_ok h" and t: "hangs_below h S p t" and e: "deleted h h1 S (nodes t)"
  shows "index_ok h1 p" "child_offsets h1 p = child_offsets h p" "child_blocks h1 p = child_blocks h p"
    "IS_VALID_BLOCK h1 p" "kept h h1 p"
    "c \<in> set (remove1 (node_of t) (child_offsets h p)) \<Longrightarrow> is_nk h1 c \<and> c \<notin> set (child_blocks h p)"
    "s \<in> S \<Longrightarrow> s \<noteq> p \<and> s \<notin> set (child_blocks h p) \<and> s \<notin> set (child_offsets h p)"
proof -
  let ?n = "node_of t" and ?B = "set (node_blocks h (nodes t))"
  have d: "deletable h S (nodes t)" and ix: "index_own h p" and iok: "index_ok h p"
    and ap: "set (p # child_blocks h p @ remove1 ?n (child_offsets h p)) \<inter> ?B = {}"
    using t by (auto simp: hangs_below_def index_own_def)
  show sk: "s \<noteq> p \<and> s \<notin> set (child_blocks h p) \<and> s \<notin> set (child_offsets h p)" if "s \<in> S" for s
    using index_own_ids(3)[OF ix, of s] deletableD(7)[OF d that] by (auto simp: sk_ok_def)
  note k = deleted_kept[OF h d e]
  have k1: "IS_VALID_BLOCK h1 b \<and> kept h h1 b" if "b \<in> set (p # child_blocks h p)" for b
  proof (rule k)
    show "IS_VALID_BLOCK h b" using that iok by (auto simp: index_ok_def is_nk_def)
    show "b \<notin> ?B" "b \<notin> S" using that ap sk[of b] by auto
  qed
  note i = index_kept[OF iok k1]
  show "index_ok h1 p" "child_offsets h1 p = child_offsets h p" "child_blocks h1 p = child_blocks h p" using i by auto
  show "IS_VALID_BLOCK h1 p" "kept h h1 p" using k1[of p] by auto
  show "is_nk h1 c \<and> c \<notin> set (child_blocks h p)" if c: "c \<in> set (remove1 ?n (child_offsets h p))"
  proof -
    have co: "c \<in> set (child_offsets h p)" using c notin_set_remove1 by metis
    then have nk: "is_nk h c" using ix by (simp add: index_own_def)
    then have "IS_VALID_BLOCK h c" "c \<notin> ?B" "c \<notin> S" using c ap sk[of c] co by (auto simp: is_nk_def)
    from k[OF this] show ?thesis using kept_nk(1)[OF _ _ nk] index_own_ids(2)[OF ix nk] by blast
  qed
qed

lemma unlinked_gone:
  assumes h: "hive_ok h" and t: "hangs_below h S p t" and e: "deleted h h1 S (nodes t)" and un: "unlinked h1 p (node_of t) h'"
  shows "child_gone h S p t h'"
proof -
  let ?n = "node_of t" and ?B = "gone h S (nodes t)"
  note k = hangs_kept[OF h t e]
  have d: "deletable h S (nodes t)" and ix: "index_own h p" using t by (auto simp: hangs_below_def)
  have val1: "IS_VALID_BLOCK h1 x \<longleftrightarrow> IS_VALID_BLOCK h x \<and> x \<notin> ?B" for x using dropsD(3)[OF deletedD(1)[OF e]] .
  have ok: "hive_ok h'" "index_ok h' p" "distinct (child_blocks h' p)" "child_offsets h' p = remove1 ?n (child_offsets h p)"
    "same_but h1 h' p {p + 24..<p + 28}" "set (child_blocks h' p) \<subseteq> set (child_blocks h p)" "same_handle h1 h'" and val: "\<And>x. IS_VALID_BLOCK h' x \<longleftrightarrow> IS_VALID_BLOCK h1 x"
    and kc: "\<And>c. IS_VALID_BLOCK h1 c \<Longrightarrow> c \<noteq> p \<Longrightarrow> c \<notin> set (child_blocks h p) \<Longrightarrow> kept h1 h' c"
    using un by (auto simp: unlinked_def k(2,3))
  have nk: "is_nk h' c" if c: "c \<in> set (remove1 ?n (child_offsets h p))" for c
  proof (cases "c = p")
    case True
    then show ?thesis using ok(2) by (simp add: index_ok_def)
  next
    case False
    have "is_nk h1 c" "c \<notin> set (child_blocks h p)" using k(6)[OF c] by auto
    then show ?thesis using kc[of c] False kept_nk(1)[of h1 h' c] val by (simp add: is_nk_def)
  qed
  then have "index_own h' p" using ok by (simp add: index_own_def)
  moreover have "hivex_node_children h' p = Ok (remove1 ?n (child_offsets h p) @ [0])"
  proof -
    have "IS_VALID_BLOCK h' c" if "c \<in> set (child_offsets h' p)" for c using nk that ok(4) by (simp add: is_nk_def)
    then show ?thesis using get_children_eq[OF ok(1,2), of 0] ok(4) by (simp add: hivex_node_children_def)
  qed
  moreover have "kept h h' c" if c: "IS_VALID_BLOCK h' c" "c \<noteq> p" "c \<notin> set (child_blocks h p)" "c \<notin> S" for c
  proof -
    have v: "IS_VALID_BLOCK h c" "c \<notin> ?B" "IS_VALID_BLOCK h1 c" using c(1) val val1 by auto
    then have "c \<notin> set (node_blocks h (nodes t))" by (simp add: gone_def)
    then show ?thesis
      using kept_trans[of h h1 c h'] deleted_kept[OF h d e v(1) _ c(4)] kc[OF v(3) c(2,3)] hive_ok_valid(4)[OF h v(1)] by simp
  qed
  moreover have "same_but h h' p {p + 24..<p + 28}"
  proof -
    have "IS_VALID_BLOCK h p" using k(4) val1 by simp
    then have "blen h1 p = blen h p" using kept_blen[OF k(5)] hive_ok_valid(4)[OF h, of p] by simp
    then show ?thesis using ok(5) k(5) by (auto simp: same_but_def kept_def)
  qed
  moreover have "sks_dropped h S (sks_of h (nodes t)) h'"
  proof (rule sks_dropped_kept[OF deletedD(4)[OF e]])
    fix s assume s: "s \<in> sks_left h S (sks_of h (nodes t))"
    then have v: "IS_VALID_BLOCK h1 s" using deletedD(4)[OF e] by (auto simp: sks_dropped_def sk_ring_def sk_ok_def)
    have "s \<in> S" using s sks_left_sub[of h S] by blast
    then have "s \<noteq> p" "s \<notin> set (child_blocks h p)" using k(7) by auto
    then show "IS_VALID_BLOCK h' s \<and> kept h1 h' s" using kc[OF v] val v by simp
  qed
  moreover have "same_handle h h'" using same_handle_trans dropsD(2)[OF deletedD(1)[OF e]] ok(7) by blast
  ultimately show ?thesis using ok(1,4,6) val val1 by (simp add: child_gone_def)
qed

lemma delete_child_post:
  assumes h: "hive_ok h" "writable h" "endpages h \<le> 2 ^ 32" and t: "hangs_below h S p t" and r: "node_of t \<noteq> rootoffs h"
  obtains h' where "hivex_node_delete_child (node_of t) h = (Ok (), h')" "child_gone h S p t h'"
proof -
  let ?n = "node_of t"
  have at: "tree_at h t" and d: "deletable h S (nodes t)" and ix: "index_own h p" and nc: "?n \<in> set (child_offsets h p)"
    and par: "hivex_node_parent h ?n = Ok p" using t by (auto simp: hangs_below_def)
  have db: "distinct (child_blocks h p)" and cn: "\<And>c. c \<in> set (child_offsets h p) \<Longrightarrow> is_nk h c"
    using ix by (auto simp: index_own_def)
  obtain h1 where v1: "visit_and_delete ?n h = (Ok (), h1)" and e: "deleted h h1 S (nodes t)"
    by (rule visit_and_delete_post[OF h(1,2) at d])
  note k = hangs_kept[OF h(1) t e]
  have ok1: "hive_ok h1" using deletedD[OF e] by auto
  have c32: "c < 2 ^ 32" if "c \<in> set (child_offsets h p)" for c
    using cn[OF that] hive_ok_valid(1,2,4)[OF h(1), of c] h(3) by (simp add: is_nk_def)
  obtain h2 w h3 where u: "unlink_blocks ?n (child_blocks h1 p @ [0]) h1 = (Ok (), h2)" "rd32 h2 (p + 24) = Ok w"
    "wr32 (p + 24) (w - 1) h2 = (Ok (), h3)" and un: "unlinked h1 p ?n h3"
    by (rule unlink_parent[OF ok1 k(1)]) (use k db index_own_ids(1)[OF ix] nc c32 in auto)
  have gc: "get_children h1 p GET_CHILDREN_NO_CHECK_NK = Ok (child_offsets h1 p @ [0], child_blocks h1 p @ [0])"
    by (rule get_children_eq[OF ok1 k(1)]) (simp add: no_check_def GET_CHILDREN_NO_CHECK_NK_def)
  have nk: "is_nk h ?n" using cn nc by blast
  have "check_block h ?n id_nk EINVAL = Ok ()" using nk is_nk_bounds[OF h(1) nk] by (auto simp: is_nk_def)
  then have "hivex_node_delete_child ?n h = (Ok (), h3)"
    using h(2) r par v1 gc u
    by (simp add: hivex_node_delete_child_def sbind_def hivex_root_def del: rd_Ok check_block_bid unlink_blocks.simps)
  with unlinked_gone[OF h(1) t e un] that show ?thesis by blast
qed

section \<open>The property\<close>

text \<open>
  C9: \<^verbatim>\<open>hivex_node_delete_child\<close> on a well-formed writable handle, for a node other than the root whose
  subtree owns its records and hangs below the parent it names, succeeds. It frees exactly the
  blocks of the subtree, at any depth, and the security records whose last references were in it,
  which leave their rings in order; the other security records count that many references less.
  The node leaves the list of children of its parent, which reads back without it and in the same
  order; all other records keep their bytes.
\<close>

theorem delete_child_correct:
  assumes "hive_ok h" and "writable h" and "endpages h \<le> 2 ^ 32" and "hangs_below h S p t" and "node_of t \<noteq> rootoffs h"
  shows "\<exists>h'. hivex_node_delete_child (node_of t) h = (Ok (), h') \<and> child_gone h S p t h'"
  using delete_child_post[OF assms] by blast

end
