(* ===== verification/Growth.thy ===== *)
theory Growth
  imports Delete_Nodes
begin

text \<open>
  How far an operation can grow the image. Only \<^verbatim>\<open>allocate_page\<close> moves \<^verbatim>\<open>endpages\<close>; from its size the bound
  is carried through the programs by one rule per construct, without any condition on the image. So
  a caller who knows what it asks for can tell beforehand that the image stays within the 4 GB that
  32-bit offsets reach.

  \<open>grows g n m\<close>: run from any state, \<open>m\<close> moves the end of the pages of the handle \<open>g s\<close> by at most \<open>n\<close> bytes.
\<close>

section \<open>Rules\<close>

definition grows :: "('s \<Rightarrow> hive) \<Rightarrow> nat \<Rightarrow> ('s, 'a) op \<Rightarrow> bool" where
  "grows g n m \<longleftrightarrow> (\<forall>s. endpages (g (snd (m s))) \<le> endpages (g s) + n)"

named_theorems still

lemma growsD: "grows g n m \<Longrightarrow> m s = (r, s') \<Longrightarrow> endpages (g s') \<le> endpages (g s) + n"
  by (metis grows_def snd_conv)

lemma grows_mono: "grows g a m \<Longrightarrow> a \<le> b \<Longrightarrow> grows g b m"
  by (fastforce simp: grows_def intro: le_trans)

lemma grows_bind:
  assumes "grows g a m" and "\<And>x. grows g b (f x)"
  shows "grows g (a + b) (sbind m f)"
proof -
  have "endpages (g (snd (sbind m f s))) \<le> endpages (g s) + (a + b)" for s
  proof (cases "m s")
    case (Pair r s')
    have "endpages (g s') \<le> endpages (g s) + a" by (rule growsD[OF assms(1) Pair])
    moreover have "endpages (g (snd (f x s'))) \<le> endpages (g s') + b" for x using assms(2) by (simp add: grows_def)
    ultimately have "endpages (g s') \<le> endpages (g s) + (a + b)" "endpages (g (snd (f x s'))) \<le> endpages (g s) + (a + b)" for x
      using order_trans[of "endpages (g (snd (f x s')))" "endpages (g s') + b"] by simp_all
    then show ?thesis using Pair by (auto simp: sbind_def split: result.split)
  qed
  then show ?thesis by (simp add: grows_def)
qed

lemma still_bind [still]: "grows g 0 m \<Longrightarrow> (\<And>x. grows g 0 (f x)) \<Longrightarrow> grows g 0 (sbind m f)"
  using grows_bind[of g 0 m 0 f] by simp

lemma grows_basic [still]:
  "grows g n (sret x)" "grows g n (sfail e)" "grows g n (sfault z)" "grows g n (sget f)" "grows g n (sassert P)"
  by (simp_all add: grows_def sret_def sfail_def sfault_def sget_def sassert_def)

lemma grows_split [still]:
  "grows g n a \<Longrightarrow> grows g n b \<Longrightarrow> grows g n (if c then a else b)"
  "(\<And>x y. grows g n (f x y)) \<Longrightarrow> grows g n (case p of (x, y) \<Rightarrow> f x y)"
  by (simp_all split: prod.split)

text \<open>A function that looks at the state before it runs.\<close>

lemma grows_guard [still]: "grows g n m \<Longrightarrow> grows g n (\<lambda>s. if P s then (r s, s) else m s)"
  by (simp add: grows_def)

lemma grows_peek: "(\<And>c. grows g n (m c)) \<Longrightarrow> grows g n (\<lambda>s. m (P s) s)"
  by (simp add: grows_def)

lemma grows_sfor:
  assumes "\<And>x. x \<in> set xs \<Longrightarrow> grows g (n x) (f x)"
  shows "grows g (sum_list (map n xs)) (sfor f xs)"
  using assms
proof (induction xs)
  case (Cons x xs)
  show ?case using grows_bind[of g "n x" "f x"] Cons by simp
qed (simp add: grows_basic)

lemma still_loops [still]:
  "(\<And>x. grows g 0 (f x)) \<Longrightarrow> grows g 0 (sfor f xs)" "(\<And>x. grows g 0 (k x)) \<Longrightarrow> grows g 0 (sfor_z k zs)"
proof -
  show "(\<And>x. grows g 0 (f x)) \<Longrightarrow> grows g 0 (sfor f xs)" by (induction xs) (simp_all add: grows_basic still_bind)
  show "(\<And>x. grows g 0 (k x)) \<Longrightarrow> grows g 0 (sfor_z k zs)" by (induction zs) (simp_all add: grows_basic still_bind)
qed

abbreviation growth :: "nat \<Rightarrow> (hive, 'a) op \<Rightarrow> bool" where
  "growth n m \<equiv> grows (\<lambda>h. h) n m"

lemma still_wr [still]:
  "growth 0 (wr16 a w)" "growth 0 (wr32 a x)" "growth 0 (wr64 a y)" "growth 0 (wr_bytes a bs)"
  by (simp_all add: grows_def wr16_def wr32_def wr64_def wr_bytes_def)

lemma still_supd [still]: "(\<And>h. endpages (f h) = endpages h) \<Longrightarrow> growth 0 (supd f)"
  by (simp add: grows_def supd_def)

section \<open>Allocation\<close>

lemma growth_allocate_page: "growth (n + 4127) (allocate_page n)"
proof -
  have "endpages (snd (allocate_page n h)) \<le> endpages h + (n + 4127)" for h
  proof -
    have w: "endpages (snd (sbind (wr_bytes o1 id_hbin) (\<lambda>_. sbind (wr32 o2 w2) (\<lambda>_. sbind (wr32 o3 w3) (\<lambda>_.
        sbind (wr_bytes o4 bs) (\<lambda>_. sret o5)))) h2)) \<le> endpages h2" for o1 o2 o3 o4 o5 w2 w3 bs h2
    proof -
      have "growth 0 (sbind (wr_bytes o1 id_hbin) (\<lambda>_. sbind (wr32 o2 w2) (\<lambda>_. sbind (wr32 o3 w3) (\<lambda>_.
        sbind (wr_bytes o4 bs) (\<lambda>_. sret o5)))))" by (intro still)
      then show ?thesis by (simp add: grows_def)
    qed
    show ?thesis
      unfolding allocate_page_def Let_def by (rule le_trans[OF w]) (use page_count(2)[of n] in \<open>simp add: page_count_def\<close>)
  qed
  then show ?thesis by (simp add: grows_def)
qed

lemma growth_place_block: "growth 0 (place_block n bid)"
proof -
  have "endpages (snd (place_block n bid h)) \<le> endpages h" for h
    unfolding place_block_def Let_def
    by (auto simp: sbind_def wr_bytes_def wr32_def supd_def sassert_def sret_def split: result.split prod.split)
  then show ?thesis by (simp add: grows_def)
qed

lemma growth_allocate_block: "growth (n + 4134) (allocate_block n bid)"
proof -
  let ?m = "\<lambda>c. sbind (if c then sbind (allocate_page (round8 n)) (\<lambda>newend. supd (\<lambda>h. h\<lparr>endblocks := newend\<rparr>)) else sret ())
    (\<lambda>_. place_block (round8 n) bid)"
  have a: "growth (round8 n + 4127) (sbind (allocate_page (round8 n)) (\<lambda>newend. supd (\<lambda>h. h\<lparr>endblocks := newend\<rparr>)))"
    using grows_bind[OF growth_allocate_page still_supd] by simp
  have "growth (round8 n + 4127) (?m c)" for c
    by (rule grows_bind[OF grows_split(1)[OF a grows_basic(1)] growth_place_block, simplified])
  then have "growth (n + 4134) (?m c)" for c by (rule grows_mono) (use round8(2)[of n] in simp)
  then have "growth (n + 4134) (\<lambda>h. ?m (endblocks h = 0 \<or> endpages h < endblocks h + round8 n) h)" by (rule grows_peek)
  then show ?thesis unfolding allocate_block_def[abs_def] Let_def by (intro grows_guard)
qed

lemma still_mark [still]: "growth 0 (mark_block_unused b)"
  unfolding mark_block_unused_def by (intro still) simp

section \<open>Values\<close>

lemma still_delete_value [still]: "growth 0 (delete_value v)"
  unfolding delete_value_def by (intro still)

lemma still_delete_values [still]: "growth 0 (delete_values node)"
  unfolding delete_values_def by (intro still)

lemma still_fill [still]: "growth 0 (fill_vk vk sv)" "growth 0 (update_max32 a n)" "growth 0 (calc_hash t nm a)"
  unfolding fill_vk_def Let_def update_max32_def calc_hash_def by (intro still)+

text \<open>A value takes a record and, when it is long, a block for its data; each may need pages of its own.\<close>

definition value_room :: "hive_set_value \<Rightarrow> nat" where
  "value_room sv = strlen (sv_key sv) + length (sv_value sv) + 8300"

definition values_room :: "hive_set_value list \<Rightarrow> nat" where
  "values_room svs = 4 * length svs + 4142 + sum_list (map value_room svs)"

lemma growth_store_data: "growth (length data + 4138) (store_data vk data)"
proof -
  have "growth (length data + 4 + 4134 + (0 + 0)) (sbind (allocate_block (length data + 4) nul_id) (\<lambda>offs.
      sbind (wr_bytes (offs + 4) data) (\<lambda>_. wr32 (vk + vk_data_offset) (of_nat offs - 0x1000))))"
    by (intro grows_bind growth_allocate_block still_wr)
  from grows_mono[OF this, of "length data + 4138"] show ?thesis
    unfolding store_data_def using grows_mono[OF still_wr(4), of "length data + 4138"] by (intro grows_split(1)) simp_all
qed

lemma growth_set_one: "growth (value_room sv) (set_one node vl (i, sv))"
proof -
  have "growth (sizeof ntreg_vk_record + strlen (sv_key sv) + 4134 + (0 + (0 + (length (sv_value sv) + 4138 + (0 + 0))))) (set_one node vl (i, sv))"
    unfolding set_one_def prod.case
    by (intro grows_bind growth_allocate_block growth_store_data still_wr still_fill)
  then show ?thesis by (rule grows_mono) (simp add: value_room_def)
qed

lemma growth_set_values: "growth (values_room svs) (hivex_node_set_values node svs)"
proof -
  let ?a = "sizeof ntreg_value_list + (length svs - 1) * 4"
  let ?n = "\<lambda>(i :: nat, sv). value_room sv"
  have "growth (?n x) (set_one node vl x)" for vl x using growth_set_one by (cases x) simp
  then have l: "growth (sum_list (map ?n (enumerate 0 svs))) (sfor (set_one node vl) (enumerate 0 svs))" for vl by (rule grows_sfor)
  have e: "sum_list (map ?n (enumerate 0 svs)) = sum_list (map value_room svs)"
    unfolding enumerate_eq_zip by (rule arg_cong[where f = sum_list]) (simp add: map_snd_zip case_prod_unfold flip: map_map[of _ snd, unfolded comp_def])
  have f: "growth (?a + 4134 + (0 + (0 + sum_list (map value_room svs)))) (sbind (allocate_block ?a nul_id) (\<lambda>vl.
      sbind (wr32 (node + nk_nr_values) (of_nat (length svs))) (\<lambda>_.
      sbind (wr32 (node + nk_vallist) (of_nat vl - 0x1000)) (\<lambda>_.
      sfor (set_one node vl) (enumerate 0 svs)))))"
    using l unfolding e by (intro grows_bind growth_allocate_block still_wr)
  have "growth (0 + (0 + values_room svs)) (sbind (sget (\<lambda>h. check_block h node id_nk EINVAL)) (\<lambda>_.
      sbind (delete_values node) (\<lambda>_. if svs = [] then sret () else sbind (allocate_block ?a nul_id) (\<lambda>vl.
      sbind (wr32 (node + nk_nr_values) (of_nat (length svs))) (\<lambda>_.
      sbind (wr32 (node + nk_vallist) (of_nat vl - 0x1000)) (\<lambda>_.
      sfor (set_one node vl) (enumerate 0 svs)))))))"
    by (intro grows_bind grows_basic still_delete_values grows_split(1) grows_mono[OF f]) (cases svs; simp add: values_room_def)
  then show ?thesis unfolding hivex_node_set_values_def[abs_def] by (intro grows_guard) simp
qed

section \<open>Adding a child\<close>

lemma growth_create_nk: "growth (strlen name + 4215) (create_nk parent name)"
proof -
  have "growth (sizeof ntreg_nk_record + strlen name + 4134 + 0) (create_nk parent name)"
    unfolding create_nk_def by (intro grows_bind[OF growth_allocate_block] still)
  then show ?thesis by (rule grows_mono) simp
qed

lemma still_inherit_sk: "growth 0 (inherit_sk parent node)"
  unfolding inherit_sk_def Let_def by (intro still)

lemma still_copy_key [still]: "growth 0 (copy_key new old x)"
  unfolding copy_key_def by (cases x) (simp, intro still)

lemma still_fill_lf [still]: "growth 0 (fill_lf new old posn nr name node)"
  unfolding fill_lf_def by (intro still)

lemma growth_new_lh: "growth 4150 (new_lh_record name node)"
proof -
  have "growth (sizeof ntreg_lf_record + 4134 + 0) (new_lh_record name node)"
    unfolding new_lh_record_def by (intro grows_bind[OF growth_allocate_block] still)
  then show ?thesis by (rule grows_mono) simp
qed

text \<open>A record of children has at most 65535 keys.\<close>

lemma growth_insert_lf: "growth 528430 (insert_lf_record old posn name node)"
proof -
  have "growth 528430 (sbind (allocate_block (sizeof ntreg_lf_record + (unat w + 1 - 1) * 8) bid) (\<lambda>new_offs.
      sbind (fill_lf new_offs old posn (unat w + 1) name node) (\<lambda>_. sbind (mark_block_unused old) (\<lambda>_. sret new_offs))))"
    for w :: u16 and bid
  proof -
    have "unat w \<le> 65535" using unsigned_less[of w, where 'a = nat] by simp
    then show ?thesis
      by (intro grows_mono[OF grows_bind[OF growth_allocate_block, of 0]] still) simp_all
  qed
  then have "growth (0 + (0 + (0 + (0 + 528430)))) (insert_lf_record old posn name node)"
    unfolding insert_lf_record_def Let_def by (intro grows_bind grows_basic)
  then show ?thesis by simp
qed

lemma still_relink_ri [still]: "growth 0 (relink_ri old new ri js)"
proof (induction js)
  case Nil
  show ?case unfolding relink_ri.simps by (intro still)
next
  case (Cons j js)
  then show ?case unfolding relink_ri.simps by (intro still)
qed

lemma still_relink_blocks [still]: "growth 0 (relink_blocks old new bs)"
proof (induction bs)
  case Nil
  show ?case unfolding relink_blocks.simps by (intro still)
next
  case (Cons b bs)
  then show ?case unfolding relink_blocks.simps by (intro still)
qed

lemma growth_link_child: "growth 528430 (link_child parent name node nr blocks)"
proof -
  have "growth (0 + (4150 + 0)) (sbind (sfor_z mark_block_unused blocks) (\<lambda>_.
      sbind (new_lh_record name node) (\<lambda>lh. wr32 (parent + nk_subkey_lf) (of_nat lh - 0x1000))))"
    by (intro grows_bind still growth_new_lh)
  then have a: "growth 528430 (sbind (sfor_z mark_block_unused blocks) (\<lambda>_.
      sbind (new_lh_record name node) (\<lambda>lh. wr32 (parent + nk_subkey_lf) (of_nat lh - 0x1000))))"
    by (rule grows_mono) simp
  have "growth (0 + (528430 + 0)) (sbind (sget (\<lambda>h. find_posn h name blocks 0)) (\<lambda>(old_offs, j).
      sbind (insert_lf_record old_offs j name node) (\<lambda>new_offs. relink parent old_offs new_offs blocks)))"
    unfolding relink_def by (intro grows_bind grows_split grows_basic growth_insert_lf) (intro still)
  with a show ?thesis unfolding link_child_def by (intro grows_split) simp_all
qed

lemma still_count_child: "growth 0 (count_child parent name n)"
  unfolding count_child_def by (intro still)

definition key_room :: "byte list \<Rightarrow> nat" where
  "key_room name = strlen name + 532645"

lemma growth_add_child: "growth (key_room name) (hivex_node_add_child parent name)"
proof -
  let ?body = "sbind (\<lambda>h. case hivex_node_get_child h parent name of
          Ok c \<Rightarrow> (if c \<noteq> 0 then Err EEXIST else Ok (), h) | Err e \<Rightarrow> (Ok (), h) | Fault z \<Rightarrow> (Fault z, h)) (\<lambda>_.
        sbind (create_nk parent name) (\<lambda>node.
        sbind (inherit_sk parent node) (\<lambda>_.
        sbind (sget (\<lambda>h. get_children h parent 0)) (\<lambda>(unused, blocks).
        sbind (sget (\<lambda>h. rd32 h (parent + nk_nr_subkeys))) (\<lambda>w.
        sbind (link_child parent name node (unat w) blocks) (\<lambda>_.
        sbind (count_child parent name (unat w)) (\<lambda>_.
        sret node)))))))"
  have g: "growth 0 (\<lambda>h. case hivex_node_get_child h parent name of
      Ok c \<Rightarrow> (if c \<noteq> 0 then Err EEXIST else Ok (), h) | Err e \<Rightarrow> (Ok (), h) | Fault z \<Rightarrow> (Fault z, h))"
    by (simp add: grows_def split: result.split)
  have "growth (0 + (strlen name + 4215 + (0 + (0 + (0 + (528430 + (0 + 0))))))) ?body"
    by (intro grows_bind g growth_create_nk still_inherit_sk growth_link_child still_count_child grows_split(2) grows_basic)
  then have b: "growth (key_room name) ?body" by (rule grows_mono) (simp add: key_room_def)
  have "growth (0 + key_room name) (sbind (sget (\<lambda>h. check_block h parent id_nk EINVAL)) (\<lambda>_. if strlen name = 0 then sfail EINVAL else ?body))"
    by (intro grows_bind grows_basic grows_split(1) b)
  then have "growth (key_room name) (sbind (sget (\<lambda>h. check_block h parent id_nk EINVAL)) (\<lambda>_. if strlen name = 0 then sfail EINVAL else ?body))"
    by (rule grows_mono) simp
  then show ?thesis unfolding hivex_node_add_child_def[abs_def] by (intro grows_guard)
qed

section \<open>Deleting a child\<close>

lemma still_delete_sk [still]: "growth 0 (delete_sk s)"
  unfolding delete_sk_def Let_def by (intro still)

lemma still_delete_node [still]: "growth 0 (delete_node node name)"
  unfolding delete_node_def delete_node_sk_def delete_node_classname_def by (intro still)

lemma still_unlink_key [still]: "growth 0 (unlink_key node lf nr js)"
proof (induction js)
  case Nil
  show ?case unfolding unlink_key.simps by (intro still)
next
  case (Cons j js)
  then show ?case unfolding unlink_key.simps by (intro still)
qed

lemma still_unlink_blocks [still]: "growth 0 (unlink_blocks node bs)"
proof (induction bs)
  case Nil
  show ?case unfolding unlink_blocks.simps by (intro still)
next
  case (Cons b bs)
  then show ?case unfolding unlink_blocks.simps by (intro still)
qed

text \<open>The traversal: the visitor that deletes has no callbacks but the one at the end of a node.\<close>

lemma still_reads [still]:
  "(\<And>x. grows fst 0 (k x)) \<Longrightarrow> grows fst 0 (or_bad sb f k)" "(\<And>w. grows fst 0 (kw w)) \<Longrightarrow> grows fst 0 (num_or_minus1 fw kw)"
  "grows g 0 (bad sb e)"
  by (simp_all add: grows_def or_bad_def num_or_minus1_def bad_def sret_def sfail_def split: result.split)

lemma still_strings [still]:
  "grows fst 0 (visit_string_value delete_visitor sb node v t len key)" "grows fst 0 (visit_multiple_value delete_visitor sb node v t len key)"
  by (simp_all add: grows_def visit_string_value_def visit_multiple_value_def visit_invalid_utf16_def delete_visitor_def
      empty_visitor_def call_def bad_def sret_def sfail_def split: result.split)

lemma still_visit_value [still]: "grows fst 0 (visit_value delete_visitor sb node v)"
proof -
  have n: "value_any delete_visitor = None" "value_none delete_visitor = None" "value_dword delete_visitor = None"
    "value_qword delete_visitor = None" "value_binary delete_visitor = None" "value_other delete_visitor = None"
    by (simp_all add: delete_visitor_def empty_visitor_def)
  show ?thesis unfolding visit_value_def visit_typed_value_def n call_def option.case by (intro still)
qed

lemma still_visit_values [still]: "grows fst 0 (visit_values delete_visitor sb node vs)"
proof (induction vs)
  case Nil
  show ?case unfolding visit_values.simps by (intro still)
next
  case (Cons v vs)
  then show ?case unfolding visit_values.simps by (intro still)
qed

lemma still_visit_node: "grows (fst \<circ> fst) 0 (hivex__visit_node k delete_visitor sb node)"
proof (induction k arbitrary: node)
  case (Suc k)
  let ?rec = "hivex__visit_node k delete_visitor sb"
  have w: "grows (fst \<circ> fst) 0 (with_hive f)" if "grows fst 0 f" for f :: "(unit vstate, 'b) op"
    using that by (auto simp: grows_def with_hive_def split: prod.split) (metis fst_conv snd_conv)
  have e: "grows fst 0 (call (node_end delete_visitor) (\<lambda>f. f n name))" for n name
  proof -
    have "grows fst 0 (on_handle (delete_node n name) :: (unit vstate, unit) op)"
      using still_delete_node[of n name] by (auto simp: grows_def on_handle_def split: prod.split) (metis snd_conv)
    then show ?thesis unfolding call_def delete_visitor_def by (simp, intro still)
  qed
  have st: "grows fst 0 (visit_start delete_visitor sb n name)" for n name
    unfolding visit_start_def by (intro still) (simp_all add: call_def delete_visitor_def empty_visitor_def grows_basic)
  have c: "grows (fst \<circ> fst) 0 (visit_children_of delete_visitor sb ?rec n name)" for n name
  proof -
    have "grows (fst \<circ> fst) 0 (sbind (sfor_z ?rec cs) (\<lambda>_. sbind (with_hive (call (node_end delete_visitor) (\<lambda>f. f n name))) (\<lambda>_. sret ())))" for cs
      by (intro still w e Suc)
    then show ?thesis by (simp add: grows_def visit_children_of_def split: result.split)
  qed
  have "grows (fst \<circ> fst) 0 (sbind (with_hive (visit_start delete_visitor sb n name)) (\<lambda>go.
      if go then visit_children_of delete_visitor sb ?rec n name else sret ()))" for n name
    by (intro still w st c)
  then show ?case by (auto simp: grows_def visit_body_def Let_def split: result.split prod.split)
qed (simp add: grows_basic)

lemma still_visit_and_delete [still]: "growth 0 (visit_and_delete node)"
proof -
  have "endpages (fst (fst x)) \<le> endpages h" if "hivex__visit_node k delete_visitor sb node ((h, ()), u) = (r, x)" for k sb h u r x
    using growsD[OF still_visit_node that] by simp
  then show ?thesis
    by (auto simp: grows_def visit_and_delete_def hivex_visit_node_def Let_def split: prod.split simp del: hivex__visit_node.simps)
qed

lemma growth_delete_child: "growth 0 (hivex_node_delete_child node)"
proof -
  have "growth 0 (sbind (sget (\<lambda>h. check_block h node id_nk EINVAL)) (\<lambda>_.
        if root then sfail EINVAL
        else
          sbind (sget (\<lambda>h. hivex_node_parent h node)) (\<lambda>parent.
          sbind (visit_and_delete node) (\<lambda>_.
          sbind (sget (\<lambda>h. get_children h parent GET_CHILDREN_NO_CHECK_NK)) (\<lambda>(unused, blocks).
          sbind (unlink_blocks node blocks) (\<lambda>_.
          sbind (sget (\<lambda>h. rd32 h (parent + nk_nr_subkeys))) (\<lambda>nr_subkeys.
          wr32 (parent + nk_nr_subkeys) (nr_subkeys - 1))))))))" for root
    by (intro still)
  from grows_peek[of "\<lambda>s. s" 0, OF this, of "\<lambda>h. hivex_root h = Ok node"]
  show ?thesis unfolding hivex_node_delete_child_def[abs_def] by (intro grows_guard)
qed

end
