(* ===== verification/Registry.thy ===== *)
theory Registry
  imports Registry_Spec Delete_Child Commit Growth
begin

text \<open>
  The library as a whole implements the registry of \<open>Registry_Spec\<close>. \<open>registry h t\<close> relates a handle
  to the tree of keys it stores: every key's node record, index, values and security record are in
  order, no two keys share a block, the security records are linked in rings, and the reference count
  of each is the number of keys that refer to it. Each of the four writing operations, on a request that is allowed,
  succeeds and keeps this relation with the tree the specification answers; so does every sequence
  of them, in which the library never grows the image past 4 GB.
\<close>

section \<open>Values that are left alone\<close>

lemma value_value_kept:
  assumes h: "hive_ok h" "hive_ok h'" and vk: "is_vk h v" "is_vk h' v" "kept h h' v"
    and d: "\<And>d. d \<in> set (value_data h v) \<Longrightarrow> IS_VALID_BLOCK h d \<and> IS_VALID_BLOCK h' d \<and> kept h h' d"
  shows "hivex_value_value h' v = hivex_value_value h v"
proof -
  have v: "IS_VALID_BLOCK h v" "24 \<le> blen h v" using vk(1) by (auto simp: is_vk_def)
  note b = is_vk_bounds(2)[OF h(1) vk(1)] is_vk_bounds(2)[OF h(2) vk(2)]
  have ck: "check_block h v id_vk EINVAL = Ok ()" "check_block h' v id_vk EINVAL = Ok ()"
    using vk b by (auto simp: is_vk_def)
  have ld: "get32 (addr h') (v + i) = get32 (addr h) (v + i)" if "i \<le> 20" for i
    using kept_load(2)[OF vk(3), of "v + i"] v(2) that by simp
  have rd: "rd32 h (v + i) = Ok (get32 (addr h) (v + i))" "rd32 h' (v + i) = Ok (get32 (addr h) (v + i))" if "i \<le> 20" for i
    using b that ld[OF that] by simp_all
  let ?w = "get32 (addr h) (v + 8)"
  let ?len = "unat (?w AND 0x7fffffff)"
  have inl: "rd_bytes h' (v + 12) l = rd_bytes h (v + 12) l" if "l \<le> 4" for l
    using b that kept_load(4)[OF vk(3), of "v + 12" l] v(2) by (simp add: rd_in)
  let ?d = "unat (get32 (addr h) (v + 12)) + 0x1000"
  have far: "IS_VALID_BLOCK h ?d \<and> IS_VALID_BLOCK h' ?d \<and> block_len h' ?d = block_len h ?d \<and>
      (\<forall>l. l \<le> data_room (blen h ?d) \<longrightarrow> rd_bytes h' (?d + 4) l = rd_bytes h (?d + 4) l) \<and> block_len h ?d = Ok (blen h ?d, True)"
    if "?w AND 0x80000000 = 0"
  proof -
    have k: "IS_VALID_BLOCK h ?d" "IS_VALID_BLOCK h' ?d" "kept h h' ?d" using d[of ?d] that by (auto simp: value_data_def)
    note x = hive_ok_valid[OF h(1) k(1)] and y = hive_ok_valid[OF h(2) k(2)]
    have bl: "blen h' ?d = blen h ?d" using kept_blen[OF k(3)] x(4) by simp
    have room: "data_room (blen h ?d) = blen h ?d - 4" using x(4) hive_ok_blen_bound[OF h(1) k(1)] by (intro data_room) simp_all
    have "rd_bytes h' (?d + 4) l = rd_bytes h (?d + 4) l" if "l \<le> data_room (blen h ?d)" for l
    proof -
      have "l + 4 \<le> blen h ?d" using that x(4) unfolding room by simp
      then show ?thesis using kept_load(4)[OF k(3), of "?d + 4" l] x(3) y(3) bl by (simp add: rd_in)
    qed
    then show ?thesis using k x(7) y(7) bl by simp
  qed
  show ?thesis
  proof (cases "?w AND 0x80000000 = 0")
    case True
    define d' where "d' = ?d"
    note f = far[OF True, folded d'_def]
    show ?thesis
      unfolding hivex_value_value_def using ck rd[of 16] rd[of 8] rd[of 12] f True
      by (simp add: Let_def not_less d'_def[symmetric] del: rd_Ok check_block_bid)
  next
    case False
    then show ?thesis
      unfolding hivex_value_value_def using ck rd[of 16] rd[of 8] inl[of ?len]
      by (simp add: Let_def not_less del: rd_Ok check_block_bid)
  qed
qed

lemma holds_same:
  assumes h: "hive_ok h" "hive_ok h'" and o: "values_own h n" and hv: "holds_values h n svs"
    and nk': "is_nk h' n" and nr: "nr_values h' n = nr_values h n" and vl: "value_list h' n = value_list h n"
    and k: "\<And>b. b \<in> set (owned h n) \<Longrightarrow> IS_VALID_BLOCK h' b \<and> kept h h' b"
  shows "holds_values h' n svs"
proof -
  note s = values_same[OF o nk' nr vl k]
  have vo: "vallist_ok h n" "vallist_ok h' n" using o s(1) by (auto simp: values_own_def)
  have g: "hivex_node_values h n = Ok (value_offsets h n @ [0])" "hivex_node_values h' n = Ok (value_offsets h n @ [0])"
    using get_values_eq[OF h(1) vo(1)] get_values_eq[OF h(2) vo(2)] s(3) by (simp_all add: hivex_node_values_def)
  have same: "hivex_value_key h' v = hivex_value_key h v \<and> hivex_value_value h' v = hivex_value_value h v"
    if v: "v \<in> set (value_offsets h n)" for v
  proof
    have i: "is_vk h v" "is_vk h' v" using v o s(1,3) by (auto simp: values_own_def)
    have kv: "kept h h' v" using k owned_values[OF v] by auto
    have b: "24 + unat (get16 (addr h) (v + 6)) \<le> blen h v" using i(1) by (simp add: is_vk_def)
    show "hivex_value_key h' v = hivex_value_key h v"
      using hivex_value_key_eq[OF h(1) i(1)] hivex_value_key_eq[OF h(2) i(2)] b
        kept_load(1)[OF kv, of "v + 6"] kept_load(4)[OF kv, of "v + 24"] by simp
    show "hivex_value_value h' v = hivex_value_value h v"
    proof (rule value_value_kept[OF h i kv])
      fix d assume d: "d \<in> set (value_data h v)"
      have "d \<in> set (owned h n)" using d v by (auto simp: owned_def owned_by_def)
      then show "IS_VALID_BLOCK h d \<and> IS_VALID_BLOCK h' d \<and> kept h h' d" using k o by (auto simp: values_own_def)
    qed
  qed
  then show ?thesis using hv g by (fastforce simp: holds_values_def)
qed

lemma value_value_fine: "hivex_value_value h v = Ok x \<Longrightarrow> value_fine h v"
  by (cases x) (auto simp: hivex_value_value_def value_fine_def Let_def split: if_splits)

lemma holds_fine:
  assumes h: "hive_ok h" and o: "values_own h n" and hv: "holds_values h n svs"
  shows "\<forall>v \<in> set (value_offsets h n). value_fine h v"
proof -
  have "hivex_node_values h n = Ok (value_offsets h n @ [0])"
    using get_values_eq[OF h] o by (simp add: hivex_node_values_def values_own_def)
  then show ?thesis using hv value_value_fine by (auto simp: holds_values_def in_set_conv_nth)
qed

section \<open>A key and its records\<close>

definition parent_of :: "hive \<Rightarrow> nat \<Rightarrow> nat" where
  "parent_of h n = unat (get32 (addr h) (n + 20)) + 0x1000"

definition shows_node ::
  "hive \<Rightarrow> nat \<Rightarrow> nat \<Rightarrow> byte list \<Rightarrow> nat \<Rightarrow> hive_set_value list \<Rightarrow> nat list \<Rightarrow> bool" where
  "shows_node h p n nm s vs cs \<longleftrightarrow>
     node_whole h n \<and> parent_of h n = p \<and> node_name h n = nm \<and> sk_list h n = [s] \<and>
     holds_values h n vs \<and> (\<forall>sv \<in> set vs. sv_ok sv) \<and> child_offsets h n = cs"

abbreviation shows_key :: "hive \<Rightarrow> nat \<Rightarrow> key \<Rightarrow> bool" where
  "shows_key h p k \<equiv> shows_node h p (handle k) (kname k) (ksk k) (kvals k) (map handle (kids k))"

fun shows_tree :: "hive \<Rightarrow> nat \<Rightarrow> key \<Rightarrow> bool" where
  "shows_tree h p (Key n nm s vs ts) \<longleftrightarrow>
     shows_node h p n nm s vs (map handle ts) \<and> (\<forall>t \<in> set ts. shows_tree h n t)"

definition apart :: "hive \<Rightarrow> nat set \<Rightarrow> bool" where
  "apart h N \<longleftrightarrow> (\<forall>n \<in> N. \<forall>m \<in> N. n \<noteq> m \<longrightarrow> set (own_blocks h n) \<inter> set (own_blocks h m) = {})"

text \<open>The security records \<open>S\<close> of the nodes \<open>N\<close>: they form rings, and each counts the nodes that refer to it.\<close>

definition sks_fine :: "hive \<Rightarrow> nat set \<Rightarrow> nat set \<Rightarrow> bool" where
  "sks_fine h S N \<longleftrightarrow>
     sk_ring h S \<and> (\<forall>n \<in> N. node_sk h n \<in> S) \<and>
     (\<forall>s \<in> S. (\<forall>m \<in> N. s \<notin> set (own_blocks h m)) \<and> unat (refcount h s) = card {m \<in> N. node_sk h m = s})"

definition registry :: "hive \<Rightarrow> key \<Rightarrow> bool" where
  "registry h t \<longleftrightarrow>
     hive_ok h \<and> writable h \<and> header_of h \<and> endpages h \<le> 2 ^ 32 \<and> rootoffs h = handle t \<and> (\<exists>p. shows_tree h p t) \<and>
     distinct (handles t) \<and> apart h (set (handles t)) \<and> (\<exists>S. sks_fine h S (set (handles t)))"

lemma shows_nodeD:
  assumes "shows_node h p n nm s vs cs"
  shows "node_whole h n" "is_nk h n" "IS_VALID_BLOCK h n" "80 \<le> blen h n" "sk_list h n = [s]" "node_sk h n = s"
    "parent_of h n = p" "node_name h n = nm" "holds_values h n vs" "\<forall>sv \<in> set vs. sv_ok sv" "child_offsets h n = cs"
    "b \<in> set (own_blocks h n) \<Longrightarrow> IS_VALID_BLOCK h b" "index_ok h n" "values_own h n"
  using assms by (auto simp: shows_node_def node_whole_def index_ok_def is_nk_def sk_list_def split: if_splits)

lemma own_parts:
  "set (own_blocks h n) = insert n (set (child_blocks h n) \<union> set (owned h n) \<union> set (class_blocks h n))"
  by (auto simp: own_blocks_def)

text \<open>A node none of whose blocks changed still shows the same key.\<close>

lemma shows_kept:
  assumes h: "hive_ok h" "hive_ok h'" and s: "shows_node h p n nm s vs cs"
    and k: "\<And>b. b \<in> set (own_blocks h n) \<Longrightarrow> IS_VALID_BLOCK h' b \<and> kept h h' b"
  shows "shows_node h' p n nm s vs cs" "own_blocks h' n = own_blocks h n"
proof -
  note d = shows_nodeD[OF s]
  note n = node_kept[OF d(1) k]
  have kn: "kept h h' n" "IS_VALID_BLOCK h' n" using k[of n] by (auto simp: own_parts)
  note nk = kept_nk[OF kn d(2)]
  have "parent_of h' n = parent_of h n" "value_list h' n = value_list h n"
    using kept_load(2)[OF kn(1), of "n + 20"] kept_load(2)[OF kn(1), of "n + 44"] d(4)
    by (simp_all add: parent_of_def value_list_def)
  moreover from this(2) have "holds_values h' n vs"
    using k by (intro holds_same[OF h d(14,9) nk(1,5)]) (simp_all add: own_parts)
  ultimately show "shows_node h' p n nm s vs cs" using n d nk(2) unfolding shows_node_def by simp
  show "own_blocks h' n = own_blocks h n" by (rule n(2))
qed

lemma apart_grow:
  assumes a: "apart h N" and same: "\<And>m. m \<in> N \<Longrightarrow> m \<noteq> n \<Longrightarrow> own_blocks h' m = own_blocks h m"
    and v: "\<And>m b. m \<in> N \<Longrightarrow> b \<in> set (own_blocks h m) \<Longrightarrow> IS_VALID_BLOCK h b"
    and n: "n \<in> N" "\<And>b. b \<in> set (own_blocks h' n) \<Longrightarrow> b \<in> set (own_blocks h n) \<or> \<not> IS_VALID_BLOCK h b"
  shows "apart h' N"
  unfolding apart_def
proof (intro ballI impI)
  fix x y assume x: "x \<in> N" and y: "y \<in> N" and ne: "x \<noteq> y"
  have one: "set (own_blocks h' n) \<inter> set (own_blocks h' m) = {}" if "m \<in> N" "m \<noteq> n" for m
  proof -
    have "set (own_blocks h n) \<inter> set (own_blocks h m) = {}" using a n(1) that by (auto simp: apart_def)
    then show ?thesis using n(2) v[OF that(1)] unfolding same[OF that] by blast
  qed
  show "set (own_blocks h' x) \<inter> set (own_blocks h' y) = {}"
  proof (cases "x = n \<or> y = n")
    case True
    then show ?thesis using one[of x] one[of y] x y ne by blast
  next
    case False
    then show ?thesis using a x y ne unfolding apart_def by (simp add: same)
  qed
qed

lemma shows_tree_sub:
  "shows_tree h p t \<Longrightarrow> k \<in> set (subkeys t) \<Longrightarrow> \<exists>q. shows_tree h q k"
  by (induction h p t rule: shows_tree.induct) auto

lemma shows_treeD: "shows_tree h p k \<Longrightarrow> shows_key h p k"
  by (cases k) simp

lemma registryD:
  assumes "registry h t"
  shows "hive_ok h" "writable h" "endpages h \<le> 2 ^ 32" "rootoffs h = handle t" "distinct (handles t)"
    "apart h (set (handles t))" "\<exists>S. sks_fine h S (set (handles t))"
    "k \<in> set (subkeys t) \<Longrightarrow> \<exists>q. shows_key h q k"
    "k \<in> set (subkeys t) \<Longrightarrow> \<exists>q. shows_tree h q k"
    "n \<in> set (handles t) \<Longrightarrow> \<exists>q nm s vs cs. shows_node h q n nm s vs cs"
proof -
  note u = assms[unfolded registry_def]
  show "hive_ok h" "writable h" "endpages h \<le> 2 ^ 32" "rootoffs h = handle t" "distinct (handles t)"
    "apart h (set (handles t))" "\<exists>S. sks_fine h S (set (handles t))" using u by auto
  show t: "\<exists>q. shows_tree h q k" if "k \<in> set (subkeys t)" for k using u shows_tree_sub[OF _ that] by blast
  show k: "\<exists>q. shows_key h q k" if "k \<in> set (subkeys t)" for k
    using t[OF that] shows_treeD by blast
  show "\<exists>q nm s vs cs. shows_node h q n nm s vs cs" if "n \<in> set (handles t)"
    using that k unfolding handles_ex by blast
qed

lemma registry_blocks:
  assumes "registry h t" and "m \<in> set (handles t)" and "b \<in> set (own_blocks h m)"
  shows "IS_VALID_BLOCK h b"
  using registryD(10)[OF assms(1,2)] shows_nodeD(12)[OF _ assms(3)] by blast

lemma sks_fineD:
  assumes "sks_fine h S N"
  shows "sk_ring h S" "n \<in> N \<Longrightarrow> node_sk h n \<in> S" "n \<in> N \<Longrightarrow> sk_ok h (node_sk h n)" "s \<in> S \<Longrightarrow> IS_VALID_BLOCK h s"
    "s \<in> S \<Longrightarrow> m \<in> N \<Longrightarrow> s \<notin> set (own_blocks h m)" "s \<in> S \<Longrightarrow> unat (refcount h s) = card {m \<in> N. node_sk h m = s}"
  using assms by (auto simp: sks_fine_def sk_ring_def sk_ok_def)

lemma sks_keep:
  assumes f: "sks_fine h S N" and same: "\<And>m. m \<in> N \<Longrightarrow> node_sk h' m = node_sk h m"
    and k: "\<And>s. s \<in> S \<Longrightarrow> IS_VALID_BLOCK h' s \<and> kept h h' s"
    and o: "\<And>m b. m \<in> N \<Longrightarrow> b \<in> set (own_blocks h' m) \<Longrightarrow> b \<in> set (own_blocks h m) \<or> \<not> IS_VALID_BLOCK h b"
  shows "sks_fine h' S N"
proof -
  note d = sks_fineD[OF f]
  have "s \<notin> set (own_blocks h' m)" if "s \<in> S" "m \<in> N" for s m using o[OF that(2), of s] d(4,5) that by blast
  moreover have "{m \<in> N. node_sk h' m = s} = {m \<in> N. node_sk h m = s}" for s using same by auto
  ultimately show ?thesis using ring_kept[OF d(1) k] d(2,6) same by (simp add: sks_fine_def)
qed

text \<open>The operations leave the header of the image and the handle's root alone.\<close>

lemma same_handle_header: "same_handle h h' \<Longrightarrow> header_of h \<Longrightarrow> header_of h'"
proof -
  assume s: "same_handle h h'" and hd: "header_of h"
  have e: "addr h' i = addr h i" if "i < 0x1000" for i using s that by (simp add: same_handle_def)
  have "get_bytes (addr h') 0 4 = get_bytes (addr h) 0 4" "get32 (addr h') 20 = get32 (addr h) 20"
    "get32 (addr h') 36 = get32 (addr h) 36" "get64 (addr h') 12 = get64 (addr h) 12"
    by (intro get_bytes_cong st32.load_cong st64.load_cong e; simp)+
  then show ?thesis using hd s by (simp add: header_of_def same_handle_def)
qed

lemma registryI:
  assumes "registry h t" and "hive_ok h'" "same_handle h h'" "endpages h' \<le> 2 ^ 32" and "shows_tree h' p t'" "handle t' = handle t"
    and "distinct (handles t')" "apart h' (set (handles t'))" "sks_fine h' S (set (handles t'))"
  shows "registry h' t'"
  using assms same_handle_header[of h h'] unfolding registry_def by (auto simp: same_handle_def)

text \<open>Every operation changes the records of one key, \<open>p\<close>, and leaves those of the others alone.\<close>

lemma rest_same:
  assumes r: "registry h t" and h': "hive_ok h'" and M: "M \<subseteq> set (handles t)"
    and kb: "\<forall>m \<in> M. m \<noteq> p \<longrightarrow> (\<forall>b \<in> set (own_blocks h m). IS_VALID_BLOCK h' b \<and> kept h h' b)"
    and p: "shows_node h q p nm s vs cs" "shows_node h' q p nm s vs' cs'"
  shows "m \<in> M \<Longrightarrow> m \<noteq> p \<Longrightarrow> shows_node h a m b c d e \<Longrightarrow> shows_node h' a m b c d e"
    "m \<in> M \<Longrightarrow> m \<noteq> p \<Longrightarrow> own_blocks h' m = own_blocks h m" "m \<in> M \<Longrightarrow> node_sk h' m = node_sk h m"
proof -
  note d = registryD[OF r]
  have k: "IS_VALID_BLOCK h' b \<and> kept h h' b" if "m \<in> M" "m \<noteq> p" "b \<in> set (own_blocks h m)" for m b using kb that by blast
  show n: "shows_node h' a m b c d e" if "m \<in> M" "m \<noteq> p" "shows_node h a m b c d e" for a m b c d e
    using shows_kept(1)[OF registryD(1)[OF r] h' that(3) k[OF that(1,2)]] .
  show "own_blocks h' m = own_blocks h m" if m: "m \<in> M" "m \<noteq> p"
    using d(10)[of m] m M shows_kept(2)[OF d(1) h' _ k[OF m]] by blast
  show "node_sk h' m = node_sk h m" if m: "m \<in> M"
  proof (cases "m = p")
    case True
    then show ?thesis using shows_nodeD(6)[OF p(1)] shows_nodeD(6)[OF p(2)] by simp
  next
    case False
    then show ?thesis using n[OF m False] d(10)[of m] m M shows_nodeD(6) by (metis subsetD)
  qed
qed

section \<open>Setting values\<close>

lemma set_post_node:
  assumes h: "hive_ok h" and s: "shows_node h p n nm s vs cs" and po: "set_post h n svs h'" and ep: "endpages h' \<le> 2 ^ 32"
    and ok: "\<forall>sv \<in> set svs. sv_ok sv"
  shows "shows_node h' p n nm s svs cs"
    "b \<in> set (own_blocks h' n) \<Longrightarrow> b \<in> set (own_blocks h n) \<or> \<not> IS_VALID_BLOCK h b"
proof -
  note d = shows_nodeD[OF s]
  let ?A = "{n + 40..<n + 48} \<union> {n + 64..<n + 72}"
  have p: "hive_ok h'" "is_nk h' n" "holds_values h' n svs" "values_own h' n"
    and fresh: "\<And>b. b \<in> set (owned h' n) \<Longrightarrow> b \<in> set (owned h n) \<or> \<not> IS_VALID_BLOCK h b"
    and bt: "\<And>i. n \<le> i \<Longrightarrow> i < n + blen h n \<Longrightarrow> i \<notin> ?A \<Longrightarrow> addr h' i = addr h i"
    and k: "\<And>c. IS_VALID_BLOCK h c \<Longrightarrow> c \<notin> set (owned h n) \<Longrightarrow> c \<noteq> n \<Longrightarrow> IS_VALID_BLOCK h' c \<and> kept h h' c"
    using po ep unfolding set_post_def by blast+
  have "get32 (addr h') n = get32 (addr h) n" by (rule st32.load_cong) (use bt d(4) in auto)
  then have sb: "same_but h h' n ?A" using bt p(2) by (auto simp: same_but_def blen_def is_nk_def)
  have ld: "get32 (addr h') (n + i) = get32 (addr h) (n + i)" if "i \<in> {20, 24, 32, 48, 52}" for i
    by (rule same_but_get32[OF sb]) (use that d(4) in auto)
  have nm: "node_name h' n = node_name h n" by (rule same_but_nk(2)[OF sb d(2)]) auto
  have ow: "distinct (own_blocks h n)" using d(1) by (simp add: node_whole_def)
  have kc: "IS_VALID_BLOCK h' b \<and> kept h h' b" if "b \<in> set (child_blocks h n) \<union> set (class_blocks h n)" for b
    by (rule k) (use that ow d(12)[of b] in \<open>auto simp: own_blocks_def\<close>)
  have ix: "index_ok h' n" "child_offsets h' n = child_offsets h n" "child_blocks h' n = child_blocks h n"
    using index_same[OF d(13) p(2)] ld kc by (auto simp: nr_subkeys_def index_block_def)
  have cl: "class_blocks h' n = class_blocks h n" "sk_list h' n = sk_list h n" "parent_of h' n = parent_of h n"
    using ld by (simp_all add: class_blocks_def sk_list_def node_sk_def parent_of_def)
  show new: "b \<in> set (own_blocks h n) \<or> \<not> IS_VALID_BLOCK h b" if "b \<in> set (own_blocks h' n)" for b
    using that fresh[of b] by (auto simp: own_parts ix(3) cl)
  have vb: "IS_VALID_BLOCK h b" if "b \<in> set (child_blocks h n) \<union> set (class_blocks h n) \<union> {n}" for b
    using that d(12)[of b] by (auto simp: own_parts)
  have "set (owned h' n) \<inter> (set (child_blocks h n) \<union> set (class_blocks h n) \<union> {n}) = {}"
    using fresh vb ow by (auto simp: own_blocks_def; blast)
  then have "distinct (own_blocks h' n)" using ow p(4) by (auto simp: own_blocks_def ix(3) cl(1) values_own_def)
  moreover have "IS_VALID_BLOCK h' b" if "b \<in> set (own_blocks h' n)" for b
    using that kc[of b] p(2,4) by (auto simp: own_parts ix(3) cl(1) values_own_def is_nk_def)
  ultimately have "node_whole h' n" using ix(1) p(4) holds_fine[OF p(1,4,3)] by (simp add: node_whole_def)
  then show "shows_node h' p n nm s svs cs" using d nm ix(2) cl p(3) ok by (simp add: shows_node_def)
qed

lemma shows_tree_set:
  assumes "\<And>k p. k \<in> set (subkeys t) \<Longrightarrow> shows_key h p k \<Longrightarrow>
      shows_node h' p (handle k) (kname k) (ksk k) (if handle k = n then f (kvals k) else kvals k) (map handle (kids k))"
  shows "shows_tree h p t \<Longrightarrow> shows_tree h' p (set_vals n f t)"
  using assms
proof (induction t arbitrary: p)
  case (Key m nm s vs ts)
  have "shows_tree h' m (set_vals n f t)" if "t \<in> set ts" for t
  proof (rule Key.IH[OF that])
    show "shows_tree h m t" using Key.prems(1) that by simp
    show "shows_node h' p (handle k) (kname k) (ksk k) (if handle k = n then f (kvals k) else kvals k) (map handle (kids k))"
      if "k \<in> set (subkeys t)" "shows_key h p k" for k p
      by (intro Key.prems(2)) (use that \<open>t \<in> set ts\<close> in auto)
  qed
  then show ?case using Key.prems(1) Key.prems(2)[of "Key m nm s vs ts" p] by (simp add: comp_def split: if_splits)
qed

lemma registry_set:
  assumes r: "registry h t" and k: "k \<in> set (subkeys t)" and po: "set_post h (handle k) (f (kvals k)) h'"
    and ep: "endpages h' \<le> 2 ^ 32" and ok: "\<forall>sv \<in> set (f (kvals k)). sv_ok sv"
  shows "registry h' (set_vals (handle k) f t)"
proof -
  let ?n = "handle k" and ?N = "set (handles t)"
  note d = registryD[OF r]
  obtain S where sf: "sks_fine h S ?N" using d(7) by blast
  have n: "?n \<in> ?N" using k by (auto simp: handles_ex)
  obtain q where sk: "shows_key h q k" using d(8)[OF k] by blast
  note sd = shows_nodeD[OF sk] and nd = set_post_node[OF d(1) sk po ep ok]
  have p: "hive_ok h'" "same_handle h h'"
    and kc: "\<And>c. IS_VALID_BLOCK h c \<Longrightarrow> c \<notin> set (owned h ?n) \<Longrightarrow> c \<noteq> ?n \<Longrightarrow> IS_VALID_BLOCK h' c \<and> kept h h' c"
    using po unfolding set_post_def by blast+
  have kb: "IS_VALID_BLOCK h' b \<and> kept h h' b" if m: "m \<in> ?N" "m \<noteq> ?n" "b \<in> set (own_blocks h m)" for m b
  proof (rule kc[OF registry_blocks[OF r m(1,3)]])
    show "b \<notin> set (owned h ?n)" "b \<noteq> ?n" using d(6) m n unfolding apart_def own_parts by blast+
  qed
  have kb': "\<forall>m \<in> ?N. m \<noteq> ?n \<longrightarrow> (\<forall>b \<in> set (own_blocks h m). IS_VALID_BLOCK h' b \<and> kept h h' b)" using kb by blast
  note same = rest_same[OF r p(1) subset_refl kb' sk nd(1)]
  have ob: "b \<in> set (own_blocks h m) \<or> \<not> IS_VALID_BLOCK h b" if "m \<in> ?N" "b \<in> set (own_blocks h' m)" for m b
    using same(2)[OF that(1)] nd(2) that(2) by (cases "m = ?n") auto
  have step: "shows_node h' p (handle x) (kname x) (ksk x) (if handle x = ?n then f (kvals x) else kvals x) (map handle (kids x))"
    if x: "x \<in> set (subkeys t)" and s: "shows_key h p x" for x p
  proof (cases "handle x = ?n")
    case True
    then have "x = k" using handle_unique[OF d(5) x k] by simp
    then show ?thesis using nd(1) shows_nodeD(7)[OF s] sd(7) by simp
  next
    case False
    then show ?thesis using same(1)[OF _ False s] x by (auto simp: handles_ex)
  qed
  obtain p0 where p0: "shows_tree h p0 t" using r by (auto simp: registry_def)
  have "shows_tree h' p0 (set_vals ?n f t)" using step p0 by (rule shows_tree_set)
  moreover have "apart h' ?N" by (rule apart_grow[OF d(6) same(2) registry_blocks[OF r] n nd(2)])
  moreover have "sks_fine h' S ?N"
  proof (rule sks_keep[OF sf same(3) _ ob])
    fix s assume s: "s \<in> S"
    show "IS_VALID_BLOCK h' s \<and> kept h h' s" by (rule kc) (use sks_fineD(4,5)[OF sf s] n in \<open>auto simp: own_parts\<close>)
  qed
  ultimately show ?thesis using d(5) by (intro registryI[OF r p ep]) simp_all
qed

section \<open>Adding a key\<close>

lemma add_post_parent:
  assumes h: "hive_ok h" and s: "shows_node h q p nm s vs cs" and po: "add_post h p name c h'" and ep: "endpages h' \<le> 2 ^ 32"
    and sk: "s \<notin> set (own_blocks h p)"
  shows "shows_node h' q p nm s vs (insert_child h name cs c)"
    "b \<in> set (own_blocks h' p) \<Longrightarrow> b \<in> set (own_blocks h p) \<or> b \<noteq> c \<and> \<not> IS_VALID_BLOCK h b"
proof -
  note d = shows_nodeD[OF s]
  let ?A = "{p + 24..<p + 28} \<union> {p + 32..<p + 36} \<union> {p + 56..<p + 58}"
  have k: "keeps h h' ({p, s} \<union> set (child_blocks h p))" and sb: "same_but h h' p ?A"
    and ix: "index_own h' p" "child_offsets h' p = insert_child h name cs c"
    and fresh: "\<And>b. b \<in> set (child_blocks h' p) \<Longrightarrow> b \<in> set (child_blocks h p) \<or> \<not> IS_VALID_BLOCK h b"
    and nc: "is_nk h' c" "\<not> IS_VALID_BLOCK h c"
    using po ep d(6,11) by (auto simp: add_post_def leaf_node_def)
  have iok: "index_ok h' p" "is_nk h' p" "distinct (child_blocks h' p)" "c \<notin> set (child_blocks h' p)"
    using ix(1) index_own_ids(2)[OF ix(1) nc(1)] by (auto simp: index_own_def index_ok_def)
  have ld: "get32 (addr h') (p + i) = get32 (addr h) (p + i)" if "i \<in> {20, 40, 44, 48, 52}" for i
    by (rule same_but_get32[OF sb]) (use that d(4) in auto)
  have nm: "node_name h' p = node_name h p" by (rule same_but_nk(2)[OF sb d(2)]) auto
  have ow: "distinct (own_blocks h p)" using d(1) by (simp add: node_whole_def)
  have kc: "IS_VALID_BLOCK h' b \<and> kept h h' b" if "b \<in> set (owned h p) \<union> set (class_blocks h p)" for b
  proof -
    have "IS_VALID_BLOCK h b" "b \<notin> {p, s} \<union> set (child_blocks h p)"
      using that ow sk d(12)[of b] by (auto simp: own_blocks_def)
    then show ?thesis using keepsD[OF k] by blast
  qed
  have fl: "nr_values h' p = nr_values h p" "value_list h' p = value_list h p" "class_blocks h' p = class_blocks h p"
    "sk_list h' p = sk_list h p" "parent_of h' p = parent_of h p"
    using ld by (simp_all add: nr_values_def value_list_def class_blocks_def sk_list_def node_sk_def parent_of_def)
  have ko: "b \<in> set (owned h p) \<Longrightarrow> IS_VALID_BLOCK h' b \<and> kept h h' b" for b using kc by blast
  note vs = values_same[OF d(14) iok(2) fl(1,2) ko]
  have hv: "holds_values h' p vs" by (rule holds_same[OF h keeps_ok(1)[OF k] d(14,9) iok(2) fl(1,2) ko])
  show new: "b \<in> set (own_blocks h p) \<or> b \<noteq> c \<and> \<not> IS_VALID_BLOCK h b" if "b \<in> set (own_blocks h' p)" for b
    using that fresh[of b] iok(4) by (auto simp: own_parts vs(2) fl(3))
  have vb: "IS_VALID_BLOCK h b" if "b \<in> set (owned h p) \<union> set (class_blocks h p) \<union> {p}" for b
    using that d(12)[of b] by (auto simp: own_parts)
  have "set (child_blocks h' p) \<inter> (set (owned h p) \<union> set (class_blocks h p) \<union> {p}) = {}"
    using fresh vb ow by (auto simp: own_blocks_def; blast)
  then have "distinct (own_blocks h' p)" using ow iok(3) by (auto simp: own_blocks_def vs(2) fl(3))
  moreover have "IS_VALID_BLOCK h' b" if "b \<in> set (own_blocks h' p)" for b
    using that kc[of b] iok(1) by (auto simp: own_parts vs(2) fl(3) index_ok_def is_nk_def)
  ultimately have "node_whole h' p"
    using iok(1) vs(1) holds_fine[OF keeps_ok(1)[OF k] vs(1) hv] by (simp add: node_whole_def)
  then show "shows_node h' q p nm s vs (insert_child h name cs c)" using d nm ix(2) fl hv by (simp add: shows_node_def)
qed

lemma add_post_leaf:
  assumes s: "shows_node h q p nm s vs cs" and po: "add_post h p name c h'" and ep: "endpages h' \<le> 2 ^ 32"
  shows "shows_node h' p c (cstr name) s [] []" "own_blocks h' c = [c]"
proof -
  have l: "leaf_node h' c p name" and sk: "node_sk h' c = s" "sk_ok h' s" and ok: "hive_ok h'" and vp: "IS_VALID_BLOCK h' p"
    using po shows_nodeD(6)[OF s] by (auto simp: add_post_def keeps_def same_but_def)
  have nk: "is_nk h' c" and z: "nr_subkeys h' c = 0" "nr_values h' c = 0" and nm: "node_name h' c = cstr name"
    and f: "get32 (addr h') (c + 20) = of_nat p - 0x1000" "class_blocks h' c = []"
    using l by (auto simp: leaf_node_def class_blocks_def)
  have "s < 2 ^ 32" using hive_ok_valid(2,4)[OF ok, of s] sk(2) ep by (auto simp: sk_ok_def)
  then have sl: "sk_list h' c = [s]" using sk(1) by (auto simp: sk_list_def node_sk_def)
  have par: "parent_of h' c = p" using off32_valid[OF ok vp ep] by (simp add: parent_of_def f off32_def)
  have ix: "index_ok h' c" "child_offsets h' c = []" "child_blocks h' c = []"
    using nk z by (simp_all add: index_ok_def child_offsets_def leaf_blocks_def child_blocks_def)
  note e = set_values_empty[OF ok z(2) nk]
  show ow: "own_blocks h' c = [c]" using ix(3) e f(2) by (simp add: own_blocks_def)
  have "value_offsets h' c = []" using z(2) by (simp add: value_offsets_def)
  then have "node_whole h' c" using ix e nk by (simp add: node_whole_def ow is_nk_def)
  then show "shows_node h' p c (cstr name) s [] []" using par nm sl e ix(2) by (simp add: shows_node_def)
qed

lemma map_insert_key:
  assumes "\<And>t. t \<in> set ts \<Longrightarrow> kname t = node_name h (handle t)"
  shows "map handle (insert_key (Key c (cstr name) s [] []) ts) = insert_child h name (map handle ts) c"
proof -
  have e: "strcasecmp (kname t) (cstr name) \<le> 0 \<longleftrightarrow> not_before h name (handle t)" if "t \<in> set ts" for t
    using assms[OF that] by (simp add: not_before_iff strcasecmp_def)
  then have "takeWhile (\<lambda>t. strcasecmp (kname t) (cstr name) \<le> 0) ts = takeWhile (not_before h name \<circ> handle) ts"
    "dropWhile (\<lambda>t. strcasecmp (kname t) (cstr name) \<le> 0) ts = dropWhile (not_before h name \<circ> handle) ts"
    by (auto intro!: takeWhile_cong dropWhile_cong)
  then show ?thesis by (simp add: insert_key_def insert_child_def takeWhile_map dropWhile_map)
qed

lemma shows_tree_new:
  assumes "\<And>k q. k \<in> set (subkeys t) \<Longrightarrow> shows_key h q k \<Longrightarrow>
      shows_node h' q (handle k) (kname k) (ksk k) (kvals k)
        (if handle k = p then insert_child h name (map handle (kids k)) c else map handle (kids k))"
    and "\<And>k. k \<in> set (subkeys t) \<Longrightarrow> handle k = p \<Longrightarrow> shows_node h' p c (cstr name) (ksk k) [] []"
  shows "shows_tree h q t \<Longrightarrow> shows_tree h' q (new_key p c name t)"
  using assms
proof (induction t arbitrary: q)
  case (Key m nm s vs ts)
  let ?k = "Key m nm s vs ts" and ?ts = "map (new_key p c name) ts"
  have sub: "shows_tree h m t" if "t \<in> set ts" for t using Key.prems(1) that by simp
  have ih: "shows_tree h' m (new_key p c name t)" if t: "t \<in> set ts" for t
  proof (rule Key.IH[OF t sub[OF t]])
    show "shows_node h' q (handle k) (kname k) (ksk k) (kvals k)
        (if handle k = p then insert_child h name (map handle (kids k)) c else map handle (kids k))"
      if "k \<in> set (subkeys t)" "shows_key h q k" for k q
      by (intro Key.prems(2)) (use that t in auto)
    show "shows_node h' p c (cstr name) (ksk k) [] []" if "k \<in> set (subkeys t)" "handle k = p" for k
      by (intro Key.prems(3)) (use that t in auto)
  qed
  have me: "shows_node h' q m nm s vs (if m = p then insert_child h name (map handle ts) c else map handle ts)"
    using Key.prems(2)[of ?k q] Key.prems(1) by (simp split: if_splits)
  show ?case
  proof (cases "m = p")
    case True
    have nm: "kname t = node_name h (handle t)" if t: "t \<in> set ?ts" for t
    proof -
      obtain x where x: "x \<in> set ts" "t = new_key p c name x" using t by auto
      then show ?thesis using shows_nodeD(8)[OF shows_treeD[OF sub[OF x(1)]]] by simp
    qed
    have "map handle (insert_key (Key c (cstr name) s [] []) ?ts) = insert_child h name (map handle ts) c"
      using map_insert_key[of ?ts h c name s] nm by (simp add: comp_def)
    moreover have "shows_tree h' m (Key c (cstr name) s [] [])" using Key.prems(3)[of ?k] True by simp
    ultimately show ?thesis using True me ih by (auto simp: Let_def)
  next
    case False
    then show ?thesis using me ih by (auto simp: Let_def comp_def)
  qed
qed

lemma few_nodes:
  assumes h: "hive_ok h" "endpages h \<le> 2 ^ 32" and v: "\<And>n. n \<in> N \<Longrightarrow> IS_VALID_BLOCK h n"
  shows "card N \<le> 2 ^ 30"
proof -
  have b: "n mod 4 = 0 \<and> n div 4 < 2 ^ 30" if "n \<in> N" for n
    using v[OF that] hive_ok_valid(2,4)[OF h(1), of n] h(2) by (auto simp: IS_VALID_BLOCK_def)
  have "inj_on (\<lambda>n. n div 4) N" using b by (intro inj_onI) (metis mult_div_mod_eq add_0_right)
  moreover have "(\<lambda>n. n div 4) ` N \<subseteq> {..<2 ^ 30}" using b by auto
  ultimately show ?thesis using card_inj_on_le[of _ N "{..<2 ^ 30 :: nat}"] by simp
qed

lemma sks_add:
  assumes f: "sks_fine h S N" and fin: "finite N" "c \<notin> N" "card N \<le> 2 ^ 30" and p: "p \<in> N"
    and same: "\<And>m. m \<in> N \<Longrightarrow> node_sk h' m = node_sk h m" and c: "node_sk h' c = node_sk h p" "own_blocks h' c = [c]" "\<not> IS_VALID_BLOCK h c"
    and s: "sk_ok h' (node_sk h p)" "refcount h' (node_sk h p) = refcount h (node_sk h p) + 1"
      "same_but h h' (node_sk h p) {node_sk h p + 16..<node_sk h p + 20}"
    and k: "\<And>s. s \<in> S \<Longrightarrow> s \<noteq> node_sk h p \<Longrightarrow> IS_VALID_BLOCK h' s \<and> kept h h' s"
    and o: "\<And>m b. m \<in> N \<Longrightarrow> b \<in> set (own_blocks h' m) \<Longrightarrow> b \<in> set (own_blocks h m) \<or> \<not> IS_VALID_BLOCK h b"
  shows "sks_fine h' S (insert c N)"
proof -
  note d = sks_fineD[OF f]
  have out: "\<forall>m \<in> insert c N. x \<notin> set (own_blocks h' m)" if "x \<in> S" for x using o d(4,5)[OF that] c(2,3) by auto
  have old: "{m \<in> N. node_sk h' m = x} = {m \<in> N. node_sk h m = x}" for x using same by auto
  have le: "card {m \<in> N. node_sk h m = x} \<le> card N" for x using fin(1) by (intro card_mono) auto
  have rec: "sk_ok h' x \<and> get32 (addr h') (x + 8) = get32 (addr h) (x + 8) \<and> get32 (addr h') (x + 12) = get32 (addr h) (x + 12) \<and>
      unat (refcount h' x) = card {m \<in> insert c N. node_sk h' m = x}" if x: "x \<in> S" for x
  proof (cases "x = node_sk h p")
    case True
    have "{m \<in> insert c N. node_sk h' m = x} = insert c {m \<in> N. node_sk h m = x}" using old c(1) True by auto
    then have "card {m \<in> insert c N. node_sk h' m = x} = Suc (unat (refcount h x))" using fin d(6)[OF x] by simp
    moreover have "unat (refcount h x + 1) = Suc (unat (refcount h x))"
      using le[of x] fin(3) d(6)[OF x] by (simp add: unat_word_ariths)
    moreover have "20 \<le> blen h x" using sk_ringD[OF d(1) x] by (simp add: sk_ok_def)
    ultimately show ?thesis using s True same_but_get32[OF s(3), of 8] same_but_get32[OF s(3), of 12] by simp
  next
    case False
    have xo: "sk_ok h x" by (rule sk_ringD[OF d(1) x])
    have "{m \<in> insert c N. node_sk h' m = x} = {m \<in> N. node_sk h m = x}" using old c(1) False by auto
    then show ?thesis using k[OF x False] kept_sk[of h h' x] kept_load(2)[of h h' x] xo d(6)[OF x] by (simp add: sk_ok_def)
  qed
  have "sk_ring h' S" by (rule ring_same[OF d(1)]) (use rec in blast)
  then show ?thesis using rec out d(2) same c(1) p by (simp add: sks_fine_def)
qed

lemma apart_insert:
  "apart h N \<Longrightarrow> own_blocks h c = [c] \<Longrightarrow> (\<And>m. m \<in> N \<Longrightarrow> c \<notin> set (own_blocks h m)) \<Longrightarrow> apart h (insert c N)"
  by (auto simp: apart_def)

lemma registry_add:
  assumes r: "registry h t" and k: "k \<in> set (subkeys t)" and po: "add_post h (handle k) name c h'" and ep: "endpages h' \<le> 2 ^ 32"
  shows "registry h' (new_key (handle k) c name t)" "c \<notin> set (handles t)"
proof -
  let ?p = "handle k" and ?N = "set (handles t)"
  note d = registryD[OF r]
  obtain S where sf: "sks_fine h S ?N" using d(7) by blast
  have p: "?p \<in> ?N" using k by (auto simp: handles_ex)
  obtain q where sk: "shows_key h q k" using d(8)[OF k] by blast
  note sd = shows_nodeD[OF sk]
  have so: "ksk k \<notin> set (own_blocks h m)" if "m \<in> ?N" for m using sks_fineD(5)[OF sf _ that] sks_fineD(2)[OF sf p] sd(6) by simp
  note nd = add_post_parent[OF d(1) sk po ep so[OF p]] and lf = add_post_leaf[OF sk po ep]
  have kc: "keeps h h' ({?p, ksk k} \<union> set (child_blocks h ?p))" and cv: "\<not> IS_VALID_BLOCK h c" and csk: "node_sk h' c = ksk k"
    and rc: "sk_ok h' (ksk k)" "refcount h' (ksk k) = refcount h (ksk k) + 1" "same_but h h' (ksk k) {ksk k + 16..<ksk k + 20}"
    using po sd(6) by (auto simp: add_post_def)
  note ok = keeps_ok[OF kc]
  have vn: "IS_VALID_BLOCK h m" if "m \<in> ?N" for m using registry_blocks[OF r that own_self] .
  show cn: "c \<notin> ?N" using cv vn by blast
  have kb: "IS_VALID_BLOCK h' b \<and> kept h h' b" if m: "m \<in> ?N" "m \<noteq> ?p" "b \<in> set (own_blocks h m)" for m b
  proof -
    have "b \<noteq> ksk k" using so[OF m(1)] m(3) by blast
    moreover have "b \<notin> insert ?p (set (child_blocks h ?p))" using d(6) m p unfolding apart_def own_parts by blast
    ultimately show ?thesis using keepsD[OF kc registry_blocks[OF r m(1,3)]] by simp
  qed
  have kb': "\<forall>m \<in> ?N. m \<noteq> ?p \<longrightarrow> (\<forall>b \<in> set (own_blocks h m). IS_VALID_BLOCK h' b \<and> kept h h' b)" using kb by blast
  note same = rest_same[OF r ok(1) subset_refl kb' sk nd(1)]
  have ob: "b \<in> set (own_blocks h m) \<or> b \<noteq> c \<and> \<not> IS_VALID_BLOCK h b" if "m \<in> ?N" "b \<in> set (own_blocks h' m)" for m b
    using same(2)[OF that(1)] nd(2) that(2) by (cases "m = ?p") auto
  have step: "shows_node h' q (handle x) (kname x) (ksk x) (kvals x)
      (if handle x = ?p then insert_child h name (map handle (kids x)) c else map handle (kids x))"
    if x: "x \<in> set (subkeys t)" and s: "shows_key h q x" for x q
  proof (cases "handle x = ?p")
    case True
    then have "x = k" using handle_unique[OF d(5) x k] by simp
    then show ?thesis using nd(1) shows_nodeD(7)[OF s] sd(7) by simp
  next
    case False
    then show ?thesis using same(1)[OF _ False s] x by (auto simp: handles_ex)
  qed
  have new: "shows_node h' ?p c (cstr name) (ksk x) [] []" if "x \<in> set (subkeys t)" "handle x = ?p" for x
    using handle_unique[OF d(5) that(1) k that(2)] lf(1) by simp
  obtain p0 where p0: "shows_tree h p0 t" using r by (auto simp: registry_def)
  have "shows_tree h' p0 (new_key ?p c name t)" using step new p0 by (rule shows_tree_new)
  moreover have hs: "set (handles (new_key ?p c name t)) = insert c ?N" using p by (simp add: set_handles_new)
  moreover have "apart h' (insert c ?N)"
  proof (rule apart_insert[OF _ lf(2)])
    show "apart h' ?N" by (rule apart_grow[OF d(6) same(2) registry_blocks[OF r] p]) (use nd(2) in auto)
    show "c \<notin> set (own_blocks h' m)" if "m \<in> ?N" for m using ob[OF that, of c] registry_blocks[OF r that, of c] cv by blast
  qed
  moreover have "sks_fine h' S (insert c ?N)"
  proof (rule sks_add[OF sf _ cn few_nodes[OF d(1,3) vn] p same(3) _ lf(2) cv])
    fix s assume s: "s \<in> S" "s \<noteq> node_sk h ?p"
    have "IS_VALID_BLOCK h s" "s \<notin> {?p, ksk k} \<union> set (child_blocks h ?p)"
      using s sks_fineD(4,5)[OF sf s(1)] p sd(6) by (auto simp: own_parts)
    then show "IS_VALID_BLOCK h' s \<and> kept h h' s" using keepsD[OF kc] by blast
  qed (use csk rc sd(6) ob in auto)
  ultimately show "registry h' (new_key ?p c name t)"
    using distinct_new_key[OF d(5) cn] by (intro registryI[OF r ok(1,2) ep]) simp_all
qed

section \<open>Deleting a key\<close>

primrec ktree_of :: "key \<Rightarrow> ktree" where
  "ktree_of (Key n nm s vs ts) = KNode n (map ktree_of ts)"

lemma ktree_of_simps [simp]: "node_of (ktree_of t) = handle t" "nodes (ktree_of t) = handles t"
proof -
  show "node_of (ktree_of t) = handle t" by (cases t) simp
  show "nodes (ktree_of t) = handles t" by (induction t) (simp add: comp_def cong: map_cong)
qed

lemma shows_tree_at: "shows_tree h p t \<Longrightarrow> tree_at h (ktree_of t)"
  by (induction h p t rule: shows_tree.induct) (auto simp: shows_node_def comp_def)

lemma subkeys_parent:
  "k \<in> set (subkeys t) \<Longrightarrow> k \<noteq> t \<Longrightarrow> \<exists>x \<in> set (subkeys t). k \<in> set (kids x)"
proof (induction t)
  case (Key n nm s vs ts)
  then obtain a where a: "a \<in> set ts" "k \<in> set (subkeys a)" by auto
  show ?case
  proof (cases "k = a")
    case True
    then show ?thesis using a(1) by (intro bexI[of _ "Key n nm s vs ts"]) auto
  next
    case False
    then show ?thesis using Key.IH[OF a(1,2)] a(1) by auto
  qed
qed

lemma kids_sub: "x \<in> set (kids k) \<Longrightarrow> x \<in> set (subkeys k)"
  using self_in[of x] by (cases k) (auto simp del: self_in)

lemma shows_kids: "shows_tree h p k \<Longrightarrow> x \<in> set (kids k) \<Longrightarrow> shows_tree h (handle k) x"
  by (cases k) auto

lemma kids_apart:
  assumes "distinct (handles k)" and "x \<in> set (kids k)"
  shows "handle k \<notin> set (handles x)" "y \<in> set (kids k) \<Longrightarrow> y \<noteq> x \<Longrightarrow> set (handles y) \<inter> set (handles x) = {}"
    "distinct (map handle (kids k))"
proof -
  obtain n nm s vs ts where k: "k = Key n nm s vs ts" by (cases k)
  have d: "distinct (concat (map handles ts))" "n \<notin> set (concat (map handles ts))" using assms(1) k by auto
  show "handle k \<notin> set (handles x)" using d(2) assms(2) k by auto
  show "set (handles y) \<inter> set (handles x) = {}" if "y \<in> set (kids k)" "y \<noteq> x"
    using distinct_parts[OF d(1)] that assms(2) k by fastforce
  have "distinct (map handle ts)" using d(1)
  proof (induction ts)
    case (Cons a ts)
    have "handle a \<noteq> handle b" if "b \<in> set ts" for b
      using Cons.prems that handle_in[of a] handle_in[of b] by (auto simp del: handle_in) 
    then show ?case using Cons by auto
  qed simp
  then show "distinct (map handle (kids k))" using k by simp
qed

lemma count_sks:
  assumes "distinct ns" and "\<And>n. n \<in> set ns \<Longrightarrow> sk_list h n = [node_sk h n]"
  shows "count_list (sks_of h ns) s = card {n \<in> set ns. node_sk h n = s}" "set (sks_of h ns) = node_sk h ` set ns"
proof -
  have e: "sks_of h ns = map (node_sk h) ns"
    using assms(2) unfolding sks_of_def by (induction ns) auto
  show "set (sks_of h ns) = node_sk h ` set ns" unfolding e by simp
  have "count_list (map (node_sk h) ns) s = length (filter (\<lambda>n. node_sk h n = s) ns)"
    by (induction ns) auto
  also have "\<dots> = card {n \<in> set ns. node_sk h n = s}" using assms(1) distinct_card[of "filter (\<lambda>n. node_sk h n = s) ns"] by simp
  finally show "count_list (sks_of h ns) s = card {n \<in> set ns. node_sk h n = s}" unfolding e .
qed

lemma distinct_node_blocks:
  "distinct ns \<Longrightarrow> apart h (set ns) \<Longrightarrow> (\<And>n. n \<in> set ns \<Longrightarrow> distinct (own_blocks h n)) \<Longrightarrow> distinct (node_blocks h ns)"
proof (induction ns)
  case (Cons n ns)
  have "apart h (set ns)" using Cons.prems(2) by (auto simp: apart_def)
  then have "distinct (node_blocks h ns)" using Cons by auto
  moreover have "set (own_blocks h n) \<inter> set (node_blocks h ns) = {}"
    using Cons.prems(1,2) by (fastforce simp: apart_def node_blocks_def)
  ultimately show ?case using Cons.prems(3)[of n] by (auto simp: node_blocks_def)
qed simp

lemma kid_parent:
  assumes r: "registry h t" and sx: "shows_tree h q x" and k: "k \<in> set (kids x)"
  shows "hivex_node_parent h (handle k) = Ok (handle x)"
proof -
  note d = registryD(1)[OF r] and xd = shows_nodeD[OF shows_treeD[OF sx]] and kd = shows_nodeD[OF shows_treeD[OF shows_kids[OF sx k]]]
  have "rd32 h (handle k + 20) = Ok (get32 (addr h) (handle k + 20))" using is_nk_bounds(2)[OF d kd(2)] by simp
  moreover have "check_block h (handle k) id_nk EINVAL = Ok ()" using kd(2) is_nk_bounds(2)[OF d kd(2)] by (auto simp: is_nk_def)
  ultimately show ?thesis using kd(7) xd(3) by (simp add: hivex_node_parent_def Let_def parent_of_def del: rd_Ok check_block_bid)
qed

text \<open>The subtree of a key that may be deleted hangs below the key's parent.\<close>

lemma registry_deletable:
  assumes r: "registry h t" and k: "k \<in> set (subkeys t)" and sf: "sks_fine h S (set (handles t))"
  shows "deletable h S (handles k)"
  unfolding deletable_def
proof (intro conjI ballI)
  let ?N = "set (handles t)" and ?K = "set (handles k)"
  note d = registryD[OF r] and f = sks_fineD[OF sf]
  have sub: "?K \<subseteq> ?N" by (rule subkeys_handles[OF k])
  have whole: "node_whole h n" "sk_list h n = [node_sk h n]" if "n \<in> ?K" for n
    using d(10)[of n] that sub shows_nodeD(1,5,6)[of h _ n] by fastforce+
  then show "node_whole h n" if "n \<in> ?K" for n using that by simp
  have dk: "distinct (handles k)" by (rule distinct_subkeys[OF k d(5)])
  show "distinct (node_blocks h (handles k))"
    by (rule distinct_node_blocks[OF dk]) (use d(6) sub whole in \<open>auto simp: apart_def node_whole_def\<close>)
  show "sk_ring h S" by (rule f(1))
  show "S \<inter> set (node_blocks h (handles k)) = {}" using f(5) sub by (auto simp: node_blocks_def)
  note c = count_sks[OF dk whole(2)]
  fix s assume "s \<in> set (sks_of h (handles k))"
  then obtain n where n: "n \<in> ?K" "s = node_sk h n" by (auto simp: c(2))
  then show s: "s \<in> S" using f(2) sub by blast
  have "card {m \<in> ?K. node_sk h m = s} \<le> card {m \<in> ?N. node_sk h m = s}" using sub by (intro card_mono) auto
  then show "count_list (sks_of h (handles k)) s \<le> unat (refcount h s)" using c(1) f(6)[OF s] by simp
qed

lemma registry_hangs:
  assumes r: "registry h t" and x: "x \<in> set (subkeys t)" and k: "k \<in> set (kids x)" and del: "deletable h S (handles k)"
  shows "hangs_below h S (handle x) (ktree_of k)"
proof -
  note d = registryD[OF r]
  let ?p = "handle x" and ?K = "set (handles k)"
  obtain q where sx: "shows_tree h q x" using d(9)[OF x] by blast
  note xd = shows_nodeD[OF shows_treeD[OF sx]]
  have kid: "shows_node h ?p (handle y) (kname y) (ksk y) (kvals y) (map handle (kids y))" if "y \<in> set (kids x)" for y
    using shows_treeD[OF shows_kids[OF sx that]] .
  note dx = distinct_subkeys[OF x d(5)]
  note ap = kids_apart[OF dx k]
  have sub: "?K \<subseteq> set (handles t)" using subkeys_handles[OF x] subkeys_handles[OF kids_sub[OF k]] by blast
  have sep: "b \<notin> set (node_blocks h (handles k))" if m: "m \<in> set (handles t)" "m \<notin> ?K" and b: "b \<in> set (own_blocks h m)" for b m
    using d(6) m b sub by (fastforce simp: apart_def node_blocks_def)
  have io: "index_own h ?p"
    using xd(1,11) shows_nodeD(2)[OF kid] by (auto simp: index_own_def node_whole_def own_blocks_def)
  have px: "?p \<in> set (handles t)" using x by (auto simp: handles_ex)
  have "handle y \<notin> set (node_blocks h (handles k))" if y: "y \<in> set (kids x)" "handle y \<noteq> handle k" for y
  proof (rule sep[OF _ _ own_self])
    show "handle y \<notin> ?K" using ap(2)[OF y(1)] y(2) handle_in[of y] by blast
    show "handle y \<in> set (handles t)" using subkeys_trans[OF x kids_sub[OF y(1)]] by (auto simp: handles_ex)
  qed
  then have "set (?p # child_blocks h ?p @ remove1 (handle k) (child_offsets h ?p)) \<inter> set (node_blocks h (handles k)) = {}"
    using sep[OF px ap(1)] ap(3) by (auto simp: own_parts xd(11))
  moreover have "hivex_node_parent h (handle k) = Ok ?p" by (rule kid_parent[OF r sx k])
  ultimately show ?thesis
    using shows_tree_at[OF shows_kids[OF sx k]] del io k by (simp add: hangs_below_def xd(11))
qed

lemma gone_parent:
  assumes h: "hive_ok h" and s: "shows_node h q p nm s vs cs" and g: "child_gone h S p t h'"
    and B: "set (own_blocks h p) \<inter> set (node_blocks h (nodes t)) = {}" "set (own_blocks h p) \<inter> S = {}"
  shows "shows_node h' q p nm s vs (remove1 (node_of t) cs)" "set (own_blocks h' p) \<subseteq> set (own_blocks h p)"
proof -
  note d = shows_nodeD[OF s]
  have ok: "hive_ok h'" and ix: "index_own h' p" "child_offsets h' p = remove1 (node_of t) cs" "set (child_blocks h' p) \<subseteq> set (child_blocks h p)"
    and val: "\<And>x. IS_VALID_BLOCK h' x \<longleftrightarrow> IS_VALID_BLOCK h x \<and> x \<notin> gone h S (nodes t)"
    and k: "\<And>c. IS_VALID_BLOCK h' c \<Longrightarrow> c \<noteq> p \<Longrightarrow> c \<notin> set (child_blocks h p) \<Longrightarrow> c \<notin> S \<Longrightarrow> kept h h' c"
    and sb: "same_but h h' p {p + 24..<p + 28}"
    using g d(11) unfolding child_gone_def by blast+
  have iok: "index_ok h' p" "is_nk h' p" "distinct (child_blocks h' p)" using ix(1) by (auto simp: index_own_def index_ok_def)
  have ld: "get32 (addr h') (p + i) = get32 (addr h) (p + i)" if "i \<in> {20, 40, 44, 48, 52}" for i
    by (rule same_but_get32[OF sb]) (use that d(4) in auto)
  have nm: "node_name h' p = node_name h p" by (rule same_but_nk(2)[OF sb d(2)]) auto
  have ow: "distinct (own_blocks h p)" using d(1) by (simp add: node_whole_def)
  have kc: "IS_VALID_BLOCK h' b \<and> kept h h' b" if b: "b \<in> set (owned h p) \<union> set (class_blocks h p)" for b
  proof -
    have o: "b \<in> set (own_blocks h p)" using b by (auto simp: own_parts)
    then have "IS_VALID_BLOCK h' b" using val d(12) B by (auto simp: gone_def)
    moreover have "b \<noteq> p" "b \<notin> set (child_blocks h p)" "b \<notin> S" using b o ow B(2) by (auto simp: own_blocks_def)
    ultimately show ?thesis using k by blast
  qed
  have fl: "nr_values h' p = nr_values h p" "value_list h' p = value_list h p" "class_blocks h' p = class_blocks h p"
    "sk_list h' p = sk_list h p" "parent_of h' p = parent_of h p"
    using ld by (simp_all add: nr_values_def value_list_def class_blocks_def sk_list_def node_sk_def parent_of_def)
  have ko: "b \<in> set (owned h p) \<Longrightarrow> IS_VALID_BLOCK h' b \<and> kept h h' b" for b using kc by blast
  note vs = values_same[OF d(14) iok(2) fl(1,2) ko]
  have hv: "holds_values h' p vs" by (rule holds_same[OF h ok d(14,9) iok(2) fl(1,2) ko])
  show sub: "set (own_blocks h' p) \<subseteq> set (own_blocks h p)" using ix(3) by (auto simp: own_parts vs(2) fl(3))
  have "distinct (own_blocks h' p)" using ow iok(3) ix(3) by (auto simp: own_blocks_def vs(2) fl(3))
  moreover have "IS_VALID_BLOCK h' b" if "b \<in> set (own_blocks h' p)" for b
    using that sub val d(12) B by (auto simp: gone_def)
  ultimately have "node_whole h' p" using iok(1) vs(1) holds_fine[OF ok vs(1) hv] by (simp add: node_whole_def)
  then show "shows_node h' q p nm s vs (remove1 (node_of t) cs)" using d nm ix(2) fl hv by (simp add: shows_node_def)
qed

lemma shows_tree_drop:
  assumes "\<And>k q. k \<in> set (subkeys t) \<Longrightarrow> handle k \<in> set (handles (drop_key c t)) \<Longrightarrow> shows_key h q k \<Longrightarrow>
      shows_node h' q (handle k) (kname k) (ksk k) (kvals k) (filter (\<lambda>x. x \<noteq> c) (map handle (kids k)))"
  shows "shows_tree h q t \<Longrightarrow> shows_tree h' q (drop_key c t)"
  using assms
proof (induction t arbitrary: q)
  case (Key m nm s vs ts)
  have ih: "shows_tree h' m (drop_key c t)" if t: "t \<in> set ts" "handle t \<noteq> c" for t
  proof (rule Key.IH[OF t(1)])
    show "shows_tree h m t" using Key.prems(1) t(1) by simp
    show "shows_node h' q (handle k) (kname k) (ksk k) (kvals k) (filter (\<lambda>x. x \<noteq> c) (map handle (kids k)))"
      if "k \<in> set (subkeys t)" "handle k \<in> set (handles (drop_key c t))" "shows_key h q k" for k q
      by (intro Key.prems(2)) (use that t in auto)
  qed
  have "shows_node h' q m nm s vs (filter (\<lambda>x. x \<noteq> c) (map handle ts))"
    using Key.prems(2)[of "Key m nm s vs ts" q] Key.prems(1) by simp
  moreover have "filter (\<lambda>x. x \<noteq> c) (map handle ts) = map handle (filter (\<lambda>t. handle t \<noteq> c) (map (drop_key c) ts))"
    by (simp add: filter_map comp_def)
  ultimately show ?case using ih by auto
qed

lemma sks_drop:
  assumes sf: "sks_fine h S N" and fin: "finite N" "K \<subseteq> N"
    and same: "\<And>m. m \<in> N - K \<Longrightarrow> node_sk h' m = node_sk h m"
    and o: "\<And>m. m \<in> N - K \<Longrightarrow> set (own_blocks h' m) \<subseteq> set (own_blocks h m)"
    and d: "sks_dropped h S L h'" and L: "\<And>s. count_list L s = card {m \<in> K. node_sk h m = s}"
  shows "sks_fine h' (sks_left h S L) (N - K)"
proof -
  note f = sks_fineD[OF sf]
  let ?c = "\<lambda>A s. card {m \<in> A. node_sk h m = s}"
  have S: "s \<in> S" if "s \<in> sks_left h S L" for s using that sks_left_sub by blast
  have le: "?c K s \<le> ?c N s" for s using fin by (intro card_mono) (auto intro: finite_subset)
  have "{m \<in> N - K. node_sk h' m = s} = {m \<in> N. node_sk h m = s} - {m \<in> K. node_sk h m = s}" for s using same by auto
  then have left: "card {m \<in> N - K. node_sk h' m = s} = ?c N s - ?c K s" for s
    using fin by (simp add: card_Diff_subset finite_subset[of _ N] subset_eq)
  have "unat (refcount h' s) = card {m \<in> N - K. node_sk h' m = s}" if s: "s \<in> sks_left h S L" for s
    unfolding left using d s count_sub[of "?c K s" "refcount h s"] le[of s] f(6)[OF S[OF s]] by (simp add: sks_dropped_def L)
  moreover have "node_sk h' n \<in> sks_left h S L" if n: "n \<in> N - K" for n
  proof -
    let ?s = "node_sk h n"
    have "card {m \<in> N - K. node_sk h' m = ?s} \<noteq> 0" using n same[OF n] fin(1) by auto
    then have "count_list L ?s \<noteq> unat (refcount h ?s)" using left[of ?s] f(2,6) n by (auto simp: L)
    then show ?thesis using f(2) n same[OF n] by (simp add: sks_left_def)
  qed
  ultimately show ?thesis using d o f(5) S unfolding sks_fine_def sks_dropped_def by blast
qed

lemma only_parent:
  assumes r: "registry h t" and x: "x \<in> set (subkeys t)" "k \<in> set (kids x)" and y: "y \<in> set (subkeys t)" "handle k \<in> set (map handle (kids y))"
  shows "handle y = handle x"
proof -
  note d = registryD[OF r]
  obtain z where z: "z \<in> set (kids y)" "handle z = handle k" using y(2) by auto
  have "z = k" using handle_unique[OF d(5) subkeys_trans[OF y(1) kids_sub[OF z(1)]] subkeys_trans[OF x(1) kids_sub[OF x(2)]] z(2)] .
  moreover obtain q q' where "shows_tree h q y" "shows_tree h q' x" using d(9) x(1) y(1) by blast
  ultimately have "parent_of h (handle k) = handle y" "parent_of h (handle k) = handle x"
    using shows_nodeD(7)[OF shows_treeD[OF shows_kids]] x(2) z(1) by blast+
  then show ?thesis by simp
qed

lemma registry_delete:
  assumes r: "registry h t" and x: "x \<in> set (subkeys t)" and k: "k \<in> set (kids x)" and del: "deletable h S (handles k)"
    and sf: "sks_fine h S (set (handles t))" and g: "child_gone h S (handle x) (ktree_of k) h'" and ep: "endpages h' \<le> 2 ^ 32"
  shows "registry h' (drop_key (handle k) t)"
proof -
  note d = registryD[OF r]
  let ?p = "handle x" and ?N = "set (handles t)" and ?K = "set (handles k)" and ?c = "handle k"
  obtain q where sx: "shows_tree h q x" using d(9)[OF x] by blast
  note xs = shows_treeD[OF sx]
  note ap = kids_apart[OF distinct_subkeys[OF x d(5)] k]
  have kt: "k \<in> set (subkeys t)" by (rule subkeys_trans[OF x kids_sub[OF k]])
  have p: "?p \<in> ?N - ?K" using x ap(1) by (auto simp: handles_ex)
  have "k \<noteq> t" using p by auto
  then have left: "set (handles (drop_key ?c t)) = ?N - ?K" by (rule handles_drop_key[OF d(5) kt])
  have sub: "?K \<subseteq> ?N" by (rule subkeys_handles[OF kt])
  have skl: "sk_list h n = [node_sk h n]" if "n \<in> ?N" for n using d(10)[OF that] shows_nodeD(5,6) by metis
  note cs = count_sks[OF distinct_subkeys[OF kt d(5)], of h]
  have cnt: "count_list (sks_of h (handles k)) s = card {m \<in> ?K. node_sk h m = s}" for s
    by (rule cs(1)) (use skl sub in blast)
  have sep: "set (own_blocks h m) \<inter> set (node_blocks h (handles k)) = {}" "set (own_blocks h m) \<inter> S = {}"
    if m: "m \<in> ?N - ?K" for m
  proof -
    show "set (own_blocks h m) \<inter> set (node_blocks h (handles k)) = {}"
      using d(6) m sub by (fastforce simp: apart_def node_blocks_def)
    show "set (own_blocks h m) \<inter> S = {}" using sks_fineD(5)[OF sf] m by blast
  qed
  have ok: "hive_ok h'" "same_handle h h'"
    and val: "\<And>b. IS_VALID_BLOCK h' b \<longleftrightarrow> IS_VALID_BLOCK h b \<and> b \<notin> gone h S (handles k)"
    and kc: "\<And>b. IS_VALID_BLOCK h' b \<Longrightarrow> b \<noteq> ?p \<Longrightarrow> b \<notin> set (child_blocks h ?p) \<Longrightarrow> b \<notin> S \<Longrightarrow> kept h h' b"
    and sd: "sks_dropped h S (sks_of h (handles k)) h'"
    using g unfolding child_gone_def ktree_of_simps by blast+
  note nd = gone_parent[OF d(1) xs g, unfolded ktree_of_simps, OF sep[OF p]]
  have kb: "IS_VALID_BLOCK h' b \<and> kept h h' b" if m: "m \<in> ?N - ?K" "m \<noteq> ?p" "b \<in> set (own_blocks h m)" for m b
  proof -
    have "IS_VALID_BLOCK h' b" using val registry_blocks[OF r _ m(3)] m(1,3) sep[OF m(1)] by (auto simp: gone_def)
    moreover have "b \<notin> insert ?p (set (child_blocks h ?p))" using d(6) m p unfolding apart_def own_parts by blast
    ultimately show ?thesis using kc[of b] sep(2)[OF m(1)] m(3) by blast
  qed
  have kb': "\<forall>m \<in> ?N - ?K. m \<noteq> ?p \<longrightarrow> (\<forall>b \<in> set (own_blocks h m). IS_VALID_BLOCK h' b \<and> kept h h' b)" using kb by blast
  note same = rest_same[OF r ok(1) Diff_subset kb' xs nd(1)]
  have own: "set (own_blocks h' m) \<subseteq> set (own_blocks h m)" if "m \<in> ?N - ?K" for m
    using same(2)[OF that] nd(2) by (cases "m = ?p") auto
  have step: "shows_node h' q' (handle y) (kname y) (ksk y) (kvals y) (filter (\<lambda>n. n \<noteq> ?c) (map handle (kids y)))"
    if y: "y \<in> set (subkeys t)" "handle y \<in> set (handles (drop_key ?c t))" and s: "shows_key h q' y" for y q'
  proof (cases "handle y = ?p")
    case True
    then have "y = x" using handle_unique[OF d(5) y(1) x] by simp
    then show ?thesis
      using nd(1) shows_nodeD(7)[OF s] shows_nodeD(7)[OF xs] ap(3) by (simp add: distinct_remove1_removeAll removeAll_filter_not_eq eq_commute)
  next
    case False
    have "?c \<notin> set (map handle (kids y))" using only_parent[OF r x k y(1)] False by auto
    then have "filter (\<lambda>n. n \<noteq> ?c) (map handle (kids y)) = map handle (kids y)" by (intro filter_True) metis
    then show ?thesis using same(1)[OF _ False s] y(2) left by simp
  qed
  obtain p0 where p0: "shows_tree h p0 t" using r by (auto simp: registry_def)
  have "shows_tree h' p0 (drop_key ?c t)" using step p0 by (rule shows_tree_drop)
  moreover have "apart h' (?N - ?K)" using d(6) own unfolding apart_def by blast
  moreover have "sks_fine h' (sks_left h S (sks_of h (handles k))) (?N - ?K)"
    by (rule sks_drop[OF sf _ sub same(3) own sd cnt]) simp_all
  ultimately show ?thesis using distinct_drop_key[OF d(5)] left by (intro registryI[OF r ok ep]) simp_all
qed

section \<open>Requests\<close>

text \<open>The calls of the library that serve the requests.\<close>

fun exec :: "request \<Rightarrow> (hive, nat) op" where
  "exec (SetValues n svs) = sbind (hivex_node_set_values n svs) (\<lambda>_. sret 0)"
| "exec (SetValue n sv) = sbind (hivex_node_set_value n sv) (\<lambda>_. sret 0)"
| "exec (AddChild p name) = hivex_node_add_child p name"
| "exec (DeleteChild c) = sbind (hivex_node_delete_child c) (\<lambda>_. sret 0)"

lemma grant0: "allowed t q \<Longrightarrow> \<not> is_add q \<Longrightarrow> spec_step t (q, 0) (answer t q 0)"
  using grant[of t q 0] by simp

lemma step_set:
  assumes r: "registry h t" and a: "allowed t (SetValues n svs)"
  shows "\<exists>x h'. exec (SetValues n svs) h = (Ok x, h') \<and>
    (endpages h' \<le> 2 ^ 32 \<longrightarrow> (\<exists>t'. spec_step t (SetValues n svs, x) t' \<and> registry h' t'))"
proof -
  note d = registryD[OF r]
  obtain k where k: "k \<in> set (subkeys t)" "handle k = n" using a by (auto simp: handles_ex)
  have sv: "length svs \<le> HIVEX_MAX_VALUES" "\<forall>sv \<in> set svs. sv_ok sv" using a by auto
  have "values_own h n" using d(8)[OF k(1)] k(2) shows_nodeD(14) by blast
  then obtain h' where h': "hivex_node_set_values n svs h = (Ok (), h')" "set_post h n svs h'"
    using set_values_post[OF d(1,2) _ sv] by blast
  have "registry h' (set_vals n (\<lambda>_. svs) t)" if "endpages h' \<le> 2 ^ 32"
    using registry_set[OF r k(1), of "\<lambda>_. svs" h'] h'(2) that sv(2) k(2) by simp
  then show ?thesis using h'(1) grant0[OF a] by (auto simp: sbind_def)
qed

lemma step_set_one:
  assumes r: "registry h t" and a: "allowed t (SetValue n sv)"
  shows "\<exists>x h'. exec (SetValue n sv) h = (Ok x, h') \<and>
    (endpages h' \<le> 2 ^ 32 \<longrightarrow> (\<exists>t'. spec_step t (SetValue n sv, x) t' \<and> registry h' t'))"
proof -
  note d = registryD[OF r]
  obtain k where k: "k \<in> set (subkeys t)" "handle k = n" "length (kvals k) < HIVEX_MAX_VALUES" and sv: "sv_ok sv" using a by auto
  obtain q where "shows_key h q k" using d(8)[OF k(1)] by blast
  note kd = shows_nodeD[OF this]
  obtain h' where h': "hivex_node_set_value n sv h = (Ok (), h')" "set_post h n (put_value sv (kvals k)) h'"
    using set_value_post[OF d(1,2) _ _ k(3) kd(10) sv] kd(9,14) k(2) by blast
  have "registry h' (set_vals n (put_value sv) t)" if "endpages h' \<le> 2 ^ 32"
    using registry_set[OF r k(1), of "put_value sv" h'] h'(2) that put_value_ok(2)[OF kd(10) sv] k(2) by simp
  then show ?thesis using h'(1) grant0[OF a] by (auto simp: sbind_def)
qed

lemma step_add:
  assumes r: "registry h t" and a: "allowed t (AddChild p name)"
  shows "\<exists>x h'. exec (AddChild p name) h = (Ok x, h') \<and>
    (endpages h' \<le> 2 ^ 32 \<longrightarrow> (\<exists>t'. spec_step t (AddChild p name, x) t' \<and> registry h' t'))"
proof -
  note d = registryD[OF r]
  obtain k where k: "k \<in> set (subkeys t)" "handle k = p" "length (kids k) < HIVEX_MAX_SUBKEYS"
    and new: "\<forall>c \<in> set (kids k). \<not> STRCASEEQ (kname c) name" and nm: "0 < strlen name" "strlen name < 2 ^ 16" using a by auto
  obtain q where st: "shows_tree h q k" using d(9)[OF k(1)] by blast
  note kd = shows_nodeD[OF shows_treeD[OF st]]
  have kid: "is_nk h (handle c)" "node_name h (handle c) = kname c" if "c \<in> set (kids k)" for c
    using shows_nodeD(2,8)[OF shows_treeD[OF shows_kids[OF st that]]] by auto
  have io: "index_own h p"
    using kd(1,11) kid(1) k(2) by (auto simp: index_own_def node_whole_def own_blocks_def)
  have "p \<in> set (handles t)" using k(1,2) by (auto simp: handles_ex)
  then have sk: "sk_ok h (node_sk h p)" using d(7) sks_fineD(3) by blast
  have max: "nr_subkeys h p < HIVEX_MAX_SUBKEYS" using kd(11,13) k(2,3) by (simp add: index_ok_def)
  have "\<forall>c \<in> set (child_offsets h p). \<not> STRCASEEQ (node_name h c) name" using kd(11) k(2) kid(2) new by auto
  then obtain c h' where h': "hivex_node_add_child p name h = (Ok c, h')" "add_post h p name c h'"
    using add_child_post[OF d(1-3) io sk max nm] by blast
  have "registry h' (new_key p c name t) \<and> c \<notin> set (handles t)" if "endpages h' \<le> 2 ^ 32"
    using registry_add[OF r k(1), of name c h'] h'(2) that k(2) by simp
  then show ?thesis using h'(1) grant[OF a, of c] by auto
qed

lemma step_delete:
  assumes r: "registry h t" and a: "allowed t (DeleteChild c)"
  shows "\<exists>x h'. exec (DeleteChild c) h = (Ok x, h') \<and>
    (endpages h' \<le> 2 ^ 32 \<longrightarrow> (\<exists>t'. spec_step t (DeleteChild c, x) t' \<and> registry h' t'))"
proof -
  note d = registryD[OF r]
  obtain k where k: "k \<in> set (subkeys t)" "handle k = c" "c \<noteq> handle t" using a by (auto simp: handles_ex)
  have "k \<noteq> t" using k(2,3) by auto
  then obtain x where x: "x \<in> set (subkeys t)" "k \<in> set (kids x)" using subkeys_parent[OF k(1)] by blast
  obtain S where sf: "sks_fine h S (set (handles t))" using d(7) by blast
  have del: "deletable h S (handles k)" by (rule registry_deletable[OF r k(1) sf])
  have "node_of (ktree_of k) \<noteq> rootoffs h" using k(2,3) d(4) by simp
  then obtain h' where h': "hivex_node_delete_child c h = (Ok (), h')" "child_gone h S (handle x) (ktree_of k) h'"
    using delete_child_post[OF d(1-3) registry_hangs[OF r x del]] k(2) by auto
  have "registry h' (drop_key c t)" if "endpages h' \<le> 2 ^ 32"
    using registry_delete[OF r x del sf h'(2) that] k(2) by simp
  then show ?thesis using h'(1) grant0[OF a] by (auto simp: sbind_def)
qed

lemma registry_simulates:
  assumes "registry h t" and "allowed t q"
  shows "\<exists>r h'. exec q h = (Ok r, h') \<and>
    (endpages h' \<le> 2 ^ 32 \<longrightarrow> (\<exists>t'. spec_step t (q, r) t' \<and> registry h' t'))"
  using step_set step_set_one step_add step_delete assms by (cases q) blast+

section \<open>Room for the answer\<close>

text \<open>How many bytes of pages a request may take.\<close>

fun needs :: "key \<Rightarrow> request \<Rightarrow> nat" where
  "needs t (SetValues n svs) = values_room svs"
| "needs t (SetValue n sv) =
     sum_list (map (\<lambda>k. if handle k = n then values_room (put_value sv (kvals k)) else 0) (subkeys t))"
| "needs t (AddChild p name) = key_room name"
| "needs t (DeleteChild c) = 0"

lemma values_room_reread:
  assumes "map reread xs = map reread ys"
  shows "values_room xs = values_room ys"
proof -
  have v: "value_room (reread sv) = value_room sv" for sv by (simp add: value_room_def reread_def)
  have "map value_room (map reread xs) = map value_room (map reread ys)" using assms by simp
  then have "map value_room xs = map value_room ys" by (simp add: comp_def v)
  then show ?thesis using map_eq_imp_length_eq[OF assms] by (simp add: values_room_def)
qed

lemma needs_enough:
  assumes r: "registry h t" and a: "allowed t q" and e: "exec q h = (x, h')"
  shows "endpages h' \<le> endpages h + needs t q"
proof (cases q)
  case (SetValues n svs)
  have "growth (values_room svs + 0) (exec (SetValues n svs))" unfolding exec.simps by (intro grows_bind growth_set_values grows_basic)
  from growsD[OF this] e SetValues show ?thesis by simp
next
  case (SetValue n sv)
  obtain k where k: "k \<in> set (subkeys t)" "handle k = n" using a SetValue by auto
  obtain p where "shows_key h p k" using registryD(8)[OF r k(1)] by blast
  then have "holds_values h n (kvals k)" using shows_nodeD(9) k(2) by blast
  from set_value_run[OF this, of sv]
  obtain L where L: "hivex_node_set_value n sv h = hivex_node_set_values n L h" "map reread L = map reread (put_value sv (kvals k))" by blast
  have g: "growth (values_room L + 0) (sbind (hivex_node_set_values n L) (\<lambda>_. sret (0 :: nat)))" by (intro grows_bind growth_set_values grows_basic)
  have "sbind (hivex_node_set_values n L) (\<lambda>_. sret 0) h = (x, h')" using L(1) SetValue e by (simp add: sbind_def)
  from growsD[OF g this] have "endpages h' \<le> endpages h + values_room (put_value sv (kvals k))"
    using values_room_reread[OF L(2)] by simp
  moreover have "values_room (put_value sv (kvals k)) \<le> needs t q"
    using member_le_sum_list[of "values_room (put_value sv (kvals k))"
        "map (\<lambda>k. if handle k = n then values_room (put_value sv (kvals k)) else 0) (subkeys t)"] k SetValue by force
  ultimately show ?thesis by simp
next
  case (AddChild p name)
  then show ?thesis using growsD[OF growth_add_child] e by simp
next
  case (DeleteChild c)
  have "growth (0 + 0) (exec (DeleteChild c))" unfolding exec.simps by (intro grows_bind growth_delete_child grows_basic)
  from growsD[OF this] e DeleteChild show ?thesis by simp
qed

lemma registry_serves:
  assumes "registry h t" and "allowed t q" and "endpages h + needs t q \<le> 2 ^ 32"
  shows "\<exists>r h' t'. exec q h = (Ok r, h') \<and> spec_step t (q, r) t' \<and> registry h' t' \<and> endpages h' \<le> endpages h + needs t q"
proof -
  obtain r h' where e: "exec q h = (Ok r, h')" "endpages h' \<le> 2 ^ 32 \<longrightarrow> (\<exists>t'. spec_step t (q, r) t' \<and> registry h' t')"
    using registry_simulates[OF assms(1,2)] by blast
  have "endpages h' \<le> endpages h + needs t q" by (rule needs_enough[OF assms(1,2) e(1)])
  then show ?thesis using e assms(3) by force
qed

section \<open>Sessions\<close>

text \<open>
  A session of the library: calls that succeed, with the values they return. The trace determines
  the tree the specification ends with, as long as every request is allowed, and the bytes of pages
  the session may take.
\<close>

inductive session :: "hive \<Rightarrow> (request \<times> nat) list \<Rightarrow> hive \<Rightarrow> bool" where
  idle: "session h [] h"
| call: "exec q h = (Ok r, h1) \<Longrightarrow> session h1 es h2 \<Longrightarrow> session h ((q, r) # es) h2"

inductive_simps session_simps: "session h [] h'" "session h (e # es) h'"

fun replay :: "key \<Rightarrow> (request \<times> nat) list \<Rightarrow> key option" where
  "replay t [] = Some t"
| "replay t ((q, r) # es) = (if allowed t q then replay (answer t q r) es else None)"

fun cost :: "key \<Rightarrow> (request \<times> nat) list \<Rightarrow> nat" where
  "cost t [] = 0"
| "cost t ((q, r) # es) = needs t q + cost (answer t q r) es"

lemma session_simulates:
  "session h es h' \<Longrightarrow> registry h t \<Longrightarrow> replay t es = Some t' \<Longrightarrow> endpages h + cost t es \<le> 2 ^ 32 \<Longrightarrow>
    spec_run t es t' \<and> registry h' t' \<and> endpages h' \<le> endpages h + cost t es"
proof (induction arbitrary: t rule: session.induct)
  case (idle h)
  then show ?case by simp
next
  case (call q h r h1 es h2)
  have a: "allowed t q" "replay (answer t q r) es = Some t'" using call.prems(2) by (auto split: if_splits)
  have n: "endpages h + needs t q \<le> 2 ^ 32" using call.prems(3) by simp
  obtain t1 where t1: "spec_step t (q, r) t1" "registry h1 t1" "endpages h1 \<le> endpages h + needs t q"
    using registry_serves[OF call.prems(1) a(1) n] call.hyps(1) by auto
  have e: "t1 = answer t q r" using t1(1) by (auto elim: spec_stepE)
  have "endpages h1 + cost t1 es \<le> 2 ^ 32" using t1(3) call.prems(3) e by simp
  then show ?case using call.IH[OF t1(2)] a(2) t1(1,3) e by auto
qed

text \<open>A session goes on as long as the requests are allowed and there is room.\<close>

lemma session_snoc: "session h es h1 \<Longrightarrow> exec q h1 = (Ok r, h2) \<Longrightarrow> session h (es @ [(q, r)]) h2"
  by (induction rule: session.induct) (auto intro: session.intros)

section \<open>Saving and reading\<close>

lemma view_kept:
  assumes "hive_ok h" and "same_view h h'" and "IS_VALID_BLOCK h b"
  shows "IS_VALID_BLOCK h' b \<and> kept h h' b"
  using hive_ok_valid(1,3)[OF assms(1,3)] assms(2,3) by (auto simp: same_view_def kept_def)

lemma set_vals_id: "set_vals n (\<lambda>vs. vs) t = t"
  by (induction t) (simp add: map_idI)

lemma registry_view:
  assumes r: "registry h t" and v: "same_view h h'" and h': "hive_ok h'" "writable h'" "header_of h'" "endpages h' = endpages h"
  shows "registry h' t"
proof -
  note d = registryD[OF r] and k = view_kept[OF registryD(1)[OF r] v]
  have same: "shows_node h' p m nm s vs cs \<and> own_blocks h' m = own_blocks h m" if "shows_node h p m nm s vs cs" for p m nm s vs cs
    using shows_kept[OF d(1) h'(1) that] k shows_nodeD(12)[OF that] by blast
  have own: "own_blocks h' m = own_blocks h m" "node_sk h' m = node_sk h m" if "m \<in> set (handles t)" for m
    using d(10)[OF that] same shows_nodeD(6) by metis+
  obtain p0 where p0: "shows_tree h p0 t" using r by (auto simp: registry_def)
  have "shows_tree h' p0 (set_vals 0 (\<lambda>vs. vs) t)" by (rule shows_tree_set[OF _ p0]) (simp add: same)
  moreover have "apart h' (set (handles t))" using d(6) own by (simp add: apart_def)
  moreover obtain S where sf: "sks_fine h S (set (handles t))" using d(7) by blast
  have "sks_fine h' S (set (handles t))"
    by (rule sks_keep[OF sf own(2)]) (use k sks_fineD(4)[OF sf] own(1) in auto)
  ultimately show ?thesis using d(3-5) v h' unfolding registry_def set_vals_id by (auto simp: same_view_def)
qed

lemma find_kid:
  assumes h: "hive_ok h" and ts: "\<And>c. c \<in> set ts \<Longrightarrow> is_nk h (handle c) \<and> node_name h (handle c) = kname c"
  shows "find_named (hivex_node_name h) name (map handle ts @ [0]) =
    Ok (case find (\<lambda>c. STRCASEEQ (kname c) name) ts of None \<Rightarrow> 0 | Some c \<Rightarrow> handle c)"
  using ts
proof (induction ts)
  case (Cons c ts)
  have c: "is_nk h (handle c)" "node_name h (handle c) = kname c" using Cons.prems by auto
  have "handle c \<noteq> 0" using c(1) hive_ok_valid(1)[OF h, of "handle c"] by (auto simp: is_nk_def)
  moreover have "hivex_node_name h (handle c) = Ok (kname c @ [0])" using hivex_node_name_eq[OF h c(1)] c(2) by (simp add: node_name_def)
  ultimately show ?case using Cons by (simp add: STRCASEEQ_iff)
qed simp

lemma registry_reopens:
  assumes "registry h t" and "endpages h < 2 ^ 32" and "flags AND HIVEX_OPEN_WRITE \<noteq> 0"
  shows "\<exists>h1 fs' h2. hivex_commit fname 0 (h, fs) = (Ok (), (h1, fs')) \<and>
    hivex_open fs' (case fname of Some f \<Rightarrow> f | None \<Rightarrow> filename h) flags = Ok h2 \<and> registry h2 t \<and> endpages h2 = endpages h"
proof -
  note d = registryD[OF assms(1)]
  obtain q where "shows_key h q t" using d(8)[OF self_in] by blast
  then have root: "IS_VALID_BLOCK h (rootoffs h)" "id_of h (rootoffs h) = id_nk" using shows_nodeD(2) d(4) by (auto simp: is_nk_def)
  have hd: "header_of h" using assms(1) by (simp add: registry_def)
  obtain h1 fs' h2 where c: "hivex_commit fname 0 (h, fs) = (Ok (), (h1, fs'))"
    "hivex_open fs' (case fname of Some f \<Rightarrow> f | None \<Rightarrow> filename h) flags = Ok h2" "hive_ok h2" "same_view h h2" "header_of h2"
    "writable h2 = (flags AND HIVEX_OPEN_WRITE \<noteq> 0)" "endpages h2 = endpages h"
    using commit_open[OF d(1,2) hd assms(2) root refl] by metis
  then show ?thesis using registry_view[OF assms(1) c(4,3)] assms(3) by blast
qed

section \<open>Properties\<close>

text \<open>
  C1: every request the specification allows is served by the library, as long as the image with the
  room the request needs stays within 4 GB: the call succeeds, its result is one the specification
  permits (a new handle for a new key), the handle then stores the tree of keys the specification
  answers, with all records, indices, values, parent links and reference counts in order, and the
  image has grown by no more than that room.
\<close>

theorem registry_step:
  assumes "registry h t" and "allowed t q" and "endpages h + needs t q \<le> 2 ^ 32"
  shows "\<exists>r h' t'. exec q h = (Ok r, h') \<and> spec_step t (q, r) t' \<and> registry h' t' \<and> endpages h' \<le> endpages h + needs t q"
  using assms by (rule registry_serves)

text \<open>
  C2: a session of any length refines the specification: if the calls of a session returned the values
  of its trace, and each request was allowed in the tree the trace had led to and had room, the trace
  is a run of the specification and the handle stores the tree the run ends with; a further request
  that is allowed and has room succeeds.
\<close>

theorem registry_session:
  assumes "registry h t" and "session h es h'" and "replay t es = Some t'" and "endpages h + cost t es \<le> 2 ^ 32"
  shows "spec_run t es t' \<and> registry h' t' \<and>
    (\<forall>q. allowed t' q \<longrightarrow> endpages h + cost t es + needs t' q \<le> 2 ^ 32 \<longrightarrow> (\<exists>r h2. session h (es @ [(q, r)]) h2))"
proof -
  have s: "spec_run t es t' \<and> registry h' t' \<and> endpages h' \<le> endpages h + cost t es"
    using assms(2,1,3,4) by (rule session_simulates)
  have "\<exists>r h2. session h (es @ [(q, r)]) h2" if q: "allowed t' q" "endpages h + cost t es + needs t' q \<le> 2 ^ 32" for q
  proof -
    have "endpages h' + needs t' q \<le> 2 ^ 32" using s q(2) by simp
    then obtain r h2 where "exec q h' = (Ok r, h2)" using registry_serves[of h' t' q] s q(1) by blast
    then show ?thesis using session_snoc[OF assms(2)] by blast
  qed
  with s show ?thesis by blast
qed

text \<open>
  C3: what a registry is saved as is what is read back: committing the handle and opening the file for
  writing gives a handle that stores the same tree of keys, with the same handles.
\<close>

theorem registry_saved:
  assumes "registry h t" and "endpages h < 2 ^ 32" and "flags AND HIVEX_OPEN_WRITE \<noteq> 0"
  shows "\<exists>h1 fs' h2. hivex_commit fname 0 (h, fs) = (Ok (), (h1, fs')) \<and>
    hivex_open fs' (case fname of Some f \<Rightarrow> f | None \<Rightarrow> filename h) flags = Ok h2 \<and> registry h2 t"
  using registry_reopens[OF assms] by blast

text \<open>
  C4: the readers show the tree. For every key of the registry, the library gives its name, its
  subkeys in order, its values, the first subkey of a given name (up to case), and for every subkey
  its parent.
\<close>

theorem registry_reads:
  assumes "registry h t" and "k \<in> set (subkeys t)"
  shows "hivex_root h = Ok (handle t) \<and> hivex_node_name h (handle k) = Ok (kname k @ [0]) \<and>
    hivex_node_children h (handle k) = Ok (map handle (kids k) @ [0]) \<and> holds_values h (handle k) (kvals k) \<and>
    hivex_node_get_child h (handle k) name =
      Ok (case find (\<lambda>c. STRCASEEQ (kname c) name) (kids k) of None \<Rightarrow> 0 | Some c \<Rightarrow> handle c) \<and>
    (\<forall>c \<in> set (kids k). hivex_node_parent h (handle c) = Ok (handle k))"
proof -
  note d = registryD[OF assms(1)]
  obtain q where st: "shows_tree h q k" using d(9)[OF assms(2)] by blast
  note kd = shows_nodeD[OF shows_treeD[OF st]]
  have kid: "is_nk h (handle c) \<and> node_name h (handle c) = kname c" if "c \<in> set (kids k)" for c
    using shows_nodeD(2,8)[OF shows_treeD[OF shows_kids[OF st that]]] by simp
  have "IS_VALID_BLOCK h c" if "c \<in> set (child_offsets h (handle k))" for c using that kid kd(11) by (auto simp: is_nk_def)
  then have ch: "hivex_node_children h (handle k) = Ok (map handle (kids k) @ [0])"
    using get_children_eq[OF d(1) kd(13), of 0] kd(11) by (simp add: hivex_node_children_def)
  have "hivex_node_parent h (handle c) = Ok (handle k)" if c: "c \<in> set (kids k)" for c
    by (rule kid_parent[OF assms(1) st c])
  moreover have "hivex_root h = Ok (handle t)"
  proof -
    obtain q where "shows_key h q t" using d(8)[OF self_in] by blast
    then have "IS_VALID_BLOCK h (handle t)" by (rule shows_nodeD(3))
    then show ?thesis using d(4) by (simp add: hivex_root_def)
  qed
  moreover have "hivex_node_get_child h (handle k) name =
      Ok (case find (\<lambda>c. STRCASEEQ (kname c) name) (kids k) of None \<Rightarrow> 0 | Some c \<Rightarrow> handle c)"
    using find_kid[OF d(1), of "kids k" name] kid ch by (simp add: hivex_node_get_child_def)
  moreover have "hivex_node_name h (handle k) = Ok (kname k @ [0])" using hivex_node_name_eq[OF d(1) kd(2)] kd(8) by (simp add: node_name_def)
  ultimately show ?thesis using ch kd(9) by blast
qed

end
