(* ===== verification/Mklarge.thy ===== *)
theory Mklarge
  imports Registry
begin

text \<open>
  The program \<^verbatim>\<open>images/mklarge.c\<close>, which makes a large hive out of a small one: a client of the library
  that adds keys in a recursion of seven levels, sets values on them and commits. The theorem puts
  the library together: the program ends with success, and the file it writes opens as a registry
  whose tree is the one described by \<open>large\<close>. It is proved from the refinement of \<open>Registry_Spec\<close> alone, by
  induction on the levels, with no look into the image.

  The buffer \<^verbatim>\<open>name\<close> is shared by all levels of the recursion, so it is part of the state. \<^verbatim>\<open>iter\<close> at a depth
  is \<open>iter_levels\<close> of the number of levels below it.
\<close>

section \<open>Definitions\<close>

definition degrees :: "nat list" where
  "degrees = [3, 1, 4, 1, 5, 9, 2]"

definition nr_degrees :: nat where
  "nr_degrees = length degrees"

definition mk_strings :: "byte list list list" where
  "mk_strings = map (map ascii)
     [[''The'', ''A'', ''Another''],
      [''giant''],
      [''mongoose'', ''goat'', ''zebra'', ''elephant''],
      [''was''],
      [''found in'', ''seen in'', ''spotted over'', ''sent to'', ''fired at''],
      [''Paris'', ''London'', ''Rome'', ''Oslo'', ''Madrid'', ''Nicosia'', ''Amsterdam'', ''Moscow'', ''Riga''],
      [''today'', ''yesterday'']]"

definition mk_values :: "hive_set_value list" where
  "mk_values =
     [\<lparr>sv_key = ascii ''A'', sv_t = hive_t_string, sv_value = [0x61, 0, 0, 0]\<rparr>,
      \<lparr>sv_key = ascii ''B'', sv_t = hive_t_dword, sv_value = [0x78, 0x56, 0x34, 0x12]\<rparr>,
      \<lparr>sv_key = ascii ''C'', sv_t = hive_t_expand_string, sv_value = [0x63, 0, 0x63, 0, 0, 0]\<rparr>,
      \<lparr>sv_key = ascii ''D'', sv_t = hive_t_string, sv_value = [0x64, 0, 0x64, 0, 0x64, 0, 0, 0]\<rparr>,
      \<lparr>sv_key = ascii ''E'', sv_t = hive_t_qword, sv_value = [0xf0, 0xde, 0xbc, 0x9a, 0x78, 0x56, 0x34, 0x12]\<rparr>,
      \<lparr>sv_key = ascii ''F'', sv_t = hive_t_string, sv_value = [0x66, 0, 0, 0]\<rparr>,
      \<lparr>sv_key = ascii ''G'', sv_t = hive_t_expand_string, sv_value = [0x67, 0, 0, 0]\<rparr>]"

text \<open>The part of \<^verbatim>\<open>name\<close> that stays for all children of a node: the name of the node and a space.\<close>

definition name_prefix :: "byte list \<Rightarrow> byte list" where
  "name_prefix name = (if 0 < length name then name @ [0x20] else name)"

text \<open>\<^verbatim>\<open>strcpy (&name[len], s)\<close>, in the 4096 bytes of \<^verbatim>\<open>main\<close>.\<close>

definition strcpy_at :: "nat \<Rightarrow> byte list \<Rightarrow> (hive \<times> byte list, unit) op" where
  "strcpy_at len s = (\<lambda>(h, name).
     if len + length s < 4096 then (Ok (), (h, take len name @ s)) else (Fault (OutOfBounds len), (h, name)))"

primrec iter_levels :: "nat \<Rightarrow> hive_node_h \<Rightarrow> (hive \<times> byte list, unit) op" where
  "iter_levels 0 parent = sret ()"
| "iter_levels (Suc k) parent = (\<lambda>(h, name).
     let depth = nr_degrees - Suc k; degree = degrees ! depth; name = name_prefix name; len = length name in
     sbind (sfor (\<lambda>i. sbind (strcpy_at len (mk_strings ! depth ! i)) (\<lambda>_ s.
         sbind (on_handle (hivex_node_add_child parent (snd s))) (\<lambda>node. iter_levels k node) s)) [0..<degree]) (\<lambda>_.
       on_handle (hivex_node_set_values parent (take depth mk_values))) (h, name))"

definition iter :: "nat \<Rightarrow> hive_node_h \<Rightarrow> (hive \<times> byte list, unit) op" where
  "iter depth = iter_levels (nr_degrees - depth)"

text \<open>The status the process exits with, and the files.\<close>

definition mklarge_main :: "fs \<Rightarrow> byte list \<Rightarrow> byte list \<Rightarrow> int result \<times> fs" where
  "mklarge_main fs infile outfile =
     (case hivex_open fs infile HIVEX_OPEN_WRITE of
        Err e \<Rightarrow> (Ok 1, fs)
      | Fault z \<Rightarrow> (Fault z, fs)
      | Ok h \<Rightarrow>
          (case iter 0 (case hivex_root h of Ok r \<Rightarrow> r | _ \<Rightarrow> 0) (h, []) of
             (Err e, _) \<Rightarrow> (Ok 1, fs)
           | (Fault z, _) \<Rightarrow> (Fault z, fs)
           | (Ok _, (h, name)) \<Rightarrow>
               (case hivex_commit (Some outfile) 0 (h, fs) of
                  (Err e, (h, fs)) \<Rightarrow> (Ok 1, fs)
                | (Fault z, (h, fs)) \<Rightarrow> (Fault z, fs)
                | (Ok _, (h, fs)) \<Rightarrow> (Ok 0, fs))))"

section \<open>Replacing a key\<close>

primrec replace :: "nat \<Rightarrow> key \<Rightarrow> key \<Rightarrow> key" where
  "replace p k (Key n nm s vs ts) = (if n = p then k else Key n nm s vs (map (replace p k) ts))"

lemma replace_absent: "p \<notin> set (handles t) \<Longrightarrow> replace p k t = t"
  by (induction t) (auto intro!: map_idI)

lemma replace_self [simp]: "handle k = p \<Longrightarrow> replace p k' k = k'"
  by (cases k) simp

lemma replace_replace: "handle k1 = p \<Longrightarrow> replace p k2 (replace p k1 t) = replace p k2 t"
  by (induction t) auto

lemma replace_inner: "c \<notin> set (handles t) \<Longrightarrow> replace c c' (replace p k t) = replace p (replace c c' k) t"
  by (induction t) auto

lemma replace_in: "p \<in> set (handles t) \<Longrightarrow> k \<in> set (subkeys (replace p k t))"
  by (induction t) auto

lemma replace_handles:
  "handle k = p \<Longrightarrow> (\<And>x. x \<in> set (subkeys t) \<Longrightarrow> handle x = p \<Longrightarrow> kids x = []) \<Longrightarrow> set (handles t) \<subseteq> set (handles (replace p k t))"
proof (induction t)
  case (Key n nm s vs ts)
  show ?case
  proof (cases "n = p")
    case True
    then have "ts = []" using Key.prems(2)[of "Key n nm s vs ts"] by simp
    then show ?thesis using True Key.prems(1) handle_in[of k] by simp
  next
    case False
    have "set (handles x) \<subseteq> set (handles (replace p k x))" if "x \<in> set ts" for x
      using Key.IH[OF that Key.prems(1)] Key.prems(2) that by fastforce
    then show ?thesis using False by fastforce
  qed
qed

lemma set_vals_absent: "n \<notin> set (handles t) \<Longrightarrow> set_vals n f t = t"
  by (induction t) (auto intro!: map_idI)

text \<open>The changes of the specification are replacements of one key.\<close>

lemma only_here:
  assumes "distinct (handles t)" and "k \<in> set (subkeys t)" and "x \<in> set (kids k)"
  shows "handle k \<notin> set (handles x)"
proof -
  have "distinct (handles k)" by (rule distinct_subkeys[OF assms(2,1)])
  then show ?thesis using assms(3) by (cases k) auto
qed

lemma change_replace:
  assumes "\<And>x. p \<notin> set (handles x) \<Longrightarrow> g x = x"
    and "\<And>n nm s vs ts. n \<noteq> p \<Longrightarrow> g (Key n nm s vs ts) = Key n nm s vs (map g ts)"
  shows "distinct (handles t) \<Longrightarrow> k \<in> set (subkeys t) \<Longrightarrow> handle k = p \<Longrightarrow> g t = replace p (g k) t"
proof (induction t)
  case (Key n nm s vs ts)
  show ?case
  proof (cases "n = p")
    case True
    have "Key n nm s vs ts = k" using handle_unique[OF Key.prems(1) self_in Key.prems(2)] True Key.prems(3) by simp
    then show ?thesis using True by auto
  next
    case False
    have "g x = replace p (g k) x" if x: "x \<in> set ts" for x
    proof (cases "k \<in> set (subkeys x)")
      case True
      have "distinct (handles x)" using Key.prems(1) x by (auto simp: distinct_concat_iff)
      then show ?thesis using Key.IH[OF x] True Key.prems(3) by blast
    next
      case out: False
      have "p \<notin> set (handles x)"
      proof
        assume "p \<in> set (handles x)"
        then obtain y where y: "y \<in> set (subkeys x)" "handle y = p" by (auto simp: handles_ex)
        then have "y = k" using handle_unique[OF Key.prems(1) _ Key.prems(2), of y] x Key.prems(3) by auto
        with y(1) out show False by simp
      qed
      then show ?thesis using assms(1) replace_absent by simp
    qed
    then show ?thesis using False assms(2) by simp
  qed
qed

lemma set_vals_replace:
  assumes d: "distinct (handles t)" and k: "k \<in> set (subkeys t)" "handle k = p"
  shows "set_vals p f t = replace p (Key p (kname k) (ksk k) (f (kvals k)) (kids k)) t"
proof -
  have "set_vals p f k = Key p (kname k) (ksk k) (f (kvals k)) (kids k)"
    using only_here[OF d k(1)] k(2) set_vals_absent[of p _ f] by (cases k) (auto intro!: map_idI)
  then show ?thesis using change_replace[of p "set_vals p f", OF set_vals_absent _ d k] by simp
qed

lemma new_key_replace:
  assumes d: "distinct (handles t)" and k: "k \<in> set (subkeys t)" "handle k = p"
  shows "new_key p c name t = replace p (Key p (kname k) (ksk k) (kvals k) (insert_key (Key c (cstr name) (ksk k) [] []) (kids k))) t"
proof -
  have "map (new_key p c name) (kids k) = kids k"
    using only_here[OF d k(1)] k(2) handles_new_absent[of p] by (intro map_idI) auto
  then have "new_key p c name k = Key p (kname k) (ksk k) (kvals k) (insert_key (Key c (cstr name) (ksk k) [] []) (kids k))"
    using k(2) by (cases k) (simp add: Let_def)
  then show ?thesis using change_replace[of p "new_key p c name", OF handles_new_absent _ d k] by (simp add: Let_def)
qed

section \<open>The tree it makes\<close>

text \<open>A key without its handle and its security record.\<close>

datatype shape = Shape (sname: "byte list") (svals: "hive_set_value list") (skids: "shape list")

primrec shape_of :: "key \<Rightarrow> shape" where
  "shape_of (Key n nm s vs ts) = Shape nm vs (map shape_of ts)"

primrec keys_in :: "shape \<Rightarrow> nat" where
  "keys_in (Shape nm vs ss) = Suc (sum_list (map keys_in ss))"

definition insert_shape :: "shape list \<Rightarrow> shape \<Rightarrow> shape list" where
  "insert_shape ss s =
     takeWhile (\<lambda>t. strcasecmp (sname t) (sname s) \<le> 0) ss @ s # dropWhile (\<lambda>t. strcasecmp (sname t) (sname s) \<le> 0) ss"

text \<open>
  The subkeys of a key that is named by the words \<open>name\<close> and has \<open>k\<close> levels below it: one for every word of
  its level, named by all words down to it, with as many values as its depth (none at the last level), in
  the order the library keeps them.
\<close>

definition level_values :: "nat \<Rightarrow> hive_set_value list" where
  "level_values k = (if k = 0 then [] else take (nr_degrees - k) mk_values)"

definition child_name :: "nat \<Rightarrow> byte list \<Rightarrow> nat \<Rightarrow> byte list" where
  "child_name k name i = name_prefix name @ mk_strings ! (nr_degrees - Suc k) ! i"

primrec large :: "nat \<Rightarrow> byte list \<Rightarrow> shape list" where
  "large 0 name = []"
| "large (Suc k) name =
     foldl insert_shape []
       (map (\<lambda>i. Shape (child_name k name i) (level_values k) (large k (child_name k name i))) [0..<degrees ! (nr_degrees - Suc k)])"

lemma shape_of_sel [simp]: "sname (shape_of k) = kname k" "svals (shape_of k) = kvals k" "skids (shape_of k) = map shape_of (kids k)"
  by (cases k; simp)+

lemma shape_of_eq: "shape_of k = Shape (kname k) (kvals k) (map shape_of (kids k))"
  by (cases k) simp

lemma shape_insert: "map shape_of (insert_key k ks) = insert_shape (map shape_of ks) (shape_of k)"
  by (simp add: insert_key_def insert_shape_def takeWhile_map dropWhile_map comp_def)

lemma keys_in_handles: "keys_in (shape_of k) = length (handles k)"
  by (induction k) (simp add: length_concat comp_def cong: map_cong)

lemma sum_insert_shape: "sum_list (map f (insert_shape ss s)) = f s + sum_list (map (f :: shape \<Rightarrow> nat) ss)"
proof -
  have "sum_list (map f ss) = sum_list (map f (takeWhile P ss)) + sum_list (map f (dropWhile P ss))" for P
    by (metis map_append sum_list_append takeWhile_dropWhile_id)
  then show ?thesis by (simp add: insert_shape_def)
qed

lemma sum_insert_shapes: "sum_list (map f (foldl insert_shape ss xs)) = sum_list (map f ss) + sum_list (map (f :: shape \<Rightarrow> nat) xs)"
  by (induction xs arbitrary: ss) (simp_all add: sum_insert_shape)

primrec keys_below :: "nat \<Rightarrow> nat" where
  "keys_below 0 = 0"
| "keys_below (Suc k) = degrees ! (nr_degrees - Suc k) * Suc (keys_below k)"

lemma keys_in_large: "sum_list (map keys_in (large k name)) = keys_below k"
  by (induction k arbitrary: name) (simp_all add: sum_insert_shapes comp_def sum_list_triv)

section \<open>The tables\<close>

text \<open>Any two words of a level differ, up to case; none is empty or longer than 12 characters.\<close>

definition words_ok :: "byte list list \<Rightarrow> bool" where
  "words_ok ws \<longleftrightarrow> (\<forall>w \<in> set ws. w \<noteq> [] \<and> length w \<le> 12 \<and> 0 \<notin> set w) \<and> distinct (map (map lower) ws)"

lemma tables:
  "length mk_strings = nr_degrees" "length mk_values = nr_degrees"
  "list_all2 (\<lambda>d ws. d = length ws \<and> d \<le> 10) degrees mk_strings"
  "list_all words_ok mk_strings"
  by (simp_all add: mk_strings_def mk_values_def degrees_def nr_degrees_def words_ok_def ascii_def lower_def)

lemma level_words:
  assumes "k < nr_degrees"
  shows "degrees ! (nr_degrees - Suc k) = length (mk_strings ! (nr_degrees - Suc k))" "degrees ! (nr_degrees - Suc k) \<le> 10"
    "words_ok (mk_strings ! (nr_degrees - Suc k))"
proof -
  have d: "nr_degrees - Suc k < length degrees" using assms by (simp add: nr_degrees_def)
  have w: "words_ok ws" if "ws \<in> set mk_strings" for ws using tables(4) that by (simp add: list_all_iff)
  show "degrees ! (nr_degrees - Suc k) = length (mk_strings ! (nr_degrees - Suc k))" "degrees ! (nr_degrees - Suc k) \<le> 10"
    using list_all2_nthD[OF tables(3) d] by blast+
  show "words_ok (mk_strings ! (nr_degrees - Suc k))" by (rule w[OF nth_mem]) (use d tables(1) in \<open>simp add: nr_degrees_def\<close>)
qed

lemma level_values_ok:
  assumes "d \<le> nr_degrees"
  shows "\<forall>sv \<in> set (take d mk_values). sv_ok sv" "length (take d mk_values) \<le> HIVEX_MAX_VALUES"
    "values_room (take d mk_values) \<le> 63000"
proof -
  have "\<forall>sv \<in> set mk_values. sv_ok sv \<and> value_room sv \<le> 8320"
    by (simp add: mk_values_def sv_ok_def value_room_def strlen_def cstr_def ascii_def HIVEX_MAX_ALLOCATION_def)
  then have v: "\<forall>sv \<in> set (take d mk_values). sv_ok sv \<and> value_room sv \<le> 8320" using set_take_subset[of d mk_values] by blast
  then show "\<forall>sv \<in> set (take d mk_values). sv_ok sv" by blast
  have l: "length (take d mk_values) \<le> 7" using assms by (simp add: nr_degrees_def degrees_def)
  then show "length (take d mk_values) \<le> HIVEX_MAX_VALUES" by (simp add: HIVEX_MAX_VALUES_def)
  have "sum_list (map value_room (take d mk_values)) \<le> sum_list (map (\<lambda>_. 8320) (take d mk_values))"
    using v by (intro sum_list_mono) simp
  then show "values_room (take d mk_values) \<le> 63000" using l by (simp add: values_room_def sum_list_triv)
qed

section \<open>Running it\<close>

text \<open>How many bytes of pages a call at \<open>k\<close> levels from the bottom may take.\<close>

primrec room_below :: "nat \<Rightarrow> nat" where
  "room_below 0 = 0"
| "room_below (Suc k) = degrees ! (nr_degrees - Suc k) * (532845 + room_below k) + 63000"

lemma add_one:
  assumes r: "registry h t" and k: "k \<in> set (subkeys t)" "handle k = p" and nm: "nm \<noteq> []" "0 \<notin> set nm" "length nm \<le> 200"
    and kids: "length (kids k) \<le> 10" "\<forall>c \<in> set (kids k). \<not> STRCASEEQ (kname c) nm"
    and room: "endpages h + 532845 \<le> 2 ^ 32"
  shows "\<exists>c h'. hivex_node_add_child p nm h = (Ok c, h') \<and> c \<notin> set (handles t) \<and> endpages h' \<le> endpages h + 532845 \<and>
    registry h' (replace p (Key p (kname k) (ksk k) (kvals k) (insert_key (Key c nm (ksk k) [] []) (kids k))) t)"
proof -
  have c: "cstr nm = nm" "strlen nm = length nm" using cstr_id[OF nm(2)] by (simp_all add: strlen_def)
  have a: "allowed t (AddChild p nm)" using k kids nm(1,3) c(2) by (auto simp: HIVEX_MAX_SUBKEYS_def)
  have n: "needs t (AddChild p nm) \<le> 532845" using c(2) nm(3) by (simp add: key_room_def)
  have "endpages h + needs t (AddChild p nm) \<le> 2 ^ 32" using n room by linarith
  from registry_serves[OF r a this] obtain x h' t' where e: "hivex_node_add_child p nm h = (Ok x, h')"
    "spec_step t (AddChild p nm, x) t'" "registry h' t'" "endpages h' \<le> endpages h + needs t (AddChild p nm)" by auto
  have "t' = new_key p x nm t" "x \<notin> set (handles t)" using e(2) by (auto elim: spec_stepE)
  then show ?thesis using e(1,3,4) n new_key_replace[OF registryD(5)[OF r] k, of x nm] c(1) by (intro exI[of _ x] exI[of _ h']) simp
qed

lemma set_all:
  assumes r: "registry h t" and k: "k \<in> set (subkeys t)" "handle k = p" and d: "d \<le> nr_degrees"
    and room: "endpages h + 63000 \<le> 2 ^ 32"
  shows "\<exists>u h'. hivex_node_set_values p (take d mk_values) h = (Ok u, h') \<and> endpages h' \<le> endpages h + 63000 \<and>
    registry h' (replace p (Key p (kname k) (ksk k) (take d mk_values) (kids k)) t)"
proof -
  let ?q = "SetValues p (take d mk_values)"
  have p: "p \<in> set (handles t)" using k by (auto simp: handles_ex)
  have a: "allowed t ?q" using level_values_ok[OF d] p by simp
  have n: "needs t ?q \<le> 63000" using level_values_ok(3)[OF d] by simp
  have "endpages h + needs t ?q \<le> 2 ^ 32" using n room by linarith
  from registry_serves[OF r a this] obtain x h' t' where e: "exec ?q h = (Ok x, h')"
    "spec_step t (?q, x) t'" "registry h' t'" "endpages h' \<le> endpages h + needs t ?q" by blast
  have "t' = set_vals p (\<lambda>_. take d mk_values) t" using e(2) by (auto elim: spec_stepE)
  moreover obtain u where "hivex_node_set_values p (take d mk_values) h = (Ok u, h')" using e(1) by (auto simp: sbind_Ok_iff)
  ultimately show ?thesis using e(3,4) n set_vals_replace[OF registryD(5)[OF r] k] by auto
qed

text \<open>A key made inside of \<open>p\<close> is replaced in the place it was put.\<close>

lemma replace_new:
  assumes p: "p \<in> set (handles t)" and k: "k \<in> set (subkeys t)" and c: "c \<notin> set (handles t)" "handle kc = c" "kname kc = nm"
  shows "replace c kc (replace p (Key p x s vs (insert_key (Key c nm s' [] []) (kids k))) t) =
    replace p (Key p x s vs (insert_key kc (kids k))) t"
proof -
  have "replace c kc y = y" if y: "y \<in> set (kids k)" for y
  proof (rule replace_absent)
    have "set (handles y) \<subseteq> set (handles k)" using y by (cases k) auto
    then show "c \<notin> set (handles y)" using c(1) subkeys_handles[OF k] by blast
  qed
  then have "map (replace c kc) (insert_key (Key c nm s' [] []) (kids k)) = insert_key kc (kids k)"
    using c(3) by (auto simp: insert_key_def intro!: map_idI dest: set_takeWhileD set_dropWhileD)
  moreover have "p \<noteq> c" using p c(1) by blast
  ultimately show ?thesis unfolding replace_inner[OF c(1)] by simp
qed

text \<open>What a call of \<open>iter\<close> does: the key it is given, which has no subkeys, becomes one with the tree below it.\<close>

definition iter_works :: "nat \<Rightarrow> bool" where
  "iter_works k \<longleftrightarrow>
     (\<forall>h t k0 name. registry h t \<longrightarrow> k0 \<in> set (subkeys t) \<longrightarrow> kids k0 = [] \<longrightarrow> 0 \<notin> set name \<longrightarrow> length name + 13 * k \<le> 200 \<longrightarrow>
        endpages h + room_below k \<le> 2 ^ 32 \<longrightarrow>
        (\<exists>h' name' k1. iter_levels k (handle k0) (h, name) = (Ok (), (h', name')) \<and> take (length name) name' = name \<and>
           registry h' (replace (handle k0) k1 t) \<and> handle k1 = handle k0 \<and> endpages h' \<le> endpages h + room_below k \<and>
           shape_of k1 = Shape (kname k0) (if k = 0 then kvals k0 else level_values k) (large k name)))"

abbreviation child_shape :: "nat \<Rightarrow> byte list \<Rightarrow> nat \<Rightarrow> shape" where
  "child_shape k name i \<equiv> Shape (child_name k name i) (level_values k) (large k (child_name k name i))"

abbreviation iter_body :: "nat \<Rightarrow> hive_node_h \<Rightarrow> nat \<Rightarrow> nat \<Rightarrow> (hive \<times> byte list, unit) op" where
  "iter_body k parent len i \<equiv> sbind (strcpy_at len (mk_strings ! (nr_degrees - Suc k) ! i)) (\<lambda>_ s.
     sbind (on_handle (hivex_node_add_child parent (snd s))) (\<lambda>node. iter_levels k node) s)"

lemma child_names:
  assumes k: "k < nr_degrees" and i: "i < degrees ! (nr_degrees - Suc k)" and z: "0 \<notin> set name"
  shows "child_name k name i \<noteq> []" "0 \<notin> set (child_name k name i)" "length (child_name k name i) \<le> length name + 13"
    "j < degrees ! (nr_degrees - Suc k) \<Longrightarrow> j \<noteq> i \<Longrightarrow> \<not> STRCASEEQ (child_name k name j) (child_name k name i)"
proof -
  let ?ws = "mk_strings ! (nr_degrees - Suc k)"
  note l = level_words[OF k]
  have w: "?ws ! i \<noteq> []" "0 \<notin> set (?ws ! i)" "length (?ws ! i) \<le> 12" using l(1,3) i by (auto simp: words_ok_def)
  show "child_name k name i \<noteq> []" "length (child_name k name i) \<le> length name + 13"
    using w by (simp_all add: child_name_def name_prefix_def)
  have zero: "0 \<notin> set (child_name k name m)" if "m < degrees ! (nr_degrees - Suc k)" for m
    using l(1,3) that z by (auto simp: child_name_def name_prefix_def words_ok_def)
  show "0 \<notin> set (child_name k name i)" by (rule zero[OF i])
  assume j: "j < degrees ! (nr_degrees - Suc k)" "j \<noteq> i"
  then have "map lower (?ws ! j) \<noteq> map lower (?ws ! i)"
    using l(1,3) i nth_eq_iff_index_eq[of "map (map lower) ?ws" j i] by (simp add: words_ok_def)
  then show "\<not> STRCASEEQ (child_name k name j) (child_name k name i)"
    using zero[OF i] zero[OF j(1)] by (simp add: STRCASEEQ_iff cstr_id child_name_def)
qed

text \<open>One round of the loop: the child and all that is below it.\<close>

lemma iter_round:
  assumes works: "iter_works k" and k: "k < nr_degrees" and i: "i < degrees ! (nr_degrees - Suc k)"
    and z: "0 \<notin> set name" and len: "length name + 13 * Suc k \<le> 200" and buf: "take (length (name_prefix name)) buf = name_prefix name"
    and r: "registry h t" and k0: "k0 \<in> set (subkeys t)" and kids: "length (kids k0) \<le> 10"
    and new: "\<forall>c \<in> set (kids k0). \<exists>j < degrees ! (nr_degrees - Suc k). j \<noteq> i \<and> kname c = child_name k name j"
    and room: "endpages h + (532845 + room_below k) \<le> 2 ^ 32"
  shows "\<exists>h' buf' k1. iter_body k (handle k0) (length (name_prefix name)) i (h, buf) = (Ok (), (h', buf')) \<and>
    take (length (name_prefix name)) buf' = name_prefix name \<and> registry h' (replace (handle k0) k1 t) \<and>
    handle k1 = handle k0 \<and> kname k1 = kname k0 \<and> (\<exists>kc. kname kc = child_name k name i \<and> kids k1 = insert_key kc (kids k0) \<and>
    shape_of kc = child_shape k name i) \<and> endpages h' \<le> endpages h + (532845 + room_below k)"
proof -
  let ?nm = "child_name k name i" and ?len = "length (name_prefix name)" and ?p = "handle k0"
  note n = child_names[OF k i z]
  have l: "length ?nm \<le> 200" "length ?nm + 13 * k \<le> 200" using n(3) len by auto
  have cp: "strcpy_at ?len (mk_strings ! (nr_degrees - Suc k) ! i) (h, buf) = (Ok (), (h, ?nm))"
    using l(1) buf by (simp add: strcpy_at_def child_name_def)
  have "\<not> STRCASEEQ (kname c) ?nm" if "c \<in> set (kids k0)" for c using new that n(4) by metis
  then obtain c h1 where a: "hivex_node_add_child ?p ?nm h = (Ok c, h1)" "c \<notin> set (handles t)" "endpages h1 \<le> endpages h + 532845"
    "registry h1 (replace ?p (Key ?p (kname k0) (ksk k0) (kvals k0) (insert_key (Key c ?nm (ksk k0) [] []) (kids k0))) t)"
    using add_one[OF r k0 refl n(1,2) l(1) kids] room by auto
  define t1 where "t1 = replace ?p (Key ?p (kname k0) (ksk k0) (kvals k0) (insert_key (Key c ?nm (ksk k0) [] []) (kids k0))) t"
  let ?kc = "Key c ?nm (ksk k0) [] []"
  have p: "?p \<in> set (handles t)" using k0 by (auto simp: handles_ex)
  have "?kc \<in> set (subkeys t1)"
    unfolding t1_def by (rule subkeys_trans[OF replace_in[OF p]]) auto
  moreover have "endpages h1 + room_below k \<le> 2 ^ 32" using a(3) room by simp
  ultimately obtain h2 buf' kc where w: "iter_levels k c (h1, ?nm) = (Ok (), (h2, buf'))" "take (length ?nm) buf' = ?nm"
    "registry h2 (replace c kc t1)" "handle kc = c" "endpages h2 \<le> endpages h1 + room_below k"
    "shape_of kc = Shape ?nm (if k = 0 then [] else level_values k) (large k ?nm)"
    using works[unfolded iter_works_def, rule_format, of h1 t1 ?kc ?nm] a(4) n(2) l(2) by (auto simp: t1_def)
  have kc: "kname kc = ?nm" "shape_of kc = child_shape k name i"
    using arg_cong[OF w(6), of sname] by (simp only: shape_of_sel shape.sel) (use w(6) in \<open>simp add: level_values_def\<close>)
  have "replace c kc t1 = replace ?p (Key ?p (kname k0) (ksk k0) (kvals k0) (insert_key kc (kids k0))) t"
    unfolding t1_def by (rule replace_new[OF p k0 a(2) w(4) kc(1)])
  moreover have "take ?len buf' = name_prefix name"
    using arg_cong[OF w(2), of "take ?len"] by (simp add: child_name_def)
  moreover have "iter_body k ?p ?len i (h, buf) = (Ok (), (h2, buf'))"
    using cp a(1) w(1) by (simp add: sbind_Ok on_handle_def)
  ultimately show ?thesis using w(3,5) a(3) kc
    by (intro exI[of _ h2] exI[of _ buf'] exI[of _ "Key ?p (kname k0) (ksk k0) (kvals k0) (insert_key kc (kids k0))"]) auto
qed

lemma length_insert_key: "length (insert_key k ks) = Suc (length ks)"
proof -
  have "length (takeWhile P ks) + length (dropWhile P ks) = length ks" for P by (metis length_append takeWhile_dropWhile_id)
  then show ?thesis by (simp add: insert_key_def)
qed

lemma iter_loop:
  assumes works: "iter_works k" and k: "k < nr_degrees" and z: "0 \<notin> set name" and len: "length name + 13 * Suc k \<le> 200"
  shows "registry h t \<Longrightarrow> k0 \<in> set (subkeys t) \<Longrightarrow> length (kids k0) + length is \<le> 10 \<Longrightarrow> distinct is \<Longrightarrow>
    (\<forall>i \<in> set is. i < degrees ! (nr_degrees - Suc k)) \<Longrightarrow> take (length (name_prefix name)) buf = name_prefix name \<Longrightarrow>
    (\<forall>c \<in> set (kids k0). \<exists>j < degrees ! (nr_degrees - Suc k). j \<notin> set is \<and> kname c = child_name k name j) \<Longrightarrow>
    endpages h + length is * (532845 + room_below k) \<le> 2 ^ 32 \<Longrightarrow>
    \<exists>h' buf' k1. sfor (iter_body k (handle k0) (length (name_prefix name))) is (h, buf) = (Ok (), (h', buf')) \<and>
      take (length (name_prefix name)) buf' = name_prefix name \<and> registry h' (replace (handle k0) k1 t) \<and> handle k1 = handle k0 \<and>
      kname k1 = kname k0 \<and> map shape_of (kids k1) = foldl insert_shape (map shape_of (kids k0)) (map (child_shape k name) is) \<and>
      endpages h' \<le> endpages h + length is * (532845 + room_below k)"
proof (induction "is" arbitrary: h t k0 buf)
  case Nil
  have "replace (handle k0) k0 t = t"
    using change_replace[of "handle k0" "\<lambda>x. x" t k0] registryD(5)[OF Nil(1)] Nil(2) by (simp cong: map_cong)
  then show ?case using Nil by (intro exI[of _ h] exI[of _ buf] exI[of _ k0]) simp
next
  case (Cons i "is")
  let ?len = "length (name_prefix name)" and ?p = "handle k0"
  have i: "i < degrees ! (nr_degrees - Suc k)" "i \<notin> set is" using Cons.prems by auto
  have "\<forall>c \<in> set (kids k0). \<exists>j < degrees ! (nr_degrees - Suc k). j \<noteq> i \<and> kname c = child_name k name j" using Cons.prems(7) by auto
  then obtain h1 buf1 k1 kc where b: "iter_body k ?p ?len i (h, buf) = (Ok (), (h1, buf1))" "take ?len buf1 = name_prefix name"
    "registry h1 (replace ?p k1 t)" "handle k1 = ?p" "kname k1 = kname k0" "kname kc = child_name k name i"
    "kids k1 = insert_key kc (kids k0)" "shape_of kc = child_shape k name i" "endpages h1 \<le> endpages h + (532845 + room_below k)"
    using iter_round[OF works k i(1) z len Cons.prems(6,1,2)] Cons.prems(3,8) by auto
  have p: "?p \<in> set (handles t)" using Cons.prems(2) by (auto simp: handles_ex)
  have "\<forall>c \<in> set (kids k1). \<exists>j < degrees ! (nr_degrees - Suc k). j \<notin> set is \<and> kname c = child_name k name j"
    using Cons.prems(7) b(6,7) i by auto
  moreover have "endpages h1 + length is * (532845 + room_below k) \<le> 2 ^ 32" using b(9) Cons.prems(8) by simp
  ultimately obtain h2 buf2 k2 where c: "sfor (iter_body k (handle k1) ?len) is (h1, buf1) = (Ok (), (h2, buf2))"
    "take ?len buf2 = name_prefix name" "registry h2 (replace (handle k1) k2 (replace ?p k1 t))" "handle k2 = handle k1" "kname k2 = kname k1"
    "map shape_of (kids k2) = foldl insert_shape (map shape_of (kids k1)) (map (child_shape k name) is)"
    "endpages h2 \<le> endpages h1 + length is * (532845 + room_below k)"
    using Cons.IH[OF b(3) replace_in[OF p] _ _ _ b(2)] Cons.prems(3-5) b(7) by (auto simp: length_insert_key)
  have "map shape_of (kids k1) = insert_shape (map shape_of (kids k0)) (child_shape k name i)" unfolding b(7) shape_insert b(8) ..
  moreover have "sfor (iter_body k ?p ?len) (i # is) (h, buf) = (Ok (), (h2, buf2))" using b(1,4) c(1) by (simp add: sbind_Ok)
  moreover have "registry h2 (replace ?p k2 t)" using c(3) b(4) replace_replace[of k1 ?p k2 t] by simp
  ultimately show ?case using c b(4,5,9)
    by (intro exI[of _ h2] exI[of _ buf2] exI[of _ k2]) simp
qed

lemma iter_all: "k \<le> nr_degrees \<Longrightarrow> iter_works k"
proof (induction k)
  case 0
  have "replace (handle k0) k0 t = t" if "registry h t" "k0 \<in> set (subkeys t)" for h t k0
    using change_replace[of "handle k0" "\<lambda>x. x" t k0] registryD(5)[OF that(1)] that(2) by (simp cong: map_cong)
  then show ?case unfolding iter_works_def by (auto simp: shape_of_eq intro!: exI)
next
  case (Suc k)
  have works: "iter_works k" and k: "k < nr_degrees" using Suc by simp_all
  show ?case unfolding iter_works_def
  proof (intro allI impI)
    fix h t k0 and name :: "byte list"
    assume r: "registry h t" and k0: "k0 \<in> set (subkeys t)" and e: "kids k0 = []" and z: "0 \<notin> set name"
      and len: "length name + 13 * Suc k \<le> 200" and room: "endpages h + room_below (Suc k) \<le> 2 ^ 32"
    let ?d = "nr_degrees - Suc k" and ?p = "handle k0" and ?pre = "name_prefix name"
    have "\<exists>h' buf' k1. sfor (iter_body k ?p (length ?pre)) [0..<degrees ! ?d] (h, ?pre) = (Ok (), (h', buf')) \<and>
      take (length ?pre) buf' = ?pre \<and> registry h' (replace ?p k1 t) \<and> handle k1 = ?p \<and> kname k1 = kname k0 \<and>
      map shape_of (kids k1) = large (Suc k) name \<and> endpages h' \<le> endpages h + degrees ! ?d * (532845 + room_below k)"
      using iter_loop[OF works k z len r k0, of "[0..<degrees ! ?d]" ?pre] e level_words(2)[OF k] room by simp
    then obtain h1 buf1 k1 where a: "sfor (iter_body k ?p (length ?pre)) [0..<degrees ! ?d] (h, ?pre) = (Ok (), (h1, buf1))"
      "take (length ?pre) buf1 = ?pre" "registry h1 (replace ?p k1 t)" "handle k1 = ?p" "kname k1 = kname k0"
      "map shape_of (kids k1) = large (Suc k) name" "endpages h1 \<le> endpages h + degrees ! ?d * (532845 + room_below k)"
      by blast
    have p: "?p \<in> set (handles t)" using k0 by (auto simp: handles_ex)
    have "endpages h1 + 63000 \<le> 2 ^ 32" using a(7) room by simp
    then obtain u h2 where s: "hivex_node_set_values ?p (take ?d mk_values) h1 = (Ok u, h2)" "endpages h2 \<le> endpages h1 + 63000"
      "registry h2 (replace ?p (Key ?p (kname k1) (ksk k1) (take ?d mk_values) (kids k1)) (replace ?p k1 t))"
      using set_all[OF a(3) replace_in[OF p] a(4), of ?d] by auto
    have "iter_levels (Suc k) ?p (h, name) = (Ok (), (h2, buf1))"
      using a(1) s(1) by (simp add: Let_def sbind_Ok on_handle_def)
    moreover have "take (length name) buf1 = name"
      using arg_cong[OF a(2), of "take (length name)"] by (simp add: name_prefix_def split: if_splits)
    ultimately show "\<exists>h' name' k1. iter_levels (Suc k) ?p (h, name) = (Ok (), (h', name')) \<and> take (length name) name' = name \<and>
      registry h' (replace ?p k1 t) \<and> handle k1 = ?p \<and> endpages h' \<le> endpages h + room_below (Suc k) \<and>
      shape_of k1 = Shape (kname k0) (if Suc k = 0 then kvals k0 else level_values (Suc k)) (large (Suc k) name)"
      using s(2,3) a(4-7) replace_replace[OF a(4)]
      by (intro exI[of _ h2] exI[of _ buf1] exI[of _ "Key ?p (kname k1) (ksk k1) (take ?d mk_values) (kids k1)"])
        (simp add: level_values_def del: large.simps)
  qed
qed

section \<open>Properties\<close>

lemma numbers:
  "room_below nr_degrees < 2 ^ 30" "keys_below nr_degrees = 1710" "level_values nr_degrees = []" "13 * nr_degrees \<le> 200" "nr_degrees \<noteq> 0"
proof -
  have n: "nr_degrees = Suc (Suc (Suc (Suc (Suc (Suc (Suc 0))))))" by (simp add: nr_degrees_def degrees_def)
  then show "13 * nr_degrees \<le> 200" "nr_degrees \<noteq> 0" "level_values nr_degrees = []" by (simp_all add: level_values_def)
  show "keys_below nr_degrees = 1710" "room_below nr_degrees < 2 ^ 30" by (simp_all add: n degrees_def)
qed

lemma mklarge_makes:
  assumes o: "hivex_open fs infile HIVEX_OPEN_WRITE = Ok h" and r: "registry h t" "kids t = []" and room: "endpages h \<le> 3 * 2 ^ 30"
  shows "\<exists>fs' h' t'. mklarge_main fs infile outfile = (Ok 0, fs') \<and> hivex_open fs' outfile HIVEX_OPEN_WRITE = Ok h' \<and>
    registry h' t' \<and> shape_of t' = Shape (kname t) [] (large nr_degrees [])"
proof -
  have root: "hivex_root h = Ok (handle t)"
  proof -
    obtain q where "shows_key h q t" using registryD(8)[OF r(1) self_in] by blast
    then show ?thesis using registryD(4)[OF r(1)] shows_nodeD(3) by (simp add: hivex_root_def)
  qed
  have "endpages h + room_below nr_degrees < 2 ^ 32" using numbers(1) room by simp
  then have "\<exists>h' name' k1. iter_levels nr_degrees (handle t) (h, []) = (Ok (), (h', name')) \<and> take (length ([] :: byte list)) name' = [] \<and>
      registry h' (replace (handle t) k1 t) \<and> handle k1 = handle t \<and> endpages h' \<le> endpages h + room_below nr_degrees \<and>
      shape_of k1 = Shape (kname t) (if nr_degrees = 0 then kvals t else level_values nr_degrees) (large nr_degrees [])"
    by (intro iter_all[OF order_refl, unfolded iter_works_def, rule_format] r self_in) (use numbers(4) in simp_all)
  then obtain h1 name1 k1 where i: "iter_levels nr_degrees (handle t) (h, []) = (Ok (), (h1, name1))" "registry h1 (replace (handle t) k1 t)"
    "endpages h1 \<le> endpages h + room_below nr_degrees" "shape_of k1 = Shape (kname t) [] (large nr_degrees [])"
    unfolding numbers(3) using numbers(5) by (auto simp del: replace_self)
  have e: "endpages h1 < 2 ^ 32" using i(3) numbers(1) room by simp
  have t: "replace (handle t) k1 t = k1" by simp
  obtain h2 fs' h' where c: "hivex_commit (Some outfile) 0 (h1, fs) = (Ok (), (h2, fs'))" "hivex_open fs' outfile HIVEX_OPEN_WRITE = Ok h'" "registry h' k1"
    using registry_reopens[OF i(2) e, of HIVEX_OPEN_WRITE "Some outfile" fs] t by (auto simp: HIVEX_OPEN_WRITE_def)
  have "mklarge_main fs infile outfile = (Ok 0, fs')"
    using o root i(1) c(1) by (simp add: mklarge_main_def iter_def)
  then show ?thesis using c(2,3) i(4) by blast
qed

text \<open>
  C5: \<^verbatim>\<open>mklarge\<close>, given a hive with nothing but a root and room for 1 GB more, exits with 0, and the file it
  writes opens as a registry: the root keeps its name, and below it is the tree of seven levels that the
  tables describe, 1710 keys with their values, each list of subkeys in the order of the names.
\<close>

theorem mklarge_correct:
  assumes "hivex_open fs infile HIVEX_OPEN_WRITE = Ok h" and "registry h t" and "kids t = []" and "endpages h \<le> 3 * 2 ^ 30"
  shows "\<exists>fs' h' t'. mklarge_main fs infile outfile = (Ok 0, fs') \<and> hivex_open fs' outfile HIVEX_OPEN_WRITE = Ok h' \<and>
    registry h' t' \<and> shape_of t' = Shape (kname t) [] (large nr_degrees []) \<and> length (handles t') = 1711"
proof -
  obtain fs' h' t' where m: "mklarge_main fs infile outfile = (Ok 0, fs')" "hivex_open fs' outfile HIVEX_OPEN_WRITE = Ok h'"
    "registry h' t'" "shape_of t' = Shape (kname t) [] (large nr_degrees [])" using mklarge_makes[OF assms] by blast
  then show ?thesis using keys_in_handles[of t'] keys_in_large[of nr_degrees "[]"] numbers(2) by auto
qed

end
