(* ===== verification/Witnesses.thy ===== *)
theory Witnesses
  imports Sample Full_Write Shell Xml Registry Mklarge
begin

text \<open>
  The properties that have hypotheses, each applied at a concrete input: the hive of the theory
  \<open>Sample\<close>, or a text, where the hypotheses hold.
\<close>

section \<open>Opening, allocating and committing\<close>

lemma sample_reopens:
  obtains h' fs' h'' where "hivex_commit None 0 (sample, Map.empty) = (Ok (), (h', fs'))"
    "hivex_open fs' (ascii ''hive'') 0 = Ok h''"
proof (rule commit_open[of sample "ascii ''hive''" None])
  fix h' fs' h''
  assume "hivex_commit None 0 (sample, Map.empty) = (Ok (), (h', fs'))" "hivex_open fs' (ascii ''hive'') 0 = Ok h''"
  then show ?thesis by (rule that)
qed simp_all

theorem hivex_open_sound_witness:
  "\<exists>fs h. hivex_open fs (ascii ''hive'') 0 = Ok h \<and> check_block h (rootoffs h) id_nk EINVAL = Ok () \<and>
     (\<forall>off. IS_VALID_BLOCK h off \<longrightarrow> (\<exists>len. block_len h off = Ok (len, True) \<and> 4 < len \<and> len mod 4 = 0))"
proof -
  obtain fs' h'' where o: "hivex_open fs' (ascii ''hive'') 0 = Ok h''" using sample_reopens by metis
  show ?thesis using o hivex_open_sound[OF o] by blast
qed

theorem allocate_block_correct_witness:
  "\<exists>off h'. allocate_block 100 id_vk sample = (Ok off, h') \<and> alloc_post sample 100 id_vk off h'"
  by (rule allocate_block_correct) (simp_all add: HIVEX_MAX_ALLOCATION_def id_vk_def)

theorem mark_block_unused_correct_witness:
  "\<exists>h'. mark_block_unused 0x1078 sample = (Ok (), h') \<and> free_post sample 0x1078 h'"
  by (rule mark_block_unused_correct) simp_all

theorem allocations_disjoint_witness:
  "\<exists>bs h'. hp.alloc_all [(100, id_vk), (5000, nul_id)] sample = (Ok bs, h') \<and> hive_ok h' \<and>
    length bs = length [(100 :: nat, id_vk), (5000, nul_id)] \<and> distinct bs \<and>
    (\<forall>b \<in> set bs. \<not> IS_VALID_BLOCK sample b \<and> IS_VALID_BLOCK h' b) \<and>
    (\<forall>b. IS_VALID_BLOCK sample b \<longrightarrow> IS_VALID_BLOCK h' b \<and> kept sample h' b)"
  by (rule allocations_disjoint) (simp_all add: request_ok_def HIVEX_MAX_ALLOCATION_def id_vk_def nul_id_def)

theorem commit_reopen_witness:
  "\<exists>h' fs' h''. hivex_commit None 0 (sample, Map.empty) = (Ok (), (h', fs')) \<and>
    hivex_open fs' (case None of Some f \<Rightarrow> f | None \<Rightarrow> filename sample) 0 = Ok h'' \<and>
    hive_ok h'' \<and> same_view sample h''"
  by (rule commit_reopen) simp_all

theorem commit_reopen_reads_witness:
  "\<exists>fs h. hivex_open fs (ascii ''hive'') 0 = Ok h \<and> get_children h 0x1020 0 = get_children sample 0x1020 0"
proof -
  obtain h' fs' h'' where c: "hivex_commit None 0 (sample, Map.empty) = (Ok (), (h', fs'))"
    "hivex_open fs' (ascii ''hive'') 0 = Ok h''"
    by (rule sample_reopens)
  have "hivex_open fs' (case None of Some f \<Rightarrow> f | None \<Rightarrow> filename sample) 0 = Ok h''" using c(2) by simp
  from commit_reopen_reads[OF _ _ _ _ _ _ c(1) this, of "0x1020" 0] c(2) show ?thesis by auto
qed

section \<open>Reading\<close>

theorem reading_memory_safe_witness:
  "no_fault (hivex_node_name sample 0x1078) \<and> no_fault (get_children sample 12345 0) \<and> no_fault (hivex_value_value sample 0)"
  using reading_memory_safe[of sample "0x1078"] reading_memory_safe[of sample 12345 0] reading_memory_safe[of sample 0] by simp

lemma sample_get_children: "get_children sample 0x1020 0 = Ok ([0x1078, 0x10d0, 0], [0x1128, 0])"
  by (subst get_children_eq) (auto simp: sample_used_def)

theorem get_children_sound_witness:
  "get_children sample 0x1020 0 = Ok ([0x1078, 0x10d0, 0], [0x1128, 0]) \<and>
   [0x1078, 0x10d0, 0] = child_offsets sample 0x1020 @ [0] \<and> length (child_offsets sample 0x1020) = nr_subkeys sample 0x1020"
  using get_children_sound[OF sample_get_children] sample_get_children by blast

theorem node_children_complete_witness:
  "hivex_node_children sample 0x1020 = Ok (child_offsets sample 0x1020 @ [0])"
  by (rule node_children_complete) simp_all

lemma sample_node_names:
  "hivex_node_name sample 0x1078 = Ok (ascii ''Alpha'' @ [0])" "hivex_node_name sample 0x10d0 = Ok (ascii ''beta'' @ [0])"
  using hivex_node_name_eq[of sample "0x1078"] hivex_node_name_eq[of sample "0x10d0"]
    sample_names(2,3) by (simp_all add: node_name_def)

lemma sample_get_child: "hivex_node_get_child sample 0x1020 (ascii ''BETA'') = Ok 0x10d0"
  by (simp add: hivex_node_get_child_def hivex_node_children_def sample_get_children sample_node_names STRCASEEQ_iff
      ascii_def of_char_def cstr_def lower_def)

theorem get_child_correct_witness:
  "hivex_node_get_child sample 0x1020 (ascii ''BETA'') = Ok 0x10d0 \<and>
   (\<exists>before after. child_offsets sample 0x1020 = before @ 0x10d0 # after \<and>
      (\<exists>n. hivex_node_name sample 0x10d0 = Ok n \<and> STRCASEEQ n (ascii ''BETA'')))"
  using get_child_correct[OF sample_get_child] sample_get_child by auto

theorem get_values_sound_witness:
  "\<exists>vs bs. get_values sample 0x1020 = Ok (vs, bs) \<and> vs = value_offsets sample 0x1020 @ [0] \<and>
     length (value_offsets sample 0x1020) = nr_values sample 0x1020"
proof -
  have g: "get_values sample 0x1020 = Ok (value_offsets sample 0x1020 @ [0], value_blocks sample 0x1020 @ [0])"
    by (rule get_values_eq) simp_all
  from get_values_sound[OF g] g show ?thesis by blast
qed

theorem value_value_sound_witness:
  "\<exists>declared. hivex_value_type sample 0x1158 = Ok (1, declared) \<and> 10 \<le> declared"
  using value_value_sound[OF sample_value_value(1)] by blast

section \<open>Strings and numbers\<close>

theorem utf16_to_utf8_two_rounds_witness:
  "windows_utf16_to_utf8 [0x68, 0, 0x69, 0] = convert_loop 2 Initial [0x68, 0, 0x69, 0] (length [0x68 :: byte, 0, 0x69, 0])"
proof -
  have "length [0x68 :: byte, 0, 0x69, 0] < 2 ^ 63" by simp
  from utf16_to_utf8_two_rounds[OF this] show ?thesis by blast
qed

theorem utf16_to_utf8_correct_witness:
  "windows_utf16_to_utf8 (concat (map utf16le [0x48, 0xe9, 0x20ac, 0x1f600])) =
     Ok (concat (map utf8 [0x48, 0xe9, 0x20ac, 0x1f600]) @ [0]) \<and>
   windows_utf16_to_utf8 ([0xff, 0xfe] @ concat (map utf16le [0x48, 0xe9, 0x20ac, 0x1f600])) =
     Ok (concat (map utf8 [0x48, 0xe9, 0x20ac, 0x1f600]) @ [0])"
  using utf16_to_utf8_correct[of "[0x48, 0xe9, 0x20ac, 0x1f600]" "[]"]
  by (simp add: scalar_def no_bom_def utf16le_def unit_bytes_def utf8_def)

lemma hi_text: "text_ok [0x68, 0x69]" "concat (map utf16le [0x68, 0x69]) = [0x68, 0, 0x69, 0]"
  by (simp_all add: text_ok_def scalar_def no_bom_def utf16le_def unit_bytes_def)

theorem value_string_ignores_junk_witness:
  "hivex_value_string sample 0x1158 = Ok (concat (map utf8 [0x68, 0x69]) @ [0])"
  by (rule value_string_ignores_junk[where t = 1 and len = 10 and junk = "[1, 2, 3, 4]"])
    (use hi_text in \<open>simp_all add: hive_t_string_def\<close>)

theorem value_multiple_strings_correct_witness:
  "hivex_value_multiple_strings sample 0x11c8 = Ok (map (\<lambda>cs. read_as cs @ [0]) [[0x61]])"
  by (rule value_multiple_strings_correct[where len = 6 and junk = "[]"])
    (simp_all add: string_ok_def scalar_def no_bom_def utf16le_def unit_bytes_def multi_sz_def hive_t_multiple_strings_def)

section \<open>Visiting\<close>

theorem visit_terminates_witness:
  "fst (hivex_visit_node 0x1020 (empty_visitor :: unit hivex_visitor) 0 (sample, ())) \<noteq> Fault OutOfFuel \<and>
   fst (hivex_visit (empty_visitor :: unit hivex_visitor) 0 (sample, ())) \<noteq> Fault OutOfFuel"
  by (rule visit_terminates) (simp add: visitor_returns_def empty_visitor_def)

theorem visit_each_node_once_witness:
  "distinct (snd (snd (hivex_visit_node 0x1020 tracer 0 (sample, []))))"
  by (rule visit_each_node_once[where r = "fst (hivex_visit_node 0x1020 tracer 0 (sample, []))"
        and h' = "fst (snd (hivex_visit_node 0x1020 tracer 0 (sample, [])))"]) simp

section \<open>Writing values\<close>

theorem delete_values_correct_witness:
  "\<exists>h'. delete_values 0x1020 sample = (Ok (), h') \<and> delete_post sample 0x1020 h' \<and> hivex_node_values h' 0x1020 = Ok [0]"
  by (rule delete_values_correct) simp_all

theorem set_values_round_trip_witness:
  "\<exists>h'. hivex_node_set_values 0x1020 sample_svs sample = (Ok (), h') \<and> set_post sample 0x1020 sample_svs h'"
  by (rule set_values_round_trip) (simp_all add: HIVEX_MAX_VALUES_def del: sample_svs_ok(2), rule sample_svs_ok(2))

theorem set_value_updates_witness:
  "\<exists>h'. hivex_node_set_value 0x1020 \<lparr>sv_key = [0x4e], sv_t = 4, sv_value = [0, 0, 0, 1]\<rparr> sample = (Ok (), h') \<and>
     set_post sample 0x1020 (put_value \<lparr>sv_key = [0x4e], sv_t = 4, sv_value = [0, 0, 0, 1]\<rparr> sample_svs) h'"
  by (rule set_value_updates[OF _ _ _ sample_holds _ sample_svs_ok(2)])
    (simp_all add: HIVEX_MAX_VALUES_def sv_ok_def strlen_def cstr_def HIVEX_MAX_ALLOCATION_def)

theorem set_values_refuses_witness:
  "hivex_node_set_values 0x1128 [] sample = (Err EINVAL, sample)"
  using set_values_refuses[of sample "0x1128" "[]"] by simp

section \<open>Adding a child\<close>

lemma ant_new:
  "0 < strlen (ascii ''ant'')" "strlen (ascii ''ant'') < 2 ^ 16"
  "\<forall>c \<in> set (child_offsets sample 0x1020). \<not> STRCASEEQ (node_name sample c) (ascii ''ant'')"
  by (simp_all add: strlen_def cstr_def STRCASEEQ_iff ascii_def of_char_def lower_def)

theorem add_child_correct_witness:
  "\<exists>node h'. hivex_node_add_child 0x1020 (ascii ''ant'') sample = (Ok node, h') \<and> add_post sample 0x1020 (ascii ''ant'') node h'"
  using add_child_correct[OF sample_ok _ _ sample_index(2) _ _ ant_new] by (auto simp: HIVEX_MAX_SUBKEYS_def)

theorem add_child_keeps_order_witness:
  "\<exists>node h'. hivex_node_add_child 0x1020 (ascii ''ant'') sample = (Ok node, h') \<and>
    (endpages h' \<le> 2 ^ 32 \<longrightarrow> in_order h' (child_offsets h' 0x1020))"
  by (rule add_child_keeps_order[OF sample_ok _ _ sample_index(2) _ _ ant_new]) (simp_all add: HIVEX_MAX_SUBKEYS_def)

theorem add_child_refuses_witness:
  "hivex_node_add_child 0x1020 (ascii ''BETA'') sample = (Err EEXIST, sample)"
  using add_child_refuses[OF sample_ok, of "0x1020" "ascii ''BETA''"] sample_get_child
  by (simp add: strlen_def cstr_def ascii_def of_char_def)

section \<open>Deleting a child\<close>

lemma sample_alpha: "index_ok sample 0x1078" "values_own sample 0x1078" "child_offsets sample 0x1078 = []"
  "own_blocks sample 0x1078 = [0x1078]" "sk_list sample 0x1078 = [0x11f8]" "refcount sample 0x11f8 = 3"
  "value_offsets sample 0x1078 = []"
proof -
  have n: "nr_subkeys sample 0x1078 = 0" "nr_values sample 0x1078 = 0" by (simp_all add: nr_subkeys_def nr_values_def)
  then have c: "child_blocks sample 0x1078 = []" "leaf_blocks sample 0x1078 = []" "value_blocks sample 0x1078 = []"
    by (simp_all add: child_blocks_def leaf_blocks_def value_blocks_def)
  then show o: "child_offsets sample 0x1078 = []" "value_offsets sample 0x1078 = []"
    using n by (simp_all add: child_offsets_def value_offsets_def)
  show "index_ok sample 0x1078" using n c o by (simp add: index_ok_def)
  have ow: "owned sample 0x1078 = []" using c o by (simp add: owned_def)
  then show "values_own sample 0x1078" using n o by (simp add: values_own_def vallist_ok_def)
  show "own_blocks sample 0x1078 = [0x1078]" using c ow by (simp add: own_blocks_def class_blocks_def)
  show "sk_list sample 0x1078 = [0x11f8]" "refcount sample 0x11f8 = 3"
    by (simp_all add: sk_list_def node_sk_def refcount_def)
qed

lemma sample_ring: "sk_ring sample {0x11f8}"
  by (simp add: sk_ring_def rings_def sk_next_of_def sk_prev_of_def)

lemma sample_hangs: "hangs_below sample {0x11f8} 0x1020 (KNode 0x1078 [])"
proof -
  have "deletable sample {0x11f8} [0x1078]"
    using sample_alpha sample_ring by (simp add: deletable_def node_whole_def)
  then show ?thesis
    using sample_alpha by (simp add: hangs_below_def hivex_node_parent_def)
qed

theorem delete_child_correct_witness:
  "\<exists>h'. hivex_node_delete_child (node_of (KNode 0x1078 [])) sample = (Ok (), h') \<and> child_gone sample {0x11f8} 0x1020 (KNode 0x1078 []) h'"
  by (rule delete_child_correct[OF _ _ _ sample_hangs]) simp_all

section \<open>The registry\<close>

definition sample_tree :: key where
  "sample_tree = Key 0x1020 (ascii ''ROOT'') 0x11f8 sample_svs
     [Key 0x1078 (ascii ''Alpha'') 0x11f8 [] [], Key 0x10d0 (ascii ''beta'') 0x11f8 [] []]"

lemma sample_leaf:
  assumes "n = 0x1078 \<or> n = 0x10d0"
  shows "shows_node sample 0x1020 n (node_name sample n) 0x11f8 [] []" "own_blocks sample n = [n]"
proof -
  have f: "is_nk sample n" "nr_subkeys sample n = 0" "nr_values sample n = 0" "class_blocks sample n = []"
    "sk_list sample n = [0x11f8]" "parent_of sample n = 0x1020" "n \<in> set sample_used"
    using assms by (auto simp: nr_subkeys_def nr_values_def class_blocks_def sk_list_def node_sk_def parent_of_def)
  have ix: "index_ok sample n" "child_offsets sample n = []" "child_blocks sample n = []"
    using f by (simp_all add: index_ok_def child_offsets_def leaf_blocks_def child_blocks_def)
  note e = set_values_empty[OF sample_ok f(3,1)]
  show ow: "own_blocks sample n = [n]" using ix(3) e f(4) by (simp add: own_blocks_def)
  have "value_offsets sample n = []" using f(3) by (simp add: value_offsets_def)
  then have "node_whole sample n" using ix e f(7) by (simp add: node_whole_def ow)
  then show "shows_node sample 0x1020 n (node_name sample n) 0x11f8 [] []" using e f ix(2) by (simp add: shows_node_def)
qed

lemma sample_top:
  "shows_node sample 0x1020 0x1020 (ascii ''ROOT'') 0x11f8 sample_svs [0x1078, 0x10d0]"
  "own_blocks sample 0x1020 = [0x1128, 0x1140, 0x1178, 0x1158, 0x1188, 0x11a8, 0x11e8, 0x11c8, 0x1020]"
proof -
  have c: "class_blocks sample 0x1020 = []" "sk_list sample 0x1020 = [0x11f8]"
    by (simp_all add: class_blocks_def sk_list_def)
  show ow: "own_blocks sample 0x1020 = [0x1128, 0x1140, 0x1178, 0x1158, 0x1188, 0x11a8, 0x11e8, 0x11c8, 0x1020]"
    by (simp add: own_blocks_def c)
  have "node_whole sample 0x1020"
    using holds_fine[OF sample_ok sample_values_own sample_holds] by (simp add: node_whole_def ow)
  moreover have "parent_of sample 0x1020 = 0x1020" by (simp add: parent_of_def)
  ultimately show "shows_node sample 0x1020 0x1020 (ascii ''ROOT'') 0x11f8 sample_svs [0x1078, 0x10d0]"
    using sample_holds by (simp add: shows_node_def c)
qed

lemma sample_registry: "registry sample sample_tree"
proof -
  have sk: "node_sk sample 0x1078 = 0x11f8" "node_sk sample 0x10d0 = 0x11f8" "unat (refcount sample 0x11f8) = 3"
    by (simp_all add: node_sk_def refcount_def)
  have hs: "handles sample_tree = [0x1078, 0x10d0, 0x1020]" by (simp add: sample_tree_def)
  have "shows_tree sample 0x1020 sample_tree"
    using sample_top(1) sample_leaf(1)[of "0x1078"] sample_leaf(1)[of "0x10d0"] by (simp add: sample_tree_def)
  moreover have "apart sample (set (handles sample_tree))"
    unfolding hs using sample_top(2) sample_leaf(2)[of "0x1078"] sample_leaf(2)[of "0x10d0"] by (simp add: apart_def)
  moreover have "sks_fine sample {0x11f8} (set (handles sample_tree))"
  proof -
    have "{m \<in> set [0x1078, 0x10d0, 0x1020]. node_sk sample m = 0x11f8} = {0x1078, 0x10d0, 0x1020 :: nat}" using sk by auto
    then have "card {m \<in> set [0x1078, 0x10d0, 0x1020]. node_sk sample m = 0x11f8} = 3" by simp
    then show ?thesis
      unfolding hs using sample_top(2) sample_leaf(2)[of "0x1078"] sample_leaf(2)[of "0x10d0"] sk sample_ring by (simp add: sks_fine_def)
  qed
  ultimately show ?thesis unfolding registry_def by (auto simp: hs sample_tree_def)
qed

lemma sample_room: "endpages sample + needs sample_tree (AddChild 0x1020 (ascii ''ant'')) \<le> 2 ^ 32"
  by (simp add: key_room_def strlen_def cstr_def ascii_def of_char_def)

lemma sample_allowed: "allowed sample_tree (AddChild 0x1020 (ascii ''ant''))"
  by (simp add: sample_tree_def STRCASEEQ_iff strlen_def cstr_def ascii_def of_char_def lower_def HIVEX_MAX_SUBKEYS_def)

theorem registry_step_witness:
  "\<exists>r h' t'. exec (AddChild 0x1020 (ascii ''ant'')) sample = (Ok r, h') \<and>
    spec_step sample_tree (AddChild 0x1020 (ascii ''ant''), r) t' \<and> registry h' t' \<and>
    endpages h' \<le> endpages sample + needs sample_tree (AddChild 0x1020 (ascii ''ant''))"
  by (rule registry_step[OF sample_registry sample_allowed sample_room])

text \<open>A session: a key is added and then deleted, and the tree is the one it was.\<close>

lemma sample_dropped: "r \<notin> set (handles sample_tree) \<Longrightarrow> drop_key r (new_key 0x1020 r (ascii ''ant'') sample_tree) = sample_tree"
  by (auto simp: sample_tree_def insert_key_def strcasecmp_def cstr_def ascii_def of_char_def lower_def)

lemma sample_added:
  assumes "r \<notin> set (handles sample_tree)"
  shows "allowed (new_key 0x1020 r (ascii ''ant'') sample_tree) (DeleteChild r)"
  using assms by (auto simp: sample_tree_def insert_key_def strcasecmp_def cstr_def ascii_def of_char_def lower_def)

lemma sample_session:
  obtains r h2 where "session sample [(AddChild 0x1020 (ascii ''ant''), r), (DeleteChild r, 0)] h2" "r \<notin> set (handles sample_tree)"
proof -
  obtain r h1 t1 where a: "exec (AddChild 0x1020 (ascii ''ant'')) sample = (Ok r, h1)" "spec_step sample_tree (AddChild 0x1020 (ascii ''ant''), r) t1"
    "registry h1 t1" "endpages h1 \<le> endpages sample + needs sample_tree (AddChild 0x1020 (ascii ''ant''))"
    using registry_serves[OF sample_registry sample_allowed sample_room] by blast
  have t1: "t1 = new_key 0x1020 r (ascii ''ant'') sample_tree" and r: "r \<notin> set (handles sample_tree)" using a(2) by (auto elim: spec_stepE)
  have "endpages h1 + needs t1 (DeleteChild r) \<le> 2 ^ 32" using a(4) sample_room by simp
  then obtain x h2 where b: "exec (DeleteChild r) h1 = (Ok x, h2)" "\<exists>t'. spec_step t1 (DeleteChild r, x) t'"
    using registry_serves[OF a(3)] sample_added[OF r] t1 by blast
  then have "x = 0" by (auto elim: spec_stepE)
  then show ?thesis using that[OF session.call[OF a(1) session.call[OF _ session.idle]] r] b(1) by blast
qed

theorem registry_session_witness:
  "\<exists>r h'. session sample [(AddChild 0x1020 (ascii ''ant''), r), (DeleteChild r, 0)] h' \<and>
    spec_run sample_tree [(AddChild 0x1020 (ascii ''ant''), r), (DeleteChild r, 0)] sample_tree \<and> registry h' sample_tree"
proof -
  obtain r h' where s: "session sample [(AddChild 0x1020 (ascii ''ant''), r), (DeleteChild r, 0)] h'"
    and r: "r \<notin> set (handles sample_tree)" by (rule sample_session)
  have p: "replay sample_tree [(AddChild 0x1020 (ascii ''ant''), r), (DeleteChild r, 0)] = Some sample_tree"
    using sample_allowed sample_added[OF r] sample_dropped[OF r] by simp
  have c: "endpages sample + cost sample_tree [(AddChild 0x1020 (ascii ''ant''), r), (DeleteChild r, 0)] \<le> 2 ^ 32"
    using sample_room by simp
  show ?thesis using registry_session[OF sample_registry s p c] s by blast
qed

theorem registry_saved_witness:
  "\<exists>h1 fs' h2. hivex_commit None 0 (sample, Map.empty) = (Ok (), (h1, fs')) \<and>
    hivex_open fs' (case None of Some f \<Rightarrow> f | None \<Rightarrow> filename sample) HIVEX_OPEN_WRITE = Ok h2 \<and> registry h2 sample_tree"
  by (rule registry_saved[OF sample_registry]) (simp_all add: HIVEX_OPEN_WRITE_def)

theorem registry_reads_witness:
  "hivex_root sample = Ok 0x1020 \<and> hivex_node_name sample 0x1020 = Ok (ascii ''ROOT'' @ [0]) \<and>
    hivex_node_children sample 0x1020 = Ok [0x1078, 0x10d0, 0] \<and> holds_values sample 0x1020 sample_svs \<and>
    hivex_node_get_child sample 0x1020 (ascii ''BETA'') = Ok 0x10d0 \<and> hivex_node_parent sample 0x10d0 = Ok 0x1020"
proof -
  have "STRCASEEQ (ascii ''beta'') (ascii ''BETA'')" "\<not> STRCASEEQ (ascii ''Alpha'') (ascii ''BETA'')"
    by (simp_all add: STRCASEEQ_iff cstr_def ascii_def of_char_def lower_def)
  then show ?thesis
    using registry_reads[OF sample_registry self_in, of "ascii ''BETA''"] by (simp add: sample_tree_def)
qed

section \<open>Making a large hive\<close>

text \<open>The sample without its two keys, as a file.\<close>

definition bare_fs :: fs where
  "bare_fs = snd (snd (hivex_commit (Some (ascii ''bare'')) 0
     (snd (exec (DeleteChild 0x10d0) (snd (exec (DeleteChild 0x1078) sample))), Map.empty)))"

lemma bare_registry:
  "\<exists>h t. hivex_open bare_fs (ascii ''bare'') HIVEX_OPEN_WRITE = Ok h \<and> registry h t \<and> kids t = [] \<and> kname t = ascii ''ROOT'' \<and>
    endpages h \<le> 3 * 2 ^ 30"
proof -
  let ?t1 = "drop_key 0x1078 sample_tree" and ?t2 = "drop_key 0x10d0 (drop_key 0x1078 sample_tree)"
  have ep: "endpages sample \<le> 3 * 2 ^ 30" by simp
  have a: "allowed sample_tree (DeleteChild 0x1078)" "allowed ?t1 (DeleteChild 0x10d0)" by (simp_all add: sample_tree_def)
  obtain r1 h1 t1 where d1: "exec (DeleteChild 0x1078) sample = (Ok r1, h1)" "spec_step sample_tree (DeleteChild 0x1078, r1) t1"
    "registry h1 t1" "endpages h1 \<le> endpages sample"
    using registry_serves[OF sample_registry a(1)] ep by auto
  have t1: "t1 = ?t1" using d1(2) by (auto elim: spec_stepE)
  obtain r2 h2 t2 where d2: "exec (DeleteChild 0x10d0) h1 = (Ok r2, h2)" "spec_step t1 (DeleteChild 0x10d0, r2) t2"
    "registry h2 t2" "endpages h2 \<le> endpages h1"
    using registry_serves[OF d1(3)] a(2) d1(4) ep unfolding t1 by fastforce
  have t2: "t2 = ?t2" using d2(2) t1 by (auto elim: spec_stepE)
  have "endpages h2 \<le> 3 * 2 ^ 30" using d1(4) d2(4) ep by linarith
  then have e: "endpages h2 \<le> 3 * 2 ^ 30" "endpages h2 < 2 ^ 32" by simp_all
  obtain h3 fs' h4 where c: "hivex_commit (Some (ascii ''bare'')) 0 (h2, Map.empty) = (Ok (), (h3, fs'))"
    "hivex_open fs' (ascii ''bare'') HIVEX_OPEN_WRITE = Ok h4" "registry h4 t2" "endpages h4 = endpages h2"
    using registry_reopens[OF d2(3) e(2), of HIVEX_OPEN_WRITE "Some (ascii ''bare'')" Map.empty] by (auto simp: HIVEX_OPEN_WRITE_def)
  have f: "bare_fs = fs'" using d1(1) d2(1) c(1) by (simp add: bare_fs_def del: exec.simps)
  have k: "kids t2 = []" "kname t2 = ascii ''ROOT''" unfolding t2 by (simp_all add: sample_tree_def)
  show ?thesis unfolding f using c(2-4) e(1) k by auto
qed

theorem mklarge_correct_witness:
  "\<exists>fs' h' t'. mklarge_main bare_fs (ascii ''bare'') (ascii ''large'') = (Ok 0, fs') \<and>
    hivex_open fs' (ascii ''large'') HIVEX_OPEN_WRITE = Ok h' \<and> registry h' t' \<and>
    shape_of t' = Shape (ascii ''ROOT'') [] (large nr_degrees []) \<and> length (handles t') = 1711"
proof -
  obtain h t where b: "hivex_open bare_fs (ascii ''bare'') HIVEX_OPEN_WRITE = Ok h" "registry h t" "kids t = []" "kname t = ascii ''ROOT''"
    "endpages h \<le> 3 * 2 ^ 30" using bare_registry by blast
  show ?thesis using mklarge_correct[OF b(1-3,5), of "ascii ''large''"] unfolding b(4) .
qed

section \<open>Numbers and writes\<close>

text \<open>Options after an operand, an option with its argument in the next element, and the end of the options.\<close>

theorem getopt_correct_witness:
  "\<exists>argv d. getopt_loop False (ascii ''df:w'') (\<lambda>es c arg. Some (es @ [(c, arg)])) []
      [ascii ''hivexsh'', ascii ''hive'', ascii ''-wf'', ascii ''script'', ascii ''--'', ascii ''-d''] =
    Some (Some [(0x77, None), (0x66, Some (ascii ''script''))], argv, d) \<and> drop (optind d) argv = [ascii ''hive'', ascii ''-d'']"
proof -
  let ?as = "[ascii ''hive'', ascii ''-wf'', ascii ''script'', ascii ''--'', ascii ''-d'']"
  have l: "letters (ascii ''df:w'') = ascii ''df:w''" "order_of False (ascii ''df:w'') = PERMUTE" "plain (ascii ''df:w'')"
    by (simp_all add: letters_def order_of_def plain_def ascii_def of_char_def)
  have "parse PERMUTE (ascii ''df:w'') ?as = ([(0x77, None), (0x66, Some (ascii ''script''))], [ascii ''hive'', ascii ''-d''])"
    by (simp add: dashes_def NONOPTION_P_def ascii_def of_char_def strchr_def code_def)
  then show ?thesis
    using getopt_correct[of "ascii ''hivexsh'' # ?as" "ascii ''df:w''" False _ _ "\<lambda>es c arg. Some (es @ [(c, arg)])" "[]"] l by auto
qed

theorem strtol_correct_witness:
  "strtol ([0x20] @ [0x2d] @ [0x30, 0x78] @ [0x66, 0x46] @ [0x2c]) 0 =
    Ok (max LONG_MIN (min LONG_MAX (- 255)), length ([0x20 :: byte] @ [0x2d] @ [0x30, 0x78] @ [0x66, 0x46]),
      if LONG_MIN \<le> - 255 \<and> - 255 \<le> LONG_MAX then None else Some ERANGE)"
  by (rule strtol_correct[where b = 16 and negative = True])
    (simp_all add: literal_ok_def sign_ok_def is_digit_def digit_val_def isalpha_def c_toupper_def c_isspace_def numeral_val_def)

theorem full_write_prefix_witness:
  "full_write [1, 2, 3] [Accepts 2, Interrupted, Fails] = Some (2, [1, 2]) \<and> [1, 2 :: byte] = take 2 [1, 2, 3]"
proof -
  have w: "full_write [1, 2, 3] [Accepts 2, Interrupted, Fails] = Some (2, [1, 2])"
    by (simp add: full_write_def full_write_loop.simps)
  with full_write_prefix[OF w] show ?thesis by blast
qed

theorem full_write_completes_witness:
  "full_write [1, 2, 3] [Accepts 2, Interrupted, Accepts 7, Accepts 1] = Some (length [1 :: byte, 2, 3], [1, 2, 3])"
  by (rule full_write_completes) (simp_all add: progress_def accepting_def)

section \<open>The shell\<close>

definition sample_shell :: shell where
  "sample_shell = \<lparr>quit = False, is_tty = False, sh_h = Some sample, prompt_string = [], loaded = Some (ascii ''hive''),
     cwd = 0x1020, open_flags = 0, stdin = [], stdout = [], files = Map.empty, garbage = (\<lambda>_ _. 0)\<rparr>"

lemma sample_shell_simps [simp]:
  "sh_h sample_shell = Some sample" "loaded sample_shell = Some (ascii ''hive'')" "cwd sample_shell = 0x1020"
  by (simp_all add: sample_shell_def)

lemma sample_at_alpha: "at_path sample [ascii ''Alpha''] 0x1078"
proof -
  have r: "hivex_root sample = Ok 0x1020" by (simp add: hivex_root_def)
  have a: "ascii ''Alpha'' = cstr (ascii ''Alpha'' @ [0])" by (simp add: ascii_def of_char_def cstr_def)
  have "at_path sample ([] @ [cstr (ascii ''Alpha'' @ [0])]) 0x1078"
  proof (rule at_path.at_child[OF at_path.at_root[OF r] _ sample_node_names(1)])
    show "hivex_node_parent sample 0x1078 = Ok 0x1020"
      by (simp add: hivex_node_parent_def)
    show "hivex_node_get_child sample 0x1020 (cstr (ascii ''Alpha'' @ [0])) = Ok 0x1078"
      by (simp add: hivex_node_get_child_def hivex_node_children_def sample_get_children sample_node_names STRCASEEQ_iff
        ascii_def of_char_def cstr_def lower_def)
  qed (simp_all add: r elem_ok_def ascii_def of_char_def cstr_def)
  then show ?thesis using a by simp
qed

theorem cd_path_returns_witness:
  "print_node_path sample 0x1078 = Ok (path_string [ascii ''Alpha'']) \<and>
   cmd_cd (path_string [ascii ''Alpha'']) sample_shell =
     (Ok 0, if cwd sample_shell = 0x1078 then sample_shell
            else sample_shell\<lparr>cwd := 0x1078, prompt_string := ascii ''hive'' @ path_string [ascii ''Alpha''] @ ascii ''> ''\<rparr>)"
  by (rule cd_path_returns[OF _ _ _ sample_at_alpha]) simp_all

theorem hex_round_trip_witness:
  "\<exists>line. regedit_data sample 0x11c8 = Ok (ascii ''hex('' @ fmt_d (sint (7 :: u32)) @ ascii ''):'' @ line) \<and>
    parse_value (\<lambda>_. 0) (ascii ''hex('' @ fmt_d (sint (7 :: u32)) @ ascii ''):'' @ line) = None \<and>
    parse_value (\<lambda>_. 0) (ascii ''hex:'' @ fmt_d (sint (7 :: u32)) @ ascii '':'' @ line) =
      (if unat (7 :: u32) < 2 ^ 31 then Some (7, [0x61, 0, 0, 0, 0, 0]) else None)"
  by (rule hex_round_trip[OF sample_value_value(4)])
    (simp_all add: hive_t_string_def hive_t_expand_string_def hive_t_link_def hive_t_dword_def hive_t_dword_be_def)

theorem main_loop_ends_witness:
  "fst (Shell.main False False [ascii ''hivexsh'', ascii ''-w'', ascii ''hive''] sample_shell) \<noteq> Fault OutOfFuel \<and>
   fst (main_loop (Suc (length (stdin sample_shell))) sample_shell) \<noteq> Fault OutOfFuel \<and>
   \<not> endless sample 0x1078"
proof -
  have "print_node_path sample 0x1078 \<noteq> Fault StackOverflow" using print_node_path_at[OF _ sample_at_alpha] by simp
  then show ?thesis
    using main_loop_ends[where h = sample and posixly_correct = False and terminal = False and prog = "ascii ''hivexsh''" and
      args = "[ascii ''-w'', ascii ''hive'']" and s = sample_shell and n = "0x1078"]
    by (simp del: main_loop.simps)
qed

theorem ls_sorted_witness:
  "case rbind (hivex_node_children sample (cwd sample_shell)) (child_names sample) of
      Ok names \<Rightarrow> \<exists>sorted. mset sorted = mset names \<and> sorted_wrt (\<lambda>a b. strcasecmp a b \<le> 0) sorted \<and>
        cmd_ls [] sample_shell = (Ok 0, sample_shell\<lparr>stdout := stdout sample_shell @ concat (map (\<lambda>n. n @ [10]) sorted)\<rparr>)
    | Err e \<Rightarrow> cmd_ls [] sample_shell = (Ok (- 1), sample_shell)
    | Fault z \<Rightarrow> cmd_ls [] sample_shell = (Fault z, sample_shell)"
  by (rule ls_sorted) simp

section \<open>The XML tool\<close>

theorem filetime_correct_witness:
  "\<exists>tm. filetime_to_8601 116444736000000000 = Ok (Some (strftime_8601 tm)) \<and> tm_valid tm \<and>
    seconds_of tm = 116444736000000000 div 10000000 - 11644473600"
  by (rule filetime_correct) simp_all

text \<open>The same hive with a child as its root: a tree of one node.\<close>

definition leaf_sample :: hive where
  "leaf_sample = sample\<lparr>addr := put32 sample_mem 0x24 0x78, rootoffs := 0x1078\<rparr>"

lemma leaf_sample_simps [simp]:
  "filename leaf_sample = ascii ''hive''" "hsize leaf_sample = 0x2000" "writable leaf_sample"
  "addr leaf_sample = put32 sample_mem 0x24 0x78" "rootoffs leaf_sample = 0x1078" "endpages leaf_sample = 0x2000"
  "last_modified leaf_sample = 0" "IS_VALID_BLOCK leaf_sample b \<longleftrightarrow> b \<in> set sample_used"
  using sample_valid[of b] by (simp_all add: leaf_sample_def IS_VALID_BLOCK_def)

lemma leaf_sample_ok [simp]: "hive_ok leaf_sample" "header_of leaf_sample" "id_of leaf_sample 0x1078 = id_nk"
proof -
  have "tile_pages (put32 sample_mem 0x24 0x78) 0x1000 [sample_page] 0x2000"
    by (simp add: sample_page_def page_hdr_def blk_hdr_def id_hbin_def mem_frame)
  then have "hive_wf leaf_sample [sample_page]"
    using sample_wf by (simp add: hive_wf_def endblocks_ok_def bitmap_ok_def leaf_sample_def)
  then show "hive_ok leaf_sample" by (auto simp: hive_ok_def)
  show "header_of leaf_sample" using sample_header by (simp add: header_of_def mem_frame)
  show "id_of leaf_sample 0x1078 = id_nk" by (simp add: id_of_def id_nk_def mem_frame)
qed

lemma leaf_sample_nk: "is_nk leaf_sample 0x1078" "nr_subkeys leaf_sample 0x1078 = 0" "nr_values leaf_sample 0x1078 = 0"
  by (simp_all add: is_nk_def blen_def nr_subkeys_def nr_values_def mem_frame)

lemma leaf_sample_index: "index_ok leaf_sample 0x1078" "vallist_ok leaf_sample 0x1078"
  using leaf_sample_nk by (simp_all add: index_ok_def vallist_ok_def child_offsets_def leaf_blocks_def child_blocks_def value_offsets_def)

lemma leaf_sample_reads [simp]:
  "hivex_root leaf_sample = Ok 0x1078" "hivex_node_name leaf_sample 0x1078 = Ok (ascii ''Alpha'' @ [0])"
  "hivex_last_modified leaf_sample = Ok 0" "hivex_node_timestamp leaf_sample 0x1078 = Ok 0"
  "get_values leaf_sample 0x1078 = Ok ([0], [0])" "get_children leaf_sample 0x1078 0 = Ok ([0], [0])"
proof -
  show "hivex_root leaf_sample = Ok 0x1078" "hivex_last_modified leaf_sample = Ok 0"
    by (simp_all add: hivex_root_def hivex_last_modified_def timestamp_check_def)
  show "hivex_node_name leaf_sample 0x1078 = Ok (ascii ''Alpha'' @ [0])"
    using hivex_node_name_eq[of leaf_sample "0x1078"] leaf_sample_nk(1) by (simp add: ascii_def of_char_def mem_frame)
  have "get64 (put32 sample_mem 0x24 0x78) 0x1080 = 0" by (simp add: sample_mem_def mem_frame zero_reads)
  then show "hivex_node_timestamp leaf_sample 0x1078 = Ok 0"
    using leaf_sample_nk(1) by (simp add: hivex_node_timestamp_def timestamp_check_def)
  show "get_values leaf_sample 0x1078 = Ok ([0], [0])"
    using get_values_eq[OF _ leaf_sample_index(2)] leaf_sample_nk by (simp add: value_offsets_def value_blocks_def)
  show "get_children leaf_sample 0x1078 0 = Ok ([0], [0])"
    using get_children_eq[OF _ leaf_sample_index(1), of 0] leaf_sample_nk by (simp add: child_offsets_def child_blocks_def leaf_blocks_def)
qed

theorem hivexml_well_formed_witness:
  "\<exists>fs calls. hivexml_main True (\<lambda>_ _. True) fs [ascii ''hivexml'', ascii ''hive''] = (Ok (), calls) \<and>
    write_all (0, Content) calls = Some (0, Content)"
proof -
  obtain h' fs' h where h: "hivex_open fs' (ascii ''hive'') 0 = Ok h" "hive_ok h" "same_view leaf_sample h"
    by (rule commit_open[of leaf_sample "ascii ''hive''" None Map.empty 0]) simp_all
  note rd = view_nodes[OF h(3)]
  have v: "IS_VALID_BLOCK h 0x1078" and s: "hsize h = 0x2000" using h(3) by (simp_all add: same_view_def)
  let ?w = "\<lambda>_ _. True"
  have t: "take (Suc (hsize h div 32)) (bitmap h) = bitmap h" "length (bitmap h) = 257"
    using hive_ok_bitmap[OF h(2)] s by simp_all
  have "BITMAP_TST (bitmap h) 0x1078" using v by (simp add: IS_VALID_BLOCK_def)
  then have "\<exists>calls. hivexml ?w fs' (ascii ''hive'') 0 0 = (Ok (), calls)"
    using t by (simp add: hivexml_def h(1) rd xml_calls_def XML_CHECK_def sbind_def write_mtime_def filetime_to_8601_def
      hivex_visit_def hivex_visit_node_def HIVEX_VISIT_SKIP_BAD_def visit_body_def with_hive_def visit_start_def
      visit_children_of_def hivex_node_children_def hivex_node_values_def call_def or_bad_def xml_visitor_def
      xml_node_start_def xml_node_end_def)
  then obtain calls where "hivexml ?w fs' (ascii ''hive'') 0 0 = (Ok (), calls)" by blast
  moreover have p: "parse REQUIRE_ORDER (ascii ''dk'') [ascii ''hive''] = ([], [ascii ''hive''])"
    by (simp add: dashes_def NONOPTION_P_def ascii_def of_char_def)
  then obtain argv d where "getopt_loop True (ascii ''dk'') xml_option (0, 0) [ascii ''hivexml'', ascii ''hive''] = Some (Some (0, 0), argv, d)"
    "drop (optind d) argv = [ascii ''hive'']"
    using getopt_parses[of "[ascii ''hivexml'', ascii ''hive'']" "ascii ''dk''" True "[]" "[ascii ''hive'']" xml_option "(0, 0)"] dk_plain by auto
  ultimately have c: "hivexml_main True ?w fs' [ascii ''hivexml'', ascii ''hive''] = (Ok (), calls)"
    using operand_at[of "optind d" argv] by (simp add: hivexml_main_def)
  have "0x6b \<notin> fst ` set (fst (parse (if True then REQUIRE_ORDER else PERMUTE) (ascii ''dk'') [ascii ''hive'']))" using p by simp
  from hivexml_well_formed[OF c this] c show ?thesis by blast
qed

end
