(* ===== verification/Spec2Isabelle.thy ===== *)
theory Spec2Isabelle
  imports Witnesses
begin

text \<open>
  \<^bold>\<open>hivex: a library that reads and writes Windows registry hives.\<close>

  \<^bold>\<open>The program.\<close> A hive is a file: a header of 4096 bytes, then pages (\<^verbatim>\<open>hbin\<close>), each of them tiled by
  blocks whose signed length says whether they are in use. The records live in used blocks and refer to each
  other by offset: nodes (\<^verbatim>\<open>nk\<close>) with a name, a parent, an index of children (\<^verbatim>\<open>lf\<close>, \<^verbatim>\<open>lh\<close>, or \<^verbatim>\<open>ri\<close> over
  those) and a list of values (\<^verbatim>\<open>vk\<close>), and security records (\<^verbatim>\<open>sk\<close>) that nodes share by reference count.
  \<^verbatim>\<open>lib/hivex.c\<close> opens such a file, keeps a bitmap of the offsets at which used blocks start, reads the tree,
  visits it with callbacks, changes it in memory (blocks are only allocated at the end) and commits it to a
  file. Three programs use the library: the shell \<^verbatim>\<open>sh/hivexsh.c\<close>, the converter \<^verbatim>\<open>xml/hivexml.c\<close> and
  \<^verbatim>\<open>images/mklarge.c\<close>, which makes a large hive for the tests. They use the gnulib functions \<^verbatim>\<open>getopt\<close>,
  \<^verbatim>\<open>xstrtol\<close>, \<^verbatim>\<open>strtol\<close> and \<^verbatim>\<open>full_write\<close> of \<^verbatim>\<open>gnulib/lib\<close>.

  \<^bold>\<open>How it is modelled.\<close> A C function is an Isabelle function of the same name. A reader takes the handle and
  returns a \<open>result\<close>: \<open>Ok x\<close>, \<open>Err e\<close> (a failing return with \<^verbatim>\<open>errno\<close>), or \<open>Fault f\<close> (an access outside
  the image, a signed overflow, a failed \<^verbatim>\<open>assert\<close>, a stack overflow, fuel used up, a call of \<^verbatim>\<open>exit\<close>). A writer is an \<open>op\<close>, a
  function from the state to a result and a new state, composed with \<open>sbind\<close>; early returns and \<^verbatim>\<open>goto error\<close>
  are \<open>Err\<close>, and what was written before them stays written. The handle \<^verbatim>\<open>hive_h\<close> is the record \<open>hive\<close>, its
  memory a function from offsets to bytes with a size; every load and store is checked against the size.
  Loops are recursive functions over the indices they run through. Fields keep their width (\<open>u16\<close>, \<open>u32\<close>,
  \<open>u64\<close>), \<^verbatim>\<open>size_t\<close> is \<open>nat\<close>, and arithmetic that the source does in \<^verbatim>\<open>uint32_t\<close> wraps.

  \<^bold>\<open>The theories.\<close>

  \<^item> \<open>Prelude\<close>: results, operations, C strings, collections of rewrite rules.
  \<^item> \<open>Bytes\<close>: little-endian loads and stores (\<^verbatim>\<open>lib/byte_conversions.h\<close>); the interface \<open>byte_store\<close>,
    interpreted for 2, 4 and 8 bytes, says what a load sees after a store.
  \<^item> \<open>Bitmap\<close>: the macros of \<^verbatim>\<open>lib/hivex-internal.h\<close>; the interface \<open>offset_set\<close> makes them a finite set.
  \<^item> \<open>Offset_List\<close>: the growing array \<^verbatim>\<open>struct offset_list\<close>; the interface \<open>appender\<close>.
  \<^item> \<open>Hive\<close>: the packed structs, the handle, \<^verbatim>\<open>block_len\<close>, \<^verbatim>\<open>header_checksum\<close>.
  \<^item> \<open>Tiling\<close>: the invariant \<open>hive_ok\<close> of a handle: pages and blocks tile the image up to \<^verbatim>\<open>endpages\<close>, and the
    bitmap marks exactly the used blocks.
  \<^item> \<open>Open\<close>: \<^verbatim>\<open>hivex_open\<close>. Every hive that opens has a node as its root and marks only headers of used blocks; a
    well-formed file opens with a handle that satisfies the invariant.
  \<^item> \<open>Alloc\<close>: \<^verbatim>\<open>allocate_page\<close>, \<^verbatim>\<open>allocate_block\<close>, \<^verbatim>\<open>mark_block_unused\<close>. They keep the invariant, a new block is
    fresh and zeroed, and no other block changes. The interface \<open>block_heap\<close> is the contract of a heap, from
    which sequences of allocations and of releases are derived once; the theories below use it.
  \<^item> \<open>Reading\<close>: all readers of nodes and values. Soundness and completeness of \<^verbatim>\<open>get_children\<close> and
    \<^verbatim>\<open>get_values\<close> against the declarative lists \<open>child_offsets\<close> and \<open>value_offsets\<close>, memory safety of all
    readers on handles with \<open>records_ok\<close>, and the lookups by name through the interface \<open>named_entries\<close>,
    interpreted for children and for values.
  \<^item> \<open>Commit\<close>: \<^verbatim>\<open>hivex_commit\<close>, the round trip through the file and through \<^verbatim>\<open>hivex_open\<close>.
  \<^item> \<open>Strings\<close>: \<^verbatim>\<open>windows_utf16_to_utf8\<close> and the typed readers of values, against reference encoders of UTF-8
    and UTF-16.
  \<^item> \<open>Visit\<close>: the traversal \<^verbatim>\<open>hivex_visit\<close> with its callbacks; it ends on every image and starts no node twice.
  \<^item> \<open>Frames\<close>: the relations \<open>wrote\<close> and \<open>upd\<close> that describe what a write changes.
  \<^item> \<open>Write_Values\<close>: \<^verbatim>\<open>delete_values\<close>, \<^verbatim>\<open>hivex_node_set_values\<close>, \<^verbatim>\<open>hivex_node_set_value\<close>; what was set reads back.
  \<^item> \<open>Write_Nodes\<close>: \<^verbatim>\<open>hivex_node_add_child\<close>, \<^verbatim>\<open>insert_lf_record\<close>, \<^verbatim>\<open>calc_hash\<close>; the new node is inserted at its
    place in the order of names.
  \<^item> \<open>Delete_Nodes\<close>: \<^verbatim>\<open>hivex_node_delete_child\<close>, \<^verbatim>\<open>delete_node\<close>, \<^verbatim>\<open>delete_sk\<close>. \<open>Security\<close>: the rings of security records;
    giving back the last reference to a record takes it out of its ring and frees it. \<open>Delete_Tree\<close>: what
    deleting one node frees and keeps. \<open>Unlink\<close>: the removal of the link from the parent's index.
    \<open>Delete_Child\<close>: the deletion of a subtree from these, by induction on the traversal.
  \<^item> \<open>Growth\<close>: how far each writing operation can move \<^verbatim>\<open>endpages\<close>, by one rule per construct of the programs
    (\<open>grows\<close>); from it come the room conditions of the theorems about the registry (\<open>needs\<close>, \<open>cost\<close>).
  \<^item> \<open>Fuel\<close>: no operation of the library runs out of fuel, by one rule per construct.
  \<^item> \<open>Registry_Spec\<close>: the abstract specification, a tree of keys (\<open>key\<close>) with a name, values, a security record
    and subkeys, the requests that change it, when they are allowed, what they answer, and runs of them.
  \<^item> \<open>Registry\<close>: the library implements that specification. \<open>registry h t\<close> relates a handle to the tree it stores;
    every allowed request is served and keeps the relation (\<open>registry_step\<close>), so does every sequence of calls
    (\<open>registry_session\<close>), committing and opening again gives the same tree (\<open>registry_saved\<close>), and the readers show it
    (\<open>registry_reads\<close>). Here the theorems about values, adding, deleting, allocating and committing meet: the
    keys share no blocks, and the count of a security record is the number of keys that refer to it.
  \<^item> \<open>Numbers\<close>: \<^verbatim>\<open>strtol\<close>, \<^verbatim>\<open>xstrtol\<close> and the printing of numbers.
  \<^item> \<open>Getopt\<close>: \<^verbatim>\<open>getopt\<close> of gnulib for short options, with the exchange of arguments in place; it agrees with a
    one-pass reference parser. Both programs read their options through the interface \<open>option_scanner\<close>.
  \<^item> \<open>Full_Write\<close>: \<^verbatim>\<open>full_write\<close> against a kernel that writes in parts.
  \<^item> \<open>Shell\<close>: the interpreter \<^verbatim>\<open>hivexsh\<close> with its options and all its commands.
  \<^item> \<open>Xml\<close>: the converter \<^verbatim>\<open>hivexml\<close>, as the sequence of its calls to the writer of libxml2.
  \<^item> \<open>Mklarge\<close>: the program \<^verbatim>\<open>mklarge\<close>, from opening to committing. It is proved over \<open>Registry_Spec\<close> alone: the file
    it writes opens as the registry its tables describe, and the 4096 bytes for the name are enough.
  \<^item> \<open>Sample\<close>, \<open>Witnesses\<close>: a small hive, and the properties with hypotheses applied to it.

  \<^bold>\<open>Fuel.\<close> The visitor takes one more than the number of slots of the bitmap, of which every visit clears one;
  the conversion loop 65 rounds, of which at most two are used; the main loop of the shell one more than the
  length of its input; the loops over options one more than there are characters and arguments. That these are
  enough is proved (\<open>visit_terminates\<close>, \<open>utf16_to_utf8_two_rounds\<close>, \<open>main_loop_ends\<close>, \<open>getopt_correct\<close>). The recursion of
  \<^verbatim>\<open>print_node_path\<close> has no bound in the program. The model follows it to a depth of one more than the number
  of slots and then overflows the stack, which happens exactly when it would not end (\<open>overflow_iff\<close>).

  \<^bold>\<open>Bounds and assumptions.\<close> The host is little-endian with 64-bit \<^verbatim>\<open>long\<close>; memory is available; system calls
  other than those named in \<open>Open\<close> and \<open>Full_Write\<close> succeed; the locale is C. Where the library stores offsets
  in 32 bits, theorems about growing images ask that \<^verbatim>\<open>endpages\<close> stay below \<open>2\<^sup>3\<^sup>2\<close>.

  \<^bold>\<open>Not modelled.\<close> \<^verbatim>\<open>hivex_close\<close> and every release of memory; messages and debug output; readline;
  long options; a visitor struct of another size; the rest of gnulib, which replaces functions of the
  C library; the bindings for other languages, which are generated, and the programs written in them.
\<close>

end
